(* ===== verification/Chu_Prelude.thy ===== *)
theory Chu_Prelude
  imports Main "HOL-Library.Word"
begin

text \<open>
  Shared vocabulary of the development: Python exceptions as values, results as a
  sum, bytes as 8-bit words, the parts of Python's \<^verbatim>\<open>struct\<close> module and of its
  UTF-8 codec that the ChuMicro libraries use, and the generic lemmas on them.
  Nothing here models code of the repository; the component theories do.
\<close>

unbundle bit_operations_syntax

named_theorems bytes_simps \<open>length and value of fixed-width byte codecs\<close>
named_theorems result_simps \<open>case analysis of results\<close>

section \<open>Exceptions and results\<close>

text \<open>
  One constructor per exception class the modelled code raises. A message is kept
  where it is a fixed text; the values interpolated by f-strings are left out.
\<close>

datatype exn =
    ValueError string
  | TypeError string
  | OverflowError string
  | IndexError
  | ZeroDivisionError
  | KeyError
  | StructError
  | UnicodeEncodeError
  | UnicodeDecodeError
  | OSError int
  | RuntimeError string
  | ReentrantTickError
  | MQTTError string
  | MQTTProtocolError string
  | MQTTConnectError int
  | MQTTBackpressureError string
  | UnsupportedQoSError string
  | WebSocketError string
  | WebSocketProtocolError string
  | WebSocketHandshakeError string
  | WebSocketURLError string
  | WebSocketTimeoutError string
  | WebSocketBackpressureError string
  | WebSocketStateError string
  | KVStoreFull string
  | KVStoreCorrupt string
  | AttributeError
  | OtherException string
  | KeyboardInterrupt
  | SystemExit
  | GeneratorExit

text \<open>\<^verbatim>\<open>except ValueError\<close>: Unicode errors are subclasses of \<^verbatim>\<open>ValueError\<close>.\<close>

definition is_ValueError :: "exn \<Rightarrow> bool" where
  "is_ValueError e = (case e of ValueError _ \<Rightarrow> True | UnicodeEncodeError \<Rightarrow> True
     | UnicodeDecodeError \<Rightarrow> True | _ \<Rightarrow> False)"

text \<open>\<^verbatim>\<open>except MQTTError\<close>: the base class of every failure of the MQTT library.\<close>

definition is_MQTTError :: "exn \<Rightarrow> bool" where
  "is_MQTTError e = (case e of MQTTError _ \<Rightarrow> True | MQTTProtocolError _ \<Rightarrow> True
     | MQTTConnectError _ \<Rightarrow> True | MQTTBackpressureError _ \<Rightarrow> True
     | UnsupportedQoSError _ \<Rightarrow> True | _ \<Rightarrow> False)"

definition is_OSError :: "exn \<Rightarrow> bool" where
  "is_OSError e = (case e of OSError _ \<Rightarrow> True | _ \<Rightarrow> False)"

text \<open>\<^verbatim>\<open>except Exception\<close>: everything but the three that derive from \<^verbatim>\<open>BaseException\<close> alone.\<close>

definition is_Exception :: "exn \<Rightarrow> bool" where
  "is_Exception e = (case e of KeyboardInterrupt \<Rightarrow> False | SystemExit \<Rightarrow> False | GeneratorExit \<Rightarrow> False | _ \<Rightarrow> True)"

type_synonym 'a result = "exn + 'a"

definition rbind :: "'a result \<Rightarrow> ('a \<Rightarrow> 'b result) \<Rightarrow> 'b result" where
  "rbind m f = (case m of Inl e \<Rightarrow> Inl e | Inr x \<Rightarrow> f x)"

lemma rbind_simps [simp]:
  "rbind (Inl e) f = Inl e"
  "rbind (Inr x) f = f x"
  by (simp_all add: rbind_def)

lemma rbind_cong [fundef_cong]:
  "m = m' \<Longrightarrow> (\<And>x. m' = Inr x \<Longrightarrow> f x = g x) \<Longrightarrow> rbind m f = rbind m' g"
  by (cases m') (auto simp: rbind_def)

lemma rbind_eq_Inr [result_simps]:
  "rbind m f = Inr y \<longleftrightarrow> (\<exists>x. m = Inr x \<and> f x = Inr y)"
  by (cases m) auto

lemma rbind_eq_Inl [result_simps]:
  "rbind m f = Inl e \<longleftrightarrow> m = Inl e \<or> (\<exists>x. m = Inr x \<and> f x = Inl e)"
  by (cases m) auto

lemma rbind_Inr_elim:
  assumes "rbind m f = Inr y"
  obtains x where "m = Inr x" and "f x = Inr y"
  using assms by (cases m) auto

lemma rbind_assoc: "rbind (rbind m f) g = rbind m (\<lambda>x. rbind (f x) g)"
  by (cases m) auto

text \<open>
  A postcondition for both outcomes of a fallible computation: \<open>P\<close> of the exception or
  \<open>Q\<close> of the value. It distributes over \<open>rbind\<close>, which is how the proofs about the
  parsers go through their code.
\<close>

definition res_ok :: "(exn \<Rightarrow> bool) \<Rightarrow> ('a \<Rightarrow> bool) \<Rightarrow> 'a result \<Rightarrow> bool" where
  "res_ok P Q m = (case m of Inl e \<Rightarrow> P e | Inr x \<Rightarrow> Q x)"

lemma res_ok_simps [simp]:
  "res_ok P Q (Inl e) = P e"
  "res_ok P Q (Inr x) = Q x"
  "res_ok P Q (rbind m f) = res_ok P (\<lambda>x. res_ok P Q (f x)) m"
  by (cases m; simp add: res_ok_def)+

lemma res_ok_if [simp]:
  "res_ok P Q (if b then m else n) = (if b then res_ok P Q m else res_ok P Q n)"
  by simp

lemma res_ok_mono: "res_ok P Q m \<Longrightarrow> (\<And>x. m = Inr x \<Longrightarrow> Q x \<Longrightarrow> R x) \<Longrightarrow> res_ok P R m"
  by (cases m) auto

lemma res_ok_InrD: "res_ok P Q m \<Longrightarrow> m = Inr x \<Longrightarrow> Q x"
  by auto

lemma res_ok_InlD: "res_ok P Q m \<Longrightarrow> m = Inl e \<Longrightarrow> P e"
  by auto

section \<open>Bytes and big-endian integers\<close>

type_synonym byte = "8 word"

text \<open>The byte with a given value, kept opaque so that no simp rule pulls it apart.\<close>

definition B :: "nat \<Rightarrow> byte" where
  "B n = word_of_nat n"

lemma unat_B [simp]: "unat (B n) = n mod 256"
  by (simp add: B_def unat_of_nat)

lemma uint_B [simp]: "uint (B n) = int (n mod 256)"
  by (metis of_nat_unat unat_B)

lemma B_unat [simp]: "B (unat b) = b"
  by (simp add: B_def)

lemma unat_byte_less [simp]: "unat (b :: byte) < 256"
  using unsigned_less [where ?'a = nat, of b] by simp

lemma unat_byte_le [simp]: "unat (b :: byte) \<le> 255"
  using unat_byte_less [of b] by linarith

lemma B_eq_iff: "m < 256 \<Longrightarrow> n < 256 \<Longrightarrow> B m = B n \<longleftrightarrow> m = n"
  by (metis mod_less unat_B)

lemma B_of_unat_eq: "unat b = n \<Longrightarrow> B n = b"
  by auto

text \<open>\<open>be_bytes k v\<close>: the \<open>k\<close> low-order bytes of \<open>v\<close>, most significant first.\<close>

fun be_bytes :: "nat \<Rightarrow> nat \<Rightarrow> byte list" where
  "be_bytes 0 v = []"
| "be_bytes (Suc k) v = be_bytes k (v div 256) @ [B (v mod 256)]"

definition be_nat :: "byte list \<Rightarrow> nat" where
  "be_nat bs = foldl (\<lambda>a b. a * 256 + unat b) 0 bs"

lemma be_nat_Nil [simp]: "be_nat [] = 0"
  by (simp add: be_nat_def)

lemma be_nat_snoc [simp]: "be_nat (bs @ [b]) = be_nat bs * 256 + unat b"
  by (simp add: be_nat_def)

lemma be_nat_single [simp]: "be_nat [b] = unat b"
  by (simp add: be_nat_def)

lemma length_be_bytes [simp, bytes_simps]: "length (be_bytes k v) = k"
  by (induction k arbitrary: v) auto

lemma be_bytes_2: "be_bytes 2 v = [B (v div 256 mod 256), B (v mod 256)]"
  by (simp add: numeral_2_eq_2)

lemma be_nat_be_bytes [bytes_simps]: "be_nat (be_bytes k v) = v mod 256 ^ k"
proof (induction k arbitrary: v)
  case (Suc k)
  have "v mod (256 * 256 ^ k) = 256 * (v div 256 mod 256 ^ k) + v mod 256"
    by (rule mod_mult2_eq)
  with Suc show ?case by simp
qed simp

lemma be_nat_less: "be_nat bs < 256 ^ length bs"
proof (induction bs rule: rev_induct)
  case (snoc b bs)
  have "be_nat bs * 256 + unat b < (be_nat bs + 1) * 256"
    using unat_byte_less [of b] by simp
  also have "\<dots> \<le> 256 ^ length bs * 256"
    using snoc by (intro mult_le_mono1) simp
  finally show ?case by (simp add: mult.commute)
qed simp

lemma be_bytes_be_nat: "be_bytes (length bs) (be_nat bs) = bs"
  by (induction bs rule: rev_induct) auto

lemma be_bytes_be_nat': "length bs = k \<Longrightarrow> be_bytes k (be_nat bs) = bs"
  using be_bytes_be_nat by auto

section \<open>Bit masks\<close>

text \<open>A conjunction with a run of low ones is a remainder; a disjunction with a number
  that fits below the set bit is a sum.\<close>

named_theorems mask_simps \<open>bit masks as arithmetic\<close>

lemma nat_and_masks [mask_simps]:
  fixes n :: nat
  shows "n AND 1 = n mod 2" "n AND 3 = n mod 4" "n AND 7 = n mod 8" "n AND 15 = n mod 16"
    "n AND 31 = n mod 32" "n AND 127 = n mod 128" "n AND 255 = n mod 256"
proof -
  have m: "n AND mask k = n mod 2 ^ k" for k
    by (metis take_bit_eq_mask take_bit_eq_mod)
  show "n AND 1 = n mod 2" using m [of 1] by (simp add: mask_eq_exp_minus_1)
  show "n AND 3 = n mod 4" using m [of 2] by (simp add: mask_eq_exp_minus_1)
  show "n AND 7 = n mod 8" using m [of 3] by (simp add: mask_eq_exp_minus_1)
  show "n AND 15 = n mod 16" using m [of 4] by (simp add: mask_eq_exp_minus_1)
  show "n AND 31 = n mod 32" using m [of 5] by (simp add: mask_eq_exp_minus_1)
  show "n AND 127 = n mod 128" using m [of 7] by (simp add: mask_eq_exp_minus_1)
  show "n AND 255 = n mod 256" using m [of 8] by (simp add: mask_eq_exp_minus_1)
qed

lemma int_and_masks [mask_simps]:
  fixes n :: int
  shows "n AND 127 = n mod 128" "n AND 255 = n mod 256"
proof -
  have m: "n AND mask k = n mod 2 ^ k" for k
    by (metis take_bit_eq_mask take_bit_eq_mod)
  show "n AND 127 = n mod 128" using m [of 7] by (simp add: mask_eq_exp_minus_1)
  show "n AND 255 = n mod 256" using m [of 8] by (simp add: mask_eq_exp_minus_1)
qed

lemma or_disjoint:
  fixes m n :: nat
  assumes "n < 2 ^ k"
  shows "push_bit k m OR n = m * 2 ^ k + n"
proof -
  have "take_bit k n = n" using assms by (simp add: take_bit_nat_eq_self_iff)
  moreover have "push_bit k m AND take_bit k n = 0"
    by (auto simp: bit_eq_iff bit_simps)
  ultimately have "push_bit k m AND n = 0" by simp
  then show ?thesis
    by (simp add: disjunctive_add_eq_or [symmetric] push_bit_eq_mult)
qed

lemma or_tags [mask_simps]:
  fixes n :: nat
  shows "n < 16 \<Longrightarrow> 128 OR n = 128 + n" "n < 16 \<Longrightarrow> 144 OR n = 144 + n"
    "n < 32 \<Longrightarrow> 160 OR n = 160 + n" "n < 128 \<Longrightarrow> 128 OR n = 128 + n"
  using or_disjoint [of n 4 8] or_disjoint [of n 4 9] or_disjoint [of n 5 5] or_disjoint [of n 7 1]
  by simp_all

lemma tag_mods [mask_simps]:
  fixes n :: nat
  shows "n < 16 \<Longrightarrow> (128 + n) mod 16 = n" "n < 16 \<Longrightarrow> (144 + n) mod 16 = n"
    "n < 32 \<Longrightarrow> (160 + n) mod 32 = n" "n < 128 \<Longrightarrow> (128 + n) mod 128 = n"
  using mod_mult_self3 [of 8 16 n] mod_mult_self3 [of 9 16 n] mod_mult_self3 [of 5 32 n]
    mod_mult_self3 [of 1 128 n]
  by simp_all

text \<open>Testing the top bit of a byte.\<close>

lemma and_128_eq_0:
  fixes n :: nat
  assumes "n < 256"
  shows "n AND 128 = 0 \<longleftrightarrow> n < 128"
proof -
  have "n AND 128 = 0 \<longleftrightarrow> \<not> bit n 7"
    using and_exp_eq_0_iff_not_bit [of n 7] by simp
  also have "\<dots> \<longleftrightarrow> n < 128"
  proof (cases "n < 128")
    case False
    with assms have "n div 128 = 1" using div_nat_eqI [of 128 1 n] by simp
    with False show ?thesis by (simp add: bit_iff_odd)
  qed (simp add: bit_iff_odd)
  finally show ?thesis .
qed

lemma byte_and_128 [simp]: "(unat (b :: byte) AND 128 = 0) = (unat b < 128)"
  by (simp add: and_128_eq_0)

section \<open>Python slices and struct packing\<close>

text \<open>\<open>xs[a:b]\<close> for \<open>0 \<le> a\<close>: silently truncated at the end of the sequence.\<close>

definition pslice :: "'a list \<Rightarrow> nat \<Rightarrow> nat \<Rightarrow> 'a list" where
  "pslice xs a b = take (b - a) (drop a xs)"

lemma length_pslice [simp]: "length (pslice xs a b) = min (b - a) (length xs - a)"
  by (simp add: pslice_def min.commute)

lemma pslice_append [simp]: "length pre = a \<Longrightarrow> pslice (pre @ xs) a (a + n) = take n xs"
  by (simp add: pslice_def)

lemma nth_pslice: "a + i < b \<Longrightarrow> b \<le> length xs \<Longrightarrow> pslice xs a b ! i = xs ! (a + i)"
  by (simp add: pslice_def)

lemma pslice_full [simp]: "pslice xs 0 (length xs) = xs"
  by (simp add: pslice_def)

lemma pslice_empty [simp]: "b \<le> a \<Longrightarrow> pslice xs a b = []"
  by (simp add: pslice_def)

lemma pslice_pslice: "a + d \<le> b \<Longrightarrow> pslice (pslice xs a b) c d = pslice xs (a + c) (a + d)"
  by (simp add: pslice_def drop_take min_absorb1 add.commute)

lemma pslice_concat: "a \<le> b \<Longrightarrow> b \<le> c \<Longrightarrow> pslice xs a b @ pslice xs b c = pslice xs a c"
proof -
  assume le: "a \<le> b" "b \<le> c"
  then have "drop b xs = drop (b - a) (drop a xs)" and "c - a = (b - a) + (c - b)"
    by auto
  then show ?thesis
    by (metis pslice_def take_add)
qed

text \<open>\<open>xs[i]\<close> for \<open>0 \<le> i\<close>.\<close>

definition index_at :: "'a list \<Rightarrow> nat \<Rightarrow> 'a result" where
  "index_at xs i = (if i < length xs then Inr (xs ! i) else Inl IndexError)"

text \<open>
  \<^verbatim>\<open>struct.pack\<close> with \<^verbatim>\<open>B\<close>, \<^verbatim>\<open>H\<close>, \<^verbatim>\<open>I\<close>, \<^verbatim>\<open>Q\<close> (unsigned) and \<^verbatim>\<open>b\<close>, \<^verbatim>\<open>h\<close>, \<^verbatim>\<open>i\<close>
  (signed) in network order: \<open>k\<close> is the field's width in bytes.
\<close>

definition pack_uint :: "nat \<Rightarrow> int \<Rightarrow> byte list result" where
  "pack_uint k v = (if 0 \<le> v \<and> v < 256 ^ k then Inr (be_bytes k (nat v)) else Inl StructError)"

definition pack_sint :: "nat \<Rightarrow> int \<Rightarrow> byte list result" where
  "pack_sint k v = (if - (256 ^ k div 2) \<le> v \<and> v < 256 ^ k div 2
     then Inr (be_bytes k (nat (v mod 256 ^ k))) else Inl StructError)"

definition signed_value :: "nat \<Rightarrow> nat \<Rightarrow> int" where
  "signed_value k n = (if 2 * n < 256 ^ k then int n else int n - 256 ^ k)"

definition unpack_uint_from :: "nat \<Rightarrow> byte list \<Rightarrow> nat \<Rightarrow> nat result" where
  "unpack_uint_from k data off = (if off + k \<le> length data
     then Inr (be_nat (pslice data off (off + k))) else Inl StructError)"

definition unpack_sint_from :: "nat \<Rightarrow> byte list \<Rightarrow> nat \<Rightarrow> int result" where
  "unpack_sint_from k data off = rbind (unpack_uint_from k data off) (\<lambda>n. Inr (signed_value k n))"

lemma unpack_uint_from_append:
  "length pre = off \<Longrightarrow> length bs = k \<Longrightarrow> unpack_uint_from k (pre @ bs @ post) off = Inr (be_nat bs)"
  by (simp add: unpack_uint_from_def)

lemma signed_value_mod:
  assumes "- (256 ^ k div 2) \<le> v" and "v < 256 ^ k div 2"
  shows "signed_value k (nat (v mod 256 ^ k)) = v"
proof -
  define M :: int where "M = 256 ^ k"
  have pos: "0 < M" by (simp add: M_def)
  have M: "int (256 ^ k) = M" by (simp add: M_def)
  have lo: "- (M div 2) \<le> v" and hi: "v < M div 2" using assms by (simp_all add: M_def)
  show ?thesis
  proof (cases "0 \<le> v")
    case True
    with hi pos have "v mod M = v" by (intro mod_pos_pos_trivial) auto
    with True hi show ?thesis
      by (simp add: signed_value_def flip: M_def) (use M hi in linarith)
  next
    case False
    have "v mod M = (v + M) mod M" by simp
    also have "\<dots> = v + M" using False lo pos by (intro mod_pos_pos_trivial) auto
    finally have eq: "v mod M = v + M" .
    moreover have "\<not> 2 * nat (v + M) < 256 ^ k"
    proof
      assume "2 * nat (v + M) < 256 ^ k"
      then have "int (2 * nat (v + M)) < int (256 ^ k)" by (simp only: of_nat_less_iff)
      moreover have "0 \<le> v + M" using lo pos by linarith
      ultimately have "2 * (v + M) < M" using M by simp
      with lo show False by presburger
    qed
    ultimately show ?thesis using False lo pos
      by (simp add: signed_value_def flip: M_def)
  qed
qed

section \<open>Python strings and the UTF-8 codec\<close>

text \<open>
  A Python \<^verbatim>\<open>str\<close> is a list of code points. \<open>utf8_encode\<close> is
  \<^verbatim>\<open>s.encode("utf-8")\<close>: a lone surrogate raises. \<open>utf8_decode\<close> is
  \<^verbatim>\<open>str(b, "utf-8")\<close>: strict, so overlong forms, surrogates, values over
  \<open>0x10FFFF\<close> and truncated sequences raise.
\<close>

type_synonym pystr = "nat list"

abbreviation ustr :: "string \<Rightarrow> pystr" where
  "ustr \<equiv> map of_char"

definition scalar_value :: "nat \<Rightarrow> bool" where
  "scalar_value c \<longleftrightarrow> c < 0xD800 \<or> (0xE000 \<le> c \<and> c < 0x110000)"

definition utf8_char :: "nat \<Rightarrow> byte list" where
  "utf8_char c =
     (if c < 0x80 then [B c]
      else if c < 0x800 then [B (0xC0 + c div 64), B (0x80 + c mod 64)]
      else if c < 0x10000 then
        [B (0xE0 + c div 4096), B (0x80 + c div 64 mod 64), B (0x80 + c mod 64)]
      else [B (0xF0 + c div 262144), B (0x80 + c div 4096 mod 64),
            B (0x80 + c div 64 mod 64), B (0x80 + c mod 64)])"

fun utf8_encode :: "pystr \<Rightarrow> byte list result" where
  "utf8_encode [] = Inr []"
| "utf8_encode (c # cs) = (if scalar_value c
     then rbind (utf8_encode cs) (\<lambda>bs. Inr (utf8_char c @ bs))
     else Inl UnicodeEncodeError)"

text \<open>The value of a continuation byte, when it is one.\<close>

definition utf8_cont :: "byte \<Rightarrow> nat option" where
  "utf8_cont b = (if 0x80 \<le> unat b \<and> unat b < 0xC0 then Some (unat b - 0x80) else None)"

text \<open>One code point off the front of a byte string.\<close>

definition utf8_next :: "byte list \<Rightarrow> (nat \<times> byte list) option" where
  "utf8_next bs = (case bs of [] \<Rightarrow> None | b # r \<Rightarrow>
     let n = unat b in
     if n < 0x80 then Some (n, r)
     else if 0xC2 \<le> n \<and> n < 0xE0 then
       (case r of b1 # r1 \<Rightarrow>
          (case utf8_cont b1 of Some v1 \<Rightarrow> Some ((n - 0xC0) * 64 + v1, r1) | None \<Rightarrow> None)
        | [] \<Rightarrow> None)
     else if 0xE0 \<le> n \<and> n < 0xF0 then
       (case r of b1 # b2 # r2 \<Rightarrow>
          (case (utf8_cont b1, utf8_cont b2) of
             (Some v1, Some v2) \<Rightarrow>
               let c = (n - 0xE0) * 4096 + v1 * 64 + v2 in
               if 0x800 \<le> c \<and> scalar_value c then Some (c, r2) else None
           | _ \<Rightarrow> None)
        | _ \<Rightarrow> None)
     else if 0xF0 \<le> n \<and> n < 0xF5 then
       (case r of b1 # b2 # b3 # r3 \<Rightarrow>
          (case (utf8_cont b1, utf8_cont b2, utf8_cont b3) of
             (Some v1, Some v2, Some v3) \<Rightarrow>
               let c = (n - 0xF0) * 262144 + v1 * 4096 + v2 * 64 + v3 in
               if 0x10000 \<le> c \<and> scalar_value c then Some (c, r3) else None
           | _ \<Rightarrow> None)
        | _ \<Rightarrow> None)
     else None)"

lemma utf8_next_shorter: "utf8_next bs = Some (c, r) \<Longrightarrow> length r < length bs"
  by (auto simp: utf8_next_def Let_def split: list.splits if_splits option.splits)

function utf8_decode :: "byte list \<Rightarrow> pystr result" where
  "utf8_decode bs = (if bs = [] then Inr [] else
     (case utf8_next bs of None \<Rightarrow> Inl UnicodeDecodeError
      | Some (c, r) \<Rightarrow> rbind (utf8_decode r) (\<lambda>cs. Inr (c # cs))))"
  by pat_completeness auto
termination
  by (relation "measure length") (auto dest: utf8_next_shorter)

declare utf8_decode.simps [simp del]

lemma utf8_decode_Nil [simp]: "utf8_decode [] = Inr []"
  by (simp add: utf8_decode.simps)

text \<open>A number and its base-64 digits, the shape of UTF-8's continuation bytes.\<close>

lemma radix64:
  fixes q v c :: nat
  assumes "c = q * 64 + v" and "v < 64"
  shows "c div 64 = q" and "c mod 64 = v"
  using assms by simp_all

lemma radix64_3:
  fixes c :: nat
  shows "c div 4096 = c div 64 div 64"
    and "c div 4096 * 4096 + c div 64 mod 64 * 64 + c mod 64 = c"
proof -
  show eq: "c div 4096 = c div 64 div 64" by (simp add: div_mult2_eq [symmetric])
  show "c div 4096 * 4096 + c div 64 mod 64 * 64 + c mod 64 = c"
    using div_mult_mod_eq [of c 64] div_mult_mod_eq [of "c div 64" 64] eq by linarith
qed

lemma radix64_4:
  fixes c :: nat
  shows "c div 262144 = c div 4096 div 64"
    and "c div 262144 * 262144 + c div 4096 mod 64 * 4096 + c div 64 mod 64 * 64 + c mod 64 = c"
proof -
  show eq: "c div 262144 = c div 4096 div 64" by (simp add: div_mult2_eq [symmetric])
  show "c div 262144 * 262144 + c div 4096 mod 64 * 4096 + c div 64 mod 64 * 64 + c mod 64 = c"
    using div_mult_mod_eq [of "c div 4096" 64] radix64_3(2) [of c] eq by linarith
qed

lemma utf8_cont_B [simp]: "v < 64 \<Longrightarrow> utf8_cont (B (0x80 + v)) = Some v"
  by (simp add: utf8_cont_def)

lemma utf8_cont_SomeD: "utf8_cont b = Some v \<Longrightarrow> v < 64 \<and> b = B (0x80 + v)"
  by (auto simp: utf8_cont_def split: if_splits)

lemma utf8_next_char:
  assumes "scalar_value c"
  shows "utf8_next (utf8_char c @ r) = Some (c, r)"
proof -
  consider "c < 0x80" | "0x80 \<le> c" "c < 0x800" | "0x800 \<le> c" "c < 0x10000"
    | "0x10000 \<le> c" "c < 0x110000"
    using assms unfolding scalar_value_def by linarith
  then show ?thesis
  proof cases
    case 1
    then show ?thesis by (simp add: utf8_next_def utf8_char_def)
  next
    case 2
    then have "2 \<le> c div 64" "c div 64 < 32" by (auto simp: less_mult_imp_div_less)
    moreover have "c div 64 * 64 + c mod 64 = c" by simp
    ultimately show ?thesis using 2 by (simp add: utf8_next_def utf8_char_def Let_def)
  next
    case 3
    then have "c div 4096 < 16" by (auto simp: less_mult_imp_div_less)
    moreover note radix64_3(2) [of c]
    ultimately show ?thesis using 3 assms by (simp add: utf8_next_def utf8_char_def Let_def)
  next
    case 4
    then have "c div 262144 < 5" by (auto simp: less_mult_imp_div_less)
    moreover note radix64_4(2) [of c]
    ultimately show ?thesis using 4 assms by (simp add: utf8_next_def utf8_char_def Let_def)
  qed
qed

lemma utf8_char_nonempty [simp]: "utf8_char c \<noteq> []"
  by (simp add: utf8_char_def)

theorem utf8_decode_encode: "utf8_encode s = Inr bs \<Longrightarrow> utf8_decode bs = Inr s"
  by (induction s arbitrary: bs)
     (auto simp: result_simps utf8_next_char utf8_decode.simps [of "_ @ _"] split: if_splits)

lemma utf8_next_SomeD:
  assumes "utf8_next bs = Some (c, r)"
  shows "scalar_value c \<and> bs = utf8_char c @ r"
proof -
  obtain b r0 where bs: "bs = b # r0"
    using assms by (auto simp: utf8_next_def split: list.splits)
  define n where "n = unat b"
  have b: "b = B n" by (simp add: n_def)
  consider "n < 0x80" | "0xC2 \<le> n" "n < 0xE0" | "0xE0 \<le> n" "n < 0xF0" | "0xF0 \<le> n" "n < 0xF5"
    | "\<not> n < 0x80" "n < 0xC2 \<or> 0xF5 \<le> n"
    by linarith
  then show ?thesis
  proof cases
    case 1
    with assms bs b show ?thesis
      by (auto simp: utf8_next_def utf8_char_def scalar_value_def Let_def)
  next
    case 2
    then obtain b1 v1 where 1: "r0 = b1 # r" "utf8_cont b1 = Some v1" "c = (n - 0xC0) * 64 + v1"
      using assms bs n_def
      by (auto simp: utf8_next_def Let_def split: list.splits option.splits if_splits)
    from utf8_cont_SomeD [OF 1(2)] have v: "v1 < 64" "b1 = B (0x80 + v1)" by auto
    have "c div 64 = n - 0xC0" "c mod 64 = v1" "0x80 \<le> c" "c < 0x800"
      using 1(3) v 2 by auto
    then show ?thesis
      using bs b 1(1) v 2 by (simp add: utf8_char_def scalar_value_def)
  next
    case 3
    then obtain b1 b2 v1 v2 where 1: "r0 = b1 # b2 # r" "utf8_cont b1 = Some v1"
        "utf8_cont b2 = Some v2" "c = (n - 0xE0) * 4096 + v1 * 64 + v2" "0x800 \<le> c" "scalar_value c"
      using assms bs n_def
      by (auto simp: utf8_next_def Let_def split: list.splits option.splits if_splits)
    from utf8_cont_SomeD [OF 1(2)] utf8_cont_SomeD [OF 1(3)]
    have v: "v1 < 64" "b1 = B (0x80 + v1)" "v2 < 64" "b2 = B (0x80 + v2)" by auto
    have c: "c = ((n - 0xE0) * 64 + v1) * 64 + v2" using 1(4) by simp
    have "c div 64 = (n - 0xE0) * 64 + v1" "c mod 64 = v2" using radix64 [OF c v(3)] .
    moreover from this(1) have "c div 4096 = n - 0xE0" "c div 64 mod 64 = v1"
      using v(1) by (simp_all add: radix64_3(1))
    moreover have "c < 0x10000" using 1(4) v 3 by linarith
    ultimately show ?thesis
      using bs b 1(1,5,6) v 3 by (simp add: utf8_char_def)
  next
    case 4
    then obtain b1 b2 b3 v1 v2 v3 where 1: "r0 = b1 # b2 # b3 # r" "utf8_cont b1 = Some v1"
        "utf8_cont b2 = Some v2" "utf8_cont b3 = Some v3"
        "c = (n - 0xF0) * 262144 + v1 * 4096 + v2 * 64 + v3" "0x10000 \<le> c" "scalar_value c"
      using assms bs n_def
      by (auto simp: utf8_next_def Let_def split: list.splits option.splits if_splits)
    from utf8_cont_SomeD [OF 1(2)] utf8_cont_SomeD [OF 1(3)] utf8_cont_SomeD [OF 1(4)]
    have v: "v1 < 64" "b1 = B (0x80 + v1)" "v2 < 64" "b2 = B (0x80 + v2)"
      "v3 < 64" "b3 = B (0x80 + v3)" by auto
    have c: "c = (((n - 0xF0) * 64 + v1) * 64 + v2) * 64 + v3" using 1(5) by simp
    have q: "c div 64 = ((n - 0xF0) * 64 + v1) * 64 + v2" and "c mod 64 = v3"
      using radix64 [OF c v(5)] by auto
    moreover have "c div 4096 = (n - 0xF0) * 64 + v1" "c div 64 mod 64 = v2"
      using radix64 [OF q v(3)] by (auto simp: radix64_3(1))
    moreover from this(1) have "c div 262144 = n - 0xF0" "c div 4096 mod 64 = v1"
      using v(1) by (simp_all add: radix64_4(1))
    ultimately show ?thesis
      using bs b 1(1,6,7) v 4 by (simp add: utf8_char_def)
  next
    case 5
    with assms bs n_def show ?thesis
      by (auto simp: utf8_next_def Let_def split: if_splits)
  qed
qed

theorem utf8_encode_decode: "utf8_decode bs = Inr s \<Longrightarrow> utf8_encode s = Inr bs"
proof (induction bs arbitrary: s rule: utf8_decode.induct)
  case (1 bs)
  show ?case
  proof (cases "bs = []")
    case True
    with 1(2) show ?thesis by simp
  next
    case False
    with 1(2) obtain c r cs where n: "utf8_next bs = Some (c, r)" "utf8_decode r = Inr cs" "s = c # cs"
      by (auto simp: utf8_decode.simps [of bs] result_simps split: option.splits)
    then have "utf8_encode cs = Inr r" using 1(1) False by blast
    with n utf8_next_SomeD [OF n(1)] show ?thesis by simp
  qed
qed

lemma utf8_decode_error: "utf8_decode bs = Inl e \<Longrightarrow> e = UnicodeDecodeError"
  by (induction bs rule: utf8_decode.induct)
     (auto simp: utf8_decode.simps [of "_ :: byte list"] result_simps split: if_splits option.splits)

lemma utf8_encode_error: "utf8_encode s = Inl e \<Longrightarrow> e = UnicodeEncodeError"
  by (induction s) (auto simp: result_simps split: if_splits)

text \<open>Latin-1 text, and ASCII text in particular, encodes without error.\<close>

lemma utf8_encode_scalar: "\<forall>c \<in> set s. scalar_value c \<Longrightarrow> \<exists>bs. utf8_encode s = Inr bs"
  by (induction s) auto

end
