(* ===== verification/Timing.thy ===== *)
theory Timing
  imports Chu_Prelude
begin

text \<open>
  \<^verbatim>\<open>libraries/timing\<close>: wrap-safe millisecond ticks (\<^verbatim>\<open>ticks.py\<close>), the value objects
  \<^verbatim>\<open>Deadline\<close> and \<^verbatim>\<open>Rate\<close> (\<^verbatim>\<open>deadline.py\<close>) and the completion wait \<^verbatim>\<open>Signal\<close> /
  \<^verbatim>\<open>wait_for\<close> (\<^verbatim>\<open>waits.py\<close>). Python integers are \<open>int\<close>; a tick reading is a value
  in \<open>[0, TICKS_MAX]\<close>. The locale \<open>tick_source\<close> is the clock contract the other
  libraries take as a constructor argument; it is interpreted on this module's own
  functions.
\<close>

section \<open>ticks.py\<close>

definition TICKS_PERIOD :: int where "TICKS_PERIOD = push_bit 29 1"
definition TICKS_MAX :: int where "TICKS_MAX = TICKS_PERIOD - 1"
definition TICKS_HALFPERIOD :: int where "TICKS_HALFPERIOD = TICKS_PERIOD div 2"

text \<open>\<open>raw\<close> is what the runtime's millisecond counter returned.\<close>

definition ticks_ms :: "int \<Rightarrow> int" where
  "ticks_ms raw = raw AND TICKS_MAX"

definition ticks_add :: "int \<Rightarrow> int \<Rightarrow> int result" where
  "ticks_add ticks delta =
     (if - TICKS_HALFPERIOD < delta \<and> delta < TICKS_HALFPERIOD
      then Inr ((ticks + delta) mod TICKS_PERIOD)
      else Inl (OverflowError ''ticks interval overflow''))"

definition ticks_diff :: "int \<Rightarrow> int \<Rightarrow> int" where
  "ticks_diff end_ticks start_ticks =
     (let diff = (end_ticks - start_ticks) AND TICKS_MAX
      in ((diff + TICKS_HALFPERIOD) AND TICKS_MAX) - TICKS_HALFPERIOD)"

lemma tick_consts:
  "TICKS_PERIOD = 536870912" "TICKS_MAX = 536870911" "TICKS_HALFPERIOD = 268435456"
  by (simp_all add: TICKS_PERIOD_def TICKS_MAX_def TICKS_HALFPERIOD_def)

lemma and_ticks_max: "x AND TICKS_MAX = x mod TICKS_PERIOD"
proof -
  have "TICKS_MAX = mask 29" "TICKS_PERIOD = 2 ^ 29"
    by (simp_all add: tick_consts mask_eq_exp_minus_1)
  then show ?thesis
    by (metis take_bit_eq_mask take_bit_eq_mod)
qed

lemma ticks_ms_eq: "ticks_ms raw = raw mod TICKS_PERIOD"
  by (simp add: ticks_ms_def and_ticks_max)

lemma ticks_diff_eq:
  "ticks_diff e s = (e - s + TICKS_HALFPERIOD) mod TICKS_PERIOD - TICKS_HALFPERIOD"
  by (simp add: ticks_diff_def and_ticks_max mod_add_left_eq)

lemma ticks_diff_range: "- TICKS_HALFPERIOD \<le> ticks_diff e s" "ticks_diff e s < TICKS_HALFPERIOD"
proof -
  have "0 \<le> (e - s + TICKS_HALFPERIOD) mod TICKS_PERIOD"
    "(e - s + TICKS_HALFPERIOD) mod TICKS_PERIOD < TICKS_PERIOD"
    by (simp_all add: tick_consts)
  then show "- TICKS_HALFPERIOD \<le> ticks_diff e s" "ticks_diff e s < TICKS_HALFPERIOD"
    by (simp_all add: ticks_diff_eq tick_consts)
qed

text \<open>The difference is the representative of \<open>e - s\<close> in the half-open window.\<close>

lemma ticks_diff_cong: "\<exists>k. ticks_diff e s = e - s + k * TICKS_PERIOD"
proof -
  have "(e - s + TICKS_HALFPERIOD) mod TICKS_PERIOD
      = e - s + TICKS_HALFPERIOD - (e - s + TICKS_HALFPERIOD) div TICKS_PERIOD * TICKS_PERIOD"
    by (simp add: minus_div_mult_eq_mod)
  then have "ticks_diff e s = e - s + (- ((e - s + TICKS_HALFPERIOD) div TICKS_PERIOD)) * TICKS_PERIOD"
    unfolding ticks_diff_eq by (simp add: algebra_simps)
  then show ?thesis by blast
qed

lemma ticks_diff_unique:
  assumes "x = e - s + k * TICKS_PERIOD" and "- TICKS_HALFPERIOD \<le> x" and "x < TICKS_HALFPERIOD"
  shows "ticks_diff e s = x"
proof -
  have "e - s + TICKS_HALFPERIOD = x + TICKS_HALFPERIOD + (- k) * TICKS_PERIOD"
    using assms(1) by simp
  then have "(e - s + TICKS_HALFPERIOD) mod TICKS_PERIOD = (x + TICKS_HALFPERIOD) mod TICKS_PERIOD"
    by (metis mod_mult_self1)
  also have "\<dots> = x + TICKS_HALFPERIOD"
    using assms(2,3) by (intro mod_pos_pos_trivial) (simp_all add: tick_consts)
  finally show ?thesis by (simp add: ticks_diff_eq)
qed

text \<open>
  True time is the unbounded millisecond count \<open>T\<close> behind the wrapped reading
  \<open>ticks_ms T\<close>. The wrapped difference equals the true one inside the window.
\<close>

lemma ticks_diff_true:
  assumes "- TICKS_HALFPERIOD \<le> T - S" and "T - S < TICKS_HALFPERIOD"
  shows "ticks_diff (ticks_ms T) (ticks_ms S) = T - S"
proof (rule ticks_diff_unique)
  have "T mod TICKS_PERIOD = T - T div TICKS_PERIOD * TICKS_PERIOD"
    "S mod TICKS_PERIOD = S - S div TICKS_PERIOD * TICKS_PERIOD"
    by (simp_all add: minus_div_mult_eq_mod)
  then show "T - S = ticks_ms T - ticks_ms S + (T div TICKS_PERIOD - S div TICKS_PERIOD) * TICKS_PERIOD"
    by (simp add: ticks_ms_eq algebra_simps)
qed (use assms in auto)

lemma ticks_add_true:
  "- TICKS_HALFPERIOD < d \<Longrightarrow> d < TICKS_HALFPERIOD \<Longrightarrow> ticks_add (ticks_ms T) d = Inr (ticks_ms (T + d))"
  by (simp add: ticks_add_def ticks_ms_eq mod_add_left_eq)

lemma ticks_add_InrD:
  assumes "ticks_add t d = Inr u"
  shows "- TICKS_HALFPERIOD < d" "d < TICKS_HALFPERIOD" "u = (t + d) mod TICKS_PERIOD"
  using assms by (auto simp: ticks_add_def split: if_splits)

lemma ticks_diff_add:
  assumes "ticks_add t d = Inr u"
  shows "ticks_diff u t = d"
proof (rule ticks_diff_unique)
  note u = ticks_add_InrD [OF assms]
  have "(t + d) mod TICKS_PERIOD = t + d - (t + d) div TICKS_PERIOD * TICKS_PERIOD"
    by (simp add: minus_div_mult_eq_mod)
  then show "d = u - t + (t + d) div TICKS_PERIOD * TICKS_PERIOD"
    by (simp add: u(3))
qed (use ticks_add_InrD [OF assms] in auto)

lemma ticks_diff_trans:
  assumes "- TICKS_HALFPERIOD \<le> ticks_diff c b + ticks_diff b a"
    and "ticks_diff c b + ticks_diff b a < TICKS_HALFPERIOD"
  shows "ticks_diff c a = ticks_diff c b + ticks_diff b a"
proof -
  obtain j k where "ticks_diff c b = c - b + j * TICKS_PERIOD" "ticks_diff b a = b - a + k * TICKS_PERIOD"
    using ticks_diff_cong by meson
  then have "ticks_diff c b + ticks_diff b a = c - a + (j + k) * TICKS_PERIOD"
    by (simp add: algebra_simps)
  then show ?thesis using assms by (rule ticks_diff_unique)
qed

section \<open>The clock contract\<close>

text \<open>
  The two pure operations of a tick source (\<^verbatim>\<open>ticks=\<close> of the constructors). Reading the
  clock is an input of the operations that read it. \<open>span\<close> bounds the window in
  which differences are exact.
\<close>

record ticks_source =
  src_add :: "int \<Rightarrow> int \<Rightarrow> int result"
  src_diff :: "int \<Rightarrow> int \<Rightarrow> int"

definition real_ticks :: ticks_source where
  "real_ticks = \<lparr>src_add = ticks_add, src_diff = ticks_diff\<rparr>"

locale tick_source =
  fixes tk :: ticks_source and span :: int
  assumes span_pos: "0 < span"
    and add_total: "- span < d \<Longrightarrow> d < span \<Longrightarrow> \<exists>u. src_add tk t d = Inr u"
    and add_domain: "src_add tk t d = Inr u \<Longrightarrow> - span < d \<and> d < span"
    and diff_add: "src_add tk t d = Inr u \<Longrightarrow> src_diff tk u t = d"
    and diff_lower: "- span \<le> src_diff tk a b"
    and diff_upper: "src_diff tk a b < span"
    and diff_trans: "- span \<le> src_diff tk c b + src_diff tk b a \<Longrightarrow>
       src_diff tk c b + src_diff tk b a < span \<Longrightarrow>
       src_diff tk c a = src_diff tk c b + src_diff tk b a"
begin

lemma diff_self: "src_diff tk a a = 0"
proof -
  have "- span < 0" "0 < span" using span_pos by auto
  then obtain u where u: "src_add tk a 0 = Inr u" using add_total by blast
  have "src_diff tk u a = 0" using diff_add [OF u] .
  moreover have "src_diff tk u u + src_diff tk u a = src_diff tk u u" using \<open>src_diff tk u a = 0\<close> by simp
  moreover have "src_diff tk a a + src_diff tk u a = src_diff tk a a" using \<open>src_diff tk u a = 0\<close> by simp
  ultimately show ?thesis
    by (metis add.commute add_cancel_right_right diff_lower diff_trans diff_upper)
qed

lemma diff_flip: "- span < src_diff tk b a \<Longrightarrow> src_diff tk a b = - src_diff tk b a"
proof -
  assume lo: "- span < src_diff tk b a"
  obtain u where u: "src_add tk b (- src_diff tk b a) = Inr u"
    using add_total [of "- src_diff tk b a" b] lo diff_upper [of b a] by auto
  have ub: "src_diff tk u b = - src_diff tk b a" using diff_add [OF u] .
  have ua: "src_diff tk u a = 0"
    using diff_trans [of u b a] ub span_pos by simp
  have au: "src_diff tk a u = 0"
  proof -
    have "src_diff tk a a = src_diff tk a u + src_diff tk u a"
      using diff_trans [of a u a] ua diff_lower [of a u] diff_upper [of a u] by simp
    then show ?thesis using diff_self ua by simp
  qed
  have "src_diff tk a b = src_diff tk a u + src_diff tk u b"
    using diff_trans [of a u b] au ub lo diff_lower [of u b] diff_upper [of u b] by simp
  with au ub show ?thesis by simp
qed

text \<open>A deadline armed \<open>p\<close> after \<open>t\<close> is due exactly once \<open>p\<close> has elapsed.\<close>

lemma due_iff_elapsed:
  assumes add: "src_add tk t p = Inr due" and p: "0 \<le> p"
    and el: "src_diff tk now t - p \<ge> - span"
  shows "src_diff tk now due = src_diff tk now t - p"
proof -
  have dt: "src_diff tk due t = p" using diff_add [OF add] .
  then have td: "src_diff tk t due = - p"
    using diff_flip [of due t] p span_pos by simp
  show ?thesis
    using diff_trans [of now t due] td el p diff_upper [of now t] by simp
qed

end

interpretation wrapped: tick_source real_ticks TICKS_HALFPERIOD
proof (unfold_locales, goal_cases)
  case 1
  show ?case by (simp add: tick_consts)
next
  case (2 d t)
  then show ?case by (simp add: real_ticks_def ticks_add_def)
next
  case (3 t d u)
  then show ?case using ticks_add_InrD [of t d u] by (simp add: real_ticks_def)
next
  case (4 t d u)
  then show ?case by (simp add: real_ticks_def ticks_diff_add)
next
  case (5 a b)
  show ?case by (simp add: real_ticks_def ticks_diff_range)
next
  case (6 a b)
  show ?case by (simp add: real_ticks_def ticks_diff_range)
next
  case (7 c b a)
  then show ?case using ticks_diff_trans [of c b a] by (simp add: real_ticks_def)
qed

section \<open>deadline.py\<close>

record Deadline =
  dl_period_ms :: int
  dl_due_ms :: int

definition Deadline_init :: "int \<Rightarrow> int \<Rightarrow> Deadline result" where
  "Deadline_init period_ms now_ms =
     rbind (ticks_add now_ms period_ms) (\<lambda>due.
       Inr \<lparr>dl_period_ms = period_ms, dl_due_ms = due\<rparr>)"

definition Deadline_expired :: "Deadline \<Rightarrow> int \<Rightarrow> bool" where
  "Deadline_expired d now_ms \<longleftrightarrow> ticks_diff now_ms (dl_due_ms d) \<ge> 0"

definition Deadline_remaining :: "Deadline \<Rightarrow> int \<Rightarrow> int" where
  "Deadline_remaining d now_ms =
     (let left = ticks_diff (dl_due_ms d) now_ms in if left > 0 then left else 0)"

definition Deadline_reset :: "Deadline \<Rightarrow> int \<Rightarrow> Deadline result" where
  "Deadline_reset d now_ms =
     rbind (ticks_add now_ms (dl_period_ms d)) (\<lambda>due. Inr (d\<lparr>dl_due_ms := due\<rparr>))"

record Rate =
  rt_period_ms :: int
  rt_next_due_ms :: int

definition Rate_init :: "int \<Rightarrow> int \<Rightarrow> Rate result" where
  "Rate_init period_ms now_ms =
     (if period_ms \<le> 0 then Inl (ValueError ''period_ms must be greater than zero'')
      else if period_ms \<ge> TICKS_HALFPERIOD
      then Inl (ValueError ''period_ms must be < TICKS_HALFPERIOD'')
      else rbind (ticks_add now_ms period_ms) (\<lambda>due.
        Inr \<lparr>rt_period_ms = period_ms, rt_next_due_ms = due\<rparr>))"

text \<open>\<open>due\<close> returns its answer and the re-phased object; a raise leaves the object as it was.\<close>

definition Rate_due :: "Rate \<Rightarrow> int \<Rightarrow> (bool \<times> Rate) result" where
  "Rate_due r now_ms =
     (let behind = ticks_diff now_ms (rt_next_due_ms r) in
      if behind < 0 then Inr (False, r)
      else let periods_missed = behind div rt_period_ms r + 1 in
        rbind (ticks_add (rt_next_due_ms r) (periods_missed * rt_period_ms r)) (\<lambda>due.
          Inr (True, r\<lparr>rt_next_due_ms := due\<rparr>)))"

definition Rate_reset :: "Rate \<Rightarrow> int \<Rightarrow> Rate result" where
  "Rate_reset r now_ms =
     rbind (ticks_add now_ms (rt_period_ms r)) (\<lambda>due. Inr (r\<lparr>rt_next_due_ms := due\<rparr>))"

section \<open>waits.py\<close>

record 'v Signal =
  sg_is_set :: bool
  sg_value :: "'v option"
  sg_deadline_ms :: "int option"

definition Signal_init :: "'v Signal" where
  "Signal_init = \<lparr>sg_is_set = False, sg_value = None, sg_deadline_ms = None\<rparr>"

definition Signal_next_deadline :: "'v Signal \<Rightarrow> int \<Rightarrow> int option" where
  "Signal_next_deadline s now_ms = sg_deadline_ms s"

definition Signal_set :: "'v Signal \<Rightarrow> 'v option \<Rightarrow> 'v Signal" where
  "Signal_set s v = s\<lparr>sg_value := v, sg_is_set := True\<rparr>"

definition Signal_clear :: "'v Signal \<Rightarrow> 'v Signal" where
  "Signal_clear s = s\<lparr>sg_is_set := False, sg_value := None\<rparr>"

definition Signal_ready :: "'v Signal \<Rightarrow> int \<Rightarrow> bool" where
  "Signal_ready s now_ms = sg_is_set s"

text \<open>
  The generator \<open>wait_for\<close>: what one resumption does. \<open>wait_for_loop\<close> is the
  \<^verbatim>\<open>while\<close> test with the \<^verbatim>\<open>finally\<close> clause on exit; \<open>wait_for_start\<close> runs up to the
  first yield and \<open>wait_for_resume\<close> from one yield to the next.
\<close>

datatype 'v wait_step = Suspended | Returned "'v option" | Raised exn

definition ETIMEDOUT :: int where "ETIMEDOUT = 110"

definition wait_for_loop :: "'v Signal \<Rightarrow> 'v wait_step \<times> 'v Signal" where
  "wait_for_loop s = (if sg_is_set s then (Returned (sg_value s), s\<lparr>sg_deadline_ms := None\<rparr>)
     else (Suspended, s))"

definition wait_for_start :: "'v Signal \<Rightarrow> int option \<Rightarrow> 'v wait_step \<times> 'v Signal" where
  "wait_for_start s deadline_ms = wait_for_loop (s\<lparr>sg_deadline_ms := deadline_ms\<rparr>)"

definition wait_for_resume ::
    "'v Signal \<Rightarrow> int option \<Rightarrow> int \<Rightarrow> 'v wait_step \<times> 'v Signal" where
  "wait_for_resume s deadline_ms now_ms =
     (case deadline_ms of
        Some d \<Rightarrow> if \<not> sg_is_set s \<and> ticks_diff now_ms d \<ge> 0
          then (Raised (OSError ETIMEDOUT), s\<lparr>sg_deadline_ms := None\<rparr>)
          else wait_for_loop s
      | None \<Rightarrow> wait_for_loop s)"

section \<open>Properties\<close>

subsection \<open>Ticks\<close>

text \<open>
  Tick arithmetic is exact on the wrapped ring: for a true (unwrapped) time \<open>T\<close>
  and any displacement of less than half a period in either direction, adding the
  displacement succeeds, lands on the reading of \<open>T + d\<close>, and \<open>ticks_diff\<close> recovers
  \<open>d\<close> and \<open>- d\<close>, across every wrap of the counter.
\<close>

lemma ticks_roundtrip:
  assumes "- TICKS_HALFPERIOD < d" and "d < TICKS_HALFPERIOD"
  shows "ticks_add (ticks_ms T) d = Inr (ticks_ms (T + d))
    \<and> ticks_diff (ticks_ms (T + d)) (ticks_ms T) = d
    \<and> ticks_diff (ticks_ms T) (ticks_ms (T + d)) = - d"
  using assms ticks_add_true [of d T] ticks_diff_true [of "T + d" T] ticks_diff_true [of T "T + d"]
  by simp

lemma ticks_roundtrip_witness:
  "ticks_add (ticks_ms 536870900) 100 = Inr (ticks_ms 536871000)
    \<and> ticks_diff (ticks_ms 536871000) (ticks_ms 536870900) = 100
    \<and> ticks_diff (ticks_ms 536870900) (ticks_ms 536871000) = - 100
    \<and> ticks_ms 536871000 = 88"
  using ticks_roundtrip [of 100 536870900] by (simp add: tick_consts ticks_ms_eq)

subsection \<open>Deadline\<close>

lemma Deadline_init_true:
  assumes "- TICKS_HALFPERIOD < p" "p < TICKS_HALFPERIOD"
  shows "Deadline_init p (ticks_ms T0) = Inr \<lparr>dl_period_ms = p, dl_due_ms = ticks_ms (T0 + p)\<rparr>"
  using assms by (simp add: Deadline_init_def ticks_add_true)

text \<open>
  A \<open>Deadline\<close> measures true time: armed at true time \<open>T0\<close> for \<open>p\<close> milliseconds,
  it is expired at true time \<open>T\<close> exactly when \<open>T \<ge> T0 + p\<close>, and \<open>remaining\<close> is the
  true time left clamped at zero, as long as \<open>T\<close> is within half a tick period of the
  due time.
\<close>

lemma deadline_true_time:
  assumes "- TICKS_HALFPERIOD < p" "p < TICKS_HALFPERIOD"
    and "- TICKS_HALFPERIOD < T - (T0 + p)" "T - (T0 + p) < TICKS_HALFPERIOD"
  shows "\<exists>d. Deadline_init p (ticks_ms T0) = Inr d
    \<and> (Deadline_expired d (ticks_ms T) \<longleftrightarrow> T0 + p \<le> T)
    \<and> Deadline_remaining d (ticks_ms T) = max 0 (T0 + p - T)"
  using assms ticks_diff_true [of T "T0 + p"] ticks_diff_true [of "T0 + p" T]
  by (simp add: Deadline_init_true Deadline_expired_def Deadline_remaining_def Let_def)

lemma deadline_true_time_witness:
  "\<exists>d. Deadline_init 20000 (ticks_ms 536870000) = Inr d
    \<and> (Deadline_expired d (ticks_ms 536880000) \<longleftrightarrow> (536890000::int) \<le> 536880000)
    \<and> Deadline_remaining d (ticks_ms 536880000) = 10000"
  using deadline_true_time [of 20000 536880000 536870000] by (simp add: tick_consts)

subsection \<open>Rate\<close>

text \<open>
  \<open>rate_at r D\<close>: the object's next fire, in true time, is \<open>D\<close>.
\<close>

definition rate_at :: "Rate \<Rightarrow> int \<Rightarrow> bool" where
  "rate_at r D \<longleftrightarrow> rt_next_due_ms r = ticks_ms D \<and> 0 < rt_period_ms r"

lemma Rate_init_at:
  "Rate_init p (ticks_ms T) = Inr r \<Longrightarrow> rate_at r (T + p) \<and> rt_period_ms r = p \<and> p < TICKS_HALFPERIOD"
  by (auto simp: Rate_init_def rate_at_def result_simps ticks_add_true tick_consts split: if_splits)

lemma next_phase:
  fixes T D p :: int
  assumes "D \<le> T" "0 < p"
  shows "T < D + ((T - D) div p + 1) * p" and "D + ((T - D) div p + 1) * p \<le> T + p"
proof -
  define q m where "q = (T - D) div p" and "m = (T - D) mod p"
  have "q * p + m = T - D" by (simp add: q_def m_def)
  moreover have "0 \<le> m" "m < p" using assms by (auto simp: m_def)
  moreover have "(q + 1) * p = q * p + p" by (simp add: algebra_simps)
  ultimately show "T < D + ((T - D) div p + 1) * p" and "D + ((T - D) div p + 1) * p \<le> T + p"
    unfolding q_def [symmetric] by linarith+
qed

text \<open>
  C28. \<open>Rate.due\<close> is drift-free: at a true time \<open>T\<close> before the next fire \<open>D\<close> it answers
  \<open>False\<close> and changes nothing; at or after it, as long as the stall plus one period
  stays under half a tick period, it answers \<open>True\<close> once and re-phases to a fire that
  is a whole number of periods after \<open>D\<close>, strictly in the future and at most one
  period away. Missed fires are skipped, never burst.
\<close>

theorem rate_due_drift_free:
  assumes "rate_at r D" and "- TICKS_HALFPERIOD \<le> T - D" and "T - D + rt_period_ms r < TICKS_HALFPERIOD"
  shows "(T < D \<and> Rate_due r (ticks_ms T) = Inr (False, r))
    \<or> (D \<le> T \<and> (\<exists>r' k. Rate_due r (ticks_ms T) = Inr (True, r')
         \<and> rate_at r' (D + k * rt_period_ms r) \<and> rt_period_ms r' = rt_period_ms r
         \<and> 0 < k \<and> T < D + k * rt_period_ms r \<and> D + k * rt_period_ms r \<le> T + rt_period_ms r))"
proof (cases "T < D")
  case True
  then show ?thesis
    using assms ticks_diff_true [of T D] by (simp add: Rate_due_def rate_at_def Let_def)
next
  case False
  define p where "p = rt_period_ms r"
  define k where "k = (T - D) div p + 1"
  have p: "0 < p" and D: "rt_next_due_ms r = ticks_ms D" using assms(1) by (auto simp: rate_at_def p_def)
  have diff: "ticks_diff (ticks_ms T) (ticks_ms D) = T - D"
    using assms(2,3) p by (intro ticks_diff_true) (auto simp: p_def)
  note np = next_phase [of D T p, folded k_def]
  have k: "0 < k" using False p by (simp add: k_def pos_imp_zdiv_nonneg_iff add_nonneg_pos)
  have "ticks_add (ticks_ms D) (k * p) = Inr (ticks_ms (D + k * p))"
    using np False p assms(3) k by (intro ticks_add_true) (auto simp: p_def tick_consts)
  then have "Rate_due r (ticks_ms T) = Inr (True, r\<lparr>rt_next_due_ms := ticks_ms (D + k * p)\<rparr>)"
    using False by (simp add: Rate_due_def D diff k_def p_def Let_def)
  then show ?thesis using False np p k
    by (auto simp: rate_at_def p_def)
qed

theorem rate_due_drift_free_witness:
  "\<exists>r. Rate_init 500 (ticks_ms 536870900) = Inr r
    \<and> ((536872500 < (536871400::int) \<and> Rate_due r (ticks_ms 536872500) = Inr (False, r))
    \<or> (536871400 \<le> (536872500::int) \<and> (\<exists>r' k. Rate_due r (ticks_ms 536872500) = Inr (True, r')
         \<and> rate_at r' (536871400 + k * 500) \<and> rt_period_ms r' = 500
         \<and> 0 < k \<and> 536872500 < 536871400 + k * 500 \<and> 536871400 + k * 500 \<le> 536872500 + 500)))"
proof -
  let ?r = "\<lparr>rt_period_ms = 500, rt_next_due_ms = ticks_ms 536871400\<rparr>"
  have "Rate_init 500 (ticks_ms 536870900) = Inr ?r"
    by (simp add: Rate_init_def tick_consts ticks_add_true [unfolded tick_consts])
  moreover have "rate_at ?r 536871400" by (simp add: rate_at_def)
  ultimately show ?thesis
    using rate_due_drift_free [of ?r 536871400 536872500] by (simp add: tick_consts)
qed

text \<open>
  The one way \<open>Rate.due\<close> fails: the catch-up distance, the stall rounded up to a
  whole number of periods, reaches half a tick period. It then raises
  \<open>OverflowError\<close> out of \<open>ticks_add\<close>; for every shorter stall it returns.
\<close>

lemma rate_due_overflow_iff:
  assumes "rate_at r D" and "D \<le> T" and "T - D < TICKS_HALFPERIOD"
  shows "Rate_due r (ticks_ms T) = Inl (OverflowError ''ticks interval overflow'')
    \<longleftrightarrow> TICKS_HALFPERIOD \<le> ((T - D) div rt_period_ms r + 1) * rt_period_ms r"
proof -
  have p: "0 < rt_period_ms r" and D: "rt_next_due_ms r = ticks_ms D"
    using assms(1) by (auto simp: rate_at_def)
  have diff: "ticks_diff (ticks_ms T) (ticks_ms D) = T - D"
    using assms(2,3) by (intro ticks_diff_true) (auto simp: tick_consts)
  have "0 \<le> (T - D) div rt_period_ms r" using assms(2) p by (simp add: pos_imp_zdiv_nonneg_iff)
  then have "0 \<le> ((T - D) div rt_period_ms r + 1) * rt_period_ms r"
    using p by (intro mult_nonneg_nonneg) auto
  then have "- TICKS_HALFPERIOD < ((T - D) div rt_period_ms r + 1) * rt_period_ms r"
    unfolding tick_consts by linarith
  moreover have "\<not> T - D < 0" using assms(2) by simp
  ultimately show ?thesis
    by (simp only: Rate_due_def D diff ticks_add_def Let_def if_False if_True simp_thms
        rbind_simps split: if_split) auto
qed

lemma rate_due_overflow_iff_witness:
  "\<exists>r. rate_at r 1000
    \<and> (Rate_due r (ticks_ms 268435000) = Inl (OverflowError ''ticks interval overflow'')
       \<longleftrightarrow> TICKS_HALFPERIOD \<le> ((268435000 - 1000) div rt_period_ms r + 1) * rt_period_ms r)
    \<and> rt_period_ms r = 200000000"
proof -
  let ?r = "\<lparr>rt_period_ms = 200000000, rt_next_due_ms = ticks_ms 1000\<rparr>"
  have at: "rate_at ?r 1000" by (simp add: rate_at_def)
  have "268435000 - 1000 < TICKS_HALFPERIOD" by (simp add: tick_consts)
  from rate_due_overflow_iff [OF at _ this] at show ?thesis
    by (intro exI [of _ ?r]) simp
qed

end
