(* ===== verification/Chu_Float.thy ===== *)
theory Chu_Float
  imports Chu_Prelude
begin

text \<open>
  Python floats as the patterns of IEEE doubles, and what the \<^verbatim>\<open>>f\<close> format of the \<^verbatim>\<open>struct\<close> module does to
  them: packing rounds to the nearest single, ties to even, and raises \<^verbatim>\<open>OverflowError\<close> when the result has no
  finite single; unpacking widens exactly. A NaN becomes a quiet NaN either way. Runtimes whose floats are
  singles are the special case of doubles that are widened singles.
\<close>

section \<open>Patterns\<close>

definition f64_exp :: "64 word \<Rightarrow> int" where "f64_exp w = uint w div 2 ^ 52 mod 2048"
definition f64_frac :: "64 word \<Rightarrow> int" where "f64_frac w = uint w mod 2 ^ 52"
definition f64_neg :: "64 word \<Rightarrow> bool" where "f64_neg w \<longleftrightarrow> 2 ^ 63 \<le> uint w"

definition f64_bits :: "bool \<Rightarrow> int \<Rightarrow> 64 word" where
  "f64_bits neg m = word_of_int ((if neg then 2 ^ 63 else 0) + m)"

definition f32_exp :: "32 word \<Rightarrow> int" where "f32_exp w = uint w div 2 ^ 23 mod 256"
definition f32_frac :: "32 word \<Rightarrow> int" where "f32_frac w = uint w mod 2 ^ 23"
definition f32_neg :: "32 word \<Rightarrow> bool" where "f32_neg w \<longleftrightarrow> 2 ^ 31 \<le> uint w"

definition f32_bits :: "bool \<Rightarrow> int \<Rightarrow> 32 word" where
  "f32_bits neg m = word_of_int ((if neg then 2 ^ 31 else 0) + m)"

section \<open>Packing and unpacking\<close>

text \<open>\<open>m / 2 ^ k\<close>, rounded to the nearest integer, ties to even.\<close>

definition round_shift :: "int \<Rightarrow> nat \<Rightarrow> int" where
  "round_shift m k =
     (let q = m div 2 ^ k; r = m mod 2 ^ k in if 2 * r > 2 ^ k \<or> 2 * r = 2 ^ k \<and> odd q then q + 1 else q)"

definition single_of_double :: "64 word \<Rightarrow> 32 word result" where
  "single_of_double d =
     (let e = f64_exp d; f = f64_frac d; neg = f64_neg d in
      if e = 2047 then Inr (f32_bits neg (255 * 2 ^ 23 + (if f = 0 then 0 else 2 ^ 22 + f div 2 ^ 29 mod 2 ^ 22)))
      else
        let m = (if e = 0 then f else f + 2 ^ 52);
            bits = (if e \<ge> 897 then (e - 897) * 2 ^ 23 + round_shift m 29 else round_shift m (nat (926 - max 1 e))) in
        if bits \<ge> 255 * 2 ^ 23 then Inl (OverflowError ''float too large to pack with f format'')
        else Inr (f32_bits neg bits))"

text \<open>A subnormal single is a normal double: its leading bit moves to the front.\<close>

function top_bit :: "int \<Rightarrow> nat" where
  "top_bit n = (if n \<le> 1 then 0 else top_bit (n div 2) + 1)"
  by pat_completeness auto
termination by (relation "measure nat") auto

declare top_bit.simps [simp del]

definition double_of_single :: "32 word \<Rightarrow> 64 word" where
  "double_of_single w =
     (let e = f32_exp w; f = f32_frac w; neg = f32_neg w in
      if e = 255 then f64_bits neg (2047 * 2 ^ 52 + (if f = 0 then 0 else 2 ^ 51 + f mod 2 ^ 22 * 2 ^ 29))
      else if e = 0 then
        (if f = 0 then f64_bits neg 0
         else f64_bits neg ((int (top_bit f) + 874) * 2 ^ 52 + (f * 2 ^ (52 - top_bit f) - 2 ^ 52)))
      else f64_bits neg ((e + 896) * 2 ^ 52 + f * 2 ^ 29))"


text \<open>What a float is after packing and unpacking it.\<close>

definition to_single :: "64 word \<Rightarrow> 64 word" where
  "to_single d = (case single_of_double d of Inl _ \<Rightarrow> d | Inr w \<Rightarrow> double_of_single w)"

section \<open>Singles survive\<close>

lemma low_part: "0 \<le> f \<Longrightarrow> f < k \<Longrightarrow> (a * k + f) div k = a \<and> (a * k + f) mod k = (f :: int)"
  by simp

lemma bits64:
  assumes "0 \<le> e" "e < 2048" "0 \<le> f" "f < 2 ^ 52"
  shows "f64_exp (f64_bits neg (e * 2 ^ 52 + f)) = e" "f64_frac (f64_bits neg (e * 2 ^ 52 + f)) = f" "f64_neg (f64_bits neg (e * 2 ^ 52 + f)) = neg"
proof -
  have l: "0 \<le> e * 2 ^ 52 + f" "e * 2 ^ 52 + f < 2 ^ 63" using assms by simp_all
  have "uint (word_of_int x :: 64 word) = x" if "0 \<le> x" "x < 2 ^ 64" for x
    using that by (simp add: uint_word_of_int_eq take_bit_int_eq_self)
  with l have "uint (f64_bits neg (e * 2 ^ 52 + f)) = (if neg then 2 ^ 63 else 0) + (e * 2 ^ 52 + f)"
    unfolding f64_bits_def by (cases neg) (simp_all del: of_int_add)
  then have u: "uint (f64_bits neg (e * 2 ^ 52 + f)) = ((if neg then 2048 else 0) + e) * 2 ^ 52 + f" by simp
  show "f64_exp (f64_bits neg (e * 2 ^ 52 + f)) = e" "f64_frac (f64_bits neg (e * 2 ^ 52 + f)) = f" "f64_neg (f64_bits neg (e * 2 ^ 52 + f)) = neg"
    unfolding f64_exp_def f64_frac_def f64_neg_def u low_part [OF assms(3,4), THEN conjunct1] low_part [OF assms(3,4), THEN conjunct2]
    using assms by auto
qed

lemma bits32: "f32_bits (f32_neg w) (f32_exp w * 2 ^ 23 + f32_frac w) = w"
proof -
  define u q where "u = uint w" and "q = u div 8388608"
  have "0 \<le> u" "u < 4294967296" using unsigned_less [where ?'a = int, of w] by (simp_all add: u_def)
  moreover have "u = q * 8388608 + u mod 8388608" unfolding q_def by (simp only: div_mult_mod_eq)
  moreover have "0 \<le> u mod 8388608" "u mod 8388608 < 8388608" by simp_all
  ultimately have q: "0 \<le> q" "q < 512" "2147483648 \<le> u \<longleftrightarrow> 256 \<le> q" "u = q * 8388608 + u mod 8388608" by linarith+
  then have "q mod 256 = (if 256 \<le> q then q - 256 else q)" using mod_pos_pos_trivial [of "q - 256" 256] by auto
  then have "(if 2147483648 \<le> u then 2147483648 else 0) + (q mod 256 * 8388608 + u mod 8388608) = u" using q by (cases "256 \<le> q") simp_all
  then have e: "(if f32_neg w then 2 ^ 31 else 0) + (f32_exp w * 2 ^ 23 + f32_frac w) = uint w"
    by (cases "2147483648 \<le> u") (simp_all add: f32_neg_def f32_exp_def f32_frac_def u_def q_def)
  show ?thesis unfolding f32_bits_def e by simp
qed

lemma f32_range: "0 \<le> f32_exp w" "f32_exp w < 256" "0 \<le> f32_frac w" "f32_frac w < 2 ^ 23"
  by (simp_all add: f32_exp_def f32_frac_def)

lemma top_bit_bounds: "0 < n \<Longrightarrow> 2 ^ top_bit n \<le> n \<and> n < 2 ^ (top_bit n + 1)"
proof (induction n rule: top_bit.induct)
  case (1 n)
  show ?case
  proof (cases "n \<le> 1")
    case True
    then show ?thesis using 1(2) by (simp add: top_bit.simps [of n])
  next
    case False
    then have "2 ^ top_bit (n div 2) \<le> n div 2" "n div 2 < 2 * 2 ^ top_bit (n div 2)" using 1(1) by auto
    moreover have "2 * (n div 2) \<le> n" "n \<le> 2 * (n div 2) + 1" by simp_all
    ultimately show ?thesis using False by (simp add: top_bit.simps [of n])
  qed
qed

lemma round_shift_exact: "round_shift (q * 2 ^ k) k = q"
  by (simp add: round_shift_def)

lemma round_shift_nearest: "\<bar>round_shift m k * 2 ^ k - m\<bar> * 2 \<le> 2 ^ k"
proof -
  define p r q where "p = (2 :: int) ^ k" and "r = m mod p" and "q = m div p"
  have "0 < p" by (simp add: p_def)
  then have "q * p = m - r" "0 \<le> r" "r < p" by (simp_all add: r_def q_def minus_mod_eq_div_mult)
  moreover have "round_shift m k = (if 2 * r > p \<or> 2 * r = p \<and> odd q then q + 1 else q)"
    by (simp add: round_shift_def Let_def p_def r_def q_def)
  ultimately show ?thesis unfolding p_def [symmetric] by (auto simp: distrib_right)
qed

lemma bits32_fields:
  assumes "0 \<le> e" "e < 256" "0 \<le> f" "f < 2 ^ 23"
  shows "f32_exp (f32_bits neg (e * 2 ^ 23 + f)) = e" "f32_frac (f32_bits neg (e * 2 ^ 23 + f)) = f" "f32_neg (f32_bits neg (e * 2 ^ 23 + f)) = neg"
proof -
  have l: "0 \<le> e * 2 ^ 23 + f" "e * 2 ^ 23 + f < 2 ^ 31" using assms by simp_all
  have "uint (word_of_int x :: 32 word) = x" if "0 \<le> x" "x < 2 ^ 32" for x
    using that by (simp add: uint_word_of_int_eq take_bit_int_eq_self)
  with l have "uint (f32_bits neg (e * 2 ^ 23 + f)) = (if neg then 2 ^ 31 else 0) + (e * 2 ^ 23 + f)"
    unfolding f32_bits_def by (cases neg) (simp_all del: of_int_add)
  then have u: "uint (f32_bits neg (e * 2 ^ 23 + f)) = ((if neg then 256 else 0) + e) * 2 ^ 23 + f" by simp
  show "f32_exp (f32_bits neg (e * 2 ^ 23 + f)) = e" "f32_frac (f32_bits neg (e * 2 ^ 23 + f)) = f" "f32_neg (f32_bits neg (e * 2 ^ 23 + f)) = neg"
    unfolding f32_exp_def f32_frac_def f32_neg_def u low_part [OF assms(3,4), THEN conjunct1] low_part [OF assms(3,4), THEN conjunct2]
    using assms by auto
qed

text \<open>Widening a single and packing it again gives the single, with the quiet bit of a NaN set.\<close>

definition quieted :: "32 word \<Rightarrow> 32 word" where
  "quieted w = (if f32_exp w = 255 \<and> f32_frac w \<noteq> 0 then f32_bits (f32_neg w) (255 * 2 ^ 23 + (2 ^ 22 + f32_frac w mod 2 ^ 22)) else w)"

lemma widen_normal:
  assumes "0 < f32_exp w" "f32_exp w < 255"
  shows "single_of_double (double_of_single w) = Inr w"
proof -
  let ?d = "double_of_single w"
  note r = f32_range [of w]
  have d: "?d = f64_bits (f32_neg w) ((f32_exp w + 896) * 2 ^ 52 + f32_frac w * 2 ^ 29)"
    using assms by (simp add: double_of_single_def Let_def)
  have p: "f64_exp ?d = f32_exp w + 896" "f64_frac ?d = f32_frac w * 2 ^ 29" "f64_neg ?d = f32_neg w"
    unfolding d using bits64 [of "f32_exp w + 896" "f32_frac w * 2 ^ 29"] assms r by simp_all
  have "f32_frac w * 2 ^ 29 + 2 ^ 52 = (f32_frac w + 2 ^ 23) * 2 ^ 29" by simp
  then have "round_shift (f32_frac w * 2 ^ 29 + 2 ^ 52) 29 = f32_frac w + 2 ^ 23" using round_shift_exact by metis
  then show ?thesis using assms r bits32 [of w] by (simp add: single_of_double_def p Let_def algebra_simps)
qed

lemma widen_subnormal:
  assumes "f32_exp w = 0" "f32_frac w \<noteq> 0"
  shows "single_of_double (double_of_single w) = Inr w"
proof -
  let ?d = "double_of_single w" and ?f = "f32_frac w"
  define t where "t = top_bit ?f"
  have t: "2 ^ t \<le> ?f" "?f < 2 ^ (t + 1)" using top_bit_bounds [of ?f] assms(2) f32_range(3) [of w] by (simp_all add: t_def)
  have "(2 :: int) ^ t < 2 ^ 23" using t(1) f32_range(4) [of w] by linarith
  then have t23: "t < 23" by (rule power_less_imp_less_exp [rotated]) simp
  define g where "g = ?f * 2 ^ (52 - t)"
  have "2 ^ t * 2 ^ (52 - t) \<le> g" unfolding g_def using t(1) by (rule mult_right_mono) simp
  moreover have "g < 2 ^ (t + 1) * 2 ^ (52 - t)" unfolding g_def using t(2) by (rule mult_strict_right_mono) simp
  moreover have "(2 :: int) ^ t * 2 ^ (52 - t) = 2 ^ 52" "(2 :: int) ^ (t + 1) * 2 ^ (52 - t) = 2 ^ 53"
    unfolding power_add [symmetric] using t23 by simp_all
  ultimately have g: "2 ^ 52 \<le> g" "g < 2 ^ 53" by (simp_all only:)
  have d: "?d = f64_bits (f32_neg w) ((int t + 874) * 2 ^ 52 + (g - 2 ^ 52))"
    using assms by (simp add: double_of_single_def Let_def t_def g_def)
  have p: "f64_exp ?d = int t + 874" "f64_frac ?d = g - 2 ^ 52" "f64_neg ?d = f32_neg w"
    unfolding d using bits64 [of "int t + 874" "g - 2 ^ 52"] t23 g by simp_all
  have k: "nat (926 - max 1 (int t + 874)) = 52 - t" using t23 by simp
  have "round_shift g (52 - t) = ?f" unfolding g_def by (rule round_shift_exact)
  then show ?thesis using assms t23 f32_range [of w] bits32 [of w] k by (simp add: single_of_double_def p Let_def)
qed

lemma widen_special:
  assumes "f32_exp w = 255"
  shows "single_of_double (double_of_single w) = Inr (quieted w)" "double_of_single (quieted w) = double_of_single w"
proof -
  note r = f32_range [of w]
  define f where "f = (if f32_frac w = 0 then 0 else 2 ^ 51 + f32_frac w mod 2 ^ 22 * 2 ^ 29)"
  have f: "0 \<le> f" "f < 2 ^ 52" using pos_mod_bound [of "2 ^ 22" "f32_frac w"] pos_mod_sign [of "2 ^ 22" "f32_frac w"] by (simp_all add: f_def)
  let ?d = "double_of_single w"
  have d: "?d = f64_bits (f32_neg w) (2047 * 2 ^ 52 + f)" using assms by (simp add: double_of_single_def Let_def f_def)
  have p: "f64_exp ?d = 2047" "f64_frac ?d = f" "f64_neg ?d = f32_neg w" unfolding d using bits64 [of 2047 f] f by simp_all
  have "f = 0 \<longleftrightarrow> f32_frac w = 0" using pos_mod_sign [of "2 ^ 22" "f32_frac w"] by (auto simp: f_def)
  moreover have "f \<noteq> 0 \<Longrightarrow> f div 2 ^ 29 mod 2 ^ 22 = f32_frac w mod 2 ^ 22"
  proof -
    assume "f \<noteq> 0"
    then have "f = (2 ^ 22 + f32_frac w mod 2 ^ 22) * 2 ^ 29" by (simp add: f_def split: if_splits)
    then have "f div 2 ^ 29 = 2 ^ 22 + f32_frac w mod 2 ^ 22" by (metis nonzero_mult_div_cancel_right power_not_zero zero_neq_numeral)
    then show ?thesis by simp
  qed
  ultimately show "single_of_double ?d = Inr (quieted w)" using assms bits32 [of w]
    by (auto simp: single_of_double_def p Let_def quieted_def)
  have "f32_frac w \<noteq> 0 \<Longrightarrow> double_of_single (quieted w) = ?d"
  proof -
    assume n: "f32_frac w \<noteq> 0"
    have m: "0 \<le> 2 ^ 22 + f32_frac w mod 2 ^ 22" "2 ^ 22 + f32_frac w mod 2 ^ 22 < 2 ^ 23"
      using pos_mod_bound [of "2 ^ 22" "f32_frac w"] pos_mod_sign [of "2 ^ 22" "f32_frac w"] by simp_all
    have "2 ^ 22 + f32_frac w mod 2 ^ 22 \<noteq> 0" using pos_mod_sign [of "2 ^ 22" "f32_frac w"] by simp
    then show ?thesis using bits32_fields [of 255 "2 ^ 22 + f32_frac w mod 2 ^ 22" "f32_neg w"] m n assms
      by (simp add: quieted_def double_of_single_def Let_def)
  qed
  then show "double_of_single (quieted w) = ?d" by (cases "f32_frac w = 0") (simp_all add: quieted_def)
qed

lemma single_double_single:
  "single_of_double (double_of_single w) = Inr (quieted w)" "double_of_single (quieted w) = double_of_single w"
proof -
  have q: "quieted w = w" if "f32_exp w \<noteq> 255" using that by (simp add: quieted_def)
  have zero: "single_of_double (double_of_single w) = Inr w" if "f32_exp w = 0" "f32_frac w = 0"
    using bits32 [of w] bits64 [of 0 0 "f32_neg w"] that
    by (simp add: double_of_single_def single_of_double_def round_shift_def Let_def)
  have "single_of_double (double_of_single w) = Inr w" if "f32_exp w \<noteq> 255"
    using zero widen_normal [of w] widen_subnormal [of w] f32_range [of w] that by (cases "f32_exp w = 0") auto
  with q widen_special [of w] show "single_of_double (double_of_single w) = Inr (quieted w)" "double_of_single (quieted w) = double_of_single w"
    by (cases "f32_exp w = 255"; simp)+
qed

lemma to_single_widened [simp]: "to_single (double_of_single w) = double_of_single w"
  by (simp add: to_single_def single_double_single)

lemma to_single_twice: "single_of_double d = Inr w \<Longrightarrow> to_single (to_single d) = to_single d"
  by (simp add: to_single_def single_double_single)

end
