(* ===== verification/Msgpack.thy ===== *)
theory Msgpack
  imports Chu_Float
begin

text \<open>
  \<^verbatim>\<open>libraries/msgpack/src/chumicro_msgpack/_pure.py\<close>: the pure-Python MessagePack
  encoder and decoder. Encoder functions return the bytes they append to the shared
  buffer; decoder functions take the whole input and an offset, as the code does, and
  return the value with the offset after it. A Python float is the pattern of an IEEE
  double; \<^verbatim>\<open>struct\<close>'s \<^verbatim>\<open>>f\<close> rounds it to a single and widens it back, as \<open>Chu_Float\<close> has it.
\<close>

section \<open>Python objects\<close>

datatype pyval =
    PNone
  | PBool bool
  | PInt int
  | PFloat "64 word"
  | PStr pystr
  | PBytes "byte list"
  | PByteArray "byte list"
  | PList "pyval list"
  | PTuple "pyval list"
  | PDict "(pyval \<times> pyval) list"
  | PObject string

text \<open>
  A dict is the list of its items in insertion order. Key equality is Python's:
  \<^verbatim>\<open>True == 1 == 1.0\<close>, \<^verbatim>\<open>0.0 == -0.0\<close>, and a NaN equals nothing.
\<close>

text \<open>The integer a finite float equals, if it equals one.\<close>

definition f64_int :: "64 word \<Rightarrow> int option" where
  "f64_int w =
     (let e = f64_exp w; m = f64_frac w + 2 ^ 52; sign = (if f64_neg w then - 1 else 1) in
      if e = 0 \<and> f64_frac w = 0 then Some 0
      else if e = 2047 \<or> e < 1023 then None
      else if 1075 \<le> e then Some (sign * (m * 2 ^ nat (e - 1075)))
      else if m mod 2 ^ nat (1075 - e) = 0 then Some (sign * (m div 2 ^ nat (1075 - e)))
      else None)"

datatype hash_key = HNone | HNum int | HFrac "64 word" | HNaN | HStr pystr | HBytes "byte list" | HOther

definition hash_key :: "pyval \<Rightarrow> hash_key" where
  "hash_key v = (case v of PNone \<Rightarrow> HNone | PBool b \<Rightarrow> HNum (if b then 1 else 0) | PInt i \<Rightarrow> HNum i
     | PFloat w \<Rightarrow> if f64_exp w = 2047 \<and> f64_frac w \<noteq> 0 then HNaN
         else (case f64_int w of Some i \<Rightarrow> HNum i | None \<Rightarrow> HFrac w)
     | PStr s \<Rightarrow> HStr s | PBytes b \<Rightarrow> HBytes b | _ \<Rightarrow> HOther)"

definition key_eq :: "pyval \<Rightarrow> pyval \<Rightarrow> bool" where
  "key_eq a b \<longleftrightarrow> hash_key a = hash_key b \<and> hash_key a \<noteq> HNaN"

text \<open>\<^verbatim>\<open>result[key] = value\<close>: an equal key keeps its place and its first spelling.\<close>

fun dict_set :: "(pyval \<times> pyval) list \<Rightarrow> pyval \<Rightarrow> pyval \<Rightarrow> (pyval \<times> pyval) list" where
  "dict_set [] k v = [(k, v)]"
| "dict_set ((k', v') # r) k v = (if key_eq k' k then (k', v) # r else (k', v') # dict_set r k v)"

section \<open>Encoder\<close>

definition MAX_DEPTH :: nat where "MAX_DEPTH = 8"

definition encode_int :: "int \<Rightarrow> byte list result" where
  "encode_int value =
     (if 0 \<le> value \<and> value \<le> 0x7f then Inr [B (nat value)]
      else if - 32 \<le> value \<and> value < 0 then Inr [B (nat (value AND 0xff))]
      else if 0 \<le> value \<and> value \<le> 0xff then Inr [B 0xcc, B (nat value)]
      else if 0 \<le> value \<and> value \<le> 0xffff then
        rbind (pack_uint 2 value) (\<lambda>p. Inr (B 0xcd # p))
      else if 0 \<le> value \<and> value \<le> 0xffffffff then
        rbind (pack_uint 4 value) (\<lambda>p. Inr (B 0xce # p))
      else if - 128 \<le> value \<and> value < - 32 then Inr [B 0xd0, B (nat (value AND 0xff))]
      else if - 32768 \<le> value \<and> value < - 128 then
        rbind (pack_sint 2 value) (\<lambda>p. Inr (B 0xd1 # p))
      else if - 2147483648 \<le> value \<and> value < - 32768 then
        rbind (pack_sint 4 value) (\<lambda>p. Inr (B 0xd2 # p))
      else Inl (OverflowError ''integer out of range for 32-bit msgpack''))"

definition encode_str :: "pystr \<Rightarrow> byte list result" where
  "encode_str value =
     rbind (utf8_encode value) (\<lambda>encoded.
       let len = length encoded in
       if len \<le> 31 then Inr (B (0xa0 OR len) # encoded)
       else if len \<le> 0xff then Inr (B 0xd9 # B len # encoded)
       else if len \<le> 0xffff then rbind (pack_uint 2 (int len)) (\<lambda>p. Inr (B 0xda # p @ encoded))
       else Inl (OverflowError ''string too long for msgpack''))"

definition encode_bin :: "byte list \<Rightarrow> byte list result" where
  "encode_bin value =
     (let len = length value in
      if len \<le> 0xff then Inr (B 0xc4 # B len # value)
      else if len \<le> 0xffff then rbind (pack_uint 2 (int len)) (\<lambda>p. Inr (B 0xc5 # p @ value))
      else Inl (OverflowError ''bytes too long for msgpack''))"

definition encode_array_header :: "nat \<Rightarrow> byte list result" where
  "encode_array_header len =
     (if len \<le> 15 then Inr [B (0x90 OR len)]
      else if len \<le> 0xffff then rbind (pack_uint 2 (int len)) (\<lambda>p. Inr (B 0xdc # p))
      else Inl (OverflowError ''array too long for msgpack''))"

definition encode_map_header :: "nat \<Rightarrow> byte list result" where
  "encode_map_header len =
     (if len \<le> 15 then Inr [B (0x80 OR len)]
      else if len \<le> 0xffff then rbind (pack_uint 2 (int len)) (\<lambda>p. Inr (B 0xde # p))
      else Inl (OverflowError ''map too long for msgpack''))"

function encode :: "pyval \<Rightarrow> nat \<Rightarrow> byte list result"
  and encode_array :: "pyval list \<Rightarrow> nat \<Rightarrow> byte list result"
  and encode_map :: "(pyval \<times> pyval) list \<Rightarrow> nat \<Rightarrow> byte list result" where
  "encode obj depth =
     (if depth > MAX_DEPTH then Inl (ValueError ''msgpack nesting too deep'')
      else (case obj of
          PBool True \<Rightarrow> Inr [B 0xc3]
        | PBool False \<Rightarrow> Inr [B 0xc2]
        | PNone \<Rightarrow> Inr [B 0xc0]
        | PInt i \<Rightarrow> encode_int i
        | PFloat d \<Rightarrow> rbind (single_of_double d) (\<lambda>w. Inr (B 0xca # be_bytes 4 (unat w)))
        | PStr s \<Rightarrow> encode_str s
        | PBytes b \<Rightarrow> encode_bin b
        | PByteArray b \<Rightarrow> encode_bin b
        | PList xs \<Rightarrow> rbind (encode_array_header (length xs)) (\<lambda>h.
            rbind (encode_array xs depth) (\<lambda>bs. Inr (h @ bs)))
        | PTuple xs \<Rightarrow> rbind (encode_array_header (length xs)) (\<lambda>h.
            rbind (encode_array xs depth) (\<lambda>bs. Inr (h @ bs)))
        | PDict kvs \<Rightarrow> rbind (encode_map_header (length kvs)) (\<lambda>h.
            rbind (encode_map kvs depth) (\<lambda>bs. Inr (h @ bs)))
        | PObject t \<Rightarrow> Inl (TypeError ''unsupported type'')))"
| "encode_array [] depth = Inr []"
| "encode_array (x # xs) depth =
     rbind (encode x (depth + 1)) (\<lambda>b. rbind (encode_array xs depth) (\<lambda>bs. Inr (b @ bs)))"
| "encode_map [] depth = Inr []"
| "encode_map ((k, v) # kvs) depth =
     rbind (encode k (depth + 1)) (\<lambda>kb. rbind (encode v (depth + 1)) (\<lambda>vb.
       rbind (encode_map kvs depth) (\<lambda>bs. Inr (kb @ vb @ bs))))"
  by pat_completeness auto
termination
  by (relation "measure (case_sum (\<lambda>(v, d). size v)
      (case_sum (\<lambda>(xs, d). size_list size xs) (\<lambda>(kvs, d). size_list (size_prod size size) kvs)))")
     auto

declare encode.simps [simp del]

definition packb :: "pyval \<Rightarrow> byte list result" where
  "packb obj = encode obj 0"

section \<open>Decoder\<close>

definition MALFORMED :: string where
  "MALFORMED = ''malformed msgpack: truncated or over-length framing''"

definition bounded_end :: "byte list \<Rightarrow> nat \<Rightarrow> nat \<Rightarrow> nat result" where
  "bounded_end data start len =
     (let e = start + len in if e > length data then Inl (ValueError MALFORMED) else Inr e)"

text \<open>The \<^verbatim>\<open>str\<close> and \<^verbatim>\<open>bytes\<close> tails of \<open>_decode\<close>, shared by its length variants.\<close>

definition decode_str :: "byte list \<Rightarrow> nat \<Rightarrow> nat \<Rightarrow> (pyval \<times> nat) result" where
  "decode_str data start len =
     rbind (bounded_end data start len) (\<lambda>e.
     rbind (utf8_decode (pslice data start e)) (\<lambda>s. Inr (PStr s, e)))"

definition decode_bin :: "byte list \<Rightarrow> nat \<Rightarrow> nat \<Rightarrow> (pyval \<times> nat) result" where
  "decode_bin data start len =
     rbind (bounded_end data start len) (\<lambda>e. Inr (PBytes (pslice data start e), e))"

definition OUT_OF_SUBSET :: "nat list" where
  "OUT_OF_SUBSET = [0xcb, 0xcf, 0xd3, 0xc6, 0xdb, 0xdd, 0xdf]"

definition unsupported_byte_error :: "nat \<Rightarrow> exn" where
  "unsupported_byte_error byte =
     (if byte \<in> set OUT_OF_SUBSET then ValueError ''not in chumicro msgpack subset''
      else ValueError ''unsupported msgpack type byte'')"

text \<open>\<^verbatim>\<open>isinstance(key, (list, dict))\<close>\<close>

definition is_container :: "pyval \<Rightarrow> bool" where
  "is_container v = (case v of PList _ \<Rightarrow> True | PDict _ \<Rightarrow> True | _ \<Rightarrow> False)"

text \<open>
  Every nested call is one level deeper and the depth is capped, so the recursion ends
  on any input: between two levels the count of elements left goes down.
\<close>

definition level :: "nat \<Rightarrow> nat" where "level depth = max 1 (2 * (9 - depth) - 1)"

function decode :: "byte list \<Rightarrow> nat \<Rightarrow> nat \<Rightarrow> (pyval \<times> nat) result"
  and decode_items :: "byte list \<Rightarrow> nat \<Rightarrow> nat \<Rightarrow> nat \<Rightarrow> (pyval list \<times> nat) result"
  and decode_pairs :: "byte list \<Rightarrow> nat \<Rightarrow> nat \<Rightarrow> nat \<Rightarrow> (pyval \<times> pyval) list
      \<Rightarrow> ((pyval \<times> pyval) list \<times> nat) result" where
  "decode data offset depth =
     (if depth > MAX_DEPTH then Inl (ValueError ''msgpack nesting too deep'')
      else rbind (index_at data offset) (\<lambda>b.
      let byte = unat b;
          array = (\<lambda>start len. if int len > int (length data) - int start
            then Inl (ValueError MALFORMED)
            else rbind (decode_items data start len depth) (\<lambda>(xs, e). Inr (PList xs, e)));
          map = (\<lambda>start len. if int len * 2 > int (length data) - int start
            then Inl (ValueError MALFORMED)
            else rbind (decode_pairs data start len depth []) (\<lambda>(kvs, e). Inr (PDict kvs, e)))
      in
      if byte \<le> 0x7f then Inr (PInt (int byte), offset + 1)
      else if byte \<le> 0x8f then map (offset + 1) (byte AND 0x0f)
      else if byte \<le> 0x9f then array (offset + 1) (byte AND 0x0f)
      else if byte \<le> 0xbf then decode_str data (offset + 1) (byte AND 0x1f)
      else if byte = 0xc0 then Inr (PNone, offset + 1)
      else if byte = 0xc2 then Inr (PBool False, offset + 1)
      else if byte = 0xc3 then Inr (PBool True, offset + 1)
      else if byte = 0xc4 then
        rbind (index_at data (offset + 1)) (\<lambda>l. decode_bin data (offset + 2) (unat l))
      else if byte = 0xc5 then
        rbind (unpack_uint_from 2 data (offset + 1)) (\<lambda>l. decode_bin data (offset + 3) l)
      else if byte = 0xca then
        rbind (unpack_uint_from 4 data (offset + 1)) (\<lambda>n. Inr (PFloat (double_of_single (word_of_nat n)), offset + 5))
      else if byte = 0xcc then
        rbind (index_at data (offset + 1)) (\<lambda>l. Inr (PInt (int (unat l)), offset + 2))
      else if byte = 0xcd then
        rbind (unpack_uint_from 2 data (offset + 1)) (\<lambda>n. Inr (PInt (int n), offset + 3))
      else if byte = 0xce then
        rbind (unpack_uint_from 4 data (offset + 1)) (\<lambda>n. Inr (PInt (int n), offset + 5))
      else if byte = 0xd0 then
        rbind (unpack_sint_from 1 data (offset + 1)) (\<lambda>n. Inr (PInt n, offset + 2))
      else if byte = 0xd1 then
        rbind (unpack_sint_from 2 data (offset + 1)) (\<lambda>n. Inr (PInt n, offset + 3))
      else if byte = 0xd2 then
        rbind (unpack_sint_from 4 data (offset + 1)) (\<lambda>n. Inr (PInt n, offset + 5))
      else if byte = 0xd9 then
        rbind (index_at data (offset + 1)) (\<lambda>l. decode_str data (offset + 2) (unat l))
      else if byte = 0xda then
        rbind (unpack_uint_from 2 data (offset + 1)) (\<lambda>l. decode_str data (offset + 3) l)
      else if byte = 0xdc then
        rbind (unpack_uint_from 2 data (offset + 1)) (\<lambda>l. array (offset + 3) l)
      else if byte = 0xde then
        rbind (unpack_uint_from 2 data (offset + 1)) (\<lambda>l. map (offset + 3) l)
      else if byte \<ge> 0xe0 then Inr (PInt (int byte - 256), offset + 1)
      else Inl (unsupported_byte_error byte)))"
| "decode_items data offset 0 depth = Inr ([], offset)"
| "decode_items data offset (Suc n) depth =
     rbind (decode data offset (depth + 1)) (\<lambda>(v, offset1).
     rbind (decode_items data offset1 n depth) (\<lambda>(vs, e). Inr (v # vs, e)))"
| "decode_pairs data offset 0 depth result = Inr (result, offset)"
| "decode_pairs data offset (Suc n) depth result =
     rbind (decode data offset (depth + 1)) (\<lambda>(k, offset1).
     rbind (decode data offset1 (depth + 1)) (\<lambda>(v, offset2).
     if is_container k then Inl (ValueError ''msgpack map key is not hashable'')
     else decode_pairs data offset2 n depth (dict_set result k v)))"
  by pat_completeness auto

termination
  by (relation "measures [case_sum (\<lambda>(data, off, depth). 2 * (9 - depth))
        (case_sum (\<lambda>(data, off, n, depth). level depth) (\<lambda>(data, off, n, depth, r). level depth)),
      case_sum (\<lambda>_. 0) (case_sum (\<lambda>(data, off, n, depth). n) (\<lambda>(data, off, n, depth, r). n))]")
     (auto simp: level_def MAX_DEPTH_def)

declare decode.simps [simp del]

text \<open>\<^verbatim>\<open>except _FRAMING_ERRORS\<close>: \<^verbatim>\<open>IndexError\<close> and \<^verbatim>\<open>struct.error\<close>.\<close>

definition is_framing_error :: "exn \<Rightarrow> bool" where
  "is_framing_error e \<longleftrightarrow> e = IndexError \<or> e = StructError"

definition unpackb :: "byte list \<Rightarrow> pyval result" where
  "unpackb data =
     (case decode data 0 0 of
        Inl e \<Rightarrow> if is_framing_error e then Inl (ValueError MALFORMED) else Inl e
      | Inr (result, e) \<Rightarrow> if e \<noteq> length data then Inl (ValueError ''trailing bytes after msgpack value'')
          else Inr result)"

text \<open>
  \<open>pack\<close> writes the encoded bytes to a stream, \<open>unpack\<close> reads the stream to its end. A
  stream is the list of bytes behind it.
\<close>

definition pack :: "pyval \<Rightarrow> byte list \<Rightarrow> byte list result" where
  "pack obj stream = rbind (packb obj) (\<lambda>bs. Inr (stream @ bs))"

definition unpack :: "byte list \<Rightarrow> pyval result" where
  "unpack stream = unpackb stream"

section \<open>What the decoder makes of an encoded value\<close>

text \<open>
  Tuples come back as lists and bytearrays as bytes, floats as the nearest single. A dict is
  filled again from the decoded items in their order: two keys that are equal only after decoding,
  such as two floats that round to the same single, become one entry.
\<close>

definition dict_of :: "(pyval \<times> pyval) list \<Rightarrow> (pyval \<times> pyval) list" where
  "dict_of kvs = foldl (\<lambda>d (k, v). dict_set d k v) [] kvs"

primrec decoded_form :: "pyval \<Rightarrow> pyval" where
  "decoded_form PNone = PNone"
| "decoded_form (PBool b) = PBool b"
| "decoded_form (PInt i) = PInt i"
| "decoded_form (PFloat d) = PFloat (to_single d)"
| "decoded_form (PStr s) = PStr s"
| "decoded_form (PBytes b) = PBytes b"
| "decoded_form (PByteArray b) = PBytes b"
| "decoded_form (PList xs) = PList (map decoded_form xs)"
| "decoded_form (PTuple xs) = PList (map decoded_form xs)"
| "decoded_form (PDict kvs) = PDict (dict_of (map (map_prod decoded_form decoded_form) kvs))"
| "decoded_form (PObject t) = PObject t"

text \<open>No dict inside the value has a key that is decoded as a list or a dict.\<close>

fun keys_hashable :: "pyval \<Rightarrow> bool" where
  "keys_hashable (PList xs) = list_all keys_hashable xs"
| "keys_hashable (PTuple xs) = list_all keys_hashable xs"
| "keys_hashable (PDict kvs) = list_all (\<lambda>kv. \<not> is_container (decoded_form (fst kv)) \<and> keys_hashable (snd kv)) kvs"
| "keys_hashable v = True"

text \<open>What \<open>unpackb\<close> makes of an encoded value.\<close>

definition reread :: "pyval \<Rightarrow> pyval result" where
  "reread v = (if keys_hashable v then Inr (decoded_form v) else Inl (ValueError ''msgpack map key is not hashable''))"

abbreviation keys_distinct :: "(pyval \<times> pyval) list \<Rightarrow> bool" where
  "keys_distinct \<equiv> sorted_wrt (\<lambda>a b. \<not> key_eq (fst a) (fst b))"

text \<open>A value as the decoder builds it: every dict has distinct keys, each hashable and decoded.\<close>

fun dicts_ok :: "pyval \<Rightarrow> bool" where
  "dicts_ok (PList xs) = list_all dicts_ok xs"
| "dicts_ok (PTuple xs) = list_all dicts_ok xs"
| "dicts_ok (PDict kvs) = (keys_distinct kvs
     \<and> list_all (\<lambda>kv. \<not> is_container (fst kv) \<and> decoded_form (fst kv) = fst kv \<and> dicts_ok (snd kv)) kvs)"
| "dicts_ok v = True"

lemma key_hashable: "\<not> is_container (decoded_form k) \<Longrightarrow> keys_hashable k"
  by (cases k) (auto simp: is_container_def)

lemma dicts_ok_hashable: "dicts_ok v \<Longrightarrow> keys_hashable v"
  by (induction v rule: dicts_ok.induct) (auto simp: list_all_iff)

lemma dict_set_fresh:
  "\<forall>kv \<in> set r. \<not> key_eq (fst kv) k \<Longrightarrow> dict_set r k v = r @ [(k, v)]"
  by (induction r k v rule: dict_set.induct) auto

lemma dict_of_snoc: "dict_of (kvs @ [(k, v)]) = dict_set (dict_of kvs) k v"
  by (simp add: dict_of_def)

lemma dict_of_distinct: "keys_distinct kvs \<Longrightarrow> dict_of kvs = kvs"
proof (induction kvs rule: rev_induct)
  case (snoc kv kvs)
  obtain k v where "kv = (k, v)" by fastforce
  with snoc show ?case by (auto simp: dict_of_snoc sorted_wrt_append intro!: dict_set_fresh)
qed (simp add: dict_of_def)

text \<open>When the decoded keys differ, a dict comes back item by item.\<close>

lemma decoded_dict:
  "keys_distinct (map (map_prod decoded_form decoded_form) kvs) \<Longrightarrow> decoded_form (PDict kvs) = PDict (map (map_prod decoded_form decoded_form) kvs)"
  by (simp add: dict_of_distinct)

lemma index_at_append [simp]: "length pre = off \<Longrightarrow> index_at (pre @ b # xs) off = Inr b"
  by (auto simp: index_at_def nth_append)

lemma index_at_append1 [simp]: "length pre = off \<Longrightarrow> index_at (pre @ a # b # xs) (Suc off) = Inr b"
  using index_at_append [of "pre @ [a]" "Suc off" b xs] by simp

lemma unpack_uint_from_append1:
  "length pre = off \<Longrightarrow> length bs = k \<Longrightarrow> unpack_uint_from k (pre @ a # bs @ post) (Suc off) = Inr (be_nat bs)"
  using unpack_uint_from_append [of "pre @ [a]" "Suc off" bs k post] by simp

lemma decode_bin_append:
  "length pre = off \<Longrightarrow> decode_bin (pre @ bs @ post) off (length bs) = Inr (PBytes bs, off + length bs)"
  by (simp add: decode_bin_def bounded_end_def)

lemma decode_str_append:
  "length pre = off \<Longrightarrow> utf8_encode s = Inr bs \<Longrightarrow>
   decode_str (pre @ bs @ post) off (length bs) = Inr (PStr s, off + length bs)"
  by (simp add: decode_str_def bounded_end_def utf8_decode_encode)

lemmas decode_unfold = decode.simps [unfolded Let_def] MAX_DEPTH_def

lemma neg_mod_256: "- 256 \<le> i \<Longrightarrow> i < 0 \<Longrightarrow> (i :: int) mod 256 = i + 256"
  using mod_pos_pos_trivial [of "i + 256" 256] by simp

lemma decode_encode_int:
  assumes "encode_int i = Inr bs" and "depth \<le> MAX_DEPTH"
  shows "decode (pre @ bs @ post) (length pre) depth = Inr (PInt i, length pre + length bs)"
proof -
  consider "0 \<le> i" "i \<le> 0x7f" | "- 32 \<le> i" "i < 0" | "0x7f < i" "i \<le> 0xff" | "0xff < i" "i \<le> 0xffff"
    | "0xffff < i" "i \<le> 0xffffffff" | "- 128 \<le> i" "i < - 32" | "- 32768 \<le> i" "i < - 128"
    | "- 2147483648 \<le> i" "i < - 32768"
    using assms(1) by (auto simp: encode_int_def split: if_splits)
  then show ?thesis
  proof cases
    case 1
    then have "nat i mod 256 = nat i" "nat i \<le> 127" by auto
    with 1 assms show ?thesis
      by (auto simp: encode_int_def decode_unfold)
  next
    case 2
    define n where "n = nat (i + 256)"
    have "i mod 256 = i + 256" using 2 by (intro neg_mod_256) auto
    then have "bs = [B n]" using 2 assms(1) by (simp add: encode_int_def int_and_masks n_def)
    moreover have "224 \<le> n" "n < 256" "int n - 256 = i" using 2 by (auto simp: n_def)
    ultimately show ?thesis using assms(2) by (simp add: decode_unfold)
  next
    case 3
    then have "nat i mod 256 = nat i" by auto
    with 3 assms show ?thesis
      by (auto simp: encode_int_def decode_unfold)
  next
    case 4
    with assms show ?thesis
      by (auto simp: encode_int_def decode_unfold pack_uint_def unpack_uint_from_append1 be_nat_be_bytes)
  next
    case 5
    with assms show ?thesis
      by (auto simp: encode_int_def decode_unfold pack_uint_def unpack_uint_from_append1 be_nat_be_bytes)
  next
    case 6
    have "i mod 256 = i + 256" using 6 by (intro neg_mod_256) auto
    with 6 assms show ?thesis
      using unpack_uint_from_append1 [of pre "length pre" "[B (nat (i + 256))]" 1 "B 0xd0" post]
      by (auto simp: encode_int_def decode_unfold mask_simps unpack_sint_from_def signed_value_def)
  next
    case 7
    with assms show ?thesis
      using signed_value_mod [of 2 i]
      by (auto simp: encode_int_def decode_unfold pack_sint_def unpack_sint_from_def
          unpack_uint_from_append1 be_nat_be_bytes)
  next
    case 8
    with assms show ?thesis
      using signed_value_mod [of 4 i]
      by (auto simp: encode_int_def decode_unfold pack_sint_def unpack_sint_from_def
          unpack_uint_from_append1 be_nat_be_bytes)
  qed
qed

lemma decode_encode_str:
  assumes "encode_str s = Inr bs" and "depth \<le> MAX_DEPTH"
  shows "decode (pre @ bs @ post) (length pre) depth = Inr (PStr s, length pre + length bs)"
proof -
  from assms(1) obtain e where e: "utf8_encode s = Inr e" by (auto simp: encode_str_def result_simps)
  define n where "n = length e"
  note da = decode_str_append [OF _ e]
  consider "n \<le> 31" "bs = B (160 + n) # e" | "31 < n" "n \<le> 255" "bs = B 0xd9 # B n # e"
    | "255 < n" "n \<le> 65535" "bs = B 0xda # be_bytes 2 n @ e"
    using assms(1) e by (auto simp: encode_str_def n_def Let_def mask_simps pack_uint_def split: if_splits)
  then show ?thesis
  proof cases
    case 1
    then show ?thesis
      using assms(2) da [of "pre @ [B (160 + n)]" "Suc (length pre)" post]
      by (simp add: decode_unfold mask_simps n_def)
  next
    case 2
    then show ?thesis
      using assms(2) da [of "pre @ [B 0xd9, B n]" "length pre + 2" post]
      by (simp add: decode_unfold n_def)
  next
    case 3
    then show ?thesis
      using assms(2) da [of "pre @ B 0xda # be_bytes 2 n" "length pre + 3" post]
      by (simp add: decode_unfold n_def unpack_uint_from_append1 be_nat_be_bytes)
  qed
qed

lemma decode_encode_bin:
  assumes "encode_bin b = Inr bs" and "depth \<le> MAX_DEPTH"
  shows "decode (pre @ bs @ post) (length pre) depth = Inr (PBytes b, length pre + length bs)"
proof -
  define n where "n = length b"
  note da = decode_bin_append [of _ _ b]
  consider "n \<le> 255" "bs = B 0xc4 # B n # b" | "255 < n" "n \<le> 65535" "bs = B 0xc5 # be_bytes 2 n @ b"
    using assms(1) by (auto simp: encode_bin_def n_def Let_def pack_uint_def split: if_splits)
  then show ?thesis
  proof cases
    case 1
    then show ?thesis
      using assms(2) da [of "pre @ [B 0xc4, B n]" "length pre + 2" post]
      by (simp add: decode_unfold n_def)
  next
    case 2
    then show ?thesis
      using assms(2) da [of "pre @ B 0xc5 # be_bytes 2 n" "length pre + 3" post]
      by (simp add: decode_unfold n_def unpack_uint_from_append1 be_nat_be_bytes)
  qed
qed

lemma decode_encode_float:
  assumes "depth \<le> MAX_DEPTH"
  shows "decode (pre @ (B 0xca # be_bytes 4 (unat w)) @ post) (length pre) depth
    = Inr (PFloat (double_of_single w), length pre + 5)"
proof -
  have "unat w < 256 ^ 4" using unsigned_less [where ?'a = nat, of w] by simp
  then show ?thesis using assms
    by (simp add: decode_unfold unpack_uint_from_append1 be_nat_be_bytes)
qed

text \<open>The array and map headers: the decoder reads back the count and goes on after it.\<close>

lemma decode_array_header:
  assumes "encode_array_header n = Inr h" and "depth \<le> MAX_DEPTH" and "n \<le> length bs"
  shows "decode (pre @ h @ bs @ post) (length pre) depth
    = rbind (decode_items (pre @ h @ bs @ post) (length (pre @ h)) n depth) (\<lambda>(xs, e). Inr (PList xs, e))"
proof -
  consider "n \<le> 15" "h = [B (144 + n)]" | "15 < n" "n \<le> 65535" "h = B 0xdc # be_bytes 2 n"
    using assms(1) by (auto simp: encode_array_header_def mask_simps pack_uint_def split: if_splits)
  then show ?thesis
  proof cases
    case 1
    then show ?thesis using assms(2,3) by (simp add: decode_unfold mask_simps)
  next
    case 2
    then have "length (pre @ h) = length pre + 3" by simp
    with 2 show ?thesis using assms(2,3)
      by (simp add: decode_unfold unpack_uint_from_append1 be_nat_be_bytes)
  qed
qed

lemma decode_map_header:
  assumes "encode_map_header n = Inr h" and "depth \<le> MAX_DEPTH" and "2 * n \<le> length bs"
  shows "decode (pre @ h @ bs @ post) (length pre) depth
    = rbind (decode_pairs (pre @ h @ bs @ post) (length (pre @ h)) n depth []) (\<lambda>(kvs, e). Inr (PDict kvs, e))"
proof -
  consider "n \<le> 15" "h = [B (128 + n)]" | "15 < n" "n \<le> 65535" "h = B 0xde # be_bytes 2 n"
    using assms(1) by (auto simp: encode_map_header_def mask_simps pack_uint_def split: if_splits)
  then show ?thesis
  proof cases
    case 1
    then show ?thesis using assms(2,3) by (simp add: decode_unfold mask_simps)
  next
    case 2
    then have "length (pre @ h) = length pre + 3" by simp
    with 2 show ?thesis using assms(2,3)
      by (simp add: decode_unfold unpack_uint_from_append1 be_nat_be_bytes)
  qed
qed

lemma encode_int_length: "encode_int i = Inr bs \<Longrightarrow> 1 \<le> length bs"
  by (auto simp: encode_int_def result_simps split: if_splits)

lemma encode_str_length: "encode_str s = Inr bs \<Longrightarrow> 1 \<le> length bs"
  by (auto simp: encode_str_def Let_def result_simps split: if_splits)

lemma encode_bin_length: "encode_bin b = Inr bs \<Longrightarrow> 1 \<le> length bs"
  by (auto simp: encode_bin_def Let_def result_simps split: if_splits)

lemma encode_header_length:
  "encode_array_header n = Inr h \<Longrightarrow> 1 \<le> length h"
  "encode_map_header n = Inr h \<Longrightarrow> 1 \<le> length h"
  by (auto simp: encode_array_header_def encode_map_header_def result_simps split: if_splits)

lemmas encode_lengths = encode_int_length encode_str_length encode_bin_length encode_header_length

text \<open>Every value takes at least a byte: the decoder's count checks never refuse an encoding.\<close>

lemma encode_length: "encode v depth = Inr bs \<Longrightarrow> 1 \<le> length bs"
  by (cases v) (auto simp: encode.simps result_simps dest: encode_lengths split: if_splits bool.splits)

lemma encode_array_length: "encode_array xs depth = Inr bs \<Longrightarrow> length xs \<le> length bs"
  by (induction xs arbitrary: bs) (fastforce simp: result_simps dest: encode_length)+

lemma encode_map_length: "encode_map kvs depth = Inr bs \<Longrightarrow> 2 * length kvs \<le> length bs"
proof (induction kvs arbitrary: bs)
  case (Cons kv kvs)
  obtain k v where "kv = (k, v)" by (cases kv)
  with Cons.prems obtain kb vb r where "encode k (depth + 1) = Inr kb" "encode v (depth + 1) = Inr vb"
      "encode_map kvs depth = Inr r" "bs = kb @ vb @ r"
    by (auto simp: result_simps)
  with Cons.IH [of r] encode_length [of k "depth + 1" kb] encode_length [of v "depth + 1" vb]
  show ?case by simp
qed simp

lemma encode_depth: "encode v depth = Inr bs \<Longrightarrow> depth \<le> MAX_DEPTH"
  by (simp add: encode.simps split: if_splits)

definition reads_back :: "pyval \<Rightarrow> nat \<Rightarrow> bool" where
  "reads_back v depth \<longleftrightarrow> (\<forall>bs pre post. encode v depth = Inr bs \<longrightarrow>
     decode (pre @ bs @ post) (length pre) depth = rbind (reread v) (\<lambda>u. Inr (u, length pre + length bs)))"

lemma reads_backD:
  "reads_back v depth \<Longrightarrow> encode v depth = Inr bs \<Longrightarrow>
   decode (pre @ bs @ post) (length pre) depth = rbind (reread v) (\<lambda>u. Inr (u, length pre + length bs))"
  by (simp add: reads_back_def)

lemma decode_items_encode:
  assumes "\<forall>x \<in> set xs. reads_back x (depth + 1)" and "encode_array xs depth = Inr bs"
  shows "decode_items (pre @ bs @ post) (length pre) (length xs) depth
    = (if list_all keys_hashable xs then Inr (map decoded_form xs, length pre + length bs)
       else Inl (ValueError ''msgpack map key is not hashable''))"
  using assms
proof (induction xs arbitrary: bs pre)
  case (Cons x xs)
  then obtain b r where br: "encode x (depth + 1) = Inr b" "encode_array xs depth = Inr r" "bs = b @ r"
    by (auto simp: result_simps)
  have "decode (pre @ b @ r @ post) (length pre) (depth + 1) = rbind (reread x) (\<lambda>u. Inr (u, length pre + length b))"
    using Cons.prems(1) br(1) by (intro reads_backD) auto
  moreover have "decode_items ((pre @ b) @ r @ post) (length (pre @ b)) (length xs) depth
      = (if list_all keys_hashable xs then Inr (map decoded_form xs, length (pre @ b) + length r)
         else Inl (ValueError ''msgpack map key is not hashable''))"
    using Cons.IH [of r "pre @ b"] Cons.prems(1) br(2) by simp
  ultimately show ?case using br(3) by (simp add: reread_def)
qed simp

lemma decode_pairs_encode:
  assumes "\<forall>kv \<in> set kvs. reads_back (fst kv) (depth + 1) \<and> reads_back (snd kv) (depth + 1)"
    and "encode_map kvs depth = Inr bs"
  shows "decode_pairs (pre @ bs @ post) (length pre) (length kvs) depth (dict_of res)
    = (if keys_hashable (PDict kvs)
       then Inr (dict_of (res @ map (map_prod decoded_form decoded_form) kvs), length pre + length bs)
       else Inl (ValueError ''msgpack map key is not hashable''))"
  using assms
proof (induction kvs arbitrary: bs pre res)
  case (Cons kv kvs)
  obtain k v where kv: "kv = (k, v)" by (cases kv)
  with Cons.prems(2) obtain kb vb r where e: "encode k (depth + 1) = Inr kb"
      "encode v (depth + 1) = Inr vb" "encode_map kvs depth = Inr r" "bs = kb @ vb @ r"
    by (auto simp: result_simps)
  have dk: "decode (pre @ kb @ vb @ r @ post) (length pre) (depth + 1) = rbind (reread k) (\<lambda>u. Inr (u, length pre + length kb))"
    using Cons.prems(1) kv by (intro reads_backD e(1)) auto
  have dv: "decode ((pre @ kb) @ vb @ r @ post) (length (pre @ kb)) (depth + 1) = rbind (reread v) (\<lambda>u. Inr (u, length (pre @ kb) + length vb))"
    using Cons.prems(1) kv by (intro reads_backD e(2)) auto
  have "decode_pairs ((pre @ kb @ vb) @ r @ post) (length (pre @ kb @ vb)) (length kvs) depth (dict_of (res @ [(decoded_form k, decoded_form v)]))
    = (if keys_hashable (PDict kvs)
       then Inr (dict_of ((res @ [(decoded_form k, decoded_form v)]) @ map (map_prod decoded_form decoded_form) kvs), length (pre @ kb @ vb) + length r)
       else Inl (ValueError ''msgpack map key is not hashable''))"
    using Cons.prems(1) e(3) by (intro Cons.IH) auto
  then show ?case using dk dv e(4) kv key_hashable [of k] by (auto simp: reread_def dict_of_snoc add.assoc)
qed simp

lemma reads_back_array:
  assumes enc: "rbind (encode_array_header (length xs)) (\<lambda>h. rbind (encode_array xs depth) (\<lambda>b. Inr (h @ b))) = Inr bs"
    and depth: "depth \<le> MAX_DEPTH" and IH: "\<And>x. x \<in> set xs \<Longrightarrow> reads_back x (depth + 1)"
  shows "decode (pre @ bs @ post) (length pre) depth = rbind (reread (PList xs)) (\<lambda>u. Inr (u, length pre + length bs))"
proof -
  from enc obtain h b where h: "encode_array_header (length xs) = Inr h"
      "encode_array xs depth = Inr b" "bs = h @ b"
    by (auto simp: result_simps)
  have "\<forall>x \<in> set xs. reads_back x (depth + 1)" using IH by blast
  from decode_items_encode [OF this h(2), of "pre @ h" post] show ?thesis
    using decode_array_header [OF h(1) depth encode_array_length [OF h(2)], of pre post] h(3)
    by (simp add: reread_def add.assoc)
qed

lemma reads_back_dict:
  assumes enc: "rbind (encode_map_header (length kvs)) (\<lambda>h. rbind (encode_map kvs depth) (\<lambda>b. Inr (h @ b))) = Inr bs"
    and depth: "depth \<le> MAX_DEPTH"
    and IH: "\<And>kv. kv \<in> set kvs \<Longrightarrow> reads_back (fst kv) (depth + 1) \<and> reads_back (snd kv) (depth + 1)"
  shows "decode (pre @ bs @ post) (length pre) depth = rbind (reread (PDict kvs)) (\<lambda>u. Inr (u, length pre + length bs))"
proof -
  from enc obtain h b where h: "encode_map_header (length kvs) = Inr h"
      "encode_map kvs depth = Inr b" "bs = h @ b"
    by (auto simp: result_simps)
  have "\<forall>kv \<in> set kvs. reads_back (fst kv) (depth + 1) \<and> reads_back (snd kv) (depth + 1)" using IH by blast
  from decode_pairs_encode [OF this h(2), of "pre @ h" post "[]"] show ?thesis
    using decode_map_header [OF h(1) depth encode_map_length [OF h(2)], of pre post] h(3)
    by (simp add: reread_def add.assoc dict_of_def [of "[]"] del: keys_hashable.simps)
qed

lemma reads_back_all: "reads_back v depth"
proof (induction v arbitrary: depth)
  case (PList xs)
  then show ?case
    using reads_back_array by (auto simp: reads_back_def [of "PList xs"] encode.simps [of "PList xs"])
next
  case (PTuple xs)
  have "reread (PTuple xs) = reread (PList xs)" by (simp add: reread_def)
  with PTuple show ?case
    using reads_back_array by (auto simp: reads_back_def [of "PTuple xs"] encode.simps [of "PTuple xs"])
next
  case (PDict kvs)
  have IH: "reads_back (fst kv) d \<and> reads_back (snd kv) d" if "kv \<in> set kvs" for kv d
    using PDict [of kv] that by (cases kv) auto
  show ?case unfolding reads_back_def [of "PDict kvs"] encode.simps [of "PDict kvs"]
    using reads_back_dict [OF _ _ IH] by auto
next
  case PNone
  show ?case by (auto simp: reads_back_def reread_def encode.simps decode_unfold)
next
  case (PBool b)
  show ?case by (cases b) (auto simp: reads_back_def reread_def encode.simps decode_unfold)
next
  case (PFloat d)
  show ?case using decode_encode_float [of depth]
    by (auto simp: reads_back_def reread_def encode.simps result_simps to_single_def)
qed (auto simp: reads_back_def reread_def encode.simps decode_encode_int decode_encode_str decode_encode_bin)

section \<open>What the decoder can return or raise\<close>

definition decoder_error :: "exn \<Rightarrow> bool" where
  "decoder_error e \<longleftrightarrow> is_ValueError e \<or> is_framing_error e"

lemma decoder_error_simps [simp]:
  "decoder_error (ValueError m)" "decoder_error IndexError" "decoder_error StructError"
  "decoder_error UnicodeDecodeError"
  by (simp_all add: decoder_error_def is_ValueError_def is_framing_error_def)

lemma decoder_error_unsupported [simp]: "decoder_error (unsupported_byte_error b)"
  by (simp add: unsupported_byte_error_def)

definition canonical :: "pyval \<Rightarrow> nat \<Rightarrow> bool" where
  "canonical v depth \<longleftrightarrow> (\<exists>bs. encode v depth = Inr bs) \<and> dicts_ok v \<and> decoded_form v = v"

lemma encode_int_total: "- 2147483648 \<le> i \<Longrightarrow> i < 4294967296 \<Longrightarrow> \<exists>bs. encode_int i = Inr bs"
  by (auto simp: encode_int_def pack_uint_def pack_sint_def)

lemma canonical_int [simp]:
  "depth \<le> MAX_DEPTH \<Longrightarrow> - 2147483648 \<le> i \<Longrightarrow> i < 4294967296 \<Longrightarrow> canonical (PInt i) depth"
  using encode_int_total [of i] by (simp add: canonical_def encode.simps)

lemma canonical_byte [simp]:
  fixes b :: byte
  assumes "depth \<le> MAX_DEPTH"
  shows "canonical (PInt (uint b)) depth" and "canonical (PInt (uint b - 256)) depth"
proof -
  have "0 \<le> uint b" "uint b < 256" using unsigned_less [where ?'a = int, of b] by simp_all
  then show "canonical (PInt (uint b)) depth" and "canonical (PInt (uint b - 256)) depth"
    using assms by (intro canonical_int; linarith)+
qed

lemma canonical_simple [simp]:
  "depth \<le> MAX_DEPTH \<Longrightarrow> canonical PNone depth"
  "depth \<le> MAX_DEPTH \<Longrightarrow> canonical (PBool b) depth"
  "depth \<le> MAX_DEPTH \<Longrightarrow> canonical (PFloat (double_of_single w)) depth"
  by (simp_all add: canonical_def encode.simps single_double_single split: bool.split)

lemma index_at_ok: "res_ok decoder_error (\<lambda>b. True) (index_at data off)"
  by (simp add: index_at_def)

lemma unpack_uint_ok: "res_ok decoder_error (\<lambda>n. n < 256 ^ k) (unpack_uint_from k data off)"
proof (cases "off + k \<le> length data")
  case True
  then have "length (pslice data off (off + k)) = k" by simp
  with True be_nat_less [of "pslice data off (off + k)"] show ?thesis
    by (simp add: unpack_uint_from_def del: length_pslice)
qed (simp add: unpack_uint_from_def)

lemma unpack_sint_ok:
  "res_ok decoder_error (\<lambda>n. - (256 ^ k div 2) \<le> n \<and> n < 256 ^ k) (unpack_sint_from k data off)"
proof -
  have "- (256 ^ k div 2) \<le> signed_value k n \<and> signed_value k n < 256 ^ k" if "n < 256 ^ k" for n
  proof -
    have "0 \<le> int n" by simp
    moreover have "int n < 256 ^ k" using that by (metis of_nat_less_iff of_nat_numeral of_nat_power)
    moreover have "- (M div 2) \<le> m \<and> (M \<le> 2 * m \<longrightarrow> - (M div 2) \<le> m - M \<and> m - M < M)"
      if "0 \<le> m" "m < M" for m M :: int
      using that div_mult_mod_eq [of M 2] pos_mod_bound [of 2 M] pos_mod_sign [of 2 M] by linarith
    ultimately have g: "- (256 ^ k div 2) \<le> int n" "int n < 256 ^ k"
      "256 ^ k \<le> 2 * int n \<longrightarrow> - (256 ^ k div 2) \<le> int n - 256 ^ k \<and> int n - 256 ^ k < 256 ^ k"
      by blast+
    show ?thesis
    proof (cases "2 * n < 256 ^ k")
      case True
      with g(1,2) show ?thesis by (simp only: signed_value_def if_True)
    next
      case False
      then have "int (256 ^ k) \<le> int (2 * n)" by (simp only: of_nat_le_iff)
      then have "256 ^ k \<le> 2 * int n" by simp
      with False g(3) show ?thesis by (simp only: signed_value_def if_False)
    qed
  qed
  then show ?thesis
    unfolding unpack_sint_from_def by (auto intro: res_ok_mono [OF unpack_uint_ok])
qed

lemma decode_bin_ok:
  "depth \<le> MAX_DEPTH \<Longrightarrow> len < 65536 \<Longrightarrow> res_ok decoder_error (\<lambda>(v, e). canonical v depth) (decode_bin data start len)"
  by (auto simp: decode_bin_def bounded_end_def canonical_def encode.simps encode_bin_def Let_def pack_uint_def)

lemma decode_str_ok:
  assumes "depth \<le> MAX_DEPTH" "len < 65536"
  shows "res_ok decoder_error (\<lambda>(v, e). canonical v depth) (decode_str data start len)"
proof -
  have "res_ok decoder_error (\<lambda>s. canonical (PStr s) depth) (utf8_decode b)" if "length b \<le> len" for b
  proof (cases "utf8_decode b")
    case (Inl e)
    then show ?thesis using utf8_decode_error [of b e] by simp
  next
    case (Inr s)
    then show ?thesis using that assms utf8_encode_decode [OF Inr]
      by (auto simp: canonical_def encode.simps encode_str_def Let_def pack_uint_def)
  qed
  then show ?thesis by (simp add: decode_str_def bounded_end_def Let_def)
qed

lemma encode_array_total: "\<forall>x \<in> set xs. \<exists>b. encode x (depth + 1) = Inr b \<Longrightarrow> \<exists>bs. encode_array xs depth = Inr bs"
  by (induction xs) auto

lemma encode_map_total:
  "\<forall>kv \<in> set kvs. (\<exists>b. encode (fst kv) (depth + 1) = Inr b) \<and> (\<exists>b. encode (snd kv) (depth + 1) = Inr b)
    \<Longrightarrow> \<exists>bs. encode_map kvs depth = Inr bs"
  by (induction kvs) auto

lemma canonical_list:
  assumes "depth \<le> MAX_DEPTH" "length xs < 65536" "\<forall>x \<in> set xs. canonical x (depth + 1)"
  shows "canonical (PList xs) depth"
proof -
  obtain bs where "encode_array xs depth = Inr bs"
    using encode_array_total [of xs depth] assms(3) by (auto simp: canonical_def)
  moreover have "map decoded_form xs = xs" using assms(3) by (auto simp: canonical_def map_idI)
  ultimately show ?thesis using assms
    by (auto simp: canonical_def encode.simps encode_array_header_def pack_uint_def list_all_iff)
qed

definition dict_ok_at :: "nat \<Rightarrow> (pyval \<times> pyval) list \<Rightarrow> bool" where
  "dict_ok_at depth kvs \<longleftrightarrow> keys_distinct kvs \<and> (\<forall>kv \<in> set kvs. \<not> is_container (fst kv)
     \<and> canonical (fst kv) (depth + 1) \<and> canonical (snd kv) (depth + 1))"

lemma canonical_dict:
  assumes "depth \<le> MAX_DEPTH" "length kvs < 65536" "dict_ok_at depth kvs"
  shows "canonical (PDict kvs) depth"
proof -
  obtain bs where "encode_map kvs depth = Inr bs"
    using encode_map_total [of kvs depth] assms(3) by (auto simp: canonical_def dict_ok_at_def)
  moreover have "map (map_prod decoded_form decoded_form) kvs = kvs"
    using assms(3) by (intro map_idI) (auto simp: canonical_def dict_ok_at_def map_prod_def)
  moreover have "dict_of kvs = kvs" using assms(3) by (simp add: dict_ok_at_def dict_of_distinct)
  ultimately show ?thesis using assms
    by (auto simp: canonical_def encode.simps encode_map_header_def pack_uint_def list_all_iff dict_ok_at_def)
qed

lemma dict_ok_at_Nil [simp]: "dict_ok_at depth []"
  by (simp add: dict_ok_at_def)

lemma dict_set_keys: "fst ` set (dict_set r k v) \<subseteq> insert k (fst ` set r)"
  by (induction r k v rule: dict_set.induct) auto

lemma dict_set_length: "length (dict_set r k v) \<le> Suc (length r)"
  by (induction r k v rule: dict_set.induct) auto

lemma dict_set_mem: "kv \<in> set (dict_set r k v) \<Longrightarrow> kv \<in> set r \<or> (snd kv = v \<and> (fst kv = k \<or> fst kv \<in> fst ` set r))"
  by (induction r k v rule: dict_set.induct) (auto split: if_splits)

lemma dict_set_distinct: "keys_distinct r \<Longrightarrow> keys_distinct (dict_set r k v)"
proof (induction r k v rule: dict_set.induct)
  case (2 k' v' r k v)
  have "\<forall>x \<in> fst ` set (dict_set r k v). \<not> key_eq k' x" if "\<not> key_eq k' k"
  proof
    fix x assume "x \<in> fst ` set (dict_set r k v)"
    then have "x = k \<or> x \<in> fst ` set r" using dict_set_keys by blast
    then show "\<not> key_eq k' x" using 2(2) that by auto
  qed
  with 2 show ?case by auto
qed simp

lemma dict_ok_at_set:
  "dict_ok_at depth r \<Longrightarrow> \<not> is_container k \<Longrightarrow> canonical k (depth + 1) \<Longrightarrow> canonical v (depth + 1)
    \<Longrightarrow> dict_ok_at depth (dict_set r k v)"
  unfolding dict_ok_at_def by (fastforce simp: dict_set_distinct dest: dict_set_mem)

lemma decode_ok:
  "res_ok decoder_error (\<lambda>(v, e). canonical v depth) (decode data offset depth)"
  "res_ok decoder_error (\<lambda>(vs, e). length vs = n \<and> (\<forall>x \<in> set vs. canonical x (depth' + 1)))
     (decode_items data' offset' n depth')"
  "dict_ok_at depth'' r \<Longrightarrow>
   res_ok decoder_error (\<lambda>(kvs, e). dict_ok_at depth'' kvs \<and> length kvs \<le> length r + n')
     (decode_pairs data'' offset'' n' depth'' r)"
proof (induction data offset depth and data' offset' n depth' and data'' offset'' n' depth'' r
    rule: decode_decode_items_decode_pairs.induct)
  case (1 data offset depth)
  show ?case
  proof (cases "depth > MAX_DEPTH \<or> (\<exists>e. index_at data offset = Inl e)")
    case True
    then show ?thesis using index_at_ok [of data offset] by (auto simp: decode.simps)
  next
    case False
    then obtain b where b: "index_at data offset = Inr b" by (cases "index_at data offset") auto
    from False have d: "depth \<le> MAX_DEPTH" by simp
    define arr where "arr = (\<lambda>start len. if int len > int (length data) - int start
      then Inl (ValueError MALFORMED)
      else rbind (decode_items data start len depth) (\<lambda>(xs, e). Inr (PList xs, e)))"
    define mp where "mp = (\<lambda>start len. if int len * 2 > int (length data) - int start
      then Inl (ValueError MALFORMED)
      else rbind (decode_pairs data start len depth []) (\<lambda>(kvs, e). Inr (PDict kvs, e)))"
    have arr: "res_ok decoder_error (\<lambda>(v, e). canonical v depth) (arr start len)" if "len < 65536" for start len
      using that d b False 1(1) [of b "unat b" start len]
      by (auto simp: arr_def split: prod.splits elim!: res_ok_mono intro!: canonical_list)
    have mp: "res_ok decoder_error (\<lambda>(v, e). canonical v depth) (mp start len)" if "len < 65536" for start len
      using that d b False 1(2) [of b "unat b" arr start len]
      by (auto simp: mp_def arr_def split: prod.splits elim!: res_ok_mono intro!: canonical_dict)
    have short: "unat b mod 16 < 65536" "unat b mod 32 < 65536" "unat c < 65536" for c :: byte
      using mod_less_divisor [of 16 "unat b"] mod_less_divisor [of 32 "unat b"] unat_byte_less [of c]
      by linarith+
    show ?thesis
      unfolding decode.simps [of data offset] b rbind_simps arr_def [symmetric] mp_def [symmetric] Let_def
      using d unat_byte_less [of b]
      by (auto simp: mask_simps arr mp short decode_str_ok decode_bin_ok
          intro!: res_ok_mono [OF unpack_uint_ok] res_ok_mono [OF unpack_sint_ok] res_ok_mono [OF index_at_ok])
  qed
next
  case (3 data offset n depth)
  show ?case
  proof (cases "decode data offset (depth + 1)")
    case (Inl e)
    with 3(1) show ?thesis by simp
  next
    case (Inr vo)
    obtain v o1 where v: "decode data offset (depth + 1) = Inr (v, o1)" using Inr by (cases vo) auto
    from res_ok_InrD [OF 3(1) v] 3(2) [OF v refl] show ?thesis
      using v by (cases "decode_items data o1 n depth") (auto split: prod.splits)
  qed
next
  case (5 data offset n depth result)
  show ?case
  proof (cases "decode data offset (depth + 1)")
    case (Inl e)
    with 5(1) show ?thesis by simp
  next
    case (Inr ko)
    obtain k o1 where k: "decode data offset (depth + 1) = Inr (k, o1)" using Inr by (cases ko) auto
    have ck: "canonical k (depth + 1)" using res_ok_InrD [OF 5(1) k] by simp
    note dv = 5(2) [OF k refl]
    show ?thesis
    proof (cases "decode data o1 (depth + 1)")
      case (Inl e)
      with k dv show ?thesis by simp
    next
      case (Inr vo)
      obtain v o2 where v: "decode data o1 (depth + 1) = Inr (v, o2)" using Inr by (cases vo) auto
      have cv: "canonical v (depth + 1)" using res_ok_InrD [OF dv v] by simp
      show ?thesis
      proof (cases "is_container k")
        case False
        have "dict_ok_at depth (dict_set result k v)"
          using 5(4) False ck cv by (rule dict_ok_at_set)
        from 5(3) [OF k refl v refl False this] dict_set_length [of result k v] show ?thesis
          using k v False by (auto elim!: res_ok_mono)
      qed (use k v in simp)
    qed
  qed
qed simp_all

lemma unpackb_packb: "packb v = Inr bs \<Longrightarrow> unpackb bs = reread v"
  using reads_backD [OF reads_back_all, of v 0 bs "[]" "[]"]
  by (auto simp: packb_def unpackb_def reread_def is_framing_error_def)

lemma unpackb_dicts_ok: "unpackb data = Inr v \<Longrightarrow> dicts_ok v \<and> decoded_form v = v"
proof -
  assume "unpackb data = Inr v"
  then obtain e where "decode data 0 0 = Inr (v, e)"
    by (auto simp: unpackb_def split: sum.splits if_splits prod.splits)
  with decode_ok(1) [of 0 data 0] show ?thesis by (simp add: canonical_def)
qed

lemma unpackb_error: "unpackb data = Inl e \<Longrightarrow> is_ValueError e"
  using decode_ok(1) [of 0 data 0]
  by (cases "decode data 0 0")
     (auto simp: unpackb_def is_ValueError_def decoder_error_def split: if_splits prod.splits)

section \<open>Properties\<close>



text \<open>
  C29. The decoder's contract: on every input it either returns or raises a
  \<open>ValueError\<close> (a Unicode error is one). No \<open>IndexError\<close> or \<open>struct.error\<close> of a
  truncated frame escapes.
\<close>

theorem unpackb_raises_ValueError:
  assumes "unpackb data = Inl e"
  shows "is_ValueError e"
  using assms by (rule unpackb_error)

theorem unpackb_raises_ValueError_witness:
  "unpackb [B 0xcd, B 1] = Inl (ValueError MALFORMED) \<and> is_ValueError (ValueError MALFORMED)"
proof -
  have "unpackb [B 0xcd, B 1] = Inl (ValueError MALFORMED)"
    by (simp add: unpackb_def decode.simps index_at_def unpack_uint_from_def is_framing_error_def MAX_DEPTH_def)
  with unpackb_raises_ValueError [OF this] show ?thesis by simp
qed

text \<open>
  The two halves accept the same values: every value the decoder returns can be
  encoded (its nesting, lengths and integers are inside the supported subset) and the
  re-encoding decodes to the same value, whatever non-minimal form it came in.
\<close>

lemma msgpack_reencode:
  assumes "unpackb data = Inr v"
  shows "\<exists>bs. packb v = Inr bs \<and> unpackb bs = Inr v"
proof -
  from assms obtain e where "decode data 0 0 = Inr (v, e)"
    by (auto simp: unpackb_def split: sum.splits if_splits prod.splits)
  with decode_ok(1) [of 0 data 0] have c: "canonical v 0" by simp
  then obtain bs where "packb v = Inr bs" by (auto simp: canonical_def packb_def)
  moreover have "unpackb bs = Inr v"
    using unpackb_packb [OF \<open>packb v = Inr bs\<close>] c dicts_ok_hashable [of v] by (simp add: reread_def canonical_def)
  ultimately show ?thesis by blast
qed

end
