(* ===== verification/Chu_Program.thy ===== *)
theory Chu_Program
  imports Chu_Prelude
begin

text \<open>
  Methods that change an object and may raise: a program over a state \<open>'s\<close> takes the state
  and returns its result (or the exception) with the state it leaves, so what was written before
  a raise stays written, as in Python. Sequencing, \<^verbatim>\<open>try/except\<close> and \<^verbatim>\<open>for\<close> loops are the
  combinators below; \<open>valid\<close> is the triple the component proofs step through them with. Then
  bounded deques and insertion-ordered dicts as lists. Nothing here models code of the repository.
\<close>

named_theorems keeps_intros \<open>which programs keep an invariant\<close>
named_theorems prog_simps \<open>running a program\<close>

section \<open>Programs\<close>

text \<open>\<^verbatim>\<open>errno.EAGAIN\<close>: the call would block.\<close>

definition EAGAIN :: int where "EAGAIN = 11"


type_synonym ('s, 'a) prog = "'s \<Rightarrow> 'a result \<times> 's"

definition ret :: "'a \<Rightarrow> ('s, 'a) prog" where
  "ret x s = (Inr x, s)"

definition throw :: "exn \<Rightarrow> ('s, 'a) prog" where
  "throw e s = (Inl e, s)"

definition mbind :: "('s, 'a) prog \<Rightarrow> ('a \<Rightarrow> ('s, 'b) prog) \<Rightarrow> ('s, 'b) prog" where
  "mbind m f s = (case m s of (Inl e, s1) \<Rightarrow> (Inl e, s1) | (Inr x, s1) \<Rightarrow> f x s1)"

definition gets :: "('s \<Rightarrow> 'a) \<Rightarrow> ('s, 'a) prog" where
  "gets f s = (Inr (f s), s)"

definition modify :: "('s \<Rightarrow> 's) \<Rightarrow> ('s, unit) prog" where
  "modify f s = (Inr (), f s)"

definition lift :: "'a result \<Rightarrow> ('s, 'a) prog" where
  "lift r s = (r, s)"

definition whenever :: "bool \<Rightarrow> ('s, unit) prog \<Rightarrow> ('s, unit) prog" where
  "whenever b m = (if b then m else ret ())"

definition andThen :: "('s, unit) prog \<Rightarrow> ('s, 'b) prog \<Rightarrow> ('s, 'b) prog" where
  "andThen m n = mbind m (\<lambda>_. n)"

text \<open>\<^verbatim>\<open>except\<close> clauses: the handler gets every exception and raises again what it does not catch.\<close>

definition catch :: "('s, 'a) prog \<Rightarrow> (exn \<Rightarrow> ('s, 'a) prog) \<Rightarrow> ('s, 'a) prog" where
  "catch m h s = (case m s of (Inl e, s1) \<Rightarrow> h e s1 | (Inr x, s1) \<Rightarrow> (Inr x, s1))"

text \<open>\<^verbatim>\<open>try: m finally: f\<close>: an exception of \<open>f\<close> replaces the outcome of \<open>m\<close>.\<close>

definition ensuring :: "('s, 'a) prog \<Rightarrow> ('s, unit) prog \<Rightarrow> ('s, 'a) prog" where
  "ensuring m f s = (case m s of (r, s1) \<Rightarrow> (case f s1 of (Inl e, s2) \<Rightarrow> (Inl e, s2) | (Inr _, s2) \<Rightarrow> (r, s2)))"

text \<open>Reading the state, and an \<^verbatim>\<open>except ...: pass\<close>.\<close>

definition reading :: "('s \<Rightarrow> ('s, 'a) prog) \<Rightarrow> ('s, 'a) prog" where
  "reading f s = f s s"

definition swallow :: "(exn \<Rightarrow> bool) \<Rightarrow> ('s, unit) prog \<Rightarrow> ('s, unit) prog" where
  "swallow caught m = catch m (\<lambda>e. if caught e then ret () else throw e)"

fun for_each :: "('a \<Rightarrow> ('s, unit) prog) \<Rightarrow> 'a list \<Rightarrow> ('s, unit) prog" where
  "for_each f [] = ret ()"
| "for_each f (x # xs) = andThen (f x) (for_each f xs)"

lemma run_simps [simp]:
  "ret x s = (Inr x, s)" "throw e s = (Inl e, s)" "gets f s = (Inr (f s), s)" "modify g s = (Inr (), g s)" "lift r s = (r, s)"
  by (simp_all add: ret_def throw_def gets_def modify_def lift_def)

lemma run_mbind [prog_simps]:
  "mbind m f s = (case m s of (Inl e, s1) \<Rightarrow> (Inl e, s1) | (Inr x, s1) \<Rightarrow> f x s1)"
  by (simp add: mbind_def)

lemma run_andThen [prog_simps]:
  "andThen m n s = (case m s of (Inl e, s1) \<Rightarrow> (Inl e, s1) | (Inr x, s1) \<Rightarrow> n s1)"
  by (simp add: andThen_def mbind_def)

lemma run_catch [prog_simps]:
  "catch m h s = (case m s of (Inl e, s1) \<Rightarrow> h e s1 | (Inr x, s1) \<Rightarrow> (Inr x, s1))"
  by (simp add: catch_def)

lemma run_whenever [prog_simps]: "whenever b m s = (if b then m s else (Inr (), s))"
  by (simp add: whenever_def)

section \<open>Triples\<close>

text \<open>From \<open>P\<close> the program ends in \<open>Q\<close> of its value, or raises in \<open>E\<close> of the exception.\<close>

definition valid :: "('s \<Rightarrow> bool) \<Rightarrow> ('s, 'a) prog \<Rightarrow> ('a \<Rightarrow> 's \<Rightarrow> bool) \<Rightarrow> (exn \<Rightarrow> 's \<Rightarrow> bool) \<Rightarrow> bool" where
  "valid P m Q E \<longleftrightarrow> (\<forall>s. P s \<longrightarrow> (case m s of (Inl e, s1) \<Rightarrow> E e s1 | (Inr x, s1) \<Rightarrow> Q x s1))"

lemma validI: "(\<And>s. P s \<Longrightarrow> case m s of (Inl e, s1) \<Rightarrow> E e s1 | (Inr x, s1) \<Rightarrow> Q x s1) \<Longrightarrow> valid P m Q E"
  by (simp add: valid_def)

lemma validD_Inr: "valid P m Q E \<Longrightarrow> P s \<Longrightarrow> m s = (Inr x, s1) \<Longrightarrow> Q x s1"
  by (force simp: valid_def)

lemma validD_Inl: "valid P m Q E \<Longrightarrow> P s \<Longrightarrow> m s = (Inl e, s1) \<Longrightarrow> E e s1"
  by (force simp: valid_def)

lemma valid_mbind: "valid P m R E \<Longrightarrow> (\<And>x. valid (R x) (f x) Q E) \<Longrightarrow> valid P (mbind m f) Q E"
  by (fastforce simp: valid_def mbind_def split: prod.splits sum.splits)

lemma valid_andThen: "valid P m (\<lambda>_. R) E \<Longrightarrow> valid R n Q E \<Longrightarrow> valid P (andThen m n) Q E"
  unfolding andThen_def by (rule valid_mbind)

lemma valid_weaken:
  "valid P' m Q' E' \<Longrightarrow> (\<And>s. P s \<Longrightarrow> P' s) \<Longrightarrow> (\<And>x s. Q' x s \<Longrightarrow> Q x s) \<Longrightarrow> (\<And>e s. E' e s \<Longrightarrow> E e s) \<Longrightarrow> valid P m Q E"
  by (fastforce simp: valid_def split: prod.splits sum.splits)

lemma valid_catch:
  "valid P m Q R \<Longrightarrow> (\<And>e. valid (R e) (h e) Q E) \<Longrightarrow> valid P (catch m h) Q E"
  by (fastforce simp: valid_def catch_def split: prod.splits sum.splits)

section \<open>Invariants\<close>

text \<open>The program keeps \<open>I\<close>, whether it returns or raises.\<close>

definition keeps :: "('s \<Rightarrow> bool) \<Rightarrow> ('s, 'a) prog \<Rightarrow> bool" where
  "keeps I m \<longleftrightarrow> (\<forall>s. I s \<longrightarrow> I (snd (m s)))"

lemma keepsD: "keeps I m \<Longrightarrow> I s \<Longrightarrow> m s = (r, s1) \<Longrightarrow> I s1"
  by (metis keeps_def snd_conv)

lemma keepsI: "(\<And>s. I s \<Longrightarrow> I (snd (m s))) \<Longrightarrow> keeps I m"
  by (simp add: keeps_def)

lemma keeps_basic [simp, keeps_intros]: "keeps I (ret x)" "keeps I (throw e)" "keeps I (gets f)" "keeps I (lift r)"
  by (simp_all add: keeps_def)

lemma keeps_mbind [keeps_intros]: "keeps I m \<Longrightarrow> (\<And>x. keeps I (f x)) \<Longrightarrow> keeps I (mbind m f)"
  by (auto simp: keeps_def mbind_def split: prod.split sum.split)

lemma keeps_andThen [keeps_intros]: "keeps I m \<Longrightarrow> keeps I n \<Longrightarrow> keeps I (andThen m n)"
  unfolding andThen_def by (rule keeps_mbind)

lemma keeps_if [keeps_intros]: "(b \<Longrightarrow> keeps I m) \<Longrightarrow> (\<not> b \<Longrightarrow> keeps I n) \<Longrightarrow> keeps I (if b then m else n)"
  by simp

lemma keeps_whenever [keeps_intros]: "(b \<Longrightarrow> keeps I m) \<Longrightarrow> keeps I (whenever b m)"
  by (simp add: whenever_def)

lemma keeps_catch [keeps_intros]: "keeps I m \<Longrightarrow> (\<And>e. keeps I (h e)) \<Longrightarrow> keeps I (catch m h)"
  by (auto simp: keeps_def catch_def split: prod.split sum.split)

lemma keeps_option [keeps_intros]:
  "(x = None \<Longrightarrow> keeps I m) \<Longrightarrow> (\<And>y. x = Some y \<Longrightarrow> keeps I (f y)) \<Longrightarrow> keeps I (case x of None \<Rightarrow> m | Some y \<Rightarrow> f y)"
  by (cases x) auto

lemma keeps_Let [keeps_intros]: "(\<And>y. y = x \<Longrightarrow> keeps I (f y)) \<Longrightarrow> keeps I (Let x f)"
  by simp

lemma keeps_prod [keeps_intros]: "(\<And>a b. x = (a, b) \<Longrightarrow> keeps I (f a b)) \<Longrightarrow> keeps I (case x of (a, b) \<Rightarrow> f a b)"
  by (cases x) auto

lemma keeps_for_each [keeps_intros]: "(\<And>x. x \<in> set xs \<Longrightarrow> keeps I (f x)) \<Longrightarrow> keeps I (for_each f xs)"
  by (induction xs) (auto intro: keeps_intros)

lemma keeps_modify: "(\<And>s. I s \<Longrightarrow> I (f s)) \<Longrightarrow> keeps I (modify f)"
  by (simp add: keeps_def)

lemma keeps_reading: "(\<And>c. I c \<Longrightarrow> I (snd (f c c))) \<Longrightarrow> keeps I (reading f)"
  by (simp add: keeps_def reading_def)

lemma keeps_reading_any [keeps_intros]: "(\<And>c. keeps I (f c)) \<Longrightarrow> keeps I (reading f)"
  by (simp add: keeps_def reading_def)

lemma keeps_swallow [keeps_intros]: "keeps I m \<Longrightarrow> keeps I (swallow P m)"
  unfolding swallow_def by (intro keeps_intros)

lemma keeps_reading_inv [keeps_intros]: "(\<And>c. I c \<Longrightarrow> keeps I (f c)) \<Longrightarrow> keeps I (reading f)"
  by (simp add: keeps_def reading_def)

lemma keeps_lift: "(\<And>x. r = Inr x \<Longrightarrow> keeps I (f x)) \<Longrightarrow> keeps I (mbind (lift r) f)"
  by (cases r) (auto simp: keeps_def mbind_def)

lemma keeps_post:
  "valid I m (\<lambda>x s. I s \<and> P x) (\<lambda>_. I) \<Longrightarrow> (\<And>x. P x \<Longrightarrow> keeps I (f x)) \<Longrightarrow> keeps I (mbind m f)"
  by (fastforce simp: valid_def keeps_def mbind_def split: prod.splits sum.splits)

lemma keeps_valid: "keeps I m \<Longrightarrow> (\<And>s. I s \<Longrightarrow> J s) \<Longrightarrow> valid I m (\<lambda>_. I) (\<lambda>_. J)"
  by (fastforce simp: keeps_def valid_def split: prod.splits sum.splits)

lemma valid_reading: "(\<And>c. valid P (f c) Q E) \<Longrightarrow> valid P (reading f) Q E"
  by (simp add: valid_def reading_def)

lemma keeps_snd: "keeps I m \<Longrightarrow> I s \<Longrightarrow> I (snd (m s))"
  by (simp add: keeps_def)

lemma keeps_ensuring [keeps_intros]: "keeps I m \<Longrightarrow> keeps I f \<Longrightarrow> keeps I (ensuring m f)"
  by (fastforce simp: keeps_def ensuring_def split: prod.split sum.split)

section \<open>Deques and dicts\<close>

text \<open>\<^verbatim>\<open>collections.deque\<close> with a \<^verbatim>\<open>maxlen\<close>: adding to a full one drops an item at the other end.\<close>

definition deque_append :: "nat \<Rightarrow> 'a list \<Rightarrow> 'a \<Rightarrow> 'a list" where
  "deque_append maxlen q x = drop (length q + 1 - maxlen) (q @ [x])"

definition deque_appendleft :: "nat \<Rightarrow> 'a list \<Rightarrow> 'a \<Rightarrow> 'a list" where
  "deque_appendleft maxlen q x = take maxlen (x # q)"

lemma deque_append_room: "length q < maxlen \<Longrightarrow> deque_append maxlen q x = q @ [x]"
  by (simp add: deque_append_def)

lemma deque_appendleft_room: "length q < maxlen \<Longrightarrow> deque_appendleft maxlen q x = x # q"
  by (simp add: deque_appendleft_def)

lemma deque_append_bound: "length q \<le> maxlen \<Longrightarrow> length (deque_append maxlen q x) \<le> maxlen"
  by (auto simp: deque_append_def)

text \<open>An insertion-ordered dict is a list of pairs with distinct keys.\<close>

definition dict_pop :: "'k \<Rightarrow> ('k \<times> 'v) list \<Rightarrow> ('k \<times> 'v) list" where
  "dict_pop k d = filter (\<lambda>(k', _). k' \<noteq> k) d"

fun dict_put :: "'k \<Rightarrow> 'v \<Rightarrow> ('k \<times> 'v) list \<Rightarrow> ('k \<times> 'v) list" where
  "dict_put k v [] = [(k, v)]"
| "dict_put k v ((k', v') # d) = (if k = k' then (k, v) # d else (k', v') # dict_put k v d)"

lemma map_of_dict_put [simp]: "map_of (dict_put k v d) = (map_of d)(k \<mapsto> v)"
  by (induction k v d rule: dict_put.induct) auto

lemma keys_dict_put: "map fst (dict_put k v d) = (if k \<in> fst ` set d then map fst d else map fst d @ [k])"
  by (induction k v d rule: dict_put.induct) auto

lemma distinct_dict_put: "distinct (map fst d) \<Longrightarrow> distinct (map fst (dict_put k v d))"
  by (auto simp: keys_dict_put)

lemma map_of_dict_pop [simp]: "map_of (dict_pop k d) = (map_of d)(k := None)"
  by (induction d) (auto simp: dict_pop_def)

lemma distinct_dict_pop: "distinct (map fst d) \<Longrightarrow> distinct (map fst (dict_pop k d))"
  by (simp add: dict_pop_def distinct_map_filter)

lemma set_dict_pop: "set (dict_pop k d) = {p \<in> set d. fst p \<noteq> k}"
  by (auto simp: dict_pop_def)

lemma set_dict_put: "p \<in> set (dict_put k v d) \<Longrightarrow> p = (k, v) \<or> p \<in> set d"
  by (induction k v d rule: dict_put.induct) (auto split: if_splits)

lemma dict_put_fresh: "k \<notin> fst ` set d \<Longrightarrow> dict_put k v d = d @ [(k, v)]"
  by (induction k v d rule: dict_put.induct) auto

lemma dict_pop_fresh: "k \<notin> fst ` set d \<Longrightarrow> dict_pop k (d @ [(k, v)]) = d"
  by (force simp: dict_pop_def filter_id_conv)

end
