(* ===== verification/Chu_Text.thy ===== *)
theory Chu_Text
  imports Chu_Prelude
begin

text \<open>
  The parts of Python's string and binary library the HTTP layers use: case folding, stripping,
  searching and splitting of text, \<^verbatim>\<open>int()\<close>, the ASCII and Latin-1 codecs, base64 and SHA-1. Text
  that comes off the wire is Latin-1, and on it these agree with CPython; code points above 255 are
  left alone by \<open>py_lower\<close> and \<open>py_strip\<close>. Nothing here models code of the repository.
\<close>

section \<open>Text\<close>

definition lower_char :: "nat \<Rightarrow> nat" where
  "lower_char c = (if 65 \<le> c \<and> c \<le> 90 \<or> 192 \<le> c \<and> c \<le> 222 \<and> c \<noteq> 215 then c + 32 else c)"

definition py_lower :: "pystr \<Rightarrow> pystr" where
  "py_lower s = map lower_char s"

definition is_space :: "nat \<Rightarrow> bool" where
  "is_space c \<longleftrightarrow> 9 \<le> c \<and> c \<le> 13 \<or> 28 \<le> c \<and> c \<le> 32 \<or> c = 133 \<or> c = 160"

definition py_strip :: "pystr \<Rightarrow> pystr" where
  "py_strip s = rev (dropWhile is_space (rev (dropWhile is_space s)))"

text \<open>\<^verbatim>\<open>s.find(c)\<close> for one character.\<close>

fun find_char :: "nat \<Rightarrow> pystr \<Rightarrow> nat option" where
  "find_char c [] = None"
| "find_char c (x # xs) = (if x = c then Some 0 else map_option Suc (find_char c xs))"

text \<open>\<^verbatim>\<open>s.split(sep)\<close> for one character, and \<^verbatim>\<open>s.split(sep, n)\<close>.\<close>

fun split_on :: "nat \<Rightarrow> pystr \<Rightarrow> pystr list" where
  "split_on c [] = [[]]"
| "split_on c (x # xs) = (if x = c then [] # split_on c xs
     else (case split_on c xs of [] \<Rightarrow> [[x]] | h # t \<Rightarrow> (x # h) # t))"

fun split_max :: "nat \<Rightarrow> nat \<Rightarrow> pystr \<Rightarrow> pystr list" where
  "split_max 0 c s = [s]"
| "split_max (Suc n) c s = (case find_char c s of None \<Rightarrow> [s] | Some i \<Rightarrow> take i s # split_max n c (drop (i + 1) s))"

definition starts_with :: "'a list \<Rightarrow> 'a list \<Rightarrow> bool" where
  "starts_with s p \<longleftrightarrow> take (length p) s = p"

text \<open>\<^verbatim>\<open>p in s\<close>.\<close>

fun has_substring :: "'a list \<Rightarrow> 'a list \<Rightarrow> bool" where
  "has_substring p [] = (p = [])"
| "has_substring p (x # xs) = (starts_with (x # xs) p \<or> has_substring p xs)"

section \<open>Integers\<close>

definition is_digit :: "nat \<Rightarrow> bool" where
  "is_digit c \<longleftrightarrow> 48 \<le> c \<and> c \<le> 57"

text \<open>Digits with single underscores between them.\<close>

fun digits_value :: "int \<Rightarrow> pystr \<Rightarrow> int option" where
  "digits_value acc [] = Some acc"
| "digits_value acc (c # cs) =
     (if is_digit c then digits_value (acc * 10 + (int c - 48)) cs
      else if c = 95 then (case cs of d # _ \<Rightarrow> if is_digit d then digits_value acc cs else None | [] \<Rightarrow> None)
      else None)"

definition py_int :: "pystr \<Rightarrow> int result" where
  "py_int s = (let t = py_strip s; (sg, ds) = (case t of
       c # r \<Rightarrow> if c = 45 then (-1, r) else if c = 43 then (1, r) else (1, t) | [] \<Rightarrow> (1, [])) in
     case ds of
       [] \<Rightarrow> Inl (ValueError ''invalid literal for int()'')
     | d # _ \<Rightarrow> if is_digit d
         then (case digits_value 0 ds of None \<Rightarrow> Inl (ValueError ''invalid literal for int()'') | Some n \<Rightarrow> Inr (sg * n))
         else Inl (ValueError ''invalid literal for int()''))"

fun nat_digits :: "nat \<Rightarrow> pystr" where
  "nat_digits n = (if n < 10 then [48 + n] else nat_digits (n div 10) @ [48 + n mod 10])"

declare nat_digits.simps [simp del]

text \<open>\<^verbatim>\<open>str(n)\<close>.\<close>

definition py_str :: "int \<Rightarrow> pystr" where
  "py_str n = (if n < 0 then 45 # nat_digits (nat (- n)) else nat_digits (nat n))"

section \<open>ASCII and Latin-1\<close>

definition ascii_encode :: "pystr \<Rightarrow> byte list result" where
  "ascii_encode s = (if \<forall>c \<in> set s. c < 128 then Inr (map B s) else Inl UnicodeEncodeError)"

definition ascii_decode :: "byte list \<Rightarrow> pystr result" where
  "ascii_decode bs = (if \<forall>b \<in> set bs. unat b < 128 then Inr (map unat bs) else Inl UnicodeDecodeError)"

definition latin1_decode :: "byte list \<Rightarrow> pystr" where
  "latin1_decode bs = map unat bs"

section \<open>Base64\<close>

definition b64_char :: "nat \<Rightarrow> byte" where
  "b64_char n = B (if n < 26 then 65 + n else if n < 52 then 71 + n else if n < 62 then n - 4 else if n = 62 then 43 else 47)"

definition b64_value :: "byte \<Rightarrow> nat option" where
  "b64_value b = (let c = unat b in
     if 65 \<le> c \<and> c \<le> 90 then Some (c - 65)
     else if 97 \<le> c \<and> c \<le> 122 then Some (c - 71)
     else if 48 \<le> c \<and> c \<le> 57 then Some (c + 4)
     else if c = 43 then Some 62 else if c = 47 then Some 63 else None)"

fun b64_groups :: "byte list \<Rightarrow> byte list" where
  "b64_groups [] = []"
| "b64_groups [a] = [b64_char (unat a div 4), b64_char (unat a mod 4 * 16), B 61, B 61]"
| "b64_groups [a, b] = [b64_char (unat a div 4), b64_char (unat a mod 4 * 16 + unat b div 16), b64_char (unat b mod 16 * 4), B 61]"
| "b64_groups (a # b # c # r) = b64_char (unat a div 4) # b64_char (unat a mod 4 * 16 + unat b div 16)
     # b64_char (unat b mod 16 * 4 + unat c div 64) # b64_char (unat c mod 64) # b64_groups r"

text \<open>\<^verbatim>\<open>binascii.b2a_base64\<close>: with its newline.\<close>

definition b2a_base64 :: "byte list \<Rightarrow> byte list" where
  "b2a_base64 bs = b64_groups bs @ [B 10]"

text \<open>
  \<^verbatim>\<open>binascii.a2b_base64\<close>, not strict: characters outside the alphabet are skipped, padding that
  completes a quad ends the data. Position in the quad, pads seen, bits carried, output.
\<close>

fun a2b_loop :: "nat \<Rightarrow> nat \<Rightarrow> nat \<Rightarrow> byte list \<Rightarrow> byte list \<Rightarrow> byte list result" where
  "a2b_loop quad pads carry out [] = (if quad = 0 then Inr out else Inl (ValueError ''Incorrect padding''))"
| "a2b_loop quad pads carry out (b # bs) =
     (if b = B 61 then
        (if quad \<ge> 2 \<and> quad + pads + 1 \<ge> 4 then Inr out
         else a2b_loop quad (if quad \<ge> 2 then pads + 1 else pads) carry out bs)
      else case b64_value b of
          None \<Rightarrow> a2b_loop quad pads carry out bs
        | Some v \<Rightarrow>
            if quad = 0 then a2b_loop 1 0 v out bs
            else if quad = 1 then a2b_loop 2 0 (v mod 16) (out @ [B (carry * 4 + v div 16)]) bs
            else if quad = 2 then a2b_loop 3 0 (v mod 4) (out @ [B (carry * 16 + v div 4)]) bs
            else a2b_loop 0 0 0 (out @ [B (carry * 64 + v)]) bs)"

definition a2b_base64 :: "byte list \<Rightarrow> byte list result" where
  "a2b_base64 bs = a2b_loop 0 0 0 [] bs"

text \<open>\<^verbatim>\<open>bs.rstrip(c)\<close>.\<close>

definition rstrip_byte :: "byte \<Rightarrow> byte list \<Rightarrow> byte list" where
  "rstrip_byte c bs = rev (dropWhile (\<lambda>b. b = c) (rev bs))"

section \<open>SHA-1\<close>

type_synonym sha1_state = "32 word \<times> 32 word \<times> 32 word \<times> 32 word \<times> 32 word"

definition word_of_bytes :: "byte \<Rightarrow> byte \<Rightarrow> byte \<Rightarrow> byte \<Rightarrow> 32 word" where
  "word_of_bytes a b c d = push_bit 24 (ucast a) OR push_bit 16 (ucast b) OR push_bit 8 (ucast c) OR ucast d"

definition bytes_of_word :: "32 word \<Rightarrow> byte list" where
  "bytes_of_word w = [ucast (drop_bit 24 w), ucast (drop_bit 16 w), ucast (drop_bit 8 w), ucast w]"

definition sha1_pad :: "byte list \<Rightarrow> byte list" where
  "sha1_pad m = m @ [0x80] @ replicate ((119 - length m mod 64) mod 64) 0 @ be_bytes 8 (8 * length m)"

fun schedule :: "nat \<Rightarrow> 32 word list \<Rightarrow> 32 word list" where
  "schedule 0 ws = ws"
| "schedule (Suc n) ws = (let t = length ws in
     schedule n (ws @ [word_rotl 1 (ws ! (t - 3) XOR ws ! (t - 8) XOR ws ! (t - 14) XOR ws ! (t - 16))]))"

definition sha1_round :: "nat \<Rightarrow> 32 word \<Rightarrow> sha1_state \<Rightarrow> sha1_state" where
  "sha1_round t w s = (case s of (a, b, c, d, e) \<Rightarrow>
     let (f, k) = (if t < 20 then ((b AND c) OR ((NOT b) AND d), 0x5A827999)
       else if t < 40 then (b XOR c XOR d, 0x6ED9EBA1)
       else if t < 60 then ((b AND c) OR (b AND d) OR (c AND d), 0x8F1BBCDC)
       else (b XOR c XOR d, 0xCA62C1D6))
     in (word_rotl 5 a + f + e + k + w, a, word_rotl 30 b, c, d))"

fun sha1_rounds :: "nat \<Rightarrow> 32 word list \<Rightarrow> sha1_state \<Rightarrow> sha1_state" where
  "sha1_rounds t [] s = s"
| "sha1_rounds t (w # ws) s = sha1_rounds (t + 1) ws (sha1_round t w s)"

fun words_of :: "byte list \<Rightarrow> 32 word list" where
  "words_of (a # b # c # d # r) = word_of_bytes a b c d # words_of r"
| "words_of _ = []"

definition sha1_block :: "sha1_state \<Rightarrow> byte list \<Rightarrow> sha1_state" where
  "sha1_block h block = (case (h, sha1_rounds 0 (schedule 64 (words_of block)) h) of
     ((a, b, c, d, e), (a', b', c', d', e')) \<Rightarrow> (a + a', b + b', c + c', d + d', e + e'))"

fun sha1_blocks :: "nat \<Rightarrow> sha1_state \<Rightarrow> byte list \<Rightarrow> sha1_state" where
  "sha1_blocks 0 h bs = h"
| "sha1_blocks (Suc n) h bs = sha1_blocks n (sha1_block h (take 64 bs)) (drop 64 bs)"

definition sha1_digest :: "byte list \<Rightarrow> byte list" where
  "sha1_digest m = (let p = sha1_pad m in
     case sha1_blocks (length p div 64) (0x67452301, 0xEFCDAB89, 0x98BADCFE, 0x10325476, 0xC3D2E1F0) p of
       (a, b, c, d, e) \<Rightarrow> concat (map bytes_of_word [a, b, c, d, e]))"

lemma length_sha1_digest [simp]: "length (sha1_digest m) = 20"
  by (simp add: sha1_digest_def bytes_of_word_def Let_def split: prod.split)



section \<open>Round trips\<close>

lemma b64_value_char: "n < 64 \<Longrightarrow> b64_value (b64_char n) = Some n"
  by (auto simp: b64_value_def b64_char_def Let_def)

lemma b64_char_not_pad: "n < 64 \<Longrightarrow> b64_char n \<noteq> B 61"
  by (auto simp: b64_char_def B_eq_iff)

lemma byte_split: "unat (a :: byte) div 4 * 4 + unat a mod 4 = unat a" "unat a div 16 * 16 + unat a mod 16 = unat a"
  "unat a div 64 * 64 + unat a mod 64 = unat a"
  by simp_all

lemma digit_split: "y < k \<Longrightarrow> (x * k + y) div k = x" "y < k \<Longrightarrow> (x * k + y) mod k = y" for x y k :: nat
  by (simp_all add: div_mult_self1 add.commute)

lemma a2b_groups: "a2b_loop 0 0 0 out (b64_groups bs) = Inr (out @ bs)"
proof (induction bs arbitrary: out rule: b64_groups.induct)
  case (2 a)
  have "unat a div 4 < 64" "unat a mod 4 * 16 < 64" using unat_byte_less [of a] by linarith+
  moreover have "unat a div 4 * 4 + unat a mod 4 * 16 div 16 = unat a" by simp
  ultimately show ?case by (simp add: b64_value_char b64_char_not_pad)
next
  case (3 a b)
  have l: "unat a div 4 < 64" "unat a mod 4 * 16 + unat b div 16 < 64" "unat b mod 16 * 4 < 64"
    using unat_byte_less [of a] unat_byte_less [of b] by linarith+
  have "unat b div 16 < 16" using unat_byte_less [of b] by linarith
  then show ?case using digit_split [of "unat b div 16" 16 "unat a mod 4"] l byte_split [of a] byte_split [of b]
    by (simp add: b64_value_char b64_char_not_pad)
next
  case (4 a b c r)
  have l: "unat a div 4 < 64" "unat a mod 4 * 16 + unat b div 16 < 64" "unat b mod 16 * 4 + unat c div 64 < 64" "unat c mod 64 < 64"
    using unat_byte_less [of a] unat_byte_less [of b] unat_byte_less [of c] by linarith+
  have "unat b div 16 < 16" "unat c div 64 < 4" using unat_byte_less [of b] unat_byte_less [of c] by linarith+
  then show ?case using digit_split [of "unat b div 16" 16 "unat a mod 4"] digit_split [of "unat c div 64" 4 "unat b mod 16"] l byte_split [of a] byte_split [of b] byte_split [of c] 4
    by (simp add: b64_value_char b64_char_not_pad)
qed simp

lemma a2b_b64_groups [simp]: "a2b_base64 (b64_groups bs) = Inr bs"
  by (simp add: a2b_base64_def a2b_groups)

definition b64_ascii :: "byte \<Rightarrow> bool" where
  "b64_ascii b \<longleftrightarrow> unat b < 128 \<and> \<not> is_space (unat b) \<and> unat b \<notin> {10, 13}"

lemma b64_char_ascii: "n < 64 \<Longrightarrow> b64_ascii (b64_char n)"
  by (auto simp: b64_ascii_def b64_char_def is_space_def)

lemma b64_groups_ascii: "\<forall>b \<in> set (b64_groups bs). b64_ascii b"
proof (induction bs rule: b64_groups.induct)
  case (2 a)
  have "unat a div 4 < 64" "unat a mod 4 * 16 < 64" using unat_byte_less [of a] by linarith+
  then show ?case by (auto simp: b64_char_ascii) (auto simp: b64_ascii_def is_space_def)
next
  case (3 a b)
  have "unat a div 4 < 64" "unat a mod 4 * 16 + unat b div 16 < 64" "unat b mod 16 * 4 < 64"
    using unat_byte_less [of a] unat_byte_less [of b] by linarith+
  then show ?case by (auto simp: b64_char_ascii) (auto simp: b64_ascii_def is_space_def)
next
  case (4 a b c r)
  have "unat a div 4 < 64" "unat a mod 4 * 16 + unat b div 16 < 64" "unat b mod 16 * 4 + unat c div 64 < 64" "unat c mod 64 < 64"
    using unat_byte_less [of a] unat_byte_less [of b] unat_byte_less [of c] by linarith+
  then show ?case using 4 by (auto simp: b64_char_ascii)
qed simp

lemma rstrip_byte_id: "c \<notin> set bs \<Longrightarrow> rstrip_byte c bs = bs" "rstrip_byte c (bs @ [c]) = rstrip_byte c bs"
  by (auto simp: rstrip_byte_def dropWhile_eq_self_iff rev_swap)
    (metis dropWhile_eq_self_iff hd_in_set rev_is_Nil_conv rev_rev_ident set_rev)

lemma nat_digits_ok: "n = n \<Longrightarrow> nat_digits n \<noteq> [] \<and> (\<forall>c \<in> set (nat_digits n). is_digit c)"
proof (induction n rule: nat_digits.induct)
  case (1 n)
  show ?case
  proof (cases "n < 10")
    case True
    then show ?thesis by (subst (1 2) nat_digits.simps) (simp add: is_digit_def)
  next
    case False
    then show ?thesis using 1 by (subst (1 2) nat_digits.simps) (auto simp: is_digit_def)
  qed
qed

lemma digits_value_append: "\<forall>c \<in> set ds. is_digit c \<Longrightarrow> digits_value a (ds @ ds') = digits_value (foldl (\<lambda>a c. a * 10 + (int c - 48)) a ds) ds'"
  by (induction ds arbitrary: a) auto

lemma foldl_nat_digits: "foldl (\<lambda>a c. a * 10 + (int c - 48)) 0 (nat_digits n) = int n"
proof (induction n rule: nat_digits.induct)
  case (1 n)
  then show ?case by (cases "n < 10") (simp_all add: nat_digits.simps [of n] zdiv_int zmod_int)
qed

lemma py_strip_id: "(\<And>c. c \<in> set s \<Longrightarrow> \<not> is_space c) \<Longrightarrow> py_strip s = s"
proof -
  assume a: "\<And>c. c \<in> set s \<Longrightarrow> \<not> is_space c"
  have "dropWhile is_space t = t" if "set t \<subseteq> set s" for t
    using that a by (cases t) auto
  then show ?thesis by (simp add: py_strip_def)
qed

lemma py_strip_leading: "py_strip s = s \<Longrightarrow> py_strip (32 # s) = s"
  by (simp add: py_strip_def is_space_def)

lemma py_int_py_str: "0 \<le> n \<Longrightarrow> py_int (py_str n) = Inr n"
proof -
  assume n: "0 \<le> n"
  let ?d = "nat_digits (nat n)"
  have d: "?d \<noteq> []" "\<forall>c \<in> set ?d. is_digit c" using nat_digits_ok by blast+
  have strip: "py_strip ?d = ?d" using d by (intro py_strip_id) (auto simp: is_digit_def is_space_def)
  have v: "digits_value 0 ?d = Some n"
    using digits_value_append [OF d(2), of 0 "[]"] foldl_nat_digits [of "nat n"] n by simp
  obtain c r where cr: "?d = c # r" using d(1) by (cases ?d) auto
  have c: "is_digit c" "c \<noteq> 45" "c \<noteq> 43" using d(2) unfolding cr by (auto simp: is_digit_def)
  show ?thesis using n strip v c unfolding py_int_def py_str_def cr by (simp add: Let_def del: digits_value.simps)
qed

lemma find_char_append: "c \<notin> set s \<Longrightarrow> find_char c (s @ c # r) = Some (length s)" "c \<notin> set s \<Longrightarrow> find_char c s = None"
  by (induction s) auto

lemma find_char_Some: "find_char c s = Some i \<Longrightarrow> i < length s \<and> s ! i = c \<and> c \<notin> set (take i s)"
  by (induction s arbitrary: i) (auto split: if_splits simp: nth_Cons')

lemma find_char_None: "find_char c s = None \<longleftrightarrow> c \<notin> set s"
  by (induction s) auto

lemma split_on_append: "c \<notin> set s \<Longrightarrow> split_on c (s @ c # r) = s # split_on c r" "c \<notin> set s \<Longrightarrow> split_on c s = [s]"
  by (induction s) auto

lemma starts_with_append [simp]: "starts_with (p @ s) p"
  by (simp add: starts_with_def)

lemma ascii_encode_Inr: "ascii_encode s = Inr bs \<longleftrightarrow> (\<forall>c \<in> set s. c < 128) \<and> bs = map B s"
  by (auto simp: ascii_encode_def)

lemma map_unat_B: "(\<And>c. c \<in> set s \<Longrightarrow> c < 256) \<Longrightarrow> map (unat \<circ> B) s = s"
  by (rule map_idI) simp

lemma ascii_decode_B: "\<forall>c \<in> set s. c < 128 \<Longrightarrow> ascii_decode (map B s) = Inr s"
  by (auto simp: ascii_decode_def intro!: map_idI)

end
