(* ===== verification/Mqtt_Codec.thy ===== *)
theory Mqtt_Codec
  imports Chu_Text
begin

text \<open>
  The stateless half of \<^verbatim>\<open>libraries/mqtt/src/chumicro_mqtt/_wire.py\<close>: packet type
  constants, the variable-length integer, topic matching and the packet encoders.
  An argument the code accepts as \<^verbatim>\<open>str\<close> or \<^verbatim>\<open>bytes\<close> is a \<open>text_or_bytes\<close>. A
  keyword the code defaults is an ordinary argument here.
\<close>

section \<open>Packet types\<close>

definition PACKET_CONNECT :: nat where "PACKET_CONNECT = 0x10"
definition PACKET_CONNACK :: nat where "PACKET_CONNACK = 0x20"
definition PACKET_PUBLISH :: nat where "PACKET_PUBLISH = 0x30"
definition PACKET_PUBACK :: nat where "PACKET_PUBACK = 0x40"
definition PACKET_SUBSCRIBE :: nat where "PACKET_SUBSCRIBE = 0x82"
definition PACKET_SUBACK :: nat where "PACKET_SUBACK = 0x90"
definition PACKET_UNSUBSCRIBE :: nat where "PACKET_UNSUBSCRIBE = 0xA2"
definition PACKET_UNSUBACK :: nat where "PACKET_UNSUBACK = 0xB0"
definition PACKET_PINGRESP :: nat where "PACKET_PINGRESP = 0xD0"
definition PACKET_PINGREQ :: "byte list" where "PACKET_PINGREQ = [B 0xc0, B 0x00]"
definition PACKET_DISCONNECT :: "byte list" where "PACKET_DISCONNECT = [B 0xe0, B 0x00]"

lemmas packet_consts = PACKET_CONNECT_def PACKET_CONNACK_def PACKET_PUBLISH_def PACKET_PUBACK_def
  PACKET_SUBSCRIBE_def PACKET_SUBACK_def PACKET_UNSUBSCRIBE_def PACKET_UNSUBACK_def PACKET_PINGRESP_def

section \<open>Variable-length integers\<close>

function varlen_loop :: "nat \<Rightarrow> byte list" where
  "varlen_loop value =
     (let digit = value AND 0x7F; value' = drop_bit 7 value in
      if value' > 0 then B (digit OR 0x80) # varlen_loop value' else [B digit])"
  by pat_completeness auto
termination
  by (relation "measure id") (auto simp: drop_bit_eq_div div_greater_zero_iff)

declare varlen_loop.simps [simp del]

definition encode_varlen :: "int \<Rightarrow> byte list result" where
  "encode_varlen value =
     (if value < 0 \<or> value > 268435455 then Inl (ValueError ''varlen value out of MQTT range'')
      else Inr (varlen_loop (nat value)))"

text \<open>The \<^verbatim>\<open>for consumed in range(4)\<close> loop, with the iterations left as first argument.\<close>

fun decode_varlen_loop ::
    "nat \<Rightarrow> byte list \<Rightarrow> nat \<Rightarrow> nat \<Rightarrow> nat \<Rightarrow> nat \<Rightarrow> nat \<Rightarrow> (nat \<times> nat) result" where
  "decode_varlen_loop 0 buffer start_index limit consumed value shift =
     Inl (MQTTProtocolError ''varlen exceeds 4 bytes (malformed)'')"
| "decode_varlen_loop (Suc k) buffer start_index limit consumed value shift =
     (let offset = start_index + consumed in
      if offset \<ge> limit then Inr (0, 0)
      else rbind (index_at buffer offset) (\<lambda>b.
        let digit = unat b; value' = value OR push_bit shift (digit AND 0x7F) in
        if digit AND 0x80 = 0 then Inr (value', consumed + 1)
        else decode_varlen_loop k buffer start_index limit (consumed + 1) value' (shift + 7)))"

definition decode_varlen :: "byte list \<Rightarrow> nat \<Rightarrow> nat option \<Rightarrow> (nat \<times> nat) result" where
  "decode_varlen buffer start_index limit =
     decode_varlen_loop 4 buffer start_index
       (case limit of None \<Rightarrow> length buffer | Some l \<Rightarrow> l) 0 0 0"

section \<open>Strings and topics\<close>

datatype text_or_bytes = Text pystr | Raw "byte list"

definition as_bytes :: "text_or_bytes \<Rightarrow> byte list result" where
  "as_bytes v = (case v of Text s \<Rightarrow> utf8_encode s | Raw b \<Rightarrow> Inr b)"

definition append_packed_h :: "byte list \<Rightarrow> int \<Rightarrow> byte list result" where
  "append_packed_h buffer value = rbind (pack_uint 2 value) (\<lambda>p. Inr (buffer @ p))"

definition append_string :: "byte list \<Rightarrow> text_or_bytes \<Rightarrow> byte list result" where
  "append_string buffer value =
     rbind (as_bytes value) (\<lambda>v. rbind (append_packed_h buffer (int (length v))) (\<lambda>b. Inr (b @ v)))"

abbreviation slash :: nat where "slash \<equiv> 47"
definition hash_level :: pystr where "hash_level = ustr ''#''"
definition plus_level :: pystr where "plus_level = ustr ''+''"

function match_levels :: "pystr list \<Rightarrow> pystr list \<Rightarrow> nat \<Rightarrow> bool" where
  "match_levels topic_levels pattern_levels index =
     (if index < length pattern_levels then
        let pattern_level = pattern_levels ! index in
        if pattern_level = hash_level then index = length pattern_levels - 1
        else if pattern_level = plus_level then
          (if index \<ge> length topic_levels then False
           else match_levels topic_levels pattern_levels (index + 1))
        else if index \<ge> length topic_levels \<or> pattern_level \<noteq> topic_levels ! index then False
        else match_levels topic_levels pattern_levels (index + 1)
      else length pattern_levels = length topic_levels)"
  by pat_completeness auto
termination
  by (relation "measure (\<lambda>(t, p, i). length p - i)") auto

declare match_levels.simps [simp del]

definition topic_matches :: "pystr \<Rightarrow> pystr \<Rightarrow> bool" where
  "topic_matches topic pattern = match_levels (split_on slash topic) (split_on slash pattern) 0"

section \<open>Encoders\<close>

definition CONNECT_PROTOCOL_PREFIX :: "byte list" where
  "CONNECT_PROTOCOL_PREFIX = [B 0, B 4, B 0x4D, B 0x51, B 0x54, B 0x54, B 4]"

text \<open>\<^verbatim>\<open>bytearray((packet_type,))\<close> raises for a value that is not a byte.\<close>

definition finalize_packet :: "int \<Rightarrow> byte list \<Rightarrow> byte list result" where
  "finalize_packet packet_type body =
     (if 0 \<le> packet_type \<and> packet_type < 256 then
        rbind (encode_varlen (int (length body))) (\<lambda>v. Inr (B (nat packet_type) # v @ body))
      else Inl (ValueError ''byte must be in range(0, 256)''))"

record connect_args =
  ca_client_id :: text_or_bytes
  ca_keep_alive_seconds :: int
  ca_clean_session :: bool
  ca_username :: "text_or_bytes option"
  ca_password :: "text_or_bytes option"
  ca_will_topic :: "text_or_bytes option"
  ca_will_message :: "text_or_bytes option"
  ca_will_qos :: int
  ca_will_retain :: bool

definition append_optional :: "byte list \<Rightarrow> text_or_bytes option \<Rightarrow> byte list result" where
  "append_optional body v = (case v of None \<Rightarrow> Inr body | Some x \<Rightarrow> append_string body x)"

definition connect_flags :: "connect_args \<Rightarrow> int" where
  "connect_flags a =
     (if ca_clean_session a then 0x02 else 0)
     OR (if ca_will_topic a \<noteq> None
         then 0x04 OR push_bit 3 (ca_will_qos a AND 0x03) OR (if ca_will_retain a then 0x20 else 0)
         else 0)
     OR (if ca_username a \<noteq> None then 0x80 else 0)
     OR (if ca_password a \<noteq> None then 0x40 else 0)"

definition encode_connect :: "connect_args \<Rightarrow> byte list result" where
  "encode_connect a =
     (if ca_will_qos a > 1 then Inl (UnsupportedQoSError ''will_qos must be 0 or 1'')
      else
        rbind (append_packed_h (CONNECT_PROTOCOL_PREFIX @ [B (nat (connect_flags a))])
          (ca_keep_alive_seconds a)) (\<lambda>b1.
        rbind (append_string b1 (ca_client_id a)) (\<lambda>b2.
        rbind (case ca_will_topic a of None \<Rightarrow> Inr b2
          | Some wt \<Rightarrow> rbind (append_string b2 wt) (\<lambda>b. append_string b
              (case ca_will_message a of None \<Rightarrow> Raw [] | Some m \<Rightarrow> m))) (\<lambda>b3.
        rbind (append_optional b3 (ca_username a)) (\<lambda>b4.
        rbind (append_optional b4 (ca_password a)) (\<lambda>b5.
        finalize_packet (int PACKET_CONNECT) b5))))))"

definition encode_publish ::
    "text_or_bytes \<Rightarrow> text_or_bytes \<Rightarrow> int \<Rightarrow> bool \<Rightarrow> int option \<Rightarrow> byte list result" where
  "encode_publish topic payload qos retain packet_id =
     (if qos > 1 then Inl (UnsupportedQoSError ''qos must be 0 or 1'')
      else if qos > 0 \<and> packet_id = None then Inl (ValueError ''QoS > 0 requires a packet_id'')
      else
        rbind (as_bytes payload) (\<lambda>pl.
        let fixed_byte_one = (int PACKET_PUBLISH OR push_bit 1 qos) OR (if retain then 0x01 else 0) in
        rbind (append_string [] topic) (\<lambda>b1.
        rbind (if qos > 0 then append_packed_h b1 (the packet_id) else Inr b1) (\<lambda>b2.
        finalize_packet fixed_byte_one (b2 @ pl)))))"

fun append_subscriptions :: "byte list \<Rightarrow> (text_or_bytes \<times> int) list \<Rightarrow> byte list result" where
  "append_subscriptions body [] = Inr body"
| "append_subscriptions body ((topic, qos) # r) =
     rbind (append_string body topic) (\<lambda>b. append_subscriptions (b @ [B (nat (qos AND 0x03))]) r)"

definition encode_subscribe :: "int \<Rightarrow> (text_or_bytes \<times> int) list \<Rightarrow> byte list result" where
  "encode_subscribe packet_id pairs =
     (if pairs = [] then Inl (ValueError ''SUBSCRIBE requires at least one (topic, qos) pair'')
      else if \<exists>p \<in> set pairs. snd p > 1 then Inl (UnsupportedQoSError ''subscription qos must be 0 or 1'')
      else rbind (append_packed_h [] packet_id) (\<lambda>b. rbind (append_subscriptions b pairs) (\<lambda>body.
        finalize_packet (int PACKET_SUBSCRIBE) body)))"

fun append_topics :: "byte list \<Rightarrow> text_or_bytes list \<Rightarrow> byte list result" where
  "append_topics body [] = Inr body"
| "append_topics body (t # r) = rbind (append_string body t) (\<lambda>b. append_topics b r)"

definition encode_unsubscribe :: "int \<Rightarrow> text_or_bytes list \<Rightarrow> byte list result" where
  "encode_unsubscribe packet_id topics =
     (if topics = [] then Inl (ValueError ''UNSUBSCRIBE requires at least one topic'')
      else rbind (append_packed_h [] packet_id) (\<lambda>b. rbind (append_topics b topics) (\<lambda>body.
        finalize_packet (int PACKET_UNSUBSCRIBE) body)))"

definition PUBACK_FIXED_HEADER :: "byte list" where
  "PUBACK_FIXED_HEADER = [B PACKET_PUBACK, B 2]"

definition encode_puback :: "int \<Rightarrow> byte list result" where
  "encode_puback packet_id = append_packed_h PUBACK_FIXED_HEADER packet_id"

section \<open>Variable-length integers: lemmas\<close>

lemma varlen_loop_simps:
  "v < 128 \<Longrightarrow> varlen_loop v = [B v]"
  "128 \<le> v \<Longrightarrow> varlen_loop v = B (128 + v mod 128) # varlen_loop (v div 128)"
  by (subst varlen_loop.simps,
      simp add: Let_def mask_simps drop_bit_eq_div div_greater_zero_iff or.commute [of _ 128])+

lemma varlen_loop_length_le: "v < 128 ^ Suc k \<Longrightarrow> length (varlen_loop v) \<le> Suc k"
proof (induction k arbitrary: v)
  case (Suc k)
  show ?case
  proof (cases "v < 128")
    case False
    have "v div 128 < 128 ^ Suc k" using Suc.prems by (simp add: less_mult_imp_div_less mult.commute)
    with Suc.IH False show ?thesis by (simp add: varlen_loop_simps)
  qed (simp add: varlen_loop_simps)
qed (simp add: varlen_loop_simps)

lemma varlen_loop_length_ge: "128 ^ k \<le> v \<Longrightarrow> Suc k \<le> length (varlen_loop v)"
proof (induction k arbitrary: v)
  case 0
  show ?case by (cases "v < 128") (simp_all add: varlen_loop_simps)
next
  case (Suc k)
  have "128 ^ k \<le> v div 128" using Suc.prems by (simp add: less_eq_div_iff_mult_less_eq mult.commute)
  moreover have "128 \<le> v" using Suc.prems by (rule order_trans [rotated]) simp
  ultimately show ?case using Suc.IH by (simp add: varlen_loop_simps)
qed

lemma or_push_bit_add: "(w :: nat) < 2 ^ shift \<Longrightarrow> w OR push_bit shift d = w + d * 2 ^ shift"
  using or_disjoint [of w shift d] by (simp add: or.commute add.commute)

lemma decode_varlen_loop_encoded:
  assumes "v < 128 ^ k" and "length pre = start + consumed" and "w < 2 ^ shift"
    and "start + consumed + length (varlen_loop v) \<le> limit" and "0 < k"
  shows "decode_varlen_loop k (pre @ varlen_loop v @ post) start limit consumed w shift
    = Inr (w + v * 2 ^ shift, consumed + length (varlen_loop v))"
  using assms
proof (induction k arbitrary: v pre consumed w shift)
  case (Suc k)
  show ?case
  proof (cases "v < 128")
    case True
    with Suc.prems show ?thesis
      by (simp add: varlen_loop_simps index_at_def nth_append Let_def mask_simps or_push_bit_add and_128_eq_0)
  next
    case False
    define d where "d = v mod 128"
    let ?w = "w + d * 2 ^ shift"
    have vl: "varlen_loop v = B (128 + d) # varlen_loop (v div 128)"
      using False by (simp add: varlen_loop_simps d_def)
    have "d < 128" by (simp add: d_def)
    have "?w < 2 ^ (shift + 7)"
    proof -
      have "?w < 2 ^ shift + 127 * 2 ^ shift" using Suc.prems(3) \<open>d < 128\<close>
        by (intro add_less_le_mono mult_le_mono1) auto
      then show ?thesis by (simp add: power_add)
    qed
    moreover have "v div 128 < 128 ^ k"
      using Suc.prems(1) by (simp add: less_mult_imp_div_less mult.commute)
    moreover from this False have "0 < k" by (cases k) (auto simp: div_eq_0_iff)
    ultimately have "decode_varlen_loop k ((pre @ [B (128 + d)]) @ varlen_loop (v div 128) @ post) start limit
        (consumed + 1) ?w (shift + 7)
      = Inr (?w + v div 128 * 2 ^ (shift + 7), consumed + 1 + length (varlen_loop (v div 128)))"
      using Suc.prems(2,4) vl by (intro Suc.IH) auto
    moreover have "?w + v div 128 * 2 ^ (shift + 7) = w + v * 2 ^ shift"
    proof -
      have "v = d + v div 128 * 128" by (simp add: d_def)
      then have "v * 2 ^ shift = d * 2 ^ shift + v div 128 * 128 * 2 ^ shift"
        by (metis add_mult_distrib)
      then show ?thesis by (simp add: power_add)
    qed
    ultimately show ?thesis using vl Suc.prems(2,3,4) \<open>d < 128\<close>
      by (simp add: index_at_def nth_append Let_def mask_simps or_push_bit_add and_128_eq_0)
  qed
qed simp

lemma decode_varlen_encoded:
  assumes "v < 268435456" and "length pre = start" and "start + length (varlen_loop v) \<le> limit"
  shows "decode_varlen (pre @ varlen_loop v @ post) start (Some limit) = Inr (v, length (varlen_loop v))"
  using decode_varlen_loop_encoded [of v 4 pre start 0 0 0 limit post] assms
  by (simp add: decode_varlen_def)

text \<open>Reading stops at the limit: a cut varlen is reported as incomplete, whatever follows it.\<close>

lemma decode_varlen_loop_cut:
  assumes "length pre = start + consumed" and "limit < start + consumed + length (varlen_loop v)"
    and "start + consumed \<le> limit" and "v < 128 ^ k" and "0 < k"
  shows "decode_varlen_loop k (pre @ varlen_loop v @ post) start limit consumed w shift = Inr (0, 0)"
  using assms
proof (induction k arbitrary: v pre consumed w shift)
  case (Suc k)
  show ?case
  proof (cases "limit \<le> start + consumed")
    case False
    have v: "128 \<le> v" using Suc.prems(2) False by (rule_tac ccontr) (simp add: varlen_loop_simps)
    then have vl: "varlen_loop v = B (128 + v mod 128) # varlen_loop (v div 128)"
      by (simp add: varlen_loop_simps)
    have "v div 128 < 128 ^ k"
      using Suc.prems(4) by (simp add: less_mult_imp_div_less mult.commute)
    moreover from this v have "0 < k" by (cases k) (auto simp: div_eq_0_iff)
    ultimately have "decode_varlen_loop k ((pre @ [B (128 + v mod 128)]) @ varlen_loop (v div 128) @ post) start limit
        (consumed + 1) val' shift' = Inr (0, 0)" for val' shift'
      using Suc.prems(1,2) False vl by (intro Suc.IH) auto
    then show ?thesis using vl Suc.prems(1) False
      by (simp add: index_at_def nth_append Let_def and_128_eq_0)
  qed simp
qed simp

section \<open>Topic matching: the specification\<close>

text \<open>
  MQTT 3.1.1 section 4.7 on lists of levels: \<open>#\<close> stands for any number of levels and
  only in last place, \<open>+\<close> for one level, anything else for itself.
\<close>

fun levels_match :: "pystr list \<Rightarrow> pystr list \<Rightarrow> bool" where
  "levels_match ts [] = (ts = [])"
| "levels_match ts (p # pats) =
     (if p = hash_level then pats = []
      else (case ts of [] \<Rightarrow> False | t # ts' \<Rightarrow> (p = plus_level \<or> p = t) \<and> levels_match ts' pats))"

lemma match_levels_drop:
  "i \<le> length ts \<Longrightarrow> i \<le> length pats \<Longrightarrow> match_levels ts pats i = levels_match (drop i ts) (drop i pats)"
proof (induction ts pats i rule: match_levels.induct)
  case (1 ts pats i)
  show ?case
  proof (cases "i < length pats")
    case True
    then have p: "drop i pats = pats ! i # drop (Suc i) pats" by (simp add: Cons_nth_drop_Suc)
    show ?thesis
    proof (cases "i < length ts")
      case ti: True
      then have t: "drop i ts = ts ! i # drop (Suc i) ts" by (simp add: Cons_nth_drop_Suc)
      from 1 True ti show ?thesis
        by (auto simp: match_levels.simps [of ts pats i] Let_def p t)
    next
      case False
      with True show ?thesis
        unfolding match_levels.simps [of ts pats i] p by (auto simp: Let_def not_less)
    qed
  next
    case False
    with 1(3,4) show ?thesis unfolding match_levels.simps [of ts pats i] by auto
  qed
qed

text \<open>
  C40. \<open>topic_matches\<close>, an index loop with early returns, decides the specification's
  matching of the two level lists.
\<close>

theorem topic_matches_spec:
  "topic_matches topic pattern \<longleftrightarrow> levels_match (split_on slash topic) (split_on slash pattern)"
  by (simp add: topic_matches_def match_levels_drop)

text \<open>
  Variable-length integers: every value the encoder accepts takes one to four bytes,
  the fewest possible; decoding them at any offset of any buffer gives the value and
  the byte count; and while fewer bytes than that are readable the decoder reports an
  incomplete integer, never a wrong value.
\<close>

lemma varlen_roundtrip:
  assumes "encode_varlen value = Inr bs"
  shows "1 \<le> length bs \<and> length bs \<le> 4 \<and> (\<forall>k. 128 ^ k \<le> nat value \<longrightarrow> k < length bs)
    \<and> (\<forall>pre post limit. length pre + length bs \<le> limit \<longrightarrow>
        decode_varlen (pre @ bs @ post) (length pre) (Some limit) = Inr (nat value, length bs))
    \<and> (\<forall>pre post limit. length pre \<le> limit \<longrightarrow> limit < length pre + length bs \<longrightarrow>
        decode_varlen (pre @ bs @ post) (length pre) (Some limit) = Inr (0, 0))"
proof -
  define v where "v = nat value"
  from assms have v: "v < 268435456" and bs: "bs = varlen_loop v"
    by (auto simp: encode_varlen_def v_def split: if_splits)
  have "length bs \<le> 4" using varlen_loop_length_le [of v 3] v bs by simp
  moreover have "k < length bs" if "128 ^ k \<le> v" for k
    using varlen_loop_length_ge [OF that] bs by simp
  moreover have "1 \<le> length bs" using bs by (cases "v < 128") (simp_all add: varlen_loop_simps)
  moreover have "decode_varlen (pre @ bs @ post) (length pre) (Some limit) = Inr (0, 0)"
    if "length pre \<le> limit" "limit < length pre + length bs" for pre post limit
    using decode_varlen_loop_cut [of pre "length pre" 0 limit v 4] that v bs
    by (simp add: decode_varlen_def)
  ultimately show ?thesis using decode_varlen_encoded [OF v] bs by (auto simp: v_def)
qed

lemma varlen_roundtrip_witness:
  "encode_varlen 321 = Inr [B 193, B 2]
    \<and> decode_varlen ([B 48] @ [B 193, B 2] @ [B 0]) (length [B 48]) (Some 4) = Inr (321, 2)
    \<and> decode_varlen ([B 48] @ [B 193, B 2] @ [B 0]) (length [B 48]) (Some 2) = Inr (0, 0)"
proof -
  have e: "encode_varlen 321 = Inr [B 193, B 2]"
    by (simp add: encode_varlen_def varlen_loop_simps)
  from varlen_roundtrip [OF e] have
    "\<forall>pre post limit. length pre + length [B 193, B 2] \<le> limit \<longrightarrow>
        decode_varlen (pre @ [B 193, B 2] @ post) (length pre) (Some limit) = Inr (nat 321, length [B 193, B 2])"
    "\<forall>pre post limit. length pre \<le> limit \<longrightarrow> limit < length pre + length [B 193, B 2] \<longrightarrow>
        decode_varlen (pre @ [B 193, B 2] @ post) (length pre) (Some limit) = Inr (0, 0)"
    by blast+
  from this(1) [rule_format, of "[B 48]" 4 "[B 0]"] this(2) [rule_format, of "[B 48]" 2 "[B 0]"] e
  show ?thesis by simp
qed

end
