(* ===== verification/Mqtt_Decoder.thy ===== *)
theory Mqtt_Decoder
  imports Mqtt_Codec
begin

text \<open>
  \<open>PacketDecoder\<close> of \<^verbatim>\<open>libraries/mqtt/src/chumicro_mqtt/_wire.py\<close>: the incremental MQTT
  packet parser over one fixed receive buffer, with the drain path for packets larger
  than the buffer. Its state is a record of its fields; the \<^verbatim>\<open>memoryview\<close> is the buffer
  itself. A method that raises leaves the state as it was (no field is written before
  a raise), so a raise is \<open>Inl\<close> and the caller keeps the old record.
\<close>

section \<open>Packets and state\<close>

datatype packet =
    ParsedPublish (pub_topic: pystr) (pub_payload: "byte list") (pub_qos: nat) (pub_packet_id: "nat option")
  | ParsedAck (ack_packet_type: nat) (ack_packet_id: "nat option") (ack_return_code: "nat option")
      (ack_granted_qos: "nat list option") (ack_session_present: "bool option")
  | OversizedMessage (ov_topic: "pystr option") (ov_reported_length: nat) (ov_qos: nat)
      (ov_packet_id: "nat option")

datatype drain_mode = DRAIN_NONE | DRAIN_OVERSIZED

record PacketDecoder =
  pd_buffer :: "byte list"
  pd_buffer_size :: nat
  pd_buffer_length :: nat
  pd_read_offset :: nat
  pd_drain_mode :: drain_mode
  pd_drain_remaining :: int
  pd_drain_topic :: "pystr option"
  pd_drain_qos :: nat
  pd_drain_packet_id :: "nat option"
  pd_drain_message_length :: nat

definition DEFAULT_RX_BUFFER_SIZE :: nat where "DEFAULT_RX_BUFFER_SIZE = 256"

definition PacketDecoder_init :: "nat \<Rightarrow> PacketDecoder" where
  "PacketDecoder_init rx_buffer_size =
     \<lparr>pd_buffer = replicate rx_buffer_size (B 0), pd_buffer_size = rx_buffer_size,
      pd_buffer_length = 0, pd_read_offset = 0, pd_drain_mode = DRAIN_NONE,
      pd_drain_remaining = 0, pd_drain_topic = None, pd_drain_qos = 0,
      pd_drain_packet_id = None, pd_drain_message_length = 0\<rparr>"

section \<open>Filling\<close>

text \<open>
  \<open>fill_buffer\<close> hands out the view \<^verbatim>\<open>_buffer_view[_buffer_length:]\<close>; what the socket's
  \<^verbatim>\<open>recv_into\<close> does to it is \<open>fill_write\<close>: \<open>bs\<close> over the first bytes of the view.
\<close>

definition fill_buffer :: "PacketDecoder \<Rightarrow> byte list" where
  "fill_buffer d = drop (pd_buffer_length d) (pd_buffer d)"

definition fill_write :: "PacketDecoder \<Rightarrow> byte list \<Rightarrow> PacketDecoder" where
  "fill_write d bs = d\<lparr>pd_buffer := take (pd_buffer_length d) (pd_buffer d) @ bs
     @ drop (length bs) (fill_buffer d)\<rparr>"

definition fill_capacity :: "PacketDecoder \<Rightarrow> int" where
  "fill_capacity d =
     (if pd_drain_mode d = DRAIN_OVERSIZED then
        let available = int (pd_buffer_size d) - int (pd_buffer_length d)
        in min (pd_drain_remaining d) available
      else int (pd_buffer_size d) - int (pd_buffer_length d))"

definition advance :: "PacketDecoder \<Rightarrow> nat \<Rightarrow> PacketDecoder" where
  "advance d nbytes =
     (if nbytes \<le> 0 then d
      else if pd_drain_mode d = DRAIN_OVERSIZED then
        d\<lparr>pd_drain_remaining := pd_drain_remaining d - int nbytes, pd_buffer_length := 0\<rparr>
      else d\<lparr>pd_buffer_length := pd_buffer_length d + nbytes\<rparr>)"

section \<open>Parsing one packet body\<close>

text \<open>\<^verbatim>\<open>struct.unpack(">H", view[i:i + 2])[0]\<close>: the slice must have two bytes.\<close>

definition view_h :: "byte list \<Rightarrow> nat \<Rightarrow> nat result" where
  "view_h view i = (let s = pslice view i (i + 2) in
     if length s = 2 then Inr (be_nat s) else Inl StructError)"

definition parse_publish :: "nat \<Rightarrow> byte list \<Rightarrow> nat \<Rightarrow> nat \<Rightarrow> packet result" where
  "parse_publish fixed_byte view body_start body_end =
     (let qos = drop_bit 1 fixed_byte AND 0x03 in
      if int body_end - int body_start < 2
      then Inl (MQTTProtocolError ''PUBLISH missing 2-byte topic-length prefix'')
      else rbind (view_h view body_start) (\<lambda>topic_length.
        let topic_start = body_start + 2; topic_end = topic_start + topic_length in
        if topic_end > body_end
        then Inl (MQTTProtocolError ''PUBLISH topic length exceeds remaining bytes'')
        else rbind (utf8_decode (pslice view topic_start topic_end)) (\<lambda>topic.
          if qos > 0 then
            if topic_end + 2 > body_end
            then Inl (MQTTProtocolError ''QoS > 0 PUBLISH missing 2-byte packet identifier'')
            else rbind (view_h view topic_end) (\<lambda>packet_id.
              Inr (ParsedPublish topic (pslice view (topic_end + 2) body_end) qos (Some packet_id)))
          else Inr (ParsedPublish topic (pslice view topic_end body_end) qos None))))"

definition parse_connack :: "byte list \<Rightarrow> nat \<Rightarrow> nat \<Rightarrow> packet result" where
  "parse_connack view body_start body_end =
     (if int body_end - int body_start \<noteq> 2
      then Inl (MQTTProtocolError ''CONNACK body must be exactly 2 bytes'')
      else rbind (index_at view body_start) (\<lambda>b0. rbind (index_at view (body_start + 1)) (\<lambda>b1.
        Inr (ParsedAck PACKET_CONNACK None (Some (unat b1)) None (Some (unat b0 AND 0x01 \<noteq> 0))))))"

definition parse_simple_ack :: "nat \<Rightarrow> byte list \<Rightarrow> nat \<Rightarrow> nat \<Rightarrow> packet result" where
  "parse_simple_ack packet_type view body_start body_end =
     (if int body_end - int body_start \<noteq> 2
      then Inl (MQTTProtocolError ''packet body must be 2 bytes'')
      else rbind (view_h view body_start) (\<lambda>packet_id.
        Inr (ParsedAck packet_type (Some packet_id) None None None)))"

definition parse_suback :: "byte list \<Rightarrow> nat \<Rightarrow> nat \<Rightarrow> packet result" where
  "parse_suback view body_start body_end =
     (if int body_end - int body_start < 3
      then Inl (MQTTProtocolError ''SUBACK body must be at least 3 bytes'')
      else rbind (view_h view body_start) (\<lambda>packet_id.
        Inr (ParsedAck PACKET_SUBACK (Some packet_id) None
          (Some (map unat (pslice view (body_start + 2) body_end))) None)))"

definition parse_packet :: "nat \<Rightarrow> byte list \<Rightarrow> nat \<Rightarrow> nat \<Rightarrow> packet result" where
  "parse_packet fixed_byte view body_start body_end =
     (let packet_type = fixed_byte AND 0xF0 in
      if packet_type = PACKET_PUBLISH then parse_publish fixed_byte view body_start body_end
      else if packet_type = PACKET_CONNACK then parse_connack view body_start body_end
      else if packet_type = PACKET_PUBACK then parse_simple_ack PACKET_PUBACK view body_start body_end
      else if packet_type = PACKET_SUBACK then parse_suback view body_start body_end
      else if packet_type = PACKET_UNSUBACK then parse_simple_ack PACKET_UNSUBACK view body_start body_end
      else if packet_type = PACKET_PINGRESP then Inr (ParsedAck PACKET_PINGRESP None None None None)
      else Inl (MQTTProtocolError ''unknown packet type from broker''))"

section \<open>Buffer bookkeeping\<close>

definition compact :: "PacketDecoder \<Rightarrow> PacketDecoder" where
  "compact d =
     (let live = pd_buffer_length d - pd_read_offset d in
      d\<lparr>pd_buffer := (if live > 0
            then pslice (pd_buffer d) (pd_read_offset d) (pd_buffer_length d) @ drop live (pd_buffer d)
            else pd_buffer d),
        pd_buffer_length := live, pd_read_offset := 0\<rparr>)"

definition consume :: "PacketDecoder \<Rightarrow> nat \<Rightarrow> PacketDecoder" where
  "consume d count =
     (let d1 = d\<lparr>pd_read_offset := pd_read_offset d + count\<rparr> in
      if pd_read_offset d1 * 2 \<ge> pd_buffer_size d1 then compact d1 else d1)"

definition reset_drain_state :: "PacketDecoder \<Rightarrow> PacketDecoder" where
  "reset_drain_state d = d\<lparr>pd_drain_mode := DRAIN_NONE, pd_drain_remaining := 0,
     pd_drain_topic := None, pd_drain_qos := 0, pd_drain_packet_id := None,
     pd_drain_message_length := 0\<rparr>"

definition maybe_finish_oversized :: "PacketDecoder \<Rightarrow> packet option \<times> PacketDecoder" where
  "maybe_finish_oversized d =
     (if pd_drain_remaining d > 0 then (None, d)
      else (Some (OversizedMessage (pd_drain_topic d) (pd_drain_message_length d) (pd_drain_qos d)
              (pd_drain_packet_id d)), reset_drain_state d))"

definition enter_oversized_drain ::
    "PacketDecoder \<Rightarrow> int \<Rightarrow> pystr option \<Rightarrow> nat \<Rightarrow> nat option \<Rightarrow> nat \<Rightarrow> PacketDecoder" where
  "enter_oversized_drain d bytes_still_on_wire topic qos packet_id message_length =
     d\<lparr>pd_drain_remaining := max 0 bytes_still_on_wire, pd_drain_topic := topic, pd_drain_qos := qos,
       pd_drain_packet_id := packet_id, pd_drain_message_length := message_length,
       pd_buffer_length := 0, pd_read_offset := 0, pd_drain_mode := DRAIN_OVERSIZED\<rparr>"

definition enter_drain_path ::
    "PacketDecoder \<Rightarrow> nat \<Rightarrow> nat \<Rightarrow> nat \<Rightarrow> nat \<Rightarrow> nat \<Rightarrow> (packet option \<times> PacketDecoder) result" where
  "enter_drain_path d fixed_byte message_length base header_length total_length =
     (let packet_type = fixed_byte AND 0xF0 in
      if packet_type \<noteq> PACKET_PUBLISH then Inl (MQTTProtocolError ''oversized non-PUBLISH packet'')
      else let live = pd_buffer_length d - base in
      if live < header_length + 2 then Inr (None, d)
      else let body_start = base + header_length in
      rbind (view_h (pd_buffer d) body_start) (\<lambda>topic_length.
        let qos = drop_bit 1 fixed_byte AND 0x03;
            packet_id_bytes = (if qos > 0 then 2 else 0);
            prelude_length = header_length + 2 + topic_length + packet_id_bytes in
        if prelude_length > pd_buffer_size d then
          Inr (maybe_finish_oversized
            (enter_oversized_drain d (int total_length - int live) None qos None message_length))
        else if live < prelude_length then Inr (None, d)
        else
          let topic_start = body_start + 2; topic_end = topic_start + topic_length in
          rbind (utf8_decode (pslice (pd_buffer d) topic_start topic_end)) (\<lambda>topic.
          rbind (if qos > 0 then rbind (view_h (pd_buffer d) topic_end) (\<lambda>i. Inr (Some i)) else Inr None)
            (\<lambda>packet_id.
          Inr (maybe_finish_oversized
            (enter_oversized_drain d (int total_length - int live) (Some topic) qos packet_id
              message_length))))))"

definition read_next :: "PacketDecoder \<Rightarrow> (packet option \<times> PacketDecoder) result" where
  "read_next d =
     (if pd_drain_mode d = DRAIN_OVERSIZED then Inr (maybe_finish_oversized d)
      else
        let base = pd_read_offset d; live = pd_buffer_length d - base; view = pd_buffer d in
        if live < 2 then Inr (None, d)
        else rbind (index_at view base) (\<lambda>fb. let fixed_byte = unat fb in
          rbind (decode_varlen view (base + 1) (Some (pd_buffer_length d)))
            (\<lambda>(message_length, varlen_consumed).
          if varlen_consumed = 0 then Inr (None, d)
          else
            let header_length = 1 + varlen_consumed; total_length = header_length + message_length in
            if total_length > pd_buffer_size d then
              enter_drain_path d fixed_byte message_length base header_length total_length
            else if live < total_length then
              Inr (None, if pd_buffer_length d = pd_buffer_size d \<and> pd_read_offset d > 0
                then compact d else d)
            else
              let body_start = base + header_length; body_end = base + total_length in
              rbind (parse_packet fixed_byte view body_start body_end) (\<lambda>packet.
                Inr (Some packet, consume d total_length)))))"

section \<open>Invariant and abstraction\<close>

text \<open>
  \<open>pd_inv\<close>: the cursors are ordered inside the buffer, the read cursor stays in the first
  half (or at the start), and a draining decoder holds no live bytes and owes a
  non-negative count.
\<close>

definition pd_inv :: "PacketDecoder \<Rightarrow> bool" where
  "pd_inv d \<longleftrightarrow> length (pd_buffer d) = pd_buffer_size d \<and> pd_read_offset d \<le> pd_buffer_length d
     \<and> pd_buffer_length d \<le> pd_buffer_size d
     \<and> (pd_read_offset d = 0 \<or> pd_read_offset d * 2 < pd_buffer_size d)
     \<and> (pd_drain_mode d = DRAIN_OVERSIZED \<longrightarrow>
          pd_buffer_length d = 0 \<and> pd_read_offset d = 0 \<and> 0 \<le> pd_drain_remaining d)"

text \<open>The bytes received and not yet consumed.\<close>

definition pd_live :: "PacketDecoder \<Rightarrow> byte list" where
  "pd_live d = pslice (pd_buffer d) (pd_read_offset d) (pd_buffer_length d)"

definition receive :: "PacketDecoder \<Rightarrow> byte list \<Rightarrow> PacketDecoder" where
  "receive d bs = advance (fill_write d bs) (length bs)"

section \<open>Reading is local to the live bytes\<close>

text \<open>
  The parser reads a buffer \<open>pre @ live @ rest\<close> at offsets past \<open>pre\<close>; it sees the same
  as a parser of \<open>live\<close> alone, so what it returns depends on the live bytes only.
\<close>

lemma pslice_shift:
  "b \<le> length live \<Longrightarrow> pslice (pre @ live @ rest) (length pre + a) (length pre + b) = pslice live a b"
  by (cases "a \<le> b") (simp_all add: pslice_def)

lemma index_at_shift:
  "i < length live \<Longrightarrow> index_at (pre @ live @ rest) (length pre + i) = index_at live i"
  by (simp add: index_at_def nth_append)

lemma view_h_shift:
  "i + 2 \<le> length live \<Longrightarrow> view_h (pre @ live @ rest) (length pre + i) = view_h live i"
  using pslice_shift [of "i + 2" live pre rest i] by (simp add: view_h_def add.assoc)

lemma decode_varlen_loop_shift:
  "limit \<le> length live \<Longrightarrow>
   decode_varlen_loop k (pre @ live @ rest) (length pre + s) (length pre + limit) c v sh
     = decode_varlen_loop k live s limit c v sh"
proof (induction k arbitrary: c v sh)
  case (Suc k)
  show ?case
  proof (cases "s + c < limit")
    case True
    then have "index_at (pre @ live @ rest) (length pre + (s + c)) = index_at live (s + c)"
      using Suc.prems by (intro index_at_shift) simp
    then show ?thesis using Suc by (simp add: Let_def add.assoc cong: if_cong)
  qed (simp add: Let_def)
qed simp

lemma decode_varlen_shift:
  "limit \<le> length live \<Longrightarrow>
   decode_varlen (pre @ live @ rest) (length pre + s) (Some (length pre + limit))
     = decode_varlen live s (Some limit)"
  by (simp add: decode_varlen_def decode_varlen_loop_shift)

lemma parse_publish_shift:
  assumes "e \<le> length live"
  shows "parse_publish fb (pre @ live @ rest) (length pre + s) (length pre + e) = parse_publish fb live s e"
proof (cases "s + 2 \<le> e")
  case True
  have h: "view_h (pre @ live @ rest) (length pre + s) = view_h live s"
    using assms True by (intro view_h_shift) simp
  have t: "pslice (pre @ live @ rest) (length pre + (s + 2)) (length pre + (s + 2 + n)) = pslice live (s + 2) (s + 2 + n)"
    if "s + 2 + n \<le> e" for n
    using assms that by (intro pslice_shift) simp
  have i: "view_h (pre @ live @ rest) (length pre + (s + 2 + n)) = view_h live (s + 2 + n)"
    if "s + 2 + n + 2 \<le> e" for n
    using assms that by (intro view_h_shift) simp
  have p: "pslice (pre @ live @ rest) (length pre + a) (length pre + e) = pslice live a e" for a
    using assms by (rule pslice_shift)
  show ?thesis
    using True t i p [of "s + 2 + n" for n] p [of "s + 2 + n + 2" for n]
    by (auto simp: parse_publish_def h Let_def add.assoc [symmetric] intro!: rbind_cong)
qed (simp add: parse_publish_def)

lemma parse_packet_shift:
  assumes "e \<le> length live"
  shows "parse_packet fb (pre @ live @ rest) (length pre + s) (length pre + e) = parse_packet fb live s e"
proof -
  have two: "s + 2 \<le> e \<Longrightarrow> view_h (pre @ live @ rest) (length pre + s) = view_h live s"
    using assms by (intro view_h_shift) simp
  have one: "i < e \<Longrightarrow> index_at (pre @ live @ rest) (length pre + i) = index_at live i" for i
    using assms by (intro index_at_shift) simp
  have p: "pslice (pre @ live @ rest) (length pre + (s + 2)) (length pre + e) = pslice live (s + 2) e"
    using assms by (rule pslice_shift)
  have "parse_connack (pre @ live @ rest) (length pre + s) (length pre + e) = parse_connack live s e"
    using one [of s] one [of "s + 1"] by (auto simp: parse_connack_def add.assoc)
  moreover have "parse_simple_ack t (pre @ live @ rest) (length pre + s) (length pre + e) = parse_simple_ack t live s e" for t
    using two by (auto simp: parse_simple_ack_def)
  moreover have "parse_suback (pre @ live @ rest) (length pre + s) (length pre + e) = parse_suback live s e"
    using two p by (auto simp: parse_suback_def add.assoc)
  ultimately show ?thesis
    using parse_publish_shift [OF assms] by (simp add: parse_packet_def Let_def cong: if_cong)
qed

text \<open>
  A varlen read from a prefix of the stream: the same value once its bytes are all there,
  and incomplete before.
\<close>

lemma decode_varlen_loop_prefix:
  "decode_varlen_loop k (live @ tail) s (length live + length tail) c v sh = Inr (l, n) \<Longrightarrow> n \<noteq> 0 \<Longrightarrow>
   c < n \<and> n \<le> c + k \<and> s + n \<le> length live + length tail \<and>
   decode_varlen_loop k live s (length live) c v sh = (if s + n \<le> length live then Inr (l, n) else Inr (0, 0))"
proof (induction k arbitrary: c v sh)
  case (Suc k)
  have lim: "s + c < length live + length tail" using Suc.prems by (auto simp: Let_def split: if_splits)
  let ?b = "(live @ tail) ! (s + c)"
  show ?case
  proof (cases "unat ?b < 128")
    case True
    with Suc.prems lim have "n = c + 1" by (auto simp: Let_def index_at_def)
    with True Suc.prems lim show ?thesis
      by (cases "s + c < length live") (auto simp: Let_def index_at_def nth_append)
  next
    case False
    have "decode_varlen_loop k (live @ tail) s (length live + length tail) (c + 1)
        (v OR push_bit sh (unat ?b AND 127)) (sh + 7) = Inr (l, n)"
      using Suc.prems lim False by (simp add: Let_def index_at_def)
    from Suc.IH [OF this Suc.prems(2)] False show ?thesis
      by (cases "s + c < length live") (auto simp: Let_def index_at_def nth_append)
  qed
qed simp

section \<open>The specification of framing\<close>

text \<open>
  What the head of a byte string is: an incomplete packet, a complete one with its
  length (an oversized PUBLISH is reported, not parsed), or a protocol violation.
\<close>

datatype frame = NeedMore | Frame packet nat | Reject exn

definition oversized_event :: "nat \<Rightarrow> byte list \<Rightarrow> nat \<Rightarrow> nat \<Rightarrow> packet result" where
  "oversized_event cap bs len h =
     (let fb = unat (bs ! 0); qos = drop_bit 1 fb AND 0x03 in
      if fb AND 0xF0 \<noteq> PACKET_PUBLISH then Inl (MQTTProtocolError ''oversized non-PUBLISH packet'')
      else rbind (view_h bs h) (\<lambda>tl.
        if h + 2 + tl + (if qos > 0 then 2 else 0) > cap then Inr (OversizedMessage None len qos None)
        else rbind (utf8_decode (pslice bs (h + 2) (h + 2 + tl))) (\<lambda>topic.
          if qos > 0
          then rbind (view_h bs (h + 2 + tl)) (\<lambda>i. Inr (OversizedMessage (Some topic) len qos (Some i)))
          else Inr (OversizedMessage (Some topic) len qos None))))"

definition next_frame :: "nat \<Rightarrow> byte list \<Rightarrow> frame" where
  "next_frame cap bs =
     (if length bs < 2 then NeedMore
      else case decode_varlen bs 1 (Some (length bs)) of
          Inl e \<Rightarrow> Reject e
        | Inr (len, c) \<Rightarrow>
            let total = 1 + c + len in
            if c = 0 \<or> length bs < total then NeedMore
            else case (if total > cap then oversized_event cap bs len (1 + c)
                       else parse_packet (unat (bs ! 0)) bs (1 + c) total) of
                Inl e \<Rightarrow> Reject e
              | Inr p \<Rightarrow> Frame p total)"

lemma next_frame_FrameD:
  assumes "next_frame cap bs = Frame p n"
  obtains len c where "2 \<le> length bs" "decode_varlen bs 1 (Some (length bs)) = Inr (len, c)" "c \<noteq> 0"
    "n = 1 + c + len" "n \<le> length bs"
    "n > cap \<Longrightarrow> oversized_event cap bs len (1 + c) = Inr p"
    "n \<le> cap \<Longrightarrow> parse_packet (unat (bs ! 0)) bs (1 + c) n = Inr p"
  using assms by (auto simp: next_frame_def Let_def split: if_splits sum.splits)

lemma next_frame_size: "next_frame cap bs = Frame p n \<Longrightarrow> 2 \<le> n \<and> n \<le> length bs"
  by (elim next_frame_FrameD) auto

function parse_all :: "nat \<Rightarrow> byte list \<Rightarrow> packet list \<times> byte list" where
  "parse_all cap bs =
     (case next_frame cap bs of
        Frame p n \<Rightarrow> (let (packets, r) = parse_all cap (drop n bs) in (p # packets, r))
      | _ \<Rightarrow> ([], bs))"
  by pat_completeness auto
termination
  by (relation "measure (\<lambda>(cap, bs). length bs)") (auto dest: next_frame_size)

declare parse_all.simps [simp del]

lemma parse_all_step:
  "next_frame cap bs = Frame p n \<Longrightarrow>
   parse_all cap bs = (p # fst (parse_all cap (drop n bs)), snd (parse_all cap (drop n bs)))"
  by (simp add: parse_all.simps [of cap bs] split: prod.split)

lemma parse_all_stop: "(\<And>p n. next_frame cap bs \<noteq> Frame p n) \<Longrightarrow> parse_all cap bs = ([], bs)"
  by (simp add: parse_all.simps [of cap bs] split: frame.split)


section \<open>Each operation on the live bytes\<close>

lemma pd_buffer_split:
  assumes "pd_inv d"
  obtains pre post where "pd_buffer d = pre @ pd_live d @ post" "length pre = pd_read_offset d"
    "length (pd_live d) = pd_buffer_length d - pd_read_offset d"
proof
  let ?o = "pd_read_offset d" and ?l = "pd_buffer_length d"
  have le: "?o \<le> ?l" "?l \<le> length (pd_buffer d)" using assms by (auto simp: pd_inv_def)
  then show "length (take ?o (pd_buffer d)) = ?o" "length (pd_live d) = ?l - ?o"
    by (auto simp: pd_live_def)
  have "take ?l (pd_buffer d) = take ?o (pd_buffer d) @ pd_live d"
    using pslice_concat [of 0 ?o ?l "pd_buffer d"] le by (simp add: pslice_def pd_live_def)
  then show "pd_buffer d = take ?o (pd_buffer d) @ pd_live d @ drop ?l (pd_buffer d)"
    by (metis append.assoc append_take_drop_id)
qed

lemma length_pd_live: "pd_inv d \<Longrightarrow> length (pd_live d) = pd_buffer_length d - pd_read_offset d"
  by (elim pd_buffer_split)

lemma PacketDecoder_init_inv [simp]:
  "pd_inv (PacketDecoder_init n)" "pd_live (PacketDecoder_init n) = []"
  "pd_drain_mode (PacketDecoder_init n) = DRAIN_NONE" "pd_buffer_size (PacketDecoder_init n) = n"
  by (auto simp: PacketDecoder_init_def pd_inv_def pd_live_def)

lemma compact_live:
  assumes "length (pd_buffer d) = pd_buffer_size d" "pd_read_offset d \<le> pd_buffer_length d"
    "pd_buffer_length d \<le> pd_buffer_size d" "pd_drain_mode d = DRAIN_NONE"
  shows "pd_inv (compact d)" "pd_live (compact d) = pd_live d"
    "pd_drain_mode (compact d) = DRAIN_NONE" "pd_buffer_size (compact d) = pd_buffer_size d"
    "pd_buffer_length (compact d) = pd_buffer_length d - pd_read_offset d"
    "pd_read_offset (compact d) = 0"
  using assms by (auto simp: compact_def pd_inv_def pd_live_def Let_def pslice_def)

lemma consume_live:
  assumes "pd_inv d" "pd_drain_mode d = DRAIN_NONE" "n \<le> length (pd_live d)"
  shows "pd_inv (consume d n)" "pd_live (consume d n) = drop n (pd_live d)"
    "pd_drain_mode (consume d n) = DRAIN_NONE" "pd_buffer_size (consume d n) = pd_buffer_size d"
proof -
  let ?d = "d\<lparr>pd_read_offset := pd_read_offset d + n\<rparr>"
  have n: "pd_read_offset d + n \<le> pd_buffer_length d"
    using assms length_pd_live [OF assms(1)] by (auto simp: pd_inv_def)
  have live: "pd_live ?d = drop n (pd_live d)" by (simp add: pd_live_def pslice_def drop_take add.commute)
  have c: "pd_inv (compact ?d)" "pd_live (compact ?d) = pd_live ?d"
    "pd_drain_mode (compact ?d) = DRAIN_NONE" "pd_buffer_size (compact ?d) = pd_buffer_size ?d"
    by (rule compact_live; use assms n in \<open>simp add: pd_inv_def\<close>)+
  show "pd_inv (consume d n)" "pd_live (consume d n) = drop n (pd_live d)"
    "pd_drain_mode (consume d n) = DRAIN_NONE" "pd_buffer_size (consume d n) = pd_buffer_size d"
    using c live n assms by (simp_all add: consume_def Let_def pd_inv_def)
qed

lemma receive_live:
  assumes "pd_inv d" "int (length bs) \<le> fill_capacity d" "pd_drain_mode d = DRAIN_NONE"
  shows "pd_inv (receive d bs)" "pd_live (receive d bs) = pd_live d @ bs"
    "pd_drain_mode (receive d bs) = DRAIN_NONE" "pd_buffer_size (receive d bs) = pd_buffer_size d"
  using assms
  by (auto simp: receive_def advance_def fill_write_def fill_buffer_def fill_capacity_def
      pd_inv_def pd_live_def pslice_def drop_take)

lemma receive_drain:
  assumes "pd_inv d" "int (length bs) \<le> fill_capacity d" "pd_drain_mode d = DRAIN_OVERSIZED"
  shows "pd_inv (receive d bs)"
    "pd_drain_remaining (receive d bs) = pd_drain_remaining d - int (length bs)"
    "pd_drain_mode (receive d bs) = DRAIN_OVERSIZED" "pd_buffer_size (receive d bs) = pd_buffer_size d"
    "pd_drain_topic (receive d bs) = pd_drain_topic d" "pd_drain_qos (receive d bs) = pd_drain_qos d"
    "pd_drain_packet_id (receive d bs) = pd_drain_packet_id d"
    "pd_drain_message_length (receive d bs) = pd_drain_message_length d"
  using assms
  by (auto simp: receive_def advance_def fill_write_def fill_buffer_def fill_capacity_def
      pd_inv_def Let_def)

section \<open>The decoder against the specification\<close>

text \<open>
  \<open>owes d rest packets\<close>: after \<open>rest\<close>, the bytes the broker has yet to send, decoder \<open>d\<close> will
  have returned \<open>packets\<close> and hold nothing.
\<close>

definition drain_event :: "PacketDecoder \<Rightarrow> packet" where
  "drain_event d = OversizedMessage (pd_drain_topic d) (pd_drain_message_length d) (pd_drain_qos d)
     (pd_drain_packet_id d)"

definition owes :: "PacketDecoder \<Rightarrow> byte list \<Rightarrow> packet list \<Rightarrow> bool" where
  "owes d rest packets \<longleftrightarrow> pd_inv d \<and>
     (case pd_drain_mode d of
        DRAIN_NONE \<Rightarrow> parse_all (pd_buffer_size d) (pd_live d @ rest) = (packets, [])
      | DRAIN_OVERSIZED \<Rightarrow> pd_drain_remaining d \<le> int (length rest) \<and> (\<exists>packets'. packets = drain_event d # packets'
          \<and> parse_all (pd_buffer_size d) (drop (nat (pd_drain_remaining d)) rest) = (packets', [])))"

lemma owes_receive:
  assumes "owes d (bs @ rest) packets" "int (length bs) \<le> fill_capacity d"
  shows "owes (receive d bs) rest packets \<and> pd_buffer_size (receive d bs) = pd_buffer_size d"
proof (cases "pd_drain_mode d")
  case DRAIN_NONE
  with assms receive_live [of d bs] show ?thesis by (simp add: owes_def)
next
  case DRAIN_OVERSIZED
  from assms(1) DRAIN_OVERSIZED have inv: "pd_inv d" by (simp add: owes_def)
  note r = receive_drain [OF this assms(2) DRAIN_OVERSIZED]
  have "int (length bs) \<le> pd_drain_remaining d" using assms(2) DRAIN_OVERSIZED
    by (simp add: fill_capacity_def Let_def)
  then have "drop (nat (pd_drain_remaining d)) (bs @ rest)
      = drop (nat (pd_drain_remaining (receive d bs))) rest"
    by (simp add: r nat_diff_distrib')
  with assms(1) r DRAIN_OVERSIZED show ?thesis by (auto simp: owes_def drain_event_def)
qed

lemma parse_all_nonempty:
  assumes "parse_all cap bs = (packets, [])" "bs \<noteq> []"
  obtains p n packets' where "next_frame cap bs = Frame p n" "packets = p # packets'"
    "parse_all cap (drop n bs) = (packets', [])"
proof (cases "next_frame cap bs")
  case (Frame p n)
  with assms parse_all_step [OF Frame] that show ?thesis by (metis prod.collapse fst_conv snd_conv)
qed (use assms parse_all_stop [of cap bs] in auto)


section \<open>Reading\<close>

text \<open>
  \<open>straddles\<close>: the head of the stream is an oversized PUBLISH whose prelude (header, topic,
  packet identifier) fits the buffer but not half of it. Compaction keeps at least half of
  the buffer free of consumed bytes, so only such a packet can find the buffer full and
  its prelude incomplete.
\<close>

definition straddles :: "nat \<Rightarrow> byte list \<Rightarrow> bool" where
  "straddles cap bs =
     (case decode_varlen bs 1 (Some (length bs)) of
        Inl _ \<Rightarrow> False
      | Inr (len, c) \<Rightarrow> cap < 1 + c + len \<and>
          (case view_h bs (1 + c) of
             Inl _ \<Rightarrow> False
           | Inr tlen \<Rightarrow>
               let prelude = 1 + c + 2 + tlen + (if drop_bit 1 (unat (bs ! 0)) AND 0x03 > 0 then 2 else 0)
               in prelude \<le> cap \<and> cap < 2 * prelude))"

text \<open>No packet of the stream straddles.\<close>

function stream_ok :: "nat \<Rightarrow> byte list \<Rightarrow> bool" where
  "stream_ok cap bs =
     (case next_frame cap bs of
        Frame p n \<Rightarrow> \<not> straddles cap bs \<and> stream_ok cap (drop n bs)
      | _ \<Rightarrow> True)"
  by pat_completeness auto
termination
  by (relation "measure (\<lambda>(cap, bs). length bs)") (auto dest: next_frame_size)

declare stream_ok.simps [simp del]

lemma stream_ok_step:
  "next_frame cap bs = Frame p n \<Longrightarrow> stream_ok cap bs \<longleftrightarrow> \<not> straddles cap bs \<and> stream_ok cap (drop n bs)"
  by (simp add: stream_ok.simps [of cap bs])

text \<open>The bytes that follow the packets the decoder is committed to.\<close>

definition pending :: "PacketDecoder \<Rightarrow> byte list \<Rightarrow> byte list" where
  "pending d rest =
     (if pd_drain_mode d = DRAIN_NONE then pd_live d @ rest else drop (nat (pd_drain_remaining d)) rest)"

lemma pending_receive:
  assumes "pd_inv d" "int (length bs) \<le> fill_capacity d"
  shows "pending (receive d bs) rest = pending d (bs @ rest)"
proof (cases "pd_drain_mode d")
  case DRAIN_NONE
  with assms receive_live [of d bs] show ?thesis by (simp add: pending_def)
next
  case DRAIN_OVERSIZED
  moreover from this assms have "int (length bs) \<le> pd_drain_remaining d"
    by (simp add: fill_capacity_def Let_def)
  ultimately show ?thesis using receive_drain [OF assms DRAIN_OVERSIZED]
    by (simp add: pending_def nat_diff_distrib')
qed

lemma full_live: "pd_inv d \<Longrightarrow> fill_capacity d \<le> 0 \<Longrightarrow> pd_drain_mode d = DRAIN_NONE \<Longrightarrow>
    pd_buffer_length d = pd_buffer_size d \<and>
    (length (pd_live d) = pd_buffer_size d \<or> pd_buffer_size d < 2 * length (pd_live d))"
  using length_pd_live [of d] by (auto simp: pd_inv_def fill_capacity_def)

lemma view_h_prefix: "i + 2 \<le> length a \<Longrightarrow> view_h (a @ b) i = view_h a i"
  using view_h_shift [of i a "[]" b] by simp

lemma view_h_ok: "i + 2 \<le> length a \<Longrightarrow> \<exists>v. view_h a i = Inr v"
  by (auto simp: view_h_def Let_def)

lemma pslice_prefix: "j \<le> length a \<Longrightarrow> pslice (a @ b) i j = pslice a i j"
  using pslice_shift [of j a "[]" b i] by simp

lemma drain_started:
  assumes "pd_inv d" "0 < r" and "d' = enter_oversized_drain d r t q i len"
  shows "maybe_finish_oversized d' = (None, d')" "pd_inv d'" "pd_drain_mode d' = DRAIN_OVERSIZED"
    "drain_event d' = OversizedMessage t len q i" "pd_buffer_length d' = 0" "pd_drain_remaining d' = r"
    "pd_buffer_size d' = pd_buffer_size d"
  using assms by (auto simp: enter_oversized_drain_def maybe_finish_oversized_def pd_inv_def drain_event_def)

text \<open>Oversized head: the decoder waits for the prelude, then drains to the packet's end.\<close>

lemma enter_drain_path_spec:
  assumes inv: "pd_inv d" "pd_drain_mode d = DRAIN_NONE"
    and vl: "decode_varlen (pd_live d @ rest) 1 (Some (length (pd_live d @ rest))) = Inr (len, c)" "c \<le> 4"
    and n: "n = 1 + c + len" "pd_buffer_size d < n" "n \<le> length (pd_live d @ rest)"
    and live: "2 \<le> length (pd_live d)" "1 + c \<le> length (pd_live d)"
    and ev: "oversized_event (pd_buffer_size d) (pd_live d @ rest) len (1 + c) = Inr p"
  shows "enter_drain_path d (unat (pd_live d ! 0)) len (pd_read_offset d) (1 + c) n = Inr (None, d)
      \<and> (12 \<le> pd_buffer_size d \<longrightarrow> 0 < fill_capacity d \<or> straddles (pd_buffer_size d) (pd_live d @ rest))
    \<or> (\<exists>d'. enter_drain_path d (unat (pd_live d ! 0)) len (pd_read_offset d) (1 + c) n = Inr (None, d')
      \<and> pd_inv d' \<and> pd_drain_mode d' = DRAIN_OVERSIZED \<and> drain_event d' = p \<and> pd_buffer_length d' = 0
      \<and> pd_drain_remaining d' = int n - int (length (pd_live d)) \<and> pd_buffer_size d' = pd_buffer_size d)"
proof -
  obtain pre post where buf: "pd_buffer d = pre @ pd_live d @ post" and pre: "length pre = pd_read_offset d"
    and len: "length (pd_live d) = pd_buffer_length d - pd_read_offset d"
    using pd_buffer_split [OF inv(1)] .
  let ?L = "pd_live d" and ?S = "pd_live d @ rest" and ?cap = "pd_buffer_size d"
  let ?qos = "drop_bit 1 (unat (?L ! 0)) AND 3"
  define idb where "idb = (if ?qos > 0 then 2 else 0 :: nat)"
  have hd: "?S ! 0 = ?L ! 0" using live by (cases ?L) auto
  have small: "length ?L < n" using n(2) inv(1) len by (auto simp: pd_inv_def)
  have pub: "unat (?L ! 0) AND 240 = PACKET_PUBLISH"
    using ev by (auto simp: oversized_event_def Let_def hd split: if_splits)
  show ?thesis
  proof (cases "length ?L < 1 + c + 2")
    case True
    then have "0 < fill_capacity d" if "12 \<le> ?cap"
      using full_live [OF inv(1) _ inv(2)] that vl(2) by (cases "fill_capacity d \<le> 0") auto
    with True pub len show ?thesis by (simp add: enter_drain_path_def)
  next
    case False
    then have le: "1 + c + 2 \<le> length ?L" by simp
    obtain tlen where tlen: "view_h ?L (1 + c) = Inr tlen" using view_h_ok [OF le] ..
    have tlS: "view_h ?S (1 + c) = Inr tlen" using view_h_prefix [OF le] tlen by simp
    have tlb: "view_h (pd_buffer d) (pd_read_offset d + (1 + c)) = Inr tlen"
      using view_h_shift [OF le, of pre post] tlen buf pre by simp
    define prelude where "prelude = 1 + c + 2 + tlen + idb"
    let ?drain = "enter_drain_path d (unat (?L ! 0)) len (pd_read_offset d) (1 + c) n"
    have start: ?thesis
      if "?drain = Inr (maybe_finish_oversized (enter_oversized_drain d (int n - int (length ?L)) t ?qos i len))"
        "p = OversizedMessage t len ?qos i" for t i
      using drain_started [OF inv(1) _ refl, of "int n - int (length ?L)" t ?qos i len] small that by auto
    consider (deep) "?cap < prelude" | (cut) "prelude \<le> ?cap" "length ?L < prelude"
      | (whole) "prelude \<le> ?cap" "prelude \<le> length ?L" by linarith
    then show ?thesis
    proof cases
      case deep
      then show ?thesis
        using ev tlS tlb pub le len
        by (intro start [of None None]) (auto simp: enter_drain_path_def oversized_event_def Let_def hd prelude_def idb_def)
    next
      case cut
      then have "?drain = Inr (None, d)"
        using tlb pub le len by (auto simp: enter_drain_path_def Let_def prelude_def idb_def)
      moreover have "0 < fill_capacity d \<or> straddles ?cap ?S"
        using cut full_live [OF inv(1) _ inv(2)] vl n tlS hd
        by (cases "fill_capacity d \<le> 0") (auto simp: straddles_def prelude_def idb_def Let_def)
      ultimately show ?thesis by simp
    next
      case whole
      have top: "pslice (pd_buffer d) (pd_read_offset d + (1 + c + 2)) (pd_read_offset d + (1 + c + 2 + tlen))
          = pslice ?L (1 + c + 2) (1 + c + 2 + tlen)"
        and topS: "pslice ?S (1 + c + 2) (1 + c + 2 + tlen) = pslice ?L (1 + c + 2) (1 + c + 2 + tlen)"
        using whole pslice_shift [of "1 + c + 2 + tlen" ?L pre post "1 + c + 2"] buf pre
        by (simp_all add: prelude_def pslice_prefix)
      have idS: "view_h (pd_buffer d) (pd_read_offset d + (1 + c + 2 + tlen)) = view_h ?L (1 + c + 2 + tlen)"
        "view_h ?S (1 + c + 2 + tlen) = view_h ?L (1 + c + 2 + tlen)" if "?qos > 0"
        using whole that view_h_shift [of "1 + c + 2 + tlen" ?L pre post] view_h_prefix [of "1 + c + 2 + tlen" ?L rest]
          buf pre by (simp_all add: prelude_def idb_def)
      obtain topic where t: "utf8_decode (pslice ?L (1 + c + 2) (1 + c + 2 + tlen)) = Inr topic"
        and rest: "?qos > 0 \<Longrightarrow> \<exists>i. view_h ?L (1 + c + 2 + tlen) = Inr i \<and> p = OversizedMessage (Some topic) len ?qos (Some i)"
          "\<not> ?qos > 0 \<Longrightarrow> p = OversizedMessage (Some topic) len ?qos None"
        using ev whole(1) idS(2) topS tlS
        by (auto simp: oversized_event_def Let_def hd prelude_def idb_def result_simps split: if_splits)
      have drain': "?drain = rbind (if ?qos > 0 then rbind (view_h ?L (1 + c + 2 + tlen)) (\<lambda>i. Inr (Some i)) else Inr None)
          (\<lambda>i. Inr (maybe_finish_oversized (enter_oversized_drain d (int n - int (length ?L)) (Some topic) ?qos i len)))"
        using whole tlb pub le len t top idS(1)
        by (simp add: enter_drain_path_def Let_def prelude_def idb_def add.assoc cong: if_cong)
      show ?thesis
      proof (cases "?qos > 0")
        case True
        with rest(1) obtain i where "view_h ?L (1 + c + 2 + tlen) = Inr i" "p = OversizedMessage (Some topic) len ?qos (Some i)"
          by blast
        with True drain' show ?thesis by (intro start) simp_all
      next
        case False
        with drain' rest(2) show ?thesis by (intro start) simp_all
      qed
    qed
  qed
qed


text \<open>What bounds the number of packets one buffer can give.\<close>

definition decoder_work :: "PacketDecoder \<Rightarrow> nat" where
  "decoder_work d = length (pd_live d) + (if pd_drain_mode d = DRAIN_OVERSIZED then 1 else 0)"

lemma decoder_work_bound: "pd_inv d \<Longrightarrow> decoder_work d \<le> pd_buffer_size d + 1"
  using length_pd_live [of d] by (auto simp: decoder_work_def pd_inv_def)

text \<open>One \<open>read_next\<close>: it returns the next packet owed, or waits with room to receive.\<close>

lemma owes_read_next:
  assumes "owes d rest packets"
  shows "(\<exists>p d' packets'. read_next d = Inr (Some p, d') \<and> packets = p # packets' \<and> owes d' rest packets'
        \<and> pd_buffer_size d' = pd_buffer_size d
        \<and> (stream_ok (pd_buffer_size d) (pending d rest) \<longrightarrow> stream_ok (pd_buffer_size d) (pending d' rest))
        \<and> decoder_work d' < decoder_work d)
    \<or> (\<exists>d'. read_next d = Inr (None, d') \<and> owes d' rest packets \<and> pd_buffer_size d' = pd_buffer_size d
        \<and> (stream_ok (pd_buffer_size d) (pending d rest) \<longrightarrow> stream_ok (pd_buffer_size d) (pending d' rest))
        \<and> (packets \<noteq> [] \<longrightarrow> rest \<noteq> [])
        \<and> (12 \<le> pd_buffer_size d \<longrightarrow> packets \<noteq> [] \<longrightarrow> 0 < fill_capacity d'
             \<or> \<not> stream_ok (pd_buffer_size d) (pending d rest)))"
proof (cases "pd_drain_mode d")
  case DRAIN_OVERSIZED
  from assms DRAIN_OVERSIZED obtain packets' where o: "pd_inv d" "pd_drain_remaining d \<le> int (length rest)"
    "packets = drain_event d # packets'"
    "parse_all (pd_buffer_size d) (drop (nat (pd_drain_remaining d)) rest) = (packets', [])"
    by (auto simp: owes_def)
  have z: "0 \<le> pd_drain_remaining d" "pd_buffer_length d = 0" "pd_read_offset d = 0" "pd_live d = []"
    using o(1) DRAIN_OVERSIZED by (auto simp: pd_inv_def pd_live_def)
  show ?thesis
  proof (cases "pd_drain_remaining d > 0")
    case True
    then have "0 < fill_capacity d" if "12 \<le> pd_buffer_size d"
      using that z DRAIN_OVERSIZED by (auto simp: fill_capacity_def Let_def)
    moreover have "read_next d = Inr (None, d)"
      using True DRAIN_OVERSIZED by (simp add: read_next_def maybe_finish_oversized_def)
    ultimately show ?thesis using assms o True by auto
  next
    case False
    then have "read_next d = Inr (Some (drain_event d), reset_drain_state d)"
      using DRAIN_OVERSIZED by (simp add: read_next_def maybe_finish_oversized_def drain_event_def)
    moreover have "owes (reset_drain_state d) rest packets'" "pd_live (reset_drain_state d) = []"
      using o z False by (auto simp: owes_def reset_drain_state_def pd_inv_def pd_live_def)
    ultimately show ?thesis using o z DRAIN_OVERSIZED False
      by (auto simp: reset_drain_state_def decoder_work_def pending_def)
  qed
next
  case DRAIN_NONE
  let ?L = "pd_live d" and ?S = "pd_live d @ rest" and ?cap = "pd_buffer_size d"
  from assms DRAIN_NONE have inv: "pd_inv d" and pa: "parse_all ?cap ?S = (packets, [])"
    by (auto simp: owes_def)
  obtain pre post where buf: "pd_buffer d = pre @ ?L @ post" and pre: "length pre = pd_read_offset d"
    and len: "length ?L = pd_buffer_length d - pd_read_offset d"
    using pd_buffer_split [OF inv] .
  have bl: "pd_buffer_length d = length pre + length ?L" using len pre inv by (auto simp: pd_inv_def)
  show ?thesis
  proof (cases "?S = []")
    case True
    then have "packets = []" using pa parse_all_stop [of ?cap "[]"] by (auto simp: next_frame_def)
    moreover have "read_next d = Inr (None, d)"
      using True len DRAIN_NONE by (simp add: read_next_def Let_def)
    ultimately show ?thesis using assms by auto
  next
    case False
    from parse_all_nonempty [OF pa False] obtain p n packets' where
      f: "next_frame ?cap ?S = Frame p n" "packets = p # packets'" "parse_all ?cap (drop n ?S) = (packets', [])" .
    from next_frame_FrameD [OF f(1)] obtain ml c where
      vl: "decode_varlen ?S 1 (Some (length ?S)) = Inr (ml, c)" "c \<noteq> 0" and n: "n = 1 + c + ml" "n \<le> length ?S"
      and ov: "n > ?cap \<Longrightarrow> oversized_event ?cap ?S ml (1 + c) = Inr p"
      and pp: "n \<le> ?cap \<Longrightarrow> parse_packet (unat (?S ! 0)) ?S (1 + c) n = Inr p" by metis
    have pre_vl: "c \<le> 4" "decode_varlen ?L 1 (Some (length ?L)) = (if 1 + c \<le> length ?L then Inr (ml, c) else Inr (0, 0))"
      using decode_varlen_loop_prefix [of 4 ?L rest 1 0 0 0 ml c] vl by (auto simp: decode_varlen_def)
    have rd_vl: "decode_varlen (pd_buffer d) (pd_read_offset d + 1) (Some (pd_buffer_length d))
        = (if 1 + c \<le> length ?L then Inr (ml, c) else Inr (0, 0))"
      using decode_varlen_shift [of "length ?L" ?L pre post 1] pre_vl(2) buf pre bl by simp
    have room: "0 < fill_capacity d" if "12 \<le> ?cap" "length ?L \<le> 5"
      using full_live [OF inv _ DRAIN_NONE] that by (cases "fill_capacity d \<le> 0") auto
    have pend: "pending d rest = ?S" using DRAIN_NONE by (simp add: pending_def)
    note ok = stream_ok_step [OF f(1)]
    have wait: ?thesis if "read_next d = Inr (None, d)" "rest \<noteq> []"
        "12 \<le> ?cap \<Longrightarrow> 0 < fill_capacity d \<or> straddles ?cap ?S"
      using that assms DRAIN_NONE ok pend by auto
    have more: "rest \<noteq> []" if "length ?L < n" using that n(2) by auto
    show ?thesis
    proof (cases "length ?L < 1 + c")
      case True
      then have "read_next d = Inr (None, d)"
        using len DRAIN_NONE rd_vl buf pre by (auto simp: read_next_def Let_def index_at_def)
      with True room pre_vl(1) n more show ?thesis by (intro wait) auto
    next
      case False
      then have ne: "2 \<le> length ?L" "1 + c \<le> length ?L" using vl(2) by auto
      have hd: "?S ! 0 = ?L ! 0" using ne by (cases ?L) auto
      have fb: "index_at (pd_buffer d) (pd_read_offset d) = Inr (?L ! 0)"
        using ne buf pre by (auto simp: index_at_def nth_append)
      let ?drain = "enter_drain_path d (unat (?L ! 0)) ml (pd_read_offset d) (1 + c) n"
      have rd: "read_next d =
        (if n > ?cap then ?drain
         else if length ?L < n then
           Inr (None, if pd_buffer_length d = ?cap \<and> pd_read_offset d > 0 then compact d else d)
         else rbind (parse_packet (unat (?L ! 0)) (pd_buffer d) (pd_read_offset d + (1 + c)) (pd_read_offset d + n))
           (\<lambda>packet. Inr (Some packet, consume d n)))"
        using DRAIN_NONE ne fb rd_vl vl(2) len n(1) by (simp add: read_next_def Let_def)
      consider (over) "n > ?cap" | (part) "n \<le> ?cap" "length ?L < n" | (whole) "n \<le> ?cap" "n \<le> length ?L"
        by linarith
      then show ?thesis
      proof cases
        case over
        have L: "length ?L < n" using over len inv by (auto simp: pd_inv_def)
        from enter_drain_path_spec [OF inv DRAIN_NONE vl(1) pre_vl(1) n(1) over n(2) ne ov [OF over]]
        consider "?drain = Inr (None, d)" "12 \<le> ?cap \<Longrightarrow> 0 < fill_capacity d \<or> straddles ?cap ?S"
          | d' where "?drain = Inr (None, d')" "pd_inv d'" "pd_drain_mode d' = DRAIN_OVERSIZED"
            "drain_event d' = p" "pd_buffer_length d' = 0" "pd_buffer_size d' = ?cap"
            "pd_drain_remaining d' = int n - int (length ?L)" by blast
        then show ?thesis
        proof cases
          case 1
          then show ?thesis using rd over more [OF L] by (intro wait) simp_all
        next
          case 2
          have "drop n ?S = drop (nat (pd_drain_remaining d')) rest" using L by (simp add: 2 nat_diff_distrib')
          with 2 f n L have "owes d' rest packets" by (simp add: owes_def)
          moreover have "0 < fill_capacity d'" if "12 \<le> ?cap" using that 2 L by (simp add: fill_capacity_def Let_def)
          ultimately show ?thesis using rd over more [OF L] 2 ok pend \<open>drop n ?S = _\<close>
            by (intro disjI2 exI [of _ d']) (simp add: pending_def)
        qed
      next
        case part
        define d' where "d' = (if pd_buffer_length d = ?cap \<and> pd_read_offset d > 0 then compact d else d)"
        have iv: "length (pd_buffer d) = ?cap" "pd_read_offset d \<le> pd_buffer_length d" "pd_buffer_length d \<le> ?cap"
          using inv by (auto simp: pd_inv_def)
        note cl = compact_live [OF this DRAIN_NONE]
        have d': "pd_inv d' \<and> pd_live d' = ?L \<and> pd_drain_mode d' = DRAIN_NONE \<and> pd_buffer_size d' = ?cap"
          using cl inv DRAIN_NONE by (simp add: d'_def)
        then have "owes d' rest packets" using pa by (simp add: owes_def)
        moreover have "0 < fill_capacity d'"
          using cl(5) iv DRAIN_NONE part bl pre d' by (auto simp: fill_capacity_def d'_def)
        ultimately show ?thesis using rd part more [OF part(2)] d' DRAIN_NONE by (simp add: d'_def [symmetric] pending_def)
      next
        case whole
        have "parse_packet (unat (?L ! 0)) (pd_buffer d) (pd_read_offset d + (1 + c)) (pd_read_offset d + n)
            = parse_packet (unat (?L ! 0)) ?L (1 + c) n"
          using parse_packet_shift [OF whole(2), of _ pre post "1 + c"] buf pre by simp
        also have "\<dots> = Inr p"
          using parse_packet_shift [OF whole(2), of _ "[]" rest "1 + c"] pp [OF whole(1)] hd by simp
        finally have "read_next d = Inr (Some p, consume d n)" using rd whole by simp
        moreover note consume_live [OF inv DRAIN_NONE whole(2)]
        moreover from this have "owes (consume d n) rest packets'" using f whole(2) by (simp add: owes_def)
        ultimately show ?thesis using f n vl(2) ne DRAIN_NONE ok whole(2) by (auto simp: decoder_work_def pending_def)
      qed
    qed
  qed
qed


section \<open>The read loop and a whole session\<close>

text \<open>
  \<open>read_loop\<close>: the \<^verbatim>\<open>while True: packet = decoder.read_next()\<close> loop of the client, with the
  packets collected. \<open>drive\<close>: a run of ticks; tick \<open>i\<close> receives at most \<open>ns ! i\<close> bytes,
  what the decoder's capacity allows and what the broker has sent, then reads.
\<close>

fun read_loop :: "nat \<Rightarrow> PacketDecoder \<Rightarrow> (packet list \<times> PacketDecoder) result" where
  "read_loop 0 d = Inl (RuntimeError ''out of fuel'')"
| "read_loop (Suc k) d = rbind (read_next d) (\<lambda>(packet, d1). case packet of
       None \<Rightarrow> Inr ([], d1)
     | Some p \<Rightarrow> rbind (read_loop k d1) (\<lambda>(packets, d2). Inr (p # packets, d2)))"

fun drive :: "PacketDecoder \<Rightarrow> byte list \<Rightarrow> nat list \<Rightarrow> (packet list \<times> PacketDecoder \<times> byte list) result" where
  "drive d stream [] = Inr ([], d, stream)"
| "drive d stream (n # ns) =
     (let k = min n (min (nat (fill_capacity d)) (length stream)) in
      rbind (read_loop (pd_buffer_size d + 2) (receive d (take k stream))) (\<lambda>(packets, d1).
      rbind (drive d1 (drop k stream) ns) (\<lambda>(packets', d2, left). Inr (packets @ packets', d2, left))))"

lemma read_loop_owes:
  assumes "owes d rest packets" "decoder_work d < k"
  shows "\<exists>got d' packets'. read_loop k d = Inr (got, d') \<and> packets = got @ packets' \<and> owes d' rest packets'
    \<and> pd_buffer_size d' = pd_buffer_size d \<and> (packets' \<noteq> [] \<longrightarrow> rest \<noteq> [])
    \<and> (12 \<le> pd_buffer_size d \<longrightarrow> stream_ok (pd_buffer_size d) (pending d rest) \<longrightarrow>
        stream_ok (pd_buffer_size d) (pending d' rest) \<and> (packets' \<noteq> [] \<longrightarrow> 0 < fill_capacity d'))"
  using assms
proof (induction k arbitrary: d packets)
  case (Suc k)
  from owes_read_next [OF Suc.prems(1)] show ?case
  proof (elim disjE exE conjE)
    fix p d1 packets1
    assume 1: "read_next d = Inr (Some p, d1)" "packets = p # packets1" "owes d1 rest packets1"
      "pd_buffer_size d1 = pd_buffer_size d" "decoder_work d1 < decoder_work d"
      "stream_ok (pd_buffer_size d) (pending d rest) \<longrightarrow> stream_ok (pd_buffer_size d) (pending d1 rest)"
    have "decoder_work d1 < k" using 1(5) Suc.prems(2) by simp
    from Suc.IH [OF 1(3) this] obtain got d' packets' where
      "read_loop k d1 = Inr (got, d')" "packets1 = got @ packets'" "owes d' rest packets'"
      "pd_buffer_size d' = pd_buffer_size d1" "packets' \<noteq> [] \<longrightarrow> rest \<noteq> []"
      "12 \<le> pd_buffer_size d1 \<longrightarrow> stream_ok (pd_buffer_size d1) (pending d1 rest) \<longrightarrow>
        stream_ok (pd_buffer_size d1) (pending d' rest) \<and> (packets' \<noteq> [] \<longrightarrow> 0 < fill_capacity d')"
      by blast
    with 1 show ?thesis by (intro exI [of _ "p # got"] exI [of _ d'] exI [of _ packets']) simp
  qed auto
qed simp


lemma drive_owes:
  assumes "owes d rest packets"
  shows "\<exists>got d' left packets'. drive d rest ns = Inr (got, d', left) \<and> packets = got @ packets' \<and> owes d' left packets'
    \<and> pd_buffer_size d' = pd_buffer_size d \<and> (ns \<noteq> [] \<longrightarrow> packets' \<noteq> [] \<longrightarrow> left \<noteq> [])
    \<and> (12 \<le> pd_buffer_size d \<longrightarrow> stream_ok (pd_buffer_size d) (pending d rest) \<longrightarrow> 0 < fill_capacity d \<longrightarrow>
        0 \<notin> set ns \<longrightarrow> packets' = [] \<or> length left + length ns \<le> length rest)"
  using assms
proof (induction ns arbitrary: d rest packets)
  case (Cons n ns)
  define k where "k = min n (min (nat (fill_capacity d)) (length rest))"
  let ?d = "receive d (take k rest)" and ?rest = "drop k rest"
  have inv: "pd_inv d" using Cons.prems by (simp add: owes_def)
  then have "0 \<le> fill_capacity d" by (auto simp: pd_inv_def fill_capacity_def Let_def split: if_splits)
  then have cap: "int (length (take k rest)) \<le> fill_capacity d" by (simp add: k_def)
  from owes_receive [of d "take k rest" ?rest, OF _ cap] Cons.prems
  have o: "owes ?d ?rest packets" and sz: "pd_buffer_size ?d = pd_buffer_size d" by simp_all
  have pend: "pending ?d ?rest = pending d rest"
    using pending_receive [OF inv cap, of ?rest] by simp
  have "decoder_work ?d < pd_buffer_size d + 2"
    using decoder_work_bound [of ?d] o sz by (simp add: owes_def)
  from read_loop_owes [OF o this] obtain got1 d1 packets1 where
    1: "read_loop (pd_buffer_size d + 2) ?d = Inr (got1, d1)" "packets = got1 @ packets1" "owes d1 ?rest packets1"
      "pd_buffer_size d1 = pd_buffer_size d" "packets1 \<noteq> [] \<longrightarrow> ?rest \<noteq> []"
      "12 \<le> pd_buffer_size d \<longrightarrow> stream_ok (pd_buffer_size d) (pending d rest) \<longrightarrow>
        stream_ok (pd_buffer_size d) (pending d1 ?rest) \<and> (packets1 \<noteq> [] \<longrightarrow> 0 < fill_capacity d1)"
    unfolding sz pend by blast
  from Cons.IH [OF 1(3)] obtain got2 d2 left packets2 where
    2: "drive d1 ?rest ns = Inr (got2, d2, left)" "packets1 = got2 @ packets2" "owes d2 left packets2"
      "pd_buffer_size d2 = pd_buffer_size d" "ns \<noteq> [] \<longrightarrow> packets2 \<noteq> [] \<longrightarrow> left \<noteq> []"
      "12 \<le> pd_buffer_size d \<longrightarrow> stream_ok (pd_buffer_size d) (pending d1 ?rest) \<longrightarrow> 0 < fill_capacity d1 \<longrightarrow>
        0 \<notin> set ns \<longrightarrow> packets2 = [] \<or> length left + length ns \<le> length ?rest"
    unfolding 1(4) by blast
  have "drive d rest (n # ns) = Inr (got1 @ got2, d2, left)" using 1 2 by (simp add: k_def [symmetric] Let_def)
  moreover have "packets2 \<noteq> [] \<longrightarrow> left \<noteq> []" using 1 2 by (cases "ns = []") auto
  moreover have "packets2 = [] \<or> length left + length (n # ns) \<le> length rest"
    if "12 \<le> pd_buffer_size d" "stream_ok (pd_buffer_size d) (pending d rest)" "0 < fill_capacity d" "0 \<notin> set (n # ns)"
  proof (cases "packets2 = []")
    case False
    then have "packets1 \<noteq> []" using 2 by simp
    then have "?rest \<noteq> []" "0 < fill_capacity d1" "stream_ok (pd_buffer_size d) (pending d1 ?rest)"
      using 1 that by auto
    moreover from this(1) have "0 < k" using that by (auto simp: k_def)
    ultimately show ?thesis using 2(6) that False by auto
  qed simp
  ultimately show ?case using 1 2 by (intro exI [of _ "got1 @ got2"] exI [of _ d2] exI [of _ left] exI [of _ packets2]) simp
qed auto


section \<open>What the encoder writes\<close>

lemma pack_uint_2D: "pack_uint 2 v = Inr bs \<Longrightarrow> 0 \<le> v \<and> v < 65536 \<and> bs = be_bytes 2 (nat v)"
  by (auto simp: pack_uint_def split: if_splits)

lemma append_stringD:
  "append_string b v = Inr bs \<Longrightarrow> \<exists>u. as_bytes v = Inr u \<and> length u < 65536 \<and> bs = b @ be_bytes 2 (length u) @ u"
  by (auto simp: append_string_def append_packed_h_def result_simps dest!: pack_uint_2D)

lemma finalize_packetD:
  "finalize_packet t body = Inr bs \<Longrightarrow>
   0 \<le> t \<and> t < 256 \<and> length body < 268435456 \<and> bs = B (nat t) # varlen_loop (length body) @ body"
  by (auto simp: finalize_packet_def encode_varlen_def result_simps split: if_splits)

lemma pslice_here: "length a = i \<Longrightarrow> i + length b = j \<Longrightarrow> pslice (a @ b @ c) i j = b"
  by (auto simp: pslice_def)

lemma view_h_here:
  assumes "v < 65536" "length a = i"
  shows "view_h (a @ be_bytes 2 v @ b) i = Inr v"
proof -
  have "pslice (a @ be_bytes 2 v @ b) i (i + 2) = be_bytes 2 v" using assms(2) by (intro pslice_here) auto
  with assms(1) show ?thesis by (simp only: view_h_def Let_def) (simp add: be_nat_be_bytes)
qed

definition publish_fixed :: "nat \<Rightarrow> bool \<Rightarrow> nat" where
  "publish_fixed qos retain = 48 + 2 * qos + (if retain then 1 else 0)"

lemma publish_fixed_bits:
  assumes "qos \<le> 1"
  shows "publish_fixed qos retain < 256" "publish_fixed qos retain AND 240 = PACKET_PUBLISH"
    "drop_bit 1 (publish_fixed qos retain) AND 3 = qos"
    "nat ((int PACKET_PUBLISH OR push_bit 1 (int qos)) OR (if retain then 1 else 0)) = publish_fixed qos retain"
proof -
  have "qos = 0 \<or> qos = 1" using assms by auto
  then show "publish_fixed qos retain < 256" "publish_fixed qos retain AND 240 = PACKET_PUBLISH"
    "drop_bit 1 (publish_fixed qos retain) AND 3 = qos"
    "nat ((int PACKET_PUBLISH OR push_bit 1 (int qos)) OR (if retain then 1 else 0)) = publish_fixed qos retain"
    by (cases retain; auto simp: publish_fixed_def PACKET_PUBLISH_def drop_bit_eq_div push_bit_eq_mult)+
qed

lemma encode_publishD:
  assumes "encode_publish topic payload qos retain packet_id = Inr bs" "0 \<le> qos"
  obtains t pl ids where "as_bytes topic = Inr t" "as_bytes payload = Inr pl" "length t < 65536" "qos \<le> 1"
    "if qos = 0 then ids = [] else \<exists>i. packet_id = Some (int i) \<and> i < 65536 \<and> ids = be_bytes 2 i"
    "length (be_bytes 2 (length t) @ t @ ids @ pl) < 268435456"
    "bs = B (publish_fixed (nat qos) retain) # varlen_loop (length (be_bytes 2 (length t) @ t @ ids @ pl))
       @ be_bytes 2 (length t) @ t @ ids @ pl"
proof -
  from assms have q: "qos \<le> 1" by (auto simp: encode_publish_def split: if_splits)
  have f: "nat ((int PACKET_PUBLISH OR push_bit 1 qos) OR (if retain then 1 else 0)) = publish_fixed (nat qos) retain"
    using publish_fixed_bits(4) [of "nat qos" retain] q assms(2) by (simp add: nat_le_iff)
  define fb where "fb = (int PACKET_PUBLISH OR push_bit 1 qos) OR (if retain then 1 else 0)"
  from assms(1) obtain pl b1 b2 where *: "as_bytes payload = Inr pl" "append_string [] topic = Inr b1"
    "(if qos > 0 then append_packed_h b1 (the packet_id) else Inr b1) = Inr b2" "qos > 0 \<Longrightarrow> packet_id \<noteq> None"
    "finalize_packet fb (b2 @ pl) = Inr bs"
    unfolding encode_publish_def Let_def fb_def [symmetric]
    by (cases "qos > 0") (auto simp: result_simps split: if_splits)
  from append_stringD [OF *(2)] obtain t where t: "as_bytes topic = Inr t" "length t < 65536"
    "b1 = be_bytes 2 (length t) @ t" by auto
  obtain ids where ids: "b2 = b1 @ ids"
    "if qos = 0 then ids = [] else \<exists>i. packet_id = Some (int i) \<and> i < 65536 \<and> ids = be_bytes 2 i"
  proof (cases "qos = 0")
    case False
    with *(3,4) assms(2) obtain i where i: "packet_id = Some i" "append_packed_h b1 i = Inr b2" by auto
    from i(2) have "0 \<le> i" "i < 65536" "b2 = b1 @ be_bytes 2 (nat i)"
      by (auto simp: append_packed_h_def result_simps dest!: pack_uint_2D)
    with i(1) False that show ?thesis by (metis nat_0_le nat_less_iff of_nat_numeral)
  qed (use *(3) that in simp)
  from finalize_packetD [OF *(5)] f [folded fb_def] t ids q *(1) that show ?thesis by (simp add: append.assoc)
qed


lemma parse_publish_body:
  fixes t pl ids :: "byte list"
  assumes q: "qos \<le> 1" and t: "utf8_decode t = Inr topic" "length t < 65536"
    and ids: "if qos = 0 then ids = [] \<and> pid = None else \<exists>i. pid = Some i \<and> i < 65536 \<and> ids = be_bytes 2 i"
  defines "body \<equiv> be_bytes 2 (length t) @ t @ ids @ pl"
  shows "parse_packet (publish_fixed qos retain) body 0 (length body) = Inr (ParsedPublish topic pl qos pid)"
proof -
  have h: "view_h body 0 = Inr (length t)" using view_h_here [OF t(2), of "[]" 0] by (simp add: body_def)
  have tp: "pslice body 2 (2 + length t) = t"
    using pslice_here [of "be_bytes 2 (length t)" 2 t "2 + length t" "ids @ pl"] by (simp add: body_def)
  have pub: "parse_packet (publish_fixed qos retain) body 0 (length body)
      = parse_publish (publish_fixed qos retain) body 0 (length body)"
    using publish_fixed_bits [OF q] by (simp add: parse_packet_def Let_def)
  show ?thesis
  proof (cases "qos = 0")
    case True
    have "pslice body (2 + length t) (length body) = pl"
      using pslice_here [of "be_bytes 2 (length t) @ t" "2 + length t" pl "length body" "[]"] True ids
      by (simp add: body_def)
    with True h tp pub ids t publish_fixed_bits [OF q] show ?thesis
      by (simp add: parse_publish_def Let_def numeral_2_eq_2) (simp add: body_def)
  next
    case False
    with ids obtain i where i: "pid = Some i" "i < 65536" "ids = be_bytes 2 i" by auto
    have "pslice body (2 + length t + 2) (length body) = pl"
      using pslice_here [of "be_bytes 2 (length t) @ t @ ids" "2 + length t + 2" pl "length body" "[]"] i
      by (simp add: body_def)
    moreover have "view_h body (2 + length t) = Inr i"
      using view_h_here [OF i(2), of "be_bytes 2 (length t) @ t" "2 + length t" pl] i by (simp add: body_def)
    ultimately show ?thesis using False h tp pub i t publish_fixed_bits [OF q]
      by (simp add: parse_publish_def Let_def numeral_2_eq_2) (simp add: body_def)
  qed
qed

text \<open>A message as the application states it, its encoding, and what a subscriber gets.\<close>

type_synonym message = "pystr \<times> byte list \<times> nat \<times> bool \<times> nat option"

fun message_bytes :: "message \<Rightarrow> byte list result" where
  "message_bytes (topic, payload, qos, retain, pid) =
     encode_publish (Text topic) (Raw payload) (int qos) retain (map_option int pid)"

fun message_packet :: "message \<Rightarrow> packet" where
  "message_packet (topic, payload, qos, retain, pid) =
     ParsedPublish topic payload qos (if qos = 0 then None else pid)"

lemma message_frame:
  assumes "message_bytes m = Inr bs" "length bs \<le> cap"
  shows "next_frame cap (bs @ post) = Frame (message_packet m) (length bs)"
proof -
  obtain topic payload qos retain pid where m: "m = (topic, payload, qos, retain, pid)" by (cases m)
  from assms(1) m have "encode_publish (Text topic) (Raw payload) (int qos) retain (map_option int pid) = Inr bs" by simp
  then obtain t ids where e: "utf8_encode topic = Inr t" "length t < 65536" "qos \<le> 1"
    "if qos = 0 then ids = [] else \<exists>i. pid = Some i \<and> i < 65536 \<and> ids = be_bytes 2 i"
    "length (be_bytes 2 (length t) @ t @ ids @ payload) < 268435456"
    "bs = B (publish_fixed qos retain) # varlen_loop (length (be_bytes 2 (length t) @ t @ ids @ payload))
       @ be_bytes 2 (length t) @ t @ ids @ payload"
    by (elim encode_publishD) (auto simp: as_bytes_def split: if_splits)
  define body where "body = be_bytes 2 (length t) @ t @ ids @ payload"
  define hdr where "hdr = B (publish_fixed qos retain) # varlen_loop (length body)"
  note e = e [folded body_def]
  have bs: "bs = hdr @ body" using e(6) by (simp add: hdr_def body_def)
  have vl: "decode_varlen (bs @ post) 1 (Some (length (bs @ post))) = Inr (length body, length (varlen_loop (length body)))"
    using decode_varlen_encoded [OF e(5), of "[B (publish_fixed qos retain)]" 1 "length (bs @ post)" "body @ post"] bs
    by (simp add: hdr_def)
  have ne: "varlen_loop (length body) \<noteq> []" by (subst varlen_loop.simps) (simp add: Let_def)
  have "parse_packet (publish_fixed qos retain) (bs @ post) (length hdr) (length bs)
      = parse_packet (publish_fixed qos retain) body 0 (length body)"
    using parse_packet_shift [of "length body" body "publish_fixed qos retain" hdr post 0] bs by simp
  also have "\<dots> = Inr (message_packet m)"
    unfolding body_def using parse_publish_body [OF e(3) utf8_decode_encode [OF e(1)] e(2)] e(4) m by simp
  finally have "parse_packet (unat ((bs @ post) ! 0)) (bs @ post) (1 + length (varlen_loop (length body)))
      (1 + length (varlen_loop (length body)) + length body) = Inr (message_packet m)"
    using publish_fixed_bits(1) [OF e(3)] bs by (simp add: hdr_def)
  with vl ne assms(2) bs show ?thesis by (simp add: next_frame_def Let_def hdr_def)
qed


lemma straddles_big: "straddles cap bs \<Longrightarrow> next_frame cap bs = Frame p n \<Longrightarrow> cap < n"
  by (elim next_frame_FrameD) (auto simp: straddles_def)

lemma messages_parse_all:
  "list_all2 (\<lambda>m bs. message_bytes m = Inr bs \<and> length bs \<le> cap) ms bss \<Longrightarrow>
   parse_all cap (concat bss) = (map message_packet ms, []) \<and> stream_ok cap (concat bss)"
proof (induction ms bss rule: list_all2_induct)
  case Nil
  have "next_frame cap [] = NeedMore" by (simp add: next_frame_def)
  then show ?case by (simp add: parse_all_stop stream_ok.simps)
next
  case (Cons m ms bs bss)
  then have f: "next_frame cap (bs @ concat bss) = Frame (message_packet m) (length bs)"
    by (intro message_frame) auto
  then have "\<not> straddles cap (bs @ concat bss)" using straddles_big [OF _ f] Cons by auto
  with Cons f show ?case by (simp add: parse_all_step stream_ok_step)
qed

lemma drive_parse_all:
  assumes "parse_all rx stream = (packets, [])"
  shows "\<exists>got d left. drive (PacketDecoder_init rx) stream ns = Inr (got, d, left)
    \<and> pd_inv d \<and> (\<exists>later. packets = got @ later)
    \<and> (ns \<noteq> [] \<and> left = [] \<longrightarrow> got = packets)
    \<and> (12 \<le> rx \<and> stream_ok rx stream \<and> 0 \<notin> set ns \<and> length stream \<le> length ns \<longrightarrow> got = packets)"
proof -
  have o: "owes (PacketDecoder_init rx) stream packets" using assms by (simp add: owes_def)
  have start: "pending (PacketDecoder_init rx) stream = stream" by (simp add: pending_def)
  have cap: "0 < fill_capacity (PacketDecoder_init rx)" if "12 \<le> rx"
    using that by (simp add: PacketDecoder_init_def fill_capacity_def)
  have nil: "packets = []" if "stream = []"
    using that assms by (simp add: parse_all_stop next_frame_def)
  from drive_owes [OF o, of ns] obtain got d left later where
    1: "drive (PacketDecoder_init rx) stream ns = Inr (got, d, left)" "packets = got @ later" "pd_inv d"
      "ns \<noteq> [] \<Longrightarrow> later \<noteq> [] \<Longrightarrow> left \<noteq> []"
      "12 \<le> rx \<Longrightarrow> stream_ok rx stream \<Longrightarrow> 0 < fill_capacity (PacketDecoder_init rx) \<Longrightarrow>
        0 \<notin> set ns \<Longrightarrow> later = [] \<or> length left + length ns \<le> length stream"
    unfolding start by (auto simp: owes_def)
  have "later = []" if "12 \<le> rx" "stream_ok rx stream" "0 \<notin> set ns" "length stream \<le> length ns"
  proof (cases "ns = []")
    case False
    with 1(5) [OF that(1,2) cap that(3)] that have "later = [] \<or> left = []" by (cases left) auto
    with 1(4) False show ?thesis by blast
  qed (use that 1(2) nil in auto)
  with 1 show ?thesis by (intro exI [of _ got] exI [of _ d] exI [of _ left]) auto
qed

section \<open>Properties\<close>

text \<open>
  C1. The incremental decoder against the framing specification. Let \<open>stream\<close> be a sequence of
  whole packets, some possibly larger than the receive buffer. However the bytes arrive
  (tick \<open>i\<close> brings at most \<open>ns ! i\<close>), the client's loop never raises and returns packets in
  order, a prefix of what the specification gives, and all of them once the stream is
  used up; an oversized PUBLISH comes back as one \<open>OversizedMessage\<close>. If no oversized
  packet straddles (\<open>stream_ok\<close>) and every tick brings something, as many ticks as bytes suffice.
\<close>

theorem mqtt_stream_decoding:
  assumes "parse_all rx stream = (packets, [])"
  shows "\<exists>got d left. drive (PacketDecoder_init rx) stream ns = Inr (got, d, left)
    \<and> pd_inv d \<and> (\<exists>later. packets = got @ later)
    \<and> (ns \<noteq> [] \<and> left = [] \<longrightarrow> got = packets)
    \<and> (12 \<le> rx \<and> stream_ok rx stream \<and> 0 \<notin> set ns \<and> length stream \<le> length ns \<longrightarrow> got = packets)"
  using assms by (rule drive_parse_all)

theorem mqtt_stream_decoding_witness:
  "parse_all 16 (map B ([48, 20, 0, 2, 97, 98] @ replicate 16 7 @ [48, 4, 0, 1, 99, 5]))
     = ([OversizedMessage (Some [97, 98]) 20 0 None, ParsedPublish [99] [B 5] 0 None], [])
   \<and> (\<exists>d left. drive (PacketDecoder_init 16) (map B ([48, 20, 0, 2, 97, 98] @ replicate 16 7 @ [48, 4, 0, 1, 99, 5]))
       (replicate 28 1)
     = Inr ([OversizedMessage (Some [97, 98]) 20 0 None, ParsedPublish [99] [B 5] 0 None], d, left))"
proof -
  let ?s = "map B ([48, 20, 0, 2, 97, 98] @ replicate 16 7 @ [48, 4, 0, 1, 99, 5])"
  have p: "parse_all 16 ?s = ([OversizedMessage (Some [97, 98]) 20 0 None, ParsedPublish [99] [B 5] 0 None], [])"
    by code_simp
  have "stream_ok 16 ?s" by code_simp
  with mqtt_stream_decoding [OF p, of "replicate 28 1"] p show ?thesis by auto
qed

text \<open>
  End to end: a sequence of messages encoded by \<open>encode_publish\<close>, each no larger than the
  receive buffer, cut at will into ticks of at least one byte, is decoded to exactly these messages.
\<close>

lemma publish_stream_delivery:
  assumes "list_all2 (\<lambda>m bs. message_bytes m = Inr bs \<and> length bs \<le> rx) ms bss"
    and "12 \<le> rx" and "0 \<notin> set ns" and "length (concat bss) \<le> length ns"
  shows "\<exists>d left. drive (PacketDecoder_init rx) (concat bss) ns = Inr (map message_packet ms, d, left)"
  using drive_parse_all [of rx "concat bss" "map message_packet ms" ns] messages_parse_all [OF assms(1)] assms
  by auto


lemma publish_stream_delivery_witness:
  "message_bytes ([97], [B 1, B 2], 1, False, Some 7) = Inr (map B [50, 7, 0, 1, 97, 0, 7, 1, 2])
   \<and> (\<exists>d left. drive (PacketDecoder_init 16) (map B [50, 7, 0, 1, 97, 0, 7, 1, 2]) (replicate 9 1)
     = Inr ([ParsedPublish [97] [B 1, B 2] 1 (Some 7)], d, left))"
proof -
  have m: "message_bytes ([97], [B 1, B 2], 1, False, Some 7) = Inr (map B [50, 7, 0, 1, 97, 0, 7, 1, 2])"
    by (simp add: encode_publish_def as_bytes_def append_string_def append_packed_h_def pack_uint_def
        finalize_packet_def encode_varlen_def varlen_loop_simps scalar_value_def utf8_char_def
        PACKET_PUBLISH_def numeral_2_eq_2, simp add: eval_nat_numeral)
  with publish_stream_delivery [of 16 "[([97], [B 1, B 2], 1, False, Some 7)]" "[map B [50, 7, 0, 1, 97, 0, 7, 1, 2]]"
      "replicate 9 1"]
  show ?thesis by simp
qed

text \<open>A short PUBLISH, then one of 20 bytes with a topic of 8: oversized for a 16-byte buffer.\<close>

definition short_then_big :: "byte list" where
  "short_then_big = map B ([48, 4, 0, 1, 97, 5] @ [48, 18, 0, 8] @ replicate 8 116 @ replicate 8 0)"

lemma short_then_big_parsed: "parse_all 16 short_then_big =
   ([ParsedPublish [97] [B 5] 0 None, OversizedMessage (Some (replicate 8 116)) 18 0 None], [])"
  by code_simp

text \<open>The decoder after one tick of 16 bytes of it.\<close>

definition wedged_decoder :: PacketDecoder where
  "wedged_decoder = (case drive (PacketDecoder_init 16) short_then_big [16] of
     Inr (_, d, _) \<Rightarrow> d | Inl _ \<Rightarrow> PacketDecoder_init 16)"

lemma receive_Nil [simp]: "receive d [] = d"
  by (simp add: receive_def advance_def fill_write_def fill_buffer_def)

lemma drive_stuck:
  "fill_capacity d = 0 \<Longrightarrow> read_next d = Inr (None, d) \<Longrightarrow> drive d rest ns = Inr ([], d, rest)"
  by (induction ns) (simp_all add: numeral_2_eq_2)

text \<open>
  C31. The straddling case is real. A 16-byte decoder that gets a PUBLISH of 6 bytes and then one
  of 20 bytes with an 8-byte topic returns the first, and is then stuck for ever: its buffer
  is full up to the end, \<open>fill_capacity\<close> is 0, \<open>enter_drain_path\<close> returns without compacting, and
  no number of further ticks receives another byte, although the stream is valid.
\<close>

theorem oversized_prelude_wedges:
  "(\<exists>packets. parse_all 16 short_then_big = (packets, []) \<and> length packets = 2)
   \<and> drive (PacketDecoder_init 16) short_then_big [16]
       = Inr ([ParsedPublish [97] [B 5] 0 None], wedged_decoder, drop 16 short_then_big)
   \<and> drop 16 short_then_big \<noteq> []
   \<and> (\<forall>ns. drive wedged_decoder (drop 16 short_then_big) ns = Inr ([], wedged_decoder, drop 16 short_then_big))"
proof -
  have "fill_capacity wedged_decoder = 0" "read_next wedged_decoder = Inr (None, wedged_decoder)"
    by code_simp+
  moreover have "drive (PacketDecoder_init 16) short_then_big [16]
       = Inr ([ParsedPublish [97] [B 5] 0 None], wedged_decoder, drop 16 short_then_big)"
    by code_simp
  ultimately show ?thesis using short_then_big_parsed drive_stuck by (auto simp: short_then_big_def)
qed


section \<open>Arbitrary input\<close>

definition decode_exn :: "exn \<Rightarrow> bool" where
  "decode_exn e \<longleftrightarrow> (\<exists>m. e = MQTTProtocolError m) \<or> e = UnicodeDecodeError"

lemma decode_exn_simps [simp]: "decode_exn (MQTTProtocolError m)" "decode_exn UnicodeDecodeError"
  by (simp_all add: decode_exn_def)

text \<open>Weakest preconditions of the two reads that can raise.\<close>

lemma res_ok_view_h: "i + 2 \<le> length view \<Longrightarrow> (\<And>v. Q v) \<Longrightarrow> res_ok P Q (view_h view i)"
  using view_h_ok [of i view] by auto

lemma res_ok_utf8: "(\<And>t. Q t) \<Longrightarrow> res_ok decode_exn Q (utf8_decode bs)"
  by (cases "utf8_decode bs") (auto dest: utf8_decode_error)

lemma res_ok_index: "i < length view \<Longrightarrow> (\<And>v. Q v) \<Longrightarrow> res_ok P Q (index_at view i)"
  by (simp add: index_at_def)

lemma decode_varlen_loop_ok:
  "limit \<le> length bs \<Longrightarrow> res_ok decode_exn (\<lambda>(l, n). n = 0 \<or> s + n \<le> limit) (decode_varlen_loop k bs s limit c v sh)"
  by (induction k arbitrary: c v sh) (auto simp: Let_def index_at_def)

lemma parse_packet_ok:
  assumes "e \<le> length view"
  shows "res_ok decode_exn (\<lambda>_. True) (parse_packet fb view s e)"
proof -
  have "res_ok decode_exn (\<lambda>_. True) (parse_publish fb view s e)"
    using assms by (auto simp: parse_publish_def Let_def intro!: res_ok_view_h res_ok_utf8)
  moreover have "res_ok decode_exn (\<lambda>_. True) (parse_connack view s e)"
    using assms by (auto simp: parse_connack_def index_at_def)
  moreover have "res_ok decode_exn (\<lambda>_. True) (parse_simple_ack t view s e)" for t
    using assms by (auto simp: parse_simple_ack_def intro!: res_ok_view_h res_ok_utf8)
  moreover have "res_ok decode_exn (\<lambda>_. True) (parse_suback view s e)"
    using assms by (auto simp: parse_suback_def intro!: res_ok_view_h res_ok_utf8)
  ultimately show ?thesis by (simp add: parse_packet_def Let_def)
qed


lemma enter_drain_path_ok:
  assumes "pd_inv d" "base = pd_read_offset d"
  shows "res_ok decode_exn (\<lambda>(packet, d'). pd_inv d' \<and> pd_buffer_size d' = pd_buffer_size d)
    (enter_drain_path d fb len base h n)"
proof -
  have fin: "pd_inv (snd (maybe_finish_oversized (enter_oversized_drain d r t q i len)))
      \<and> pd_buffer_size (snd (maybe_finish_oversized (enter_oversized_drain d r t q i len))) = pd_buffer_size d" for r t q i
    using assms by (auto simp: maybe_finish_oversized_def enter_oversized_drain_def reset_drain_state_def pd_inv_def)
  have fin': "(case maybe_finish_oversized (enter_oversized_drain d r t q i len) of (packet, d') \<Rightarrow>
      pd_inv d' \<and> pd_buffer_size d' = pd_buffer_size d)" for r t q i
    using fin [of r t q i] by (simp add: case_prod_beta)
  have le: "length (pd_buffer d) = pd_buffer_size d" "pd_read_offset d \<le> pd_buffer_length d"
    "pd_buffer_length d \<le> pd_buffer_size d" using assms by (auto simp: pd_inv_def)
  show ?thesis
    using assms le fin'
    by (auto simp: enter_drain_path_def Let_def intro!: res_ok_view_h res_ok_utf8)
qed

lemma read_next_ok:
  assumes "pd_inv d"
  shows "res_ok decode_exn (\<lambda>(packet, d'). pd_inv d' \<and> pd_buffer_size d' = pd_buffer_size d) (read_next d)"
proof (cases "pd_drain_mode d = DRAIN_OVERSIZED")
  case True
  with assms show ?thesis
    by (auto simp: read_next_def maybe_finish_oversized_def reset_drain_state_def pd_inv_def)
next
  case False
  then have n: "pd_drain_mode d = DRAIN_NONE" by (cases "pd_drain_mode d") auto
  have iv: "length (pd_buffer d) = pd_buffer_size d" "pd_read_offset d \<le> pd_buffer_length d"
    "pd_buffer_length d \<le> pd_buffer_size d" using assms by (auto simp: pd_inv_def)
  note cl = compact_live [OF this n]
  have vl: "res_ok decode_exn (\<lambda>(l, c). c = 0 \<or> pd_read_offset d + 1 + c \<le> pd_buffer_length d)
      (decode_varlen (pd_buffer d) (pd_read_offset d + 1) (Some (pd_buffer_length d)))"
    unfolding decode_varlen_def option.case using iv by (intro decode_varlen_loop_ok) auto
  let ?Q = "\<lambda>(packet, d'). pd_inv d' \<and> pd_buffer_size d' = pd_buffer_size d"
  let ?off = "pd_read_offset d" and ?len = "pd_buffer_length d"
  let ?body = "\<lambda>fb l h n. (if n > pd_buffer_size d then enter_drain_path d fb l ?off h n
       else if ?len - ?off < n then
         Inr (None, if ?len = pd_buffer_size d \<and> ?off > 0 then compact d else d)
       else rbind (parse_packet fb (pd_buffer d) (?off + h) (?off + n)) (\<lambda>packet. Inr (Some packet, consume d n)))"
  have body: "res_ok decode_exn ?Q (?body fb l h n)" for fb l h n
  proof -
    have "?off + n \<le> length (pd_buffer d)" "n \<le> length (pd_live d)" if "\<not> ?len - ?off < n"
      using that iv length_pd_live [OF assms] by auto
    then show ?thesis
      using enter_drain_path_ok [OF assms refl] cl assms consume_live [OF assms n]
        res_ok_mono [OF parse_packet_ok, of "?off + n" "pd_buffer d" _ "?off + h"]
      by auto
  qed
  show ?thesis
  proof (cases "?len - ?off < 2")
    case True
    with n assms show ?thesis by (simp add: read_next_def)
  next
    case False
    have fb: "index_at (pd_buffer d) ?off = Inr (pd_buffer d ! ?off)"
      using False iv by (simp add: index_at_def)
    show ?thesis
    proof (cases "decode_varlen (pd_buffer d) (?off + 1) (Some ?len)")
      case (Inl e)
      with vl False n fb show ?thesis by (simp add: read_next_def Let_def)
    next
      case (Inr lc)
      obtain l c where lc: "lc = (l, c)" by (cases lc)
      show ?thesis
      proof (cases "c = 0")
        case True
        with Inr lc False n fb assms show ?thesis by (simp add: read_next_def Let_def)
      next
        case c: False
        then have "read_next d = ?body (unat (pd_buffer d ! ?off)) l (1 + c) (1 + c + l)"
          using Inr lc False n fb by (simp add: read_next_def Let_def)
        with body show ?thesis by (simp only:)
      qed
    qed
  qed
qed

text \<open>
  C30. Arbitrary input: whatever the bytes in the buffer, \<open>read_next\<close> keeps the cursor invariant and
  raises only \<open>MQTTProtocolError\<close> or \<open>UnicodeDecodeError\<close>; no index or slice it takes is out of range.
\<close>

theorem read_next_total:
  assumes "pd_inv d"
  shows "case read_next d of
      Inr (packet, d') \<Rightarrow> pd_inv d' \<and> pd_buffer_size d' = pd_buffer_size d
    | Inl e \<Rightarrow> (\<exists>m. e = MQTTProtocolError m) \<or> e = UnicodeDecodeError"
  using read_next_ok [OF assms] by (auto simp: res_ok_def decode_exn_def split: sum.splits)

theorem read_next_total_witness:
  "pd_inv (receive (PacketDecoder_init 16) (map B [48, 3, 0, 1, 255]))
   \<and> read_next (receive (PacketDecoder_init 16) (map B [48, 3, 0, 1, 255])) = Inl UnicodeDecodeError
   \<and> (case read_next (receive (PacketDecoder_init 16) (map B [48, 3, 0, 1, 255])) of
      Inr (packet, d') \<Rightarrow> pd_inv d' \<and> pd_buffer_size d' = 16
    | Inl e \<Rightarrow> (\<exists>m. e = MQTTProtocolError m) \<or> e = UnicodeDecodeError)"
proof -
  let ?d = "receive (PacketDecoder_init 16) (map B [48, 3, 0, 1, 255])"
  have i: "pd_inv ?d" by code_simp
  have "pd_buffer_size ?d = 16" "read_next ?d = Inl UnicodeDecodeError" by code_simp+
  with i read_next_total [OF i] show ?thesis by simp
qed


end
