(* ===== verification/Mqtt_Client.thy ===== *)
theory Mqtt_Client
  imports Chu_Program Timing Mqtt_Decoder
begin

text \<open>
  \<^verbatim>\<open>libraries/mqtt/src/chumicro_mqtt/client.py\<close>: the non-blocking MQTT 3.1.1 client. The record
  \<open>MQTTClient\<close> has the fields of the class (the constructor's constants in \<open>MQTTConfig\<close>) and the
  world outside; every method is a program over it. Sockets, connectors and the user's
  callbacks are addressed by number through the environment \<open>mqtt_env\<close>; a callback is an
  arbitrary program over the client, so it may call any method again. Messages of exceptions
  are the fixed part of the source's text. The three loops with no bound in their text
  (\<open>drain_markers\<close>, \<open>drain_loop\<close>, \<open>dispatch_loop\<close>) carry fuel, and running out of it is the
  exception \<open>RuntimeError ''out of fuel''\<close>.
\<close>

section \<open>State\<close>

datatype ProtocolState = DISCONNECTED | AWAITING_TRANSPORT | CONNECTING | CONNECTED | FAILED

datatype awaiting = AWAIT_CONNACK | AWAIT_PINGRESP | AWAIT_SUBACK | AWAIT_UNSUBACK

definition SELF_HEAL_BACKOFF_BASE_MS :: int where "SELF_HEAL_BACKOFF_BASE_MS = 1000"
definition SELF_HEAL_BACKOFF_CAP_MS :: int where "SELF_HEAL_BACKOFF_CAP_MS = 60000"
definition PERMANENT_CONNACK_CODES :: "nat list" where "PERMANENT_CONNACK_CODES = [1, 2, 4, 5]"
definition MAX_INBOUND_QUEUE_SIZE :: nat where "MAX_INBOUND_QUEUE_SIZE = 16"
definition MQ_IO_READ :: int where "MQ_IO_READ = 1"
definition MQ_IO_WRITE :: int where "MQ_IO_WRITE = 2"
definition DROP_SILENT :: string where "DROP_SILENT = ''drop_silent''"
definition DROP_WITH_EVENT :: string where "DROP_WITH_EVENT = ''drop_with_event''"
definition OVERSIZED_DISCONNECT :: string where "OVERSIZED_DISCONNECT = ''disconnect''"

text \<open>The closure \<^verbatim>\<open>_wrapped_callback\<close> is what it captures: the user's callback, topic and payload.\<close>

record InFlightPublish =
  if_packet_id :: nat
  if_packet_bytes :: "byte list"
  if_retry_count :: int
  if_deadline_ticks :: int
  if_callback :: "nat option \<times> pystr \<times> byte list"
  if_dup_packet_bytes :: "byte list option"

record PendingResponse =
  pr_awaiting :: awaiting
  pr_deadline_ticks :: int
  pr_packet_id :: "nat option"
  pr_callback :: "(nat option \<times> pystr) option"
  pr_topic :: "pystr option"

datatype tx_item =
    TxPacket (tx_bytes: "byte list")
  | TxMarker "nat option" pystr "byte list"

text \<open>One call into user code: the client's own \<^verbatim>\<open>on_...\<close> attributes and the per-call callbacks.\<close>

datatype callback =
    OnMessage pystr "byte list"
  | OnConnect
  | OnDisconnect
  | OnSubscribe pystr "nat list option"
  | OnUnsubscribe pystr
  | OnPublish pystr "byte list"
  | OnOversized nat "pystr option"
  | UserPublish nat pystr "byte list"
  | UserSubscribe nat pystr "nat list option"
  | UserUnsubscribe nat pystr

record MQTTConfig =
  mc_client_id :: text_or_bytes
  mc_keep_alive_seconds :: int
  mc_ack_timeout_ms :: int
  mc_publish_retry_max :: int
  mc_username :: "text_or_bytes option"
  mc_password :: "text_or_bytes option"
  mc_clean_session :: bool
  mc_when_oversized :: string
  mc_when_disconnected :: string
  mc_pre_connect_queue_size :: nat
  mc_recv_budget_per_tick :: int
  mc_max_tx_queue_size :: nat
  mc_send_timeout_ms :: int
  mc_rx_buffer_size :: nat
  mc_transport_factory :: bool

record 'w MQTTClient =
  mq_cfg :: MQTTConfig
  mq_socket :: "nat option"
  mq_connector :: "nat option"
  mq_transport_deadline_ticks :: "int option"
  mq_user_wants_connected :: bool
  mq_will_topic :: "text_or_bytes option"
  mq_will_message :: "text_or_bytes option"
  mq_will_qos :: int
  mq_will_retain :: bool
  mq_pre_connect_queue :: "(pystr \<times> byte list \<times> int \<times> bool \<times> nat option) list"
  mq_decoder :: PacketDecoder
  mq_state :: ProtocolState
  mq_in_flight :: "(nat \<times> InFlightPublish) list"
  mq_next_packet_id :: nat
  mq_pending_responses :: "PendingResponse list"
  mq_subscriptions :: "(pystr \<times> int \<times> nat option option) list"
  mq_tx_queue :: "tx_item list"
  mq_partial_send :: "(byte list \<times> nat) option"
  mq_pending_pubacks :: "byte list list"
  mq_puback_batch_queued :: bool
  mq_send_deadline_ticks :: "int option"
  mq_next_ping_due_ticks :: int
  mq_on_publish_set :: bool
  mq_inbound_queue :: "(pystr \<times> byte list) list option"
  mq_last_error :: "exn option"
  mq_self_heal_attempts :: nat
  mq_self_heal_retry_at_ticks :: "int option"
  mq_permanent_failure :: bool
  mq_reconnect_held :: bool
  mq_world :: 'w

record 'w mqtt_env =
  cv_ticks :: ticks_source
  cv_ticks_ms :: "'w \<Rightarrow> int \<times> 'w"
  cv_factory :: "'w \<Rightarrow> nat result \<times> 'w"
  cv_set_non_blocking :: "nat \<Rightarrow> 'w \<Rightarrow> exn option \<times> 'w"
  cv_send :: "nat \<Rightarrow> byte list \<Rightarrow> 'w \<Rightarrow> nat result \<times> 'w"
  cv_recv_into :: "nat \<Rightarrow> nat \<Rightarrow> 'w \<Rightarrow> byte list result \<times> 'w"
  cv_close :: "nat \<Rightarrow> 'w \<Rightarrow> exn option \<times> 'w"
  cv_connector_tick :: "nat \<Rightarrow> int \<Rightarrow> 'w \<Rightarrow> exn option \<times> 'w"
  cv_connector_state :: "nat \<Rightarrow> 'w \<Rightarrow> string"
  cv_connector_socket :: "nat \<Rightarrow> 'w \<Rightarrow> nat"
  cv_connector_io_socket :: "nat \<Rightarrow> 'w \<Rightarrow> nat option"
  cv_connector_io_interest :: "nat \<Rightarrow> int \<Rightarrow> 'w \<Rightarrow> int"
  cv_connector_next_deadline :: "nat \<Rightarrow> int \<Rightarrow> 'w \<Rightarrow> int option"
  cv_connector_cancel :: "nat \<Rightarrow> 'w \<Rightarrow> 'w"
  cv_call :: "callback \<Rightarrow> 'w MQTTClient \<Rightarrow> unit result \<times> 'w MQTTClient"

type_synonym ('w, 'a) mq = "('w MQTTClient, 'a) prog"

section \<open>Calls outside\<close>

definition world :: "('w \<Rightarrow> 'a \<times> 'w) \<Rightarrow> ('w, 'a) mq" where
  "world f c = (case f (mq_world c) of (x, w) \<Rightarrow> (Inr x, c\<lparr>mq_world := w\<rparr>))"

definition world_result :: "('w \<Rightarrow> 'a result \<times> 'w) \<Rightarrow> ('w, 'a) mq" where
  "world_result f = mbind (world f) lift"

definition world_do :: "('w \<Rightarrow> exn option \<times> 'w) \<Rightarrow> ('w, unit) mq" where
  "world_do f = mbind (world f) (\<lambda>r. case r of None \<Rightarrow> ret () | Some e \<Rightarrow> throw e)"

definition force_non_blocking :: "'w mqtt_env \<Rightarrow> nat \<Rightarrow> ('w, unit) mq" where
  "force_non_blocking env sock =
     swallow (\<lambda>e. is_OSError e \<or> e = AttributeError) (world_do (cv_set_non_blocking env sock))"

definition call :: "'w mqtt_env \<Rightarrow> callback \<Rightarrow> ('w, unit) mq" where
  "call env = cv_call env"

section \<open>Construction\<close>

definition hex_digit :: "nat \<Rightarrow> nat" where
  "hex_digit d = (if d < 10 then 48 + d else 87 + d)"

definition default_client_id :: "pystr \<Rightarrow> byte list result \<Rightarrow> byte list result \<Rightarrow> byte list result \<Rightarrow> pystr" where
  "default_client_id prefix microcontroller_uid machine_uid node_uid =
     (let uid = (case microcontroller_uid of Inr u \<Rightarrow> Some u
         | Inl _ \<Rightarrow> (case machine_uid of Inr u \<Rightarrow> Some u
         | Inl _ \<Rightarrow> (case node_uid of Inr u \<Rightarrow> Some u | Inl _ \<Rightarrow> None))) in
      if uid = None \<or> uid = Some [] then prefix @ ustr ''-mqtt''
      else prefix @ ustr ''-'' @ concat (map (\<lambda>b. [hex_digit (unat b div 16), hex_digit (unat b mod 16)]) (the uid)))"

definition tx_queue_hard_cap :: "'w MQTTClient \<Rightarrow> nat" where
  "tx_queue_hard_cap c = mc_max_tx_queue_size (mq_cfg c) + 64"

definition keepalive_enabled :: "'w MQTTClient \<Rightarrow> bool" where
  "keepalive_enabled c = (mc_keep_alive_seconds (mq_cfg c) > 0)"

definition ping_interval_ms :: "'w MQTTClient \<Rightarrow> int" where
  "ping_interval_ms c = max 1000 (mc_keep_alive_seconds (mq_cfg c) * 1000 div 2)"

definition MQTTClient_init ::
    "'w mqtt_env \<Rightarrow> MQTTConfig \<Rightarrow> nat option \<Rightarrow> text_or_bytes option \<Rightarrow> text_or_bytes option \<Rightarrow> int \<Rightarrow> bool \<Rightarrow> 'w
      \<Rightarrow> 'w MQTTClient result" where
  "MQTTClient_init env cfg sock will_topic will_message will_qos will_retain w =
     (if sock = None \<and> \<not> mc_transport_factory cfg
      then Inl (ValueError ''MQTTClient requires either a connected socket or a transport_factory'')
      else if mc_when_disconnected cfg \<noteq> ''queue'' \<and> mc_when_disconnected cfg \<noteq> ''raise''
      then Inl (ValueError ''when_disconnected must be queue or raise'')
      else
        let c = \<lparr>mq_cfg = cfg, mq_socket = sock, mq_connector = None, mq_transport_deadline_ticks = None,
          mq_user_wants_connected = False, mq_will_topic = will_topic, mq_will_message = will_message,
          mq_will_qos = will_qos, mq_will_retain = will_retain, mq_pre_connect_queue = [],
          mq_decoder = PacketDecoder_init (mc_rx_buffer_size cfg), mq_state = DISCONNECTED, mq_in_flight = [],
          mq_next_packet_id = 1, mq_pending_responses = [], mq_subscriptions = [], mq_tx_queue = [],
          mq_partial_send = None, mq_pending_pubacks = [], mq_puback_batch_queued = False,
          mq_send_deadline_ticks = None, mq_next_ping_due_ticks = 0, mq_on_publish_set = False,
          mq_inbound_queue = None, mq_last_error = None, mq_self_heal_attempts = 0,
          mq_self_heal_retry_at_ticks = None, mq_permanent_failure = False, mq_reconnect_held = False,
          mq_world = w\<rparr>
        in case sock of
             None \<Rightarrow> Inr c
           | Some s \<Rightarrow> (case force_non_blocking env s c of (Inl e, _) \<Rightarrow> Inl e | (Inr _, c1) \<Rightarrow> Inr c1))"

section \<open>Deadlines, queues and packet ids\<close>

definition deadline :: "'w mqtt_env \<Rightarrow> int \<Rightarrow> int option \<Rightarrow> ('w, int) mq" where
  "deadline env offset_ms now_ms =
     mbind (case now_ms of Some n \<Rightarrow> ret n | None \<Rightarrow> world (cv_ticks_ms env))
       (\<lambda>now. lift (src_add (cv_ticks env) now offset_ms))"

definition await_ack ::
    "'w mqtt_env \<Rightarrow> awaiting \<Rightarrow> nat option \<Rightarrow> (nat option \<times> pystr) option \<Rightarrow> pystr option \<Rightarrow> int option \<Rightarrow> ('w, unit) mq" where
  "await_ack env what packet_id cb topic now_ms = reading (\<lambda>c.
     mbind (deadline env (mc_ack_timeout_ms (mq_cfg c)) now_ms) (\<lambda>d.
     modify (\<lambda>c. c\<lparr>mq_pending_responses := mq_pending_responses c @
       [\<lparr>pr_awaiting = what, pr_deadline_ticks = d, pr_packet_id = packet_id, pr_callback = cb, pr_topic = topic\<rparr>]\<rparr>)))"

definition enqueue_user_tx :: "tx_item list \<Rightarrow> ('w, unit) mq" where
  "enqueue_user_tx items = reading (\<lambda>c.
     if length (mq_tx_queue c) + length items > mc_max_tx_queue_size (mq_cfg c)
     then throw (MQTTBackpressureError ''tx queue full'')
     else modify (\<lambda>c. c\<lparr>mq_tx_queue := foldl (deque_append (tx_queue_hard_cap c)) (mq_tx_queue c) items\<rparr>))"

definition enqueue_internal_tx :: "tx_item \<Rightarrow> bool \<Rightarrow> ('w, bool) mq" where
  "enqueue_internal_tx item front = reading (\<lambda>c.
     if length (mq_tx_queue c) \<ge> tx_queue_hard_cap c then ret False
     else andThen (modify (\<lambda>c. c\<lparr>mq_tx_queue :=
         (if front then deque_appendleft (tx_queue_hard_cap c) (mq_tx_queue c) item
          else deque_append (tx_queue_hard_cap c) (mq_tx_queue c) item)\<rparr>)) (ret True))"

definition recv_suppressed :: "'w MQTTClient \<Rightarrow> bool" where
  "recv_suppressed c \<longleftrightarrow> mq_puback_batch_queued c \<or> mq_partial_send c \<noteq> None"

text \<open>\<^verbatim>\<open>for _attempt in range(65535)\<close>: the candidates left to try.\<close>

fun allocate_loop :: "nat \<Rightarrow> ('w, nat) mq" where
  "allocate_loop 0 = throw (OverflowError ''MQTT in-flight table is full'')"
| "allocate_loop (Suc attempts) = reading (\<lambda>c.
     let candidate = mq_next_packet_id c in
     andThen (modify (\<lambda>c. c\<lparr>mq_next_packet_id := (if candidate + 1 > 65535 then 1 else candidate + 1)\<rparr>))
       (if candidate \<notin> fst ` set (mq_in_flight c) then ret candidate else allocate_loop attempts))"

definition allocate_packet_id :: "('w, nat) mq" where
  "allocate_packet_id = allocate_loop 65535"

section \<open>Connection lifecycle\<close>

definition enter_failed :: "'w mqtt_env \<Rightarrow> ('w, unit) mq" where
  "enter_failed env = reading (\<lambda>c.
     andThen (modify (\<lambda>c. c\<lparr>mq_state := FAILED\<rparr>)) (whenever (mq_state c = CONNECTED) (call env OnDisconnect)))"

text \<open>A factory that is \<open>None\<close> raises \<^verbatim>\<open>TypeError\<close> when called.\<close>

definition build_connector :: "'w mqtt_env \<Rightarrow> ('w, bool) mq" where
  "build_connector env = catch
     (reading (\<lambda>c. mbind (if mc_transport_factory (mq_cfg c) then world_result (cv_factory env)
         else throw (TypeError ''NoneType object is not callable''))
       (\<lambda>k. andThen (modify (\<lambda>c. c\<lparr>mq_connector := Some k\<rparr>)) (ret True))))
     (\<lambda>e. if is_Exception e
       then andThen (modify (\<lambda>c. c\<lparr>mq_last_error := Some (MQTTError ''connector factory failed'')\<rparr>)) (ret False)
       else throw e)"

definition start_transport :: "'w mqtt_env \<Rightarrow> int option \<Rightarrow> ('w, bool) mq" where
  "start_transport env now_ms = mbind (build_connector env) (\<lambda>built.
     if \<not> built then ret False
     else reading (\<lambda>c. mbind (deadline env (mc_ack_timeout_ms (mq_cfg c)) now_ms) (\<lambda>d.
       andThen (modify (\<lambda>c. c\<lparr>mq_transport_deadline_ticks := Some d, mq_state := AWAITING_TRANSPORT\<rparr>)) (ret True))))"

definition enqueue_connect_packet :: "'w mqtt_env \<Rightarrow> int option \<Rightarrow> ('w, unit) mq" where
  "enqueue_connect_packet env now_ms = reading (\<lambda>c. let cfg = mq_cfg c in
     mbind (lift (encode_connect \<lparr>ca_client_id = mc_client_id cfg, ca_keep_alive_seconds = mc_keep_alive_seconds cfg,
         ca_clean_session = mc_clean_session cfg, ca_username = mc_username cfg, ca_password = mc_password cfg,
         ca_will_topic = mq_will_topic c, ca_will_message = mq_will_message c, ca_will_qos = mq_will_qos c,
         ca_will_retain = mq_will_retain c\<rparr>)) (\<lambda>packet.
     andThen (enqueue_user_tx [TxPacket packet]) (await_ack env AWAIT_CONNACK None None None now_ms)))"

definition forget_failures :: "'w MQTTClient \<Rightarrow> 'w MQTTClient" where
  "forget_failures c = c\<lparr>mq_permanent_failure := False, mq_self_heal_attempts := 0, mq_self_heal_retry_at_ticks := None\<rparr>"

definition connect :: "'w mqtt_env \<Rightarrow> ('w, unit) mq" where
  "connect env = andThen (modify (\<lambda>c. c\<lparr>mq_reconnect_held := False, mq_user_wants_connected := True\<rparr>)) (reading (\<lambda>c.
     if mq_state c = DISCONNECTED then
       andThen (modify forget_failures)
         (if mq_socket c = None
          then mbind (start_transport env None) (\<lambda>started. whenever (\<not> started) (enter_failed env))
          else andThen (enqueue_connect_packet env None) (modify (\<lambda>c. c\<lparr>mq_state := CONNECTING\<rparr>)))
     else if mq_state c = FAILED then modify forget_failures
     else ret ()))"

definition hold :: "('w, unit) mq" where
  "hold = modify (\<lambda>c. c\<lparr>mq_reconnect_held := True\<rparr>)"

definition send_raw :: "'w mqtt_env \<Rightarrow> byte list \<Rightarrow> ('w, nat) mq" where
  "send_raw env payload = reading (\<lambda>c. catch
     (case mq_socket c of None \<Rightarrow> throw AttributeError | Some s \<Rightarrow> world_result (cv_send env s payload))
     (\<lambda>e. if e = OSError EAGAIN then ret 0 else throw e))"

definition reset_transient_state :: "'w MQTTClient \<Rightarrow> 'w MQTTClient" where
  "reset_transient_state c = c\<lparr>mq_tx_queue := [], mq_partial_send := None, mq_puback_batch_queued := False,
     mq_send_deadline_ticks := None, mq_transport_deadline_ticks := None, mq_pending_responses := [],
     mq_decoder := PacketDecoder_init (mc_rx_buffer_size (mq_cfg c))\<rparr>"

definition cancel_connector :: "'w mqtt_env \<Rightarrow> ('w, unit) mq" where
  "cancel_connector env = reading (\<lambda>c. case mq_connector c of
     None \<Rightarrow> ret ()
   | Some k \<Rightarrow> andThen (world (\<lambda>w. ((), cv_connector_cancel env k w))) (modify (\<lambda>c. c\<lparr>mq_connector := None\<rparr>)))"

definition close_socket :: "'w mqtt_env \<Rightarrow> ('w, unit) mq" where
  "close_socket env = reading (\<lambda>c. case mq_socket c of None \<Rightarrow> ret () | Some s \<Rightarrow> world_do (cv_close env s))"

definition disconnect :: "'w mqtt_env \<Rightarrow> ('w, unit) mq" where
  "disconnect env = reading (\<lambda>c.
     if mq_state c = DISCONNECTED then ret ()
     else andThen
       (if mq_state c = AWAITING_TRANSPORT then cancel_connector env
        else whenever (mq_state c \<noteq> FAILED)
          (swallow is_Exception (mbind (send_raw env PACKET_DISCONNECT) (\<lambda>_. ret ()))))
       (andThen (swallow is_Exception (close_socket env))
       (andThen (modify (\<lambda>c. (reset_transient_state (c\<lparr>mq_socket := None\<rparr>))\<lparr>mq_pre_connect_queue := [],
           mq_state := DISCONNECTED, mq_user_wants_connected := False, mq_reconnect_held := False\<rparr>))
       (call env OnDisconnect))))"

definition set_will :: "text_or_bytes option \<Rightarrow> text_or_bytes option \<Rightarrow> int \<Rightarrow> bool \<Rightarrow> ('w, unit) mq" where
  "set_will topic message qos retain =
     (if qos > 1 then throw (UnsupportedQoSError ''will_qos must be 0 or 1'')
      else modify (\<lambda>c. c\<lparr>mq_will_topic := topic, mq_will_message := message, mq_will_qos := qos, mq_will_retain := retain\<rparr>))"

section \<open>Publishing and subscribing\<close>

definition do_publish ::
    "'w mqtt_env \<Rightarrow> pystr \<Rightarrow> byte list \<Rightarrow> int \<Rightarrow> bool \<Rightarrow> nat option \<Rightarrow> int option \<Rightarrow> ('w, unit) mq" where
  "do_publish env topic payload qos retain on_publish now_ms =
     (if qos = 0 then
        mbind (lift (encode_publish (Text topic) (Raw payload) 0 retain None)) (\<lambda>packet. reading (\<lambda>c.
          enqueue_user_tx (if on_publish \<noteq> None \<or> mq_on_publish_set c
            then [TxPacket packet, TxMarker on_publish topic payload] else [TxPacket packet])))
      else
        mbind allocate_packet_id (\<lambda>packet_id.
        mbind (lift (encode_publish (Text topic) (Raw payload) 1 retain (Some (int packet_id)))) (\<lambda>packet. reading (\<lambda>c.
          if packet_id \<in> fst ` set (mq_in_flight c) then throw KeyError
          else mbind (deadline env (mc_ack_timeout_ms (mq_cfg c)) now_ms) (\<lambda>d.
            andThen (modify (\<lambda>c. c\<lparr>mq_in_flight := dict_put packet_id
                \<lparr>if_packet_id = packet_id, if_packet_bytes = packet, if_retry_count = 0, if_deadline_ticks = d,
                 if_callback = (on_publish, topic, payload), if_dup_packet_bytes = None\<rparr> (mq_in_flight c)\<rparr>))
              (catch (enqueue_user_tx [TxPacket packet])
                (\<lambda>e. case e of
                   MQTTBackpressureError _ \<Rightarrow>
                     andThen (modify (\<lambda>c. c\<lparr>mq_in_flight := dict_pop packet_id (mq_in_flight c)\<rparr>)) (throw e)
                 | _ \<Rightarrow> throw e)))))))"

definition publish_disconnected :: "pystr \<Rightarrow> byte list \<Rightarrow> int \<Rightarrow> bool \<Rightarrow> nat option \<Rightarrow> ('w, unit) mq" where
  "publish_disconnected topic payload qos retain on_publish = reading (\<lambda>c.
     if mc_when_disconnected (mq_cfg c) = ''raise'' then throw (MQTTError ''publish() requires CONNECTED state'')
     else if length (mq_pre_connect_queue c) \<ge> mc_pre_connect_queue_size (mq_cfg c)
     then throw (MQTTBackpressureError ''pre-connect publish queue full'')
     else modify (\<lambda>c. c\<lparr>mq_pre_connect_queue := deque_append (mc_pre_connect_queue_size (mq_cfg c))
       (mq_pre_connect_queue c) (topic, payload, qos, retain, on_publish)\<rparr>))"

definition publish ::
    "'w mqtt_env \<Rightarrow> pystr \<Rightarrow> text_or_bytes \<Rightarrow> int \<Rightarrow> bool \<Rightarrow> nat option \<Rightarrow> ('w, unit) mq" where
  "publish env topic payload qos retain on_publish =
     (if qos > 1 then throw (UnsupportedQoSError ''qos must be 0 or 1'')
      else mbind (lift (as_bytes payload)) (\<lambda>payload_bytes. reading (\<lambda>c.
        if mq_state c \<noteq> CONNECTED then publish_disconnected topic payload_bytes qos retain on_publish
        else do_publish env topic payload_bytes qos retain on_publish None)))"

text \<open>\<^verbatim>\<open>while queue\<close>: nothing in the body adds to the queue, so it turns once per entry.\<close>

fun drain_pre_connect :: "'w mqtt_env \<Rightarrow> int option \<Rightarrow> nat \<Rightarrow> ('w, unit) mq" where
  "drain_pre_connect env now_ms 0 = ret ()"
| "drain_pre_connect env now_ms (Suc n) = reading (\<lambda>c. case mq_pre_connect_queue c of
     [] \<Rightarrow> ret ()
   | (topic, payload, qos, retain, on_publish) # rest \<Rightarrow>
       andThen (modify (\<lambda>c. c\<lparr>mq_pre_connect_queue := rest\<rparr>))
       (andThen (do_publish env topic payload qos retain on_publish now_ms) (drain_pre_connect env now_ms n)))"

definition drain_pre_connect_queue :: "'w mqtt_env \<Rightarrow> int option \<Rightarrow> ('w, unit) mq" where
  "drain_pre_connect_queue env now_ms = reading (\<lambda>c. drain_pre_connect env now_ms (length (mq_pre_connect_queue c)))"

definition subscribe :: "'w mqtt_env \<Rightarrow> pystr \<Rightarrow> int \<Rightarrow> nat option \<Rightarrow> ('w, unit) mq" where
  "subscribe env topic qos on_subscribe = andThen
     (reading (\<lambda>c. whenever (mq_state c = CONNECTED)
       (mbind allocate_packet_id (\<lambda>packet_id.
        mbind (lift (encode_subscribe (int packet_id) [(Text topic, qos)])) (\<lambda>packet.
        andThen (enqueue_user_tx [TxPacket packet])
          (await_ack env AWAIT_SUBACK (Some packet_id) None (Some topic) None))))))
     (modify (\<lambda>c. c\<lparr>mq_subscriptions := dict_put topic (qos, Some on_subscribe) (mq_subscriptions c)\<rparr>))"

definition unsubscribe :: "'w mqtt_env \<Rightarrow> pystr \<Rightarrow> nat option \<Rightarrow> ('w, unit) mq" where
  "unsubscribe env topic on_unsubscribe = reading (\<lambda>c.
     if mq_state c \<noteq> CONNECTED then modify (\<lambda>c. c\<lparr>mq_subscriptions := dict_pop topic (mq_subscriptions c)\<rparr>)
     else
       mbind allocate_packet_id (\<lambda>packet_id.
       mbind (lift (encode_unsubscribe (int packet_id) [Text topic])) (\<lambda>packet.
       andThen (enqueue_user_tx [TxPacket packet])
      (andThen (modify (\<lambda>c. c\<lparr>mq_subscriptions := dict_pop topic (mq_subscriptions c)\<rparr>))
         (await_ack env AWAIT_UNSUBACK (Some packet_id) (Some (on_unsubscribe, topic)) None None)))))"

section \<open>Inbound stream\<close>

definition inbound_stream_ended :: "'w MQTTClient \<Rightarrow> bool" where
  "inbound_stream_ended c \<longleftrightarrow>
     (if mq_state c = DISCONNECTED then True
      else if mq_state c \<noteq> FAILED then False
      else \<not> mc_transport_factory (mq_cfg c) \<or> \<not> mq_user_wants_connected c \<or> mq_permanent_failure c)"

datatype next_message_step = Yields | Returns "(pystr \<times> byte list) option"

text \<open>The generator \<^verbatim>\<open>next_message\<close>: its first run makes the queue, every resume runs the loop body.\<close>

definition next_message_resume :: "('w, next_message_step) mq" where
  "next_message_resume = reading (\<lambda>c. case mq_inbound_queue c of
     Some (m # rest) \<Rightarrow> andThen (modify (\<lambda>c. c\<lparr>mq_inbound_queue := Some rest\<rparr>)) (ret (Returns (Some m)))
   | _ \<Rightarrow> if inbound_stream_ended c then ret (Returns None) else ret Yields)"

definition next_message :: "('w, next_message_step) mq" where
  "next_message = andThen (modify (\<lambda>c. if mq_inbound_queue c = None then c\<lparr>mq_inbound_queue := Some []\<rparr> else c))
     next_message_resume"

section \<open>Runner hooks\<close>

definition self_heal_active :: "'w MQTTClient \<Rightarrow> bool" where
  "self_heal_active c \<longleftrightarrow> mc_transport_factory (mq_cfg c) \<and> mq_user_wants_connected c
     \<and> \<not> mq_permanent_failure c \<and> \<not> mq_reconnect_held c"

definition check :: "'w MQTTClient \<Rightarrow> bool" where
  "check c = (if mq_state c = FAILED \<and> (mq_permanent_failure c \<or> mq_reconnect_held c) then False
     else mq_state c \<noteq> DISCONNECTED)"

definition io_socket :: "'w mqtt_env \<Rightarrow> 'w MQTTClient \<Rightarrow> nat option" where
  "io_socket env c =
     (if mq_state c = AWAITING_TRANSPORT
      then (case mq_connector c of Some k \<Rightarrow> cv_connector_io_socket env k (mq_world c) | None \<Rightarrow> None)
      else if mq_socket c = None then None
      else if mq_state c = DISCONNECTED \<or> mq_state c = FAILED then None
      else mq_socket c)"

definition io_interest :: "'w mqtt_env \<Rightarrow> int \<Rightarrow> 'w MQTTClient \<Rightarrow> int" where
  "io_interest env now_ms c =
     (if mq_state c = AWAITING_TRANSPORT then
        (case mq_connector c of None \<Rightarrow> 0
         | Some k \<Rightarrow> cv_connector_io_interest env k now_ms (mq_world c) AND (MQ_IO_READ OR MQ_IO_WRITE))
      else
        (if (mq_state c = CONNECTING \<or> mq_state c = CONNECTED) \<and> \<not> recv_suppressed c then MQ_IO_READ else 0)
        OR (if mq_state c \<noteq> DISCONNECTED \<and> mq_state c \<noteq> FAILED \<and> (length (mq_tx_queue c) > 0 \<or> mq_partial_send c \<noteq> None)
            then MQ_IO_WRITE else 0))"

definition io_error :: "'w mqtt_env \<Rightarrow> int \<Rightarrow> int \<Rightarrow> ('w, unit) mq" where
  "io_error env now_ms eventmask = reading (\<lambda>c.
     if mq_state c = DISCONNECTED \<or> mq_state c = FAILED then ret ()
     else andThen
       (whenever (mq_state c = AWAITING_TRANSPORT \<and> mq_connector c \<noteq> None)
         (andThen (cancel_connector env) (modify (\<lambda>c. c\<lparr>mq_transport_deadline_ticks := None\<rparr>))))
       (andThen (modify (\<lambda>c. c\<lparr>mq_last_error := Some (MQTTError ''socket error from runner.wait'')\<rparr>))
         (enter_failed env)))"

definition earlier :: "ticks_source \<Rightarrow> int option \<Rightarrow> int \<Rightarrow> int option" where
  "earlier tk nearest candidate = (case nearest of
     None \<Rightarrow> Some candidate
   | Some n \<Rightarrow> if src_diff tk candidate n < 0 then Some candidate else nearest)"

definition next_deadline :: "'w mqtt_env \<Rightarrow> int \<Rightarrow> 'w MQTTClient \<Rightarrow> int option" where
  "next_deadline env now_ms c =
     (if mq_state c = AWAITING_TRANSPORT then
        (case mq_connector c of
           None \<Rightarrow> None
         | Some k \<Rightarrow>
             if io_socket env c = None then Some now_ms
             else let nearest = cv_connector_next_deadline env k now_ms (mq_world c) in
               (case mq_transport_deadline_ticks c of None \<Rightarrow> nearest | Some d \<Rightarrow> earlier (cv_ticks env) nearest d))
      else if mq_state c = FAILED then
        (if self_heal_active c
         then (case mq_self_heal_retry_at_ticks c of None \<Rightarrow> Some now_ms | Some t \<Rightarrow> Some t)
         else None)
      else if mq_state c = DISCONNECTED then None
      else
        let n0 = (if mq_state c = CONNECTED \<and> keepalive_enabled c then Some (mq_next_ping_due_ticks c) else None);
            n1 = foldl (earlier (cv_ticks env)) n0 (map pr_deadline_ticks (mq_pending_responses c));
            n2 = foldl (earlier (cv_ticks env)) n1 (map (\<lambda>(_, e). if_deadline_ticks e) (mq_in_flight c))
        in (case mq_send_deadline_ticks c of None \<Rightarrow> n2 | Some d \<Rightarrow> earlier (cv_ticks env) n2 d))"

section \<open>Self-heal and transport\<close>

definition backoff_delay :: "nat \<Rightarrow> int" where
  "backoff_delay attempts =
     (if attempts \<ge> 6 then SELF_HEAL_BACKOFF_CAP_MS
      else let delay_ms = push_bit attempts SELF_HEAL_BACKOFF_BASE_MS in
        if delay_ms > SELF_HEAL_BACKOFF_CAP_MS then SELF_HEAL_BACKOFF_CAP_MS else delay_ms)"

definition arm_self_heal_backoff :: "'w mqtt_env \<Rightarrow> int \<Rightarrow> ('w, unit) mq" where
  "arm_self_heal_backoff env now_ms = reading (\<lambda>c.
     andThen (whenever (mq_self_heal_attempts c < 6)
         (modify (\<lambda>c. c\<lparr>mq_self_heal_attempts := mq_self_heal_attempts c + 1\<rparr>)))
      (mbind (deadline env (backoff_delay (mq_self_heal_attempts c)) (Some now_ms))
         (\<lambda>d. modify (\<lambda>c. c\<lparr>mq_self_heal_retry_at_ticks := Some d\<rparr>))))"

definition attempt_self_heal :: "'w mqtt_env \<Rightarrow> int \<Rightarrow> ('w, bool) mq" where
  "attempt_self_heal env now_ms =
     andThen (swallow is_OSError (close_socket env))
    (andThen (modify (\<lambda>c. let c1 = reset_transient_state (c\<lparr>mq_socket := None\<rparr>) in
         if mc_clean_session (mq_cfg c) then c1\<lparr>mq_in_flight := [], mq_next_packet_id := 1\<rparr> else c1))
    (mbind (build_connector env) (\<lambda>built.
       if \<not> built then ret False
       else reading (\<lambda>c. mbind (deadline env (mc_ack_timeout_ms (mq_cfg c)) (Some now_ms)) (\<lambda>d.
         andThen (modify (\<lambda>c. c\<lparr>mq_transport_deadline_ticks := Some d, mq_state := AWAITING_TRANSPORT,
           mq_last_error := None\<rparr>)) (ret True))))))"

definition check_transport_deadline :: "'w mqtt_env \<Rightarrow> int \<Rightarrow> ('w, bool) mq" where
  "check_transport_deadline env now_ms = reading (\<lambda>c.
     case mq_transport_deadline_ticks c of
       None \<Rightarrow> ret False
     | Some d \<Rightarrow>
         if src_diff (cv_ticks env) d now_ms > 0 then ret False
         else andThen (cancel_connector env)
           (andThen (modify (\<lambda>c. c\<lparr>mq_transport_deadline_ticks := None,
               mq_last_error := Some (MQTTError ''transport connect attempt timed out'')\<rparr>))
           (andThen (enter_failed env) (ret True))))"

definition advance_connector :: "'w mqtt_env \<Rightarrow> int \<Rightarrow> ('w, bool) mq" where
  "advance_connector env now_ms = reading (\<lambda>c.
     case mq_connector c of
       None \<Rightarrow> throw AttributeError
     | Some k \<Rightarrow>
         andThen (world_do (cv_connector_tick env k now_ms)) (reading (\<lambda>c1.
           if cv_connector_state env k (mq_world c1) = ''ready'' then
             andThen (modify (\<lambda>c. c\<lparr>mq_socket := Some (cv_connector_socket env k (mq_world c)), mq_connector := None,
                 mq_transport_deadline_ticks := None\<rparr>))
            (andThen (force_non_blocking env (cv_connector_socket env k (mq_world c1)))
            (andThen (enqueue_connect_packet env (Some now_ms))
            (andThen (modify (\<lambda>c. c\<lparr>mq_state := CONNECTING\<rparr>)) (ret True))))
           else if cv_connector_state env k (mq_world c1) = ''failed'' then
             andThen (modify (\<lambda>c. c\<lparr>mq_last_error := Some (MQTTError ''connector failed''), mq_connector := None,
                 mq_transport_deadline_ticks := None\<rparr>))
            (andThen (enter_failed env) (ret False))
           else ret False)))"

section \<open>Sending\<close>

definition update_send_deadline :: "'w mqtt_env \<Rightarrow> nat \<Rightarrow> ('w, unit) mq" where
  "update_send_deadline env bytes_sent = reading (\<lambda>c.
     if mq_tx_queue c = [] \<and> mq_partial_send c = None then modify (\<lambda>c. c\<lparr>mq_send_deadline_ticks := None\<rparr>)
     else whenever (bytes_sent > 0 \<or> mq_send_deadline_ticks c = None)
       (mbind (deadline env (mc_send_timeout_ms (mq_cfg c)) None)
         (\<lambda>d. modify (\<lambda>c. c\<lparr>mq_send_deadline_ticks := Some d\<rparr>))))"

definition call_publish :: "'w mqtt_env \<Rightarrow> nat option \<Rightarrow> pystr \<Rightarrow> byte list \<Rightarrow> ('w, unit) mq" where
  "call_publish env on_publish topic payload =
     andThen (case on_publish of None \<Rightarrow> ret () | Some f \<Rightarrow> call env (UserPublish f topic payload))
       (call env (OnPublish topic payload))"

fun drain_markers :: "'w mqtt_env \<Rightarrow> nat \<Rightarrow> ('w, unit) mq" where
  "drain_markers env 0 = throw (RuntimeError ''out of fuel'')"
| "drain_markers env (Suc fuel) = reading (\<lambda>c. case mq_tx_queue c of
     TxMarker cb topic payload # rest \<Rightarrow>
       andThen (modify (\<lambda>c. c\<lparr>mq_tx_queue := rest\<rparr>))
      (andThen (call_publish env cb topic payload) (drain_markers env fuel))
   | _ \<Rightarrow> ret ())"

definition drain_callback_markers :: "'w mqtt_env \<Rightarrow> ('w, unit) mq" where
  "drain_callback_markers env = reading (\<lambda>c. drain_markers env (length (mq_tx_queue c) + 1))"

definition is_puback_batch :: "byte list \<Rightarrow> bool" where
  "is_puback_batch packet \<longleftrightarrow> packet \<noteq> [] \<and> unat (hd packet) = PACKET_PUBACK"

fun drain_loop :: "'w mqtt_env \<Rightarrow> nat \<Rightarrow> ('w, unit) mq" where
  "drain_loop env 0 = throw (RuntimeError ''out of fuel'')"
| "drain_loop env (Suc fuel) = andThen (drain_callback_markers env) (reading (\<lambda>c.
     case mq_tx_queue c of
       [] \<Rightarrow> update_send_deadline env 0
     | TxMarker _ _ _ # _ \<Rightarrow> throw (TypeError ''a marker cannot be sent'')
     | TxPacket packet # rest \<Rightarrow>
         if packet = [] then throw IndexError
         else mbind (send_raw env packet) (\<lambda>sent.
           if sent \<le> 0 then update_send_deadline env 0
           else if sent < length packet then
             andThen (modify (\<lambda>c. c\<lparr>mq_partial_send := Some (packet, sent), mq_tx_queue := tl (mq_tx_queue c),
                 mq_puback_batch_queued := (if is_puback_batch packet then False else mq_puback_batch_queued c)\<rparr>))
               (update_send_deadline env sent)
           else
             andThen (modify (\<lambda>c. c\<lparr>mq_tx_queue := tl (mq_tx_queue c)\<rparr>))
            (andThen (update_send_deadline env sent)
              (if is_puback_batch packet
               then andThen (modify (\<lambda>c. c\<lparr>mq_puback_batch_queued := False\<rparr>)) (drain_loop env fuel)
               else drain_callback_markers env)))))"

definition drain_tx_queue :: "'w mqtt_env \<Rightarrow> ('w, unit) mq" where
  "drain_tx_queue env = reading (\<lambda>c.
     case mq_partial_send c of
       Some (packet, offset) \<Rightarrow>
         mbind (send_raw env (drop offset packet)) (\<lambda>sent.
         andThen (modify (\<lambda>c. c\<lparr>mq_partial_send :=
             (if offset + sent \<ge> length packet then None else Some (packet, offset + sent))\<rparr>))
           (update_send_deadline env sent))
     | None \<Rightarrow> drain_loop env (length (mq_tx_queue c) + 1))"

section \<open>Acks\<close>

fun take_first :: "('a \<Rightarrow> bool) \<Rightarrow> 'a list \<Rightarrow> ('a \<times> 'a list) option" where
  "take_first P [] = None"
| "take_first P (x # xs) = (if P x then Some (x, xs) else map_option (\<lambda>(y, ys). (y, x # ys)) (take_first P xs))"

definition discard_pending :: "'w mqtt_env \<Rightarrow> awaiting \<Rightarrow> nat option \<Rightarrow> ('w, PendingResponse option) mq" where
  "discard_pending env what packet_id = reading (\<lambda>c.
     case take_first (\<lambda>p. pr_awaiting p = what \<and> (packet_id = None \<or> pr_packet_id p = packet_id)) (mq_pending_responses c) of
       None \<Rightarrow> ret None
     | Some (pend, rest) \<Rightarrow>
         andThen (modify (\<lambda>c. c\<lparr>mq_pending_responses := rest\<rparr>))
        (andThen (case pr_callback pend of
             None \<Rightarrow> ret ()
           | Some (on_unsubscribe, topic) \<Rightarrow>
               andThen (case on_unsubscribe of None \<Rightarrow> ret () | Some f \<Rightarrow> call env (UserUnsubscribe f topic))
                 (call env (OnUnsubscribe topic)))
           (ret (Some pend))))"

definition evict_rejected_subscription :: "nat option \<Rightarrow> ('w, unit) mq" where
  "evict_rejected_subscription packet_id = reading (\<lambda>c.
     case take_first (\<lambda>p. pr_awaiting p = AWAIT_SUBACK \<and> pr_packet_id p = packet_id) (mq_pending_responses c) of
       None \<Rightarrow> ret ()
     | Some (pend, _) \<Rightarrow> (case pr_topic pend of
         None \<Rightarrow> ret ()
       | Some topic \<Rightarrow> modify (\<lambda>c. c\<lparr>mq_subscriptions := dict_pop topic (mq_subscriptions c)\<rparr>)))"

definition replay_subscription :: "'w mqtt_env \<Rightarrow> int option \<Rightarrow> pystr \<times> int \<times> nat option option \<Rightarrow> ('w, unit) mq" where
  "replay_subscription env now_ms entry = (case entry of (topic, qos, _) \<Rightarrow>
     mbind allocate_packet_id (\<lambda>packet_id.
     mbind (lift (encode_subscribe (int packet_id) [(Text topic, qos)])) (\<lambda>packet.
     mbind (enqueue_internal_tx (TxPacket packet) False) (\<lambda>_.
     await_ack env AWAIT_SUBACK (Some packet_id) None (Some topic) now_ms))))"

definition replay_subscriptions :: "'w mqtt_env \<Rightarrow> int option \<Rightarrow> ('w, unit) mq" where
  "replay_subscriptions env now_ms = reading (\<lambda>c. for_each (replay_subscription env now_ms) (mq_subscriptions c))"

definition handle_connack :: "'w mqtt_env \<Rightarrow> packet \<Rightarrow> int \<Rightarrow> ('w, unit) mq" where
  "handle_connack env packet now_ms =
     mbind (discard_pending env AWAIT_CONNACK None) (\<lambda>_.
     if ack_return_code packet \<noteq> Some 0 then
       (let code = (case ack_return_code packet of None \<Rightarrow> 0 | Some n \<Rightarrow> n) in
        andThen (modify (\<lambda>c. c\<lparr>mq_last_error := Some (MQTTConnectError (int code))\<rparr>))
       (andThen (whenever (code \<in> set PERMANENT_CONNACK_CODES) (modify (\<lambda>c. c\<lparr>mq_permanent_failure := True\<rparr>)))
         (enter_failed env)))
     else
       andThen (modify (\<lambda>c. c\<lparr>mq_state := CONNECTED, mq_self_heal_attempts := 0, mq_self_heal_retry_at_ticks := None\<rparr>))
      (reading (\<lambda>c.
       mbind (deadline env (ping_interval_ms c) (Some now_ms)) (\<lambda>d.
       andThen (modify (\<lambda>c. c\<lparr>mq_next_ping_due_ticks := d\<rparr>))
      (andThen (whenever (mc_clean_session (mq_cfg c) \<or> ack_session_present packet \<noteq> Some True)
           (replay_subscriptions env (Some now_ms)))
      (andThen (drain_pre_connect_queue env (Some now_ms))
         (call env OnConnect)))))))"

definition call_subscribe :: "'w mqtt_env \<Rightarrow> nat option \<Rightarrow> pystr \<Rightarrow> nat list option \<Rightarrow> ('w, unit) mq" where
  "call_subscribe env on_subscribe topic granted =
     andThen (case on_subscribe of None \<Rightarrow> ret () | Some f \<Rightarrow> call env (UserSubscribe f topic granted))
       (call env (OnSubscribe topic granted))"

definition handle_suback :: "'w mqtt_env \<Rightarrow> packet \<Rightarrow> ('w, unit) mq" where
  "handle_suback env packet =
     (if case ack_granted_qos packet of None \<Rightarrow> False | Some qs \<Rightarrow> 0x80 \<in> set qs then
        andThen (evict_rejected_subscription (ack_packet_id packet))
          (throw (MQTTProtocolError ''SUBACK rejection''))
      else mbind (discard_pending env AWAIT_SUBACK (ack_packet_id packet)) (\<lambda>matched.
        case matched of
          None \<Rightarrow> throw (MQTTProtocolError ''SUBACK for unknown packet_id'')
        | Some pend \<Rightarrow> reading (\<lambda>c.
            case Option.bind (pr_topic pend) (\<lambda>topic. map_option (\<lambda>entry. (topic, entry)) (map_of (mq_subscriptions c) topic)) of
              Some (topic, qos, Some on_subscribe) \<Rightarrow>
                andThen (modify (\<lambda>c. c\<lparr>mq_subscriptions := dict_put topic (qos, None) (mq_subscriptions c)\<rparr>))
                  (call_subscribe env on_subscribe topic (ack_granted_qos packet))
            | _ \<Rightarrow> ret ())))"

definition handle_puback :: "'w mqtt_env \<Rightarrow> packet \<Rightarrow> ('w, unit) mq" where
  "handle_puback env packet = reading (\<lambda>c.
     case Option.bind (ack_packet_id packet) (\<lambda>i. map_option (\<lambda>e. (i, e)) (map_of (mq_in_flight c) i)) of
       None \<Rightarrow> ret ()
     | Some (packet_id, entry) \<Rightarrow>
         andThen (modify (\<lambda>c. c\<lparr>mq_in_flight := dict_pop packet_id (mq_in_flight c)\<rparr>))
           (case if_callback entry of (on_publish, topic, payload) \<Rightarrow> call_publish env on_publish topic payload))"

definition handle_ack :: "'w mqtt_env \<Rightarrow> packet \<Rightarrow> int \<Rightarrow> ('w, unit) mq" where
  "handle_ack env packet now_ms =
     (if ack_packet_type packet = PACKET_CONNACK then handle_connack env packet now_ms
      else if ack_packet_type packet = PACKET_PINGRESP then mbind (discard_pending env AWAIT_PINGRESP None) (\<lambda>_. ret ())
      else if ack_packet_type packet = PACKET_PUBACK then handle_puback env packet
      else if ack_packet_type packet = PACKET_SUBACK then handle_suback env packet
      else whenever (ack_packet_type packet = PACKET_UNSUBACK)
        (mbind (discard_pending env AWAIT_UNSUBACK (ack_packet_id packet)) (\<lambda>matched.
         if matched = None then throw (MQTTProtocolError ''UNSUBACK for unknown packet_id'') else ret ())))"

section \<open>Receiving\<close>

definition push_puback :: "nat option \<Rightarrow> ('w, unit) mq" where
  "push_puback packet_id =
     mbind (lift (case packet_id of None \<Rightarrow> Inl StructError | Some i \<Rightarrow> encode_puback (int i))) (\<lambda>ack.
       modify (\<lambda>c. c\<lparr>mq_pending_pubacks := mq_pending_pubacks c @ [ack]\<rparr>))"

definition handle_inbound_publish :: "'w mqtt_env \<Rightarrow> packet \<Rightarrow> ('w, unit) mq" where
  "handle_inbound_publish env packet =
     andThen (reading (\<lambda>c. case mq_inbound_queue c of
         Some q \<Rightarrow> modify (\<lambda>c. c\<lparr>mq_inbound_queue :=
           Some (deque_append MAX_INBOUND_QUEUE_SIZE q (pub_topic packet, pub_payload packet))\<rparr>)
       | None \<Rightarrow> call env (OnMessage (pub_topic packet) (pub_payload packet))))
     (whenever (pub_qos packet = 1) (push_puback (pub_packet_id packet)))"

definition handle_oversized :: "'w mqtt_env \<Rightarrow> packet \<Rightarrow> ('w, unit) mq" where
  "handle_oversized env packet = reading (\<lambda>c. let policy = mc_when_oversized (mq_cfg c) in
     andThen
       (if policy = DROP_SILENT then ret ()
        else if policy = DROP_WITH_EVENT then call env (OnOversized (ov_reported_length packet) (ov_topic packet))
        else whenever (policy = OVERSIZED_DISCONNECT) (throw (MQTTProtocolError ''oversized message'')))
       (whenever (ov_qos packet = 1 \<and> ov_packet_id packet \<noteq> None \<and> policy \<noteq> OVERSIZED_DISCONNECT)
         (push_puback (ov_packet_id packet))))"

definition dispatch :: "'w mqtt_env \<Rightarrow> int \<Rightarrow> packet \<Rightarrow> ('w, unit) mq" where
  "dispatch env now_ms packet = (case packet of
     ParsedPublish _ _ _ _ \<Rightarrow> handle_inbound_publish env packet
   | OversizedMessage _ _ _ _ \<Rightarrow> handle_oversized env packet
   | ParsedAck _ _ _ _ _ \<Rightarrow> handle_ack env packet now_ms)"

definition decoder_read_next :: "('w, packet option) mq" where
  "decoder_read_next = reading (\<lambda>c. case read_next (mq_decoder c) of
     Inl e \<Rightarrow> throw e
   | Inr (packet, d) \<Rightarrow> andThen (modify (\<lambda>c. c\<lparr>mq_decoder := d\<rparr>)) (ret packet))"

text \<open>The packet loop of \<^verbatim>\<open>_read_inbound\<close>; its value says whether it ran dry (and did not return early).\<close>

fun dispatch_loop :: "'w mqtt_env \<Rightarrow> int \<Rightarrow> nat \<Rightarrow> ('w, bool) mq" where
  "dispatch_loop env now_ms 0 = throw (RuntimeError ''out of fuel'')"
| "dispatch_loop env now_ms (Suc fuel) = mbind decoder_read_next (\<lambda>packet.
     case packet of
       None \<Rightarrow> ret True
     | Some p \<Rightarrow> andThen (dispatch env now_ms p) (reading (\<lambda>c.
         if mq_state c \<noteq> CONNECTED then ret False else dispatch_loop env now_ms fuel)))"

definition flush_pubacks :: "('w, unit) mq" where
  "flush_pubacks = reading (\<lambda>c.
     andThen (whenever (mq_pending_pubacks c \<noteq> [])
       (mbind (enqueue_internal_tx (TxPacket (concat (mq_pending_pubacks c))) True) (\<lambda>queued.
          if \<not> queued then throw (MQTTError ''PUBACK backlog overflowed the tx queue hard cap'')
          else modify (\<lambda>c. c\<lparr>mq_puback_batch_queued := True\<rparr>))))
     (modify (\<lambda>c. c\<lparr>mq_pending_pubacks := []\<rparr>)))"

definition receive_into :: "'w mqtt_env \<Rightarrow> ('w, unit) mq" where
  "receive_into env = reading (\<lambda>c.
     let fill = fill_capacity (mq_decoder c); budget = mc_recv_budget_per_tick (mq_cfg c);
         capacity = (if fill > budget then budget else fill) in
     whenever (capacity > 0)
       (mbind (catch
           (mbind (case mq_socket c of None \<Rightarrow> throw AttributeError
                   | Some s \<Rightarrow> world_result (cv_recv_into env s (nat capacity))) (\<lambda>bs.
             if bs = [] then throw (MQTTProtocolError ''broker closed connection'') else ret bs))
           (\<lambda>e. if e = OSError EAGAIN then ret [] else throw e))
         (\<lambda>bs. modify (\<lambda>c. c\<lparr>mq_decoder := receive (mq_decoder c) bs\<rparr>))))"

definition read_inbound :: "'w mqtt_env \<Rightarrow> int \<Rightarrow> ('w, unit) mq" where
  "read_inbound env now_ms = reading (\<lambda>c.
     if recv_suppressed c then ret ()
     else andThen (receive_into env)
         (andThen (modify (\<lambda>c. c\<lparr>mq_pending_pubacks := []\<rparr>)) (reading (\<lambda>c.
          mbind (dispatch_loop env now_ms (pd_buffer_size (mq_decoder c) + 2)) (\<lambda>ran_dry.
          whenever ran_dry flush_pubacks)))))"

section \<open>Timeouts\<close>

fun retry_in_flight :: "'w mqtt_env \<Rightarrow> int \<Rightarrow> nat list \<Rightarrow> ('w, bool) mq" where
  "retry_in_flight env now_ms [] = ret False"
| "retry_in_flight env now_ms (k # ks) = reading (\<lambda>c.
     case map_of (mq_in_flight c) k of
       None \<Rightarrow> throw (RuntimeError ''dictionary changed size during iteration'')
     | Some entry \<Rightarrow>
         if src_diff (cv_ticks env) (if_deadline_ticks entry) now_ms > 0 then retry_in_flight env now_ms ks
         else if if_retry_count entry \<ge> mc_publish_retry_max (mq_cfg c) then
           andThen (modify (\<lambda>c. c\<lparr>mq_in_flight := dict_pop k (mq_in_flight c),
               mq_last_error := Some (MQTTError ''PUBLISH exceeded retry limit'')\<rparr>))
          (andThen (enter_failed env) (ret True))
         else
           mbind (lift (case if_dup_packet_bytes entry of
               Some dup \<Rightarrow> Inr dup
             | None \<Rightarrow> (case if_packet_bytes entry of [] \<Rightarrow> Inl IndexError | b # r \<Rightarrow> Inr ((b OR 0x08) # r)))) (\<lambda>dup.
           let entry1 = entry\<lparr>if_dup_packet_bytes := Some dup\<rparr>;
               entry2 = entry1\<lparr>if_retry_count := if_retry_count entry1 + 1\<rparr> in
           andThen (modify (\<lambda>c. c\<lparr>mq_in_flight := dict_put k entry1 (mq_in_flight c)\<rparr>))
          (mbind (enqueue_internal_tx (TxPacket dup) False) (\<lambda>queued.
             if \<not> queued then retry_in_flight env now_ms ks
             else andThen (modify (\<lambda>c. c\<lparr>mq_in_flight := dict_put k entry2 (mq_in_flight c)\<rparr>))
               (mbind (deadline env (mc_ack_timeout_ms (mq_cfg c)) (Some now_ms)) (\<lambda>d.
                andThen (modify (\<lambda>c. c\<lparr>mq_in_flight := dict_put k (entry2\<lparr>if_deadline_ticks := d\<rparr>) (mq_in_flight c)\<rparr>))
                  (retry_in_flight env now_ms ks)))))))"

definition expire_pending :: "'w mqtt_env \<Rightarrow> int \<Rightarrow> ('w, bool) mq" where
  "expire_pending env now_ms = reading (\<lambda>c.
     case take_first (\<lambda>p. src_diff (cv_ticks env) (pr_deadline_ticks p) now_ms \<le> 0) (mq_pending_responses c) of
       None \<Rightarrow> ret False
     | Some (pend, rest) \<Rightarrow>
         andThen (modify (\<lambda>c. c\<lparr>mq_pending_responses := rest, mq_last_error := Some (MQTTError ''timed out awaiting'')\<rparr>))
        (andThen (enter_failed env) (ret True)))"

definition expire_send :: "'w mqtt_env \<Rightarrow> int \<Rightarrow> ('w, unit) mq" where
  "expire_send env now_ms = reading (\<lambda>c.
     case mq_send_deadline_ticks c of
       None \<Rightarrow> ret ()
     | Some d \<Rightarrow> whenever (src_diff (cv_ticks env) d now_ms \<le> 0)
         (andThen (modify (\<lambda>c. c\<lparr>mq_last_error := Some (MQTTError ''send timeout'')\<rparr>)) (enter_failed env)))"

definition check_deadlines :: "'w mqtt_env \<Rightarrow> int \<Rightarrow> ('w, unit) mq" where
  "check_deadlines env now_ms = reading (\<lambda>c.
     mbind (retry_in_flight env now_ms (map fst (mq_in_flight c))) (\<lambda>returned.
     whenever (\<not> returned) (mbind (expire_pending env now_ms) (\<lambda>returned.
     whenever (\<not> returned) (expire_send env now_ms)))))"

definition check_keepalive :: "'w mqtt_env \<Rightarrow> int \<Rightarrow> ('w, unit) mq" where
  "check_keepalive env now_ms = reading (\<lambda>c.
     if \<not> keepalive_enabled c then ret ()
     else if mq_state c \<noteq> CONNECTED then ret ()
     else if src_diff (cv_ticks env) (mq_next_ping_due_ticks c) now_ms > 0 then ret ()
     else if \<exists>p \<in> set (mq_pending_responses c). pr_awaiting p = AWAIT_PINGRESP then ret ()
     else mbind (enqueue_internal_tx (TxPacket PACKET_PINGREQ) False) (\<lambda>queued.
       andThen (whenever queued (await_ack env AWAIT_PINGRESP None None None (Some now_ms)))
       (mbind (deadline env (ping_interval_ms c) (Some now_ms))
         (\<lambda>d. modify (\<lambda>c. c\<lparr>mq_next_ping_due_ticks := d\<rparr>)))))"

section \<open>One tick\<close>

definition work :: "'w mqtt_env \<Rightarrow> int \<Rightarrow> ('w, unit) mq" where
  "work env now_ms = catch
     (andThen (check_deadlines env now_ms)
     (andThen (check_keepalive env now_ms)
     (andThen (read_inbound env now_ms) (drain_tx_queue env))))
     (\<lambda>e. if is_MQTTError e then andThen (modify (\<lambda>c. c\<lparr>mq_last_error := Some e\<rparr>)) (enter_failed env)
       else if is_OSError e then andThen (modify (\<lambda>c. c\<lparr>mq_last_error := Some (MQTTError ''socket error'')\<rparr>)) (enter_failed env)
       else throw e)"

definition handle :: "'w mqtt_env \<Rightarrow> int \<Rightarrow> ('w, unit) mq" where
  "handle env now_ms = mbind
     (reading (\<lambda>c.
        if mq_state c \<noteq> FAILED then ret True
        else if \<not> self_heal_active c then ret False
        else if (case mq_self_heal_retry_at_ticks c of None \<Rightarrow> False | Some t \<Rightarrow> src_diff (cv_ticks env) t now_ms > 0)
        then ret False
        else andThen (arm_self_heal_backoff env now_ms) (attempt_self_heal env now_ms)))
     (\<lambda>go. whenever go (mbind
       (reading (\<lambda>c.
          if mq_state c \<noteq> AWAITING_TRANSPORT then ret True
          else mbind (check_transport_deadline env now_ms) (\<lambda>timed_out.
            if timed_out then ret False else advance_connector env now_ms)))
       (\<lambda>go. whenever go (reading (\<lambda>c. whenever (mq_state c \<noteq> DISCONNECTED) (work env now_ms))))))"

end
