(* ===== verification/Mqtt_Client_Inv.thy ===== *)
theory Mqtt_Client_Inv
  imports Mqtt_Client
begin

text \<open>
  The invariant of the MQTT client: packet ids, in-flight table, transmit queue with its caps
  and its one PUBACK batch, pre-connect and inbound queues, decoder. Every method keeps it,
  whether it returns or raises, with callbacks that call any method again, to any finite depth.
\<close>

section \<open>The invariant\<close>

text \<open>A PUBLISH awaiting its PUBACK: a packet of QoS 1, and its retransmission the same with DUP set.\<close>

definition flight_ok :: "int \<Rightarrow> nat \<times> InFlightPublish \<Rightarrow> bool" where
  "flight_ok retry_max ke = (case ke of (k, e) \<Rightarrow> if_packet_id e = k \<and> 1 \<le> k \<and> k \<le> 65535
     \<and> 0 \<le> if_retry_count e \<and> if_retry_count e \<le> max 0 retry_max
     \<and> (\<exists>b r. if_packet_bytes e = b # r \<and> unat b \<in> {0x32, 0x33}
         \<and> (if_dup_packet_bytes e = None \<or> if_dup_packet_bytes e = Some ((b OR 8) # r))))"

definition flights_ok :: "int \<Rightarrow> (nat \<times> InFlightPublish) list \<Rightarrow> bool" where
  "flights_ok retry_max t \<longleftrightarrow> distinct (map fst t) \<and> (\<forall>ke \<in> set t. flight_ok retry_max ke)"

definition is_batch :: "tx_item \<Rightarrow> bool" where
  "is_batch item = (case item of TxPacket p \<Rightarrow> is_puback_batch p | TxMarker _ _ _ \<Rightarrow> False)"

definition item_ok :: "tx_item \<Rightarrow> bool" where
  "item_ok item = (case item of TxPacket p \<Rightarrow> p \<noteq> [] | TxMarker _ _ _ \<Rightarrow> True)"

definition tx_ok :: "nat \<Rightarrow> bool \<Rightarrow> tx_item list \<Rightarrow> bool" where
  "tx_ok cap batched q \<longleftrightarrow> length q \<le> cap \<and> (\<forall>i \<in> set q. item_ok i)
     \<and> length (filter is_batch q) \<le> (if batched then 1 else 0)"

definition partial_ok :: "(byte list \<times> nat) option \<Rightarrow> bool" where
  "partial_ok p = (case p of None \<Rightarrow> True | Some (packet, offset) \<Rightarrow> 0 < offset \<and> offset < length packet)"

definition inbound_ok :: "'a list option \<Rightarrow> bool" where
  "inbound_ok q = (case q of None \<Rightarrow> True | Some xs \<Rightarrow> length xs \<le> MAX_INBOUND_QUEUE_SIZE)"

text \<open>With \<open>qt\<close>, no PUBACK batch is marked as queued: the state in which the client reads.\<close>

definition mq_inv :: "MQTTConfig \<Rightarrow> bool \<Rightarrow> 'w MQTTClient \<Rightarrow> bool" where
  "mq_inv cf qt c \<longleftrightarrow> mq_cfg c = cf \<and> (qt \<longrightarrow> \<not> mq_puback_batch_queued c) \<and> 1 \<le> mq_next_packet_id c \<and> mq_next_packet_id c \<le> 65535
     \<and> flights_ok (mc_publish_retry_max (mq_cfg c)) (mq_in_flight c)
     \<and> tx_ok (tx_queue_hard_cap c) (mq_puback_batch_queued c) (mq_tx_queue c)
     \<and> partial_ok (mq_partial_send c)
     \<and> length (mq_pre_connect_queue c) \<le> mc_pre_connect_queue_size (mq_cfg c)
     \<and> distinct (map fst (mq_subscriptions c))
     \<and> (\<forall>p \<in> set (mq_pending_pubacks c). is_puback_batch p)
     \<and> inbound_ok (mq_inbound_queue c)
     \<and> mq_self_heal_attempts c \<le> 6
     \<and> pd_inv (mq_decoder c) \<and> pd_buffer_size (mq_decoder c) = mc_rx_buffer_size (mq_cfg c)"

text \<open>Fields the invariant does not read.\<close>

lemma mq_inv_frame [simp]:
  "mq_inv cf qt (c\<lparr>mq_world := w\<rparr>) = mq_inv cf qt c" "mq_inv cf qt (c\<lparr>mq_state := s\<rparr>) = mq_inv cf qt c"
  "mq_inv cf qt (c\<lparr>mq_last_error := e\<rparr>) = mq_inv cf qt c" "mq_inv cf qt (c\<lparr>mq_connector := k\<rparr>) = mq_inv cf qt c"
  "mq_inv cf qt (c\<lparr>mq_transport_deadline_ticks := d\<rparr>) = mq_inv cf qt c" "mq_inv cf qt (c\<lparr>mq_socket := so\<rparr>) = mq_inv cf qt c"
  "mq_inv cf qt (c\<lparr>mq_user_wants_connected := b\<rparr>) = mq_inv cf qt c" "mq_inv cf qt (c\<lparr>mq_reconnect_held := b\<rparr>) = mq_inv cf qt c"
  "mq_inv cf qt (c\<lparr>mq_permanent_failure := b\<rparr>) = mq_inv cf qt c" "mq_inv cf qt (c\<lparr>mq_self_heal_retry_at_ticks := d\<rparr>) = mq_inv cf qt c"
  "mq_inv cf qt (c\<lparr>mq_send_deadline_ticks := d\<rparr>) = mq_inv cf qt c" "mq_inv cf qt (c\<lparr>mq_next_ping_due_ticks := t\<rparr>) = mq_inv cf qt c"
  "mq_inv cf qt (c\<lparr>mq_pending_responses := ps\<rparr>) = mq_inv cf qt c" "mq_inv cf qt (c\<lparr>mq_on_publish_set := b\<rparr>) = mq_inv cf qt c"
  "mq_inv cf qt (c\<lparr>mq_will_topic := wt\<rparr>) = mq_inv cf qt c" "mq_inv cf qt (c\<lparr>mq_will_message := wm\<rparr>) = mq_inv cf qt c"
  "mq_inv cf qt (c\<lparr>mq_will_qos := wq\<rparr>) = mq_inv cf qt c" "mq_inv cf qt (c\<lparr>mq_will_retain := b\<rparr>) = mq_inv cf qt c"
  by (simp_all add: mq_inv_def tx_queue_hard_cap_def)

text \<open>Fields it does.\<close>

lemma mq_inv_fields:
  assumes "mq_inv cf qt c"
  shows "1 \<le> n \<Longrightarrow> n \<le> 65535 \<Longrightarrow> mq_inv cf qt (c\<lparr>mq_next_packet_id := n\<rparr>)"
    "flights_ok (mc_publish_retry_max (mq_cfg c)) t \<Longrightarrow> mq_inv cf qt (c\<lparr>mq_in_flight := t\<rparr>)"
    "tx_ok (tx_queue_hard_cap c) (mq_puback_batch_queued c) q \<Longrightarrow> mq_inv cf qt (c\<lparr>mq_tx_queue := q\<rparr>)"
    "partial_ok ps \<Longrightarrow> mq_inv cf qt (c\<lparr>mq_partial_send := ps\<rparr>)"
    "length pq \<le> mc_pre_connect_queue_size (mq_cfg c) \<Longrightarrow> mq_inv cf qt (c\<lparr>mq_pre_connect_queue := pq\<rparr>)"
    "distinct (map fst subs) \<Longrightarrow> mq_inv cf qt (c\<lparr>mq_subscriptions := subs\<rparr>)"
    "\<forall>p \<in> set acks. is_puback_batch p \<Longrightarrow> mq_inv cf qt (c\<lparr>mq_pending_pubacks := acks\<rparr>)"
    "inbound_ok iq \<Longrightarrow> mq_inv cf qt (c\<lparr>mq_inbound_queue := iq\<rparr>)"
    "a \<le> 6 \<Longrightarrow> mq_inv cf qt (c\<lparr>mq_self_heal_attempts := a\<rparr>)"
    "pd_inv d \<Longrightarrow> pd_buffer_size d = mc_rx_buffer_size (mq_cfg c) \<Longrightarrow> mq_inv cf qt (c\<lparr>mq_decoder := d\<rparr>)"
  using assms by (auto simp: mq_inv_def tx_queue_hard_cap_def)

lemma mq_inv_init:
  assumes "MQTTClient_init env cfg sock wt wm wq wr w = Inr c"
  shows "mq_inv cfg False c"
proof -
  have nb: "keeps (mq_inv cfg False) (force_non_blocking env s)" for s
    unfolding force_non_blocking_def world_do_def
    by (intro keeps_intros keepsI) (auto simp: world_def split: prod.split)
  obtain c1 where c1: "mq_inv cfg False c1" "case sock of None \<Rightarrow> c = c1
      | Some s \<Rightarrow> fst (force_non_blocking env s c1) = Inr () \<and> c = snd (force_non_blocking env s c1)"
  proof
    let ?c1 = "\<lparr>mq_cfg = cfg, mq_socket = sock, mq_connector = None, mq_transport_deadline_ticks = None,
          mq_user_wants_connected = False, mq_will_topic = wt, mq_will_message = wm,
          mq_will_qos = wq, mq_will_retain = wr, mq_pre_connect_queue = [],
          mq_decoder = PacketDecoder_init (mc_rx_buffer_size cfg), mq_state = DISCONNECTED, mq_in_flight = [],
          mq_next_packet_id = 1, mq_pending_responses = [], mq_subscriptions = [], mq_tx_queue = [],
          mq_partial_send = None, mq_pending_pubacks = [], mq_puback_batch_queued = False,
          mq_send_deadline_ticks = None, mq_next_ping_due_ticks = 0, mq_on_publish_set = False,
          mq_inbound_queue = None, mq_last_error = None, mq_self_heal_attempts = 0,
          mq_self_heal_retry_at_ticks = None, mq_permanent_failure = False, mq_reconnect_held = False,
          mq_world = w\<rparr>"
    show "mq_inv cfg False ?c1" by (simp add: mq_inv_def flights_ok_def tx_ok_def partial_ok_def inbound_ok_def)
    show "case sock of None \<Rightarrow> c = ?c1
      | Some s \<Rightarrow> fst (force_non_blocking env s ?c1) = Inr () \<and> c = snd (force_non_blocking env s ?c1)"
      using assms unfolding MQTTClient_init_def Let_def by (auto split: if_splits option.splits prod.splits sum.splits)
  qed
  then show ?thesis using nb by (auto simp: keeps_def split: option.splits)
qed

section \<open>Packets by their first byte\<close>

lemma finalize_head: "finalize_packet t body = Inr p \<Longrightarrow> \<exists>r. p = B (nat t) # r"
  by (auto simp: finalize_packet_def result_simps split: if_splits)

lemma not_batch_head: "n < 256 \<Longrightarrow> n \<noteq> 64 \<Longrightarrow> \<not> is_puback_batch (B n # r)"
  by (simp add: is_puback_batch_def PACKET_PUBACK_def)

definition plain_packet :: "byte list \<Rightarrow> bool" where
  "plain_packet p \<longleftrightarrow> p \<noteq> [] \<and> \<not> is_puback_batch p"

lemma plain_packet_head: "n < 256 \<Longrightarrow> n \<noteq> 64 \<Longrightarrow> plain_packet (B n # r)"
  using not_batch_head [of n r] by (simp add: plain_packet_def)

lemma plain_finalize: "finalize_packet (int n) body = Inr p \<Longrightarrow> n < 256 \<Longrightarrow> n \<noteq> 64 \<Longrightarrow> plain_packet p"
  using finalize_head [of "int n" body p] by (auto intro: plain_packet_head)

lemma plain_connect: "encode_connect a = Inr p \<Longrightarrow> plain_packet p"
  by (auto simp: encode_connect_def result_simps PACKET_CONNECT_def split: if_splits option.splits dest!: plain_finalize [of 16, simplified])

lemma plain_subscribe: "encode_subscribe i ps = Inr p \<Longrightarrow> plain_packet p"
  by (auto simp: encode_subscribe_def result_simps PACKET_SUBSCRIBE_def split: if_splits dest!: plain_finalize [of 130, simplified])

lemma plain_unsubscribe: "encode_unsubscribe i ps = Inr p \<Longrightarrow> plain_packet p"
  by (auto simp: encode_unsubscribe_def result_simps PACKET_UNSUBSCRIBE_def split: if_splits dest!: plain_finalize [of 162, simplified])

lemma plain_publish0: "encode_publish t pl 0 retain None = Inr p \<Longrightarrow> plain_packet p"
  by (cases retain) (auto simp: encode_publish_def result_simps PACKET_PUBLISH_def Let_def
      dest!: plain_finalize [of 48, simplified] plain_finalize [of 49, simplified])

lemma publish1_head: "encode_publish t pl 1 retain (Some i) = Inr p \<Longrightarrow> \<exists>b r. p = b # r \<and> unat b \<in> {0x32, 0x33}"
  by (cases retain) (auto simp: encode_publish_def result_simps PACKET_PUBLISH_def Let_def dest!: finalize_head)

lemma publish1_plain: "encode_publish t pl 1 retain (Some i) = Inr p \<Longrightarrow> plain_packet p"
  by (drule publish1_head) (auto simp: plain_packet_def is_puback_batch_def PACKET_PUBACK_def)

lemma plain_pingreq: "plain_packet PACKET_PINGREQ"
  by (simp add: PACKET_PINGREQ_def plain_packet_head)

lemma unat_or8: "unat (b :: byte) \<in> {0x32, 0x33} \<Longrightarrow> unat (b OR 8) \<in> {0x3A, 0x3B}"
  by (auto simp: unsigned_or_eq)

lemma puback_batch: "encode_puback i = Inr p \<Longrightarrow> is_puback_batch p"
  by (auto simp: encode_puback_def append_packed_h_def PUBACK_FIXED_HEADER_def result_simps is_puback_batch_def PACKET_PUBACK_def)

lemma concat_batch: "ps \<noteq> [] \<Longrightarrow> \<forall>p \<in> set ps. is_puback_batch p \<Longrightarrow> is_puback_batch (concat ps)"
  by (cases ps) (auto simp: is_puback_batch_def)

section \<open>Calls outside and queues keep it\<close>

lemma keeps_world [keeps_intros]: "keeps (mq_inv cf qt) (world f)"
  by (auto simp: keeps_def world_def split: prod.split)

lemma keeps_world_result [keeps_intros]: "keeps (mq_inv cf qt) (world_result g)" "keeps (mq_inv cf qt) (world_do h)"
  unfolding world_result_def world_do_def by (intro keeps_intros)+

lemma keeps_force_non_blocking [keeps_intros]: "keeps (mq_inv cf qt) (force_non_blocking env s)"
  unfolding force_non_blocking_def by (intro keeps_intros)

lemma keeps_deadline [keeps_intros]: "keeps (mq_inv cf qt) (deadline env off now)"
  unfolding deadline_def by (intro keeps_intros)

lemma keeps_frame [keeps_intros]: "(\<And>c. mq_inv cf qt (f c) = mq_inv cf qt c) \<Longrightarrow> keeps (mq_inv cf qt) (modify f)"
  by (simp add: keeps_def)

lemma keeps_await_ack [keeps_intros]: "keeps (mq_inv cf qt) (await_ack env what i cb t now)"
  unfolding await_ack_def by (intro keeps_intros) simp

lemma foldl_deque_append:
  "length q + length items \<le> cap \<Longrightarrow> foldl (deque_append cap) q items = q @ items"
  by (induction items arbitrary: q) (simp_all add: deque_append_room)

lemma keeps_enqueue_user_tx:
  assumes "\<forall>i \<in> set items. item_ok i \<and> \<not> is_batch i"
  shows "keeps (mq_inv cf qt) (enqueue_user_tx items)"
  unfolding enqueue_user_tx_def
proof (rule keeps_reading)
  fix c :: "'w MQTTClient"
  assume inv: "mq_inv cf qt c"
  have "filter is_batch items = []" using assms by (simp add: filter_empty_conv)
  then have "length (mq_tx_queue c) + length items \<le> mc_max_tx_queue_size (mq_cfg c) \<Longrightarrow>
      mq_inv cf qt (c\<lparr>mq_tx_queue := mq_tx_queue c @ items\<rparr>)"
    using inv assms by (intro mq_inv_fields(3)) (auto simp: mq_inv_def tx_ok_def tx_queue_hard_cap_def)
  then show "mq_inv cf qt (snd ((if length (mq_tx_queue c) + length items > mc_max_tx_queue_size (mq_cfg c)
     then throw (MQTTBackpressureError ''tx queue full'')
     else modify (\<lambda>c. c\<lparr>mq_tx_queue := foldl (deque_append (tx_queue_hard_cap c)) (mq_tx_queue c) items\<rparr>)) c))"
    using inv by (auto simp: foldl_deque_append tx_queue_hard_cap_def)
qed

lemma keeps_enqueue_packet [keeps_intros]: "plain_packet p \<Longrightarrow> keeps (mq_inv cf qt) (enqueue_user_tx [TxPacket p])"
  by (rule keeps_enqueue_user_tx) (simp add: item_ok_def is_batch_def plain_packet_def)

lemma keeps_enqueue_internal [keeps_intros]: "plain_packet p \<Longrightarrow> keeps (mq_inv cf qt) (enqueue_internal_tx (TxPacket p) front)"
  unfolding enqueue_internal_tx_def
proof (rule keeps_reading)
  fix c :: "'w MQTTClient"
  assume p: "plain_packet p" and inv: "mq_inv cf qt c"
  then have "length (mq_tx_queue c) < tx_queue_hard_cap c \<Longrightarrow> mq_inv cf qt (c\<lparr>mq_tx_queue :=
      (if front then deque_appendleft (tx_queue_hard_cap c) (mq_tx_queue c) (TxPacket p)
       else deque_append (tx_queue_hard_cap c) (mq_tx_queue c) (TxPacket p))\<rparr>)"
    by (intro mq_inv_fields(3)) (auto simp: mq_inv_def tx_ok_def deque_append_room deque_appendleft_room plain_packet_def item_ok_def is_batch_def)
  then show "mq_inv cf qt (snd ((if tx_queue_hard_cap c \<le> length (mq_tx_queue c) then ret False
      else andThen (modify (\<lambda>c. c\<lparr>mq_tx_queue :=
         (if front then deque_appendleft (tx_queue_hard_cap c) (mq_tx_queue c) (TxPacket p)
          else deque_append (tx_queue_hard_cap c) (mq_tx_queue c) (TxPacket p))\<rparr>)) (ret True)) c))"
    using inv by (auto simp: prog_simps)
qed

section \<open>Packet ids\<close>

lemma allocate_loop_valid:
  "valid (mq_inv cf qt) (allocate_loop n) (\<lambda>i c. mq_inv cf qt c \<and> 1 \<le> i \<and> i \<le> 65535 \<and> i \<notin> fst ` set (mq_in_flight c)) (\<lambda>_. mq_inv cf qt)"
proof (induction n)
  case (Suc n)
  show ?case
  proof (rule validI)
    fix c :: "'a MQTTClient"
    assume inv: "mq_inv cf qt c"
    define i where "i = mq_next_packet_id c"
    define c1 where "c1 = c\<lparr>mq_next_packet_id := (if i + 1 > 65535 then 1 else i + 1)\<rparr>"
    have i: "1 \<le> i" "i \<le> 65535" using inv by (auto simp: mq_inv_def i_def)
    have c1: "mq_inv cf qt c1" using inv i unfolding c1_def by (intro mq_inv_fields(1)) auto
    have run: "allocate_loop (Suc n) c = (if i \<notin> fst ` set (mq_in_flight c) then (Inr i, c1) else allocate_loop n c1)"
      by (simp add: reading_def prog_simps Let_def i_def [symmetric] c1_def)
    show "case allocate_loop (Suc n) c of (Inl e, s1) \<Rightarrow> mq_inv cf qt s1
       | (Inr x, s1) \<Rightarrow> mq_inv cf qt s1 \<and> 1 \<le> x \<and> x \<le> 65535 \<and> x \<notin> fst ` set (mq_in_flight s1)"
    proof (cases "i \<in> fst ` set (mq_in_flight c)")
      case True
      then have "allocate_loop (Suc n) c = allocate_loop n c1" using run by (simp only: not_True_eq_False if_False)
      then show ?thesis using Suc.IH [unfolded valid_def, rule_format, OF c1] by (simp only:)
    next
      case False
      then show ?thesis using run c1 i by (simp add: c1_def del: allocate_loop.simps)
    qed
  qed
qed (simp add: valid_def)

lemma keeps_allocate: "(\<And>i. 1 \<le> i \<Longrightarrow> i \<le> 65535 \<Longrightarrow> keeps (mq_inv cf qt) (f i)) \<Longrightarrow> keeps (mq_inv cf qt) (mbind allocate_packet_id f)"
  unfolding allocate_packet_id_def
  by (rule keeps_post [where P = "\<lambda>i. 1 \<le> i \<and> i \<le> 65535"]) (auto intro: valid_weaken [OF allocate_loop_valid])

section \<open>The public interface keeps it\<close>

definition callbacks_keep :: "'w mqtt_env \<Rightarrow> bool" where
  "callbacks_keep env \<longleftrightarrow> (\<forall>cf qt cb. keeps (mq_inv cf qt) (cv_call env cb))"

lemma keeps_call [keeps_intros]: "callbacks_keep env \<Longrightarrow> keeps (mq_inv cf qt) (call env cb)"
  by (simp add: callbacks_keep_def call_def)

lemma keeps_enter_failed [keeps_intros]: "callbacks_keep env \<Longrightarrow> keeps (mq_inv cf qt) (enter_failed env)"
  unfolding enter_failed_def by (intro keeps_intros) simp_all

lemma keeps_build_connector [keeps_intros]: "keeps (mq_inv cf qt) (build_connector env)"
  unfolding build_connector_def by (intro keeps_intros) simp_all

lemma keeps_start_transport [keeps_intros]: "keeps (mq_inv cf qt) (start_transport env now)"
  unfolding start_transport_def by (intro keeps_intros) simp_all

lemma keeps_enqueue_connect [keeps_intros]: "keeps (mq_inv cf qt) (enqueue_connect_packet env now)"
  unfolding enqueue_connect_packet_def by (intro keeps_reading_inv keeps_Let keeps_lift keeps_intros) (auto intro: plain_connect)

lemma forget_failures_inv: "mq_inv cf qt c \<Longrightarrow> mq_inv cf qt (forget_failures c)"
  unfolding forget_failures_def using mq_inv_fields(9) [of cf qt "c\<lparr>mq_permanent_failure := False\<rparr>" 0] by simp

lemma keeps_connect: "callbacks_keep env \<Longrightarrow> keeps (mq_inv cf qt) (connect env)"
  unfolding connect_def by (intro keeps_intros keeps_modify forget_failures_inv) simp_all

lemma keeps_send_raw [keeps_intros]: "keeps (mq_inv cf qt) (send_raw env p)"
  unfolding send_raw_def by (intro keeps_intros)

lemma keeps_cancel_connector [keeps_intros]: "keeps (mq_inv cf qt) (cancel_connector env)"
  unfolding cancel_connector_def by (intro keeps_intros) simp_all

lemma keeps_close_socket [keeps_intros]: "keeps (mq_inv cf qt) (close_socket env)"
  unfolding close_socket_def by (intro keeps_intros)

lemma reset_transient_inv: "mq_inv cf qt c \<Longrightarrow> mq_inv cf qt (reset_transient_state c)"
  by (auto simp: reset_transient_state_def mq_inv_def tx_ok_def partial_ok_def tx_queue_hard_cap_def)

lemma keeps_disconnect: "callbacks_keep env \<Longrightarrow> keeps (mq_inv cf qt) (disconnect env)"
proof -
  have "mq_inv cf qt ((reset_transient_state (c\<lparr>mq_socket := None\<rparr>))\<lparr>mq_pre_connect_queue := [],
           mq_state := DISCONNECTED, mq_user_wants_connected := False, mq_reconnect_held := False\<rparr>)" if "mq_inv cf qt c" for c :: "'a MQTTClient"
    using mq_inv_fields(5) [OF reset_transient_inv [of cf qt "c\<lparr>mq_socket := None\<rparr>"], of "[]"] that by simp
  then show "callbacks_keep env \<Longrightarrow> keeps (mq_inv cf qt) (disconnect env)"
    unfolding disconnect_def by (intro keeps_intros keeps_modify) simp_all
qed

lemma keeps_set_will: "keeps (mq_inv cf qt) (set_will t m q r)"
  unfolding set_will_def by (intro keeps_intros) simp_all

lemma flights_put: "flights_ok m t \<Longrightarrow> flight_ok m (k, e) \<Longrightarrow> flights_ok m (dict_put k e t)"
  by (auto simp: flights_ok_def distinct_dict_put dest!: set_dict_put)

lemma flights_pop: "flights_ok m t \<Longrightarrow> flights_ok m (dict_pop k t)"
  by (auto simp: flights_ok_def distinct_dict_pop set_dict_pop)

lemma mq_inv_flights: "mq_inv cf qt c \<Longrightarrow> flights_ok (mc_publish_retry_max (mq_cfg c)) (mq_in_flight c)"
  by (auto simp: mq_inv_def)

lemma keeps_flights_pop [keeps_intros]: "keeps (mq_inv cf qt) (modify (\<lambda>c. c\<lparr>mq_in_flight := dict_pop k (mq_in_flight c)\<rparr>))"
  by (intro keeps_modify mq_inv_fields(2) flights_pop mq_inv_flights)

lemma keeps_flights_put:
  assumes "\<And>m. flight_ok m (k, e)"
  shows "keeps (mq_inv cf qt) (modify (\<lambda>c. c\<lparr>mq_in_flight := dict_put k e (mq_in_flight c)\<rparr>))"
  using assms by (intro keeps_modify mq_inv_fields(2) flights_put mq_inv_flights)

lemma keeps_do_publish [keeps_intros]: "keeps (mq_inv cf qt) (do_publish env t pl q r f now)"
proof -
  have new: "flight_ok m (i, \<lparr>if_packet_id = i, if_packet_bytes = packet, if_retry_count = 0, if_deadline_ticks = d,
                 if_callback = (f, t, pl), if_dup_packet_bytes = None\<rparr>)"
    if "1 \<le> i" "i \<le> 65535" "encode_publish (Text t) (Raw pl) 1 r (Some (int i)) = Inr packet" for i m packet d
    using that publish1_head [OF that(3)] by (auto simp: flight_ok_def)
  have caught: "keeps (mq_inv cf qt) (case e of MQTTBackpressureError x \<Rightarrow>
      andThen (modify (\<lambda>c. c\<lparr>mq_in_flight := dict_pop i (mq_in_flight c)\<rparr>)) (throw e) | _ \<Rightarrow> throw e)" for e i
    by (cases e) (auto intro: keeps_intros)
  have q0: "keeps (mq_inv cf qt) (enqueue_user_tx (if f \<noteq> None \<or> b then [TxPacket packet, TxMarker f t pl] else [TxPacket packet]))"
    if "encode_publish (Text t) (Raw pl) 0 r None = Inr packet" for packet b
    using plain_publish0 [OF that] by (intro keeps_enqueue_user_tx) (auto simp: plain_packet_def item_ok_def is_batch_def split: if_splits)
  show ?thesis
    unfolding do_publish_def
    by (intro keeps_if keeps_lift keeps_allocate keeps_reading_inv keeps_mbind keeps_andThen keeps_catch keeps_deadline
        keeps_flights_put keeps_enqueue_packet keeps_basic new caught q0) (auto intro: publish1_plain)
qed

lemma keeps_publish: "keeps (mq_inv cf qt) (publish env t pl q r f)"
proof -
  have "keeps (mq_inv cf qt) (publish_disconnected t b q r f)" for b
    unfolding publish_disconnected_def
    by (rule keeps_reading)
      (auto simp: deque_append_room intro!: mq_inv_fields(5))
  then show ?thesis unfolding publish_def by (intro keeps_intros)
qed

lemma keeps_drain_pre_connect [keeps_intros]: "keeps (mq_inv cf qt) (drain_pre_connect env now n)"
proof (induction n)
  case (Suc n)
  show ?case
    unfolding drain_pre_connect.simps
  proof (rule keeps_reading)
    fix c :: "'a MQTTClient"
    assume inv: "mq_inv cf qt c"
    show "mq_inv cf qt (snd ((case mq_pre_connect_queue c of [] \<Rightarrow> ret ()
       | (topic, payload, qos, retain, on_publish) # rest \<Rightarrow>
           andThen (modify (\<lambda>c. c\<lparr>mq_pre_connect_queue := rest\<rparr>))
            (andThen (do_publish env topic payload qos retain on_publish now) (drain_pre_connect env now n))) c))"
    proof (cases "mq_pre_connect_queue c")
      case (Cons x rest)
      obtain topic payload qos retain f where x: "x = (topic, payload, qos, retain, f)" by (cases x)
      have "mq_inv cf qt (c\<lparr>mq_pre_connect_queue := rest\<rparr>)"
        using inv Cons by (intro mq_inv_fields(5)) (auto simp: mq_inv_def)
      moreover have "keeps (mq_inv cf qt) (andThen (do_publish env topic payload qos retain f now) (drain_pre_connect env now n))"
        by (intro keeps_intros Suc)
      ultimately show ?thesis using Cons x by (simp add: keeps_def run_andThen [of "modify f" for f])
    qed (use inv in simp)
  qed
qed (simp only: drain_pre_connect.simps keeps_basic)

lemma keeps_drain_pre_connect_queue [keeps_intros]: "keeps (mq_inv cf qt) (drain_pre_connect_queue env now)"
  unfolding drain_pre_connect_queue_def by (intro keeps_intros)

lemma mq_inv_subs: "mq_inv cf qt c \<Longrightarrow> distinct (map fst (mq_subscriptions c))"
  by (simp add: mq_inv_def)

lemma keeps_subs [keeps_intros]:
  "keeps (mq_inv cf qt) (modify (\<lambda>c. c\<lparr>mq_subscriptions := dict_put t v (mq_subscriptions c)\<rparr>))"
  "keeps (mq_inv cf qt) (modify (\<lambda>c. c\<lparr>mq_subscriptions := dict_pop t (mq_subscriptions c)\<rparr>))"
  by (rule keeps_modify, rule mq_inv_fields(6), assumption, simp add: distinct_dict_put distinct_dict_pop mq_inv_subs)+

lemma keeps_subscribe: "keeps (mq_inv cf qt) (subscribe env t q f)"
  unfolding subscribe_def
  by (intro keeps_andThen keeps_reading_inv keeps_whenever keeps_allocate keeps_lift keeps_enqueue_packet keeps_await_ack keeps_subs)
    (auto intro: plain_subscribe)

lemma keeps_unsubscribe: "keeps (mq_inv cf qt) (unsubscribe env t f)"
  unfolding unsubscribe_def
  by (intro keeps_andThen keeps_reading_inv keeps_if keeps_allocate keeps_lift keeps_enqueue_packet keeps_await_ack keeps_subs)
    (auto intro: plain_unsubscribe)

lemma keeps_next_message_resume: "keeps (mq_inv cf qt) next_message_resume"
  unfolding next_message_resume_def
proof (rule keeps_reading)
  fix c :: "'a MQTTClient"
  assume inv: "mq_inv cf qt c"
  have "mq_inv cf qt (c\<lparr>mq_inbound_queue := Some rest\<rparr>)" if "mq_inbound_queue c = Some (m # rest)" for m rest
    using inv that by (intro mq_inv_fields(8)) (auto simp: mq_inv_def inbound_ok_def)
  then show "mq_inv cf qt (snd ((case mq_inbound_queue c of
     Some (m # rest) \<Rightarrow> andThen (modify (\<lambda>c. c\<lparr>mq_inbound_queue := Some rest\<rparr>)) (ret (Returns (Some m)))
   | _ \<Rightarrow> if inbound_stream_ended c then ret (Returns None) else ret Yields) c))"
    using inv by (auto simp: prog_simps split: option.split list.split)
qed

lemma keeps_next_message: "keeps (mq_inv cf qt) next_message"
  unfolding next_message_def
  by (intro keeps_andThen keeps_next_message_resume keeps_modify) (auto intro!: mq_inv_fields(8) simp: inbound_ok_def)

section \<open>A tick keeps it\<close>

lemma keeps_io_error: "callbacks_keep env \<Longrightarrow> keeps (mq_inv cf qt) (io_error env now m)"
  unfolding io_error_def by (intro keeps_intros) simp_all

lemma keeps_arm_self_heal [keeps_intros]: "keeps (mq_inv cf qt) (arm_self_heal_backoff env now)"
  unfolding arm_self_heal_backoff_def
proof (rule keeps_reading)
  fix c :: "'a MQTTClient"
  assume inv: "mq_inv cf qt c"
  let ?rest = "mbind (deadline env (backoff_delay (mq_self_heal_attempts c)) (Some now))
    (\<lambda>d. modify (\<lambda>c. c\<lparr>mq_self_heal_retry_at_ticks := Some d\<rparr>))"
  have rest: "keeps (mq_inv cf qt) ?rest" by (intro keeps_intros) simp
  have "mq_inv cf qt (snd (whenever (mq_self_heal_attempts c < 6) (modify (\<lambda>c. c\<lparr>mq_self_heal_attempts := mq_self_heal_attempts c + 1\<rparr>)) c))"
    using inv by (auto simp: whenever_def intro!: mq_inv_fields(9))
  then show "mq_inv cf qt (snd (andThen (whenever (mq_self_heal_attempts c < 6) (modify (\<lambda>c. c\<lparr>mq_self_heal_attempts := mq_self_heal_attempts c + 1\<rparr>))) ?rest c))"
    using rest inv by (auto simp: run_andThen whenever_def keeps_def)
qed

lemma keeps_attempt_self_heal [keeps_intros]: "keeps (mq_inv cf qt) (attempt_self_heal env now)"
proof -
  have "mq_inv cf qt (let c1 = reset_transient_state (c\<lparr>mq_socket := None\<rparr>) in
      if mc_clean_session (mq_cfg c) then c1\<lparr>mq_in_flight := [], mq_next_packet_id := 1\<rparr> else c1)" if "mq_inv cf qt c" for c :: "'a MQTTClient"
  proof -
    define c1 where "c1 = reset_transient_state (c\<lparr>mq_socket := None\<rparr>)"
    have "mq_inv cf qt c1" unfolding c1_def by (rule reset_transient_inv) (simp add: that)
    then have "mq_inv cf qt (c1\<lparr>mq_in_flight := []\<rparr>)" by (intro mq_inv_fields(2)) (auto simp: flights_ok_def)
    then have "mq_inv cf qt (c1\<lparr>mq_in_flight := [], mq_next_packet_id := 1\<rparr>)" by (rule mq_inv_fields(1)) simp_all
    with \<open>mq_inv cf qt c1\<close> show ?thesis by (simp add: Let_def c1_def)
  qed
  then show ?thesis
    unfolding attempt_self_heal_def
    by (intro keeps_andThen keeps_swallow keeps_close_socket keeps_modify keeps_mbind keeps_build_connector keeps_if keeps_reading_inv
        keeps_deadline keeps_basic) simp_all
qed

lemma keeps_check_transport_deadline [keeps_intros]: "callbacks_keep env \<Longrightarrow> keeps (mq_inv cf qt) (check_transport_deadline env now)"
  unfolding check_transport_deadline_def by (intro keeps_intros) simp_all

lemma keeps_advance_connector [keeps_intros]: "callbacks_keep env \<Longrightarrow> keeps (mq_inv cf qt) (advance_connector env now)"
  unfolding advance_connector_def by (intro keeps_intros) simp_all

lemma keeps_update_send_deadline [keeps_intros]: "keeps (mq_inv cf qt) (update_send_deadline env n)"
  unfolding update_send_deadline_def by (intro keeps_intros) simp_all

lemma keeps_call_publish [keeps_intros]: "callbacks_keep env \<Longrightarrow> keeps (mq_inv cf qt) (call_publish env f t pl)"
  unfolding call_publish_def by (intro keeps_intros)

lemma tx_ok_tl: "tx_ok cap b (i # q) \<Longrightarrow> tx_ok cap b q"
  by (auto simp: tx_ok_def split: if_splits)

lemma tx_ok_tl_batch: "tx_ok cap b (i # q) \<Longrightarrow> is_batch i \<Longrightarrow> tx_ok cap False q"
  by (auto simp: tx_ok_def split: if_splits)

lemma mq_inv_tx: "mq_inv cf qt c \<Longrightarrow> tx_ok (tx_queue_hard_cap c) (mq_puback_batch_queued c) (mq_tx_queue c)"
  by (simp add: mq_inv_def)

lemma mq_inv_pop: "mq_inv cf qt c \<Longrightarrow> mq_tx_queue c = i # q \<Longrightarrow> mq_inv cf qt (c\<lparr>mq_tx_queue := q\<rparr>)"
  using tx_ok_tl [of "tx_queue_hard_cap c" "mq_puback_batch_queued c" i q] mq_inv_tx [of cf qt c]
  by (intro mq_inv_fields(3)) auto

lemma mq_inv_batch: "mq_inv cf qt c \<Longrightarrow> tx_ok (tx_queue_hard_cap c) False (mq_tx_queue c) \<Longrightarrow> mq_inv cf qt (c\<lparr>mq_puback_batch_queued := False\<rparr>)"
  by (auto simp: mq_inv_def tx_queue_hard_cap_def)

lemma keeps_drain_markers [keeps_intros]: "callbacks_keep env \<Longrightarrow> keeps (mq_inv cf qt) (drain_markers env n)"
proof (induction n)
  case (Suc n)
  show ?case
    unfolding drain_markers.simps
  proof (rule keeps_reading)
    fix c :: "'a MQTTClient"
    assume inv: "mq_inv cf qt c"
    have k: "keeps (mq_inv cf qt) (andThen (call_publish env f t pl) (drain_markers env n))" for f t pl
      using Suc by (intro keeps_intros)
    have pop: "mq_inv cf qt (c\<lparr>mq_tx_queue := rest\<rparr>)" if "mq_tx_queue c = TxMarker f t pl # rest" for f t pl rest
      using mq_inv_pop [OF inv that] .
    show "mq_inv cf qt (snd ((case mq_tx_queue c of
        TxMarker cb topic payload # rest \<Rightarrow> andThen (modify (\<lambda>c. c\<lparr>mq_tx_queue := rest\<rparr>))
          (andThen (call_publish env cb topic payload) (drain_markers env n)) | _ \<Rightarrow> ret ()) c))"
      using inv k pop by (auto simp: run_andThen [of "modify g" for g] keeps_def split: list.split tx_item.split)
  qed
qed (simp only: drain_markers.simps keeps_basic)

lemma keeps_drain_callback_markers [keeps_intros]: "callbacks_keep env \<Longrightarrow> keeps (mq_inv cf qt) (drain_callback_markers env)"
  unfolding drain_callback_markers_def by (intro keeps_intros)

text \<open>A send, and a new send deadline, touch nothing but the world and that deadline.\<close>

lemma send_raw_frame: "\<exists>r w. send_raw env p c = (r, c\<lparr>mq_world := w\<rparr>)"
proof (cases "mq_socket c")
  case None
  then show ?thesis by (intro exI [of _ "Inl AttributeError"] exI [of _ "mq_world c"]) (simp add: send_raw_def reading_def prog_simps)
next
  case (Some s)
  obtain x w where "cv_send env s p (mq_world c) = (x, w)" by fastforce
  with Some show ?thesis
    by (cases x) (auto simp: send_raw_def reading_def prog_simps world_result_def world_def)
qed

definition deadline_only :: "'w MQTTClient \<Rightarrow> 'w MQTTClient \<Rightarrow> bool" where
  "deadline_only c c' \<longleftrightarrow> c' = c\<lparr>mq_world := mq_world c', mq_send_deadline_ticks := mq_send_deadline_ticks c'\<rparr>"

lemma deadline_onlyD:
  assumes "deadline_only c c'"
  shows "mq_tx_queue c' = mq_tx_queue c" "mq_puback_batch_queued c' = mq_puback_batch_queued c"
    "mq_partial_send c' = mq_partial_send c" "mq_cfg c' = mq_cfg c"
  using arg_cong [OF assms [unfolded deadline_only_def], of mq_tx_queue]
    arg_cong [OF assms [unfolded deadline_only_def], of mq_puback_batch_queued]
    arg_cong [OF assms [unfolded deadline_only_def], of mq_partial_send]
    arg_cong [OF assms [unfolded deadline_only_def], of mq_cfg] by simp_all

lemma update_send_deadline_frame: "deadline_only c (snd (update_send_deadline env n c))"
proof -
  obtain now w where t: "cv_ticks_ms env (mq_world c) = (now, w)" by fastforce
  show ?thesis
    using t by (cases "src_add (cv_ticks env) now (mc_send_timeout_ms (mq_cfg c))")
      (simp_all add: deadline_only_def update_send_deadline_def reading_def prog_simps deadline_def world_def)
qed

lemma keeps_drain_loop [keeps_intros]: "callbacks_keep env \<Longrightarrow> keeps (mq_inv cf qt) (drain_loop env n)"
proof (induction n)
  case (Suc n)
  let ?body = "\<lambda>c. case mq_tx_queue c of
       [] \<Rightarrow> update_send_deadline env 0
     | TxMarker _ _ _ # _ \<Rightarrow> throw (TypeError ''a marker cannot be sent'')
     | TxPacket packet # rest \<Rightarrow>
         if packet = [] then throw IndexError
         else mbind (send_raw env packet) (\<lambda>sent.
           if sent \<le> 0 then update_send_deadline env 0
           else if sent < length packet then
             andThen (modify (\<lambda>c. c\<lparr>mq_partial_send := Some (packet, sent), mq_tx_queue := tl (mq_tx_queue c),
                 mq_puback_batch_queued := (if is_puback_batch packet then False else mq_puback_batch_queued c)\<rparr>))
               (update_send_deadline env sent)
           else
             andThen (modify (\<lambda>c. c\<lparr>mq_tx_queue := tl (mq_tx_queue c)\<rparr>))
            (andThen (update_send_deadline env sent)
              (if is_puback_batch packet
               then andThen (modify (\<lambda>c. c\<lparr>mq_puback_batch_queued := False\<rparr>)) (drain_loop env n)
               else drain_callback_markers env)))"
  have "mq_inv cf qt (snd (?body c c))" if inv: "mq_inv cf qt c" for c
  proof (cases "\<exists>p rest. mq_tx_queue c = TxPacket p # rest \<and> p \<noteq> []")
    case False
    then show ?thesis using inv keeps_update_send_deadline [of cf qt env 0] by (auto simp: keeps_def split: list.split tx_item.split)
  next
    case True
    then obtain p rest where q: "mq_tx_queue c = TxPacket p # rest" "p \<noteq> []" by blast
    obtain r w where s: "send_raw env p c = (r, c\<lparr>mq_world := w\<rparr>)" using send_raw_frame [of env p c] by blast
    let ?c1 = "c\<lparr>mq_world := w\<rparr>"
    have inv1: "mq_inv cf qt ?c1" "mq_tx_queue ?c1 = TxPacket p # rest" using inv q by simp_all
    have pop: "mq_inv cf qt (?c1\<lparr>mq_tx_queue := rest\<rparr>)" by (rule mq_inv_pop [OF inv1])
    have part: "is_puback_batch p \<Longrightarrow> mq_inv cf qt (?c1\<lparr>mq_partial_send := Some (p, n), mq_tx_queue := rest, mq_puback_batch_queued := False\<rparr>)"
      "mq_inv cf qt (?c1\<lparr>mq_partial_send := Some (p, n), mq_tx_queue := rest\<rparr>)" if "0 < n" "n < length p" for n
      using that pop tx_ok_tl_batch [OF mq_inv_tx [OF inv, unfolded q(1)]]
      by (auto simp: mq_inv_def partial_ok_def tx_queue_hard_cap_def is_batch_def)
    have last: "mq_inv cf qt (snd ((if is_puback_batch p then andThen (modify (\<lambda>c. c\<lparr>mq_puback_batch_queued := False\<rparr>)) (drain_loop env n)
        else drain_callback_markers env) c2))" if "deadline_only (?c1\<lparr>mq_tx_queue := rest\<rparr>) c2" "mq_inv cf qt c2" for c2
    proof -
      have "is_puback_batch p \<Longrightarrow> mq_inv cf qt (c2\<lparr>mq_puback_batch_queued := False\<rparr>)"
        using that(2) tx_ok_tl_batch [OF mq_inv_tx [OF inv, unfolded q(1)]] deadline_onlyD [OF that(1)]
        by (intro mq_inv_batch) (simp_all add: is_batch_def tx_queue_hard_cap_def)
      then show ?thesis
        using that(2) Suc keeps_drain_callback_markers [OF Suc.prems] by (auto simp: run_andThen keeps_def)
    qed
    have full: "mq_inv cf qt (snd (andThen (update_send_deadline env m) (if is_puback_batch p
        then andThen (modify (\<lambda>c. c\<lparr>mq_puback_batch_queued := False\<rparr>)) (drain_loop env n)
        else drain_callback_markers env) (?c1\<lparr>mq_tx_queue := rest\<rparr>)))" for m
    proof -
      obtain r2 c2 where u: "update_send_deadline env m (?c1\<lparr>mq_tx_queue := rest\<rparr>) = (r2, c2)" by fastforce
      have "mq_inv cf qt c2" using keepsD [OF keeps_update_send_deadline pop u] .
      moreover have "deadline_only (?c1\<lparr>mq_tx_queue := rest\<rparr>) c2" using update_send_deadline_frame [of "?c1\<lparr>mq_tx_queue := rest\<rparr>" env m] u by simp
      ultimately show ?thesis using u last [of c2] by (simp add: run_andThen [of "update_send_deadline env m"] split: sum.split if_splits)
    qed
    show ?thesis
    proof (cases r)
      case (Inl e)
      then show ?thesis using q s inv1 by (simp add: run_mbind)
    next
      case (Inr sent)
      have k: "mq_inv cf qt (snd (update_send_deadline env m c3))" if "mq_inv cf qt c3" for m c3
        using that keeps_update_send_deadline [of cf qt env m] by (simp add: keeps_def)
      show ?thesis
        using Inr q s k [OF inv1(1)] k [OF part(1) [of sent]] k [OF part(2) [of sent]] full [of sent]
        by (simp add: run_mbind run_andThen [of "modify g" for g] del: mq_inv_frame)
    qed
  qed
  then show ?case unfolding drain_loop.simps by (intro keeps_andThen keeps_drain_callback_markers Suc.prems keeps_reading)
qed (simp only: drain_loop.simps keeps_basic)

lemma keeps_drain_tx_queue [keeps_intros]:
  assumes "callbacks_keep env"
  shows "keeps (mq_inv cf qt) (drain_tx_queue env)"
  unfolding drain_tx_queue_def
proof (rule keeps_reading)
  fix c :: "'a MQTTClient"
  assume inv: "mq_inv cf qt c"
  show "mq_inv cf qt (snd ((case mq_partial_send c of
       Some (packet, offset) \<Rightarrow>
         mbind (send_raw env (drop offset packet)) (\<lambda>sent.
         andThen (modify (\<lambda>c. c\<lparr>mq_partial_send :=
             (if offset + sent \<ge> length packet then None else Some (packet, offset + sent))\<rparr>))
           (update_send_deadline env sent))
     | None \<Rightarrow> drain_loop env (length (mq_tx_queue c) + 1)) c))"
  proof (cases "mq_partial_send c")
    case None
    then show ?thesis using inv keeps_drain_loop [OF assms, of cf qt "length (mq_tx_queue c) + 1"] by (simp add: keeps_def)
  next
    case (Some po)
    obtain p off where po: "po = (p, off)" by (cases po)
    obtain r w where s: "send_raw env (drop off p) c = (r, c\<lparr>mq_world := w\<rparr>)" using send_raw_frame [of env "drop off p" c] by blast
    have "mq_inv cf qt (c\<lparr>mq_world := w, mq_partial_send := ps\<rparr>)" if "partial_ok ps" for ps
      using inv that by (intro mq_inv_fields(4)) simp_all
    moreover have "partial_ok (if off + sent \<ge> length p then None else Some (p, off + sent))" for sent
      using inv Some po by (auto simp: mq_inv_def partial_ok_def)
    ultimately have *: "mq_inv cf qt (c\<lparr>mq_world := w, mq_partial_send := (if off + sent \<ge> length p then None else Some (p, off + sent))\<rparr>)" for sent
      by blast
    have k: "mq_inv cf qt (snd (update_send_deadline env m c3))" if "mq_inv cf qt c3" for m c3
      using that keeps_update_send_deadline [of cf qt env m] by (simp add: keeps_def)
    show ?thesis
      unfolding Some po using s inv k [OF *]
      by (cases r) (simp_all add: run_mbind run_andThen del: if_split)
  qed
qed

section \<open>Acks\<close>

lemma keeps_discard_pending [keeps_intros]: "callbacks_keep env \<Longrightarrow> keeps (mq_inv cf qt) (discard_pending env what i)"
  unfolding discard_pending_def by (intro keeps_intros) simp_all

lemma keeps_evict [keeps_intros]: "keeps (mq_inv cf qt) (evict_rejected_subscription i)"
  unfolding evict_rejected_subscription_def by (intro keeps_intros)

lemma keeps_replay_subscription [keeps_intros]: "keeps (mq_inv cf qt) (replay_subscription env now entry)"
  unfolding replay_subscription_def
  by (intro keeps_prod keeps_allocate keeps_lift) (auto intro!: keeps_mbind keeps_enqueue_internal keeps_await_ack plain_subscribe)

lemma keeps_replay_subscriptions [keeps_intros]: "keeps (mq_inv cf qt) (replay_subscriptions env now)"
  unfolding replay_subscriptions_def by (intro keeps_intros)

lemma mq_inv_connected: "mq_inv cf qt c \<Longrightarrow> mq_inv cf qt (c\<lparr>mq_state := CONNECTED, mq_self_heal_attempts := 0, mq_self_heal_retry_at_ticks := None\<rparr>)"
  using mq_inv_fields(9) [of cf qt "c\<lparr>mq_state := CONNECTED\<rparr>" 0] by simp

lemma keeps_handle_connack [keeps_intros]: "callbacks_keep env \<Longrightarrow> keeps (mq_inv cf qt) (handle_connack env p now)"
  unfolding handle_connack_def
  by (intro keeps_mbind keeps_discard_pending keeps_if keeps_Let keeps_andThen keeps_whenever keeps_enter_failed keeps_reading_inv
      keeps_deadline keeps_replay_subscriptions keeps_drain_pre_connect_queue keeps_call keeps_modify mq_inv_connected) simp_all

lemma keeps_call_subscribe [keeps_intros]: "callbacks_keep env \<Longrightarrow> keeps (mq_inv cf qt) (call_subscribe env f t g)"
  unfolding call_subscribe_def by (intro keeps_intros)

lemma keeps_handle_suback [keeps_intros]: "callbacks_keep env \<Longrightarrow> keeps (mq_inv cf qt) (handle_suback env p)"
  unfolding handle_suback_def by (intro keeps_intros)

lemma keeps_handle_puback [keeps_intros]: "callbacks_keep env \<Longrightarrow> keeps (mq_inv cf qt) (handle_puback env p)"
  unfolding handle_puback_def by (intro keeps_intros)

lemma keeps_handle_ack [keeps_intros]: "callbacks_keep env \<Longrightarrow> keeps (mq_inv cf qt) (handle_ack env p now)"
  unfolding handle_ack_def by (intro keeps_intros)

section \<open>Receiving\<close>

lemma keeps_pubacks: "\<forall>p \<in> set ps. is_puback_batch p \<Longrightarrow> keeps (mq_inv cf qt) (modify (\<lambda>c. c\<lparr>mq_pending_pubacks := mq_pending_pubacks c @ ps\<rparr>))"
  by (intro keeps_modify mq_inv_fields(7)) (auto simp: mq_inv_def)

lemma keeps_push_puback [keeps_intros]: "keeps (mq_inv cf qt) (push_puback i)"
  unfolding push_puback_def by (intro keeps_lift keeps_pubacks) (auto split: option.splits dest: puback_batch)

lemma keeps_handle_inbound_publish [keeps_intros]: "callbacks_keep env \<Longrightarrow> keeps (mq_inv cf qt) (handle_inbound_publish env p)"
proof -
  have "inbound_ok (Some (deque_append MAX_INBOUND_QUEUE_SIZE q x))"
    if "mq_inv cf qt c" "mq_inbound_queue c = Some q" for c :: "'a MQTTClient" and q x
    using that deque_append_bound [of q MAX_INBOUND_QUEUE_SIZE x] by (simp add: mq_inv_def inbound_ok_def)
  then show "callbacks_keep env \<Longrightarrow> keeps (mq_inv cf qt) (handle_inbound_publish env p)"
    unfolding handle_inbound_publish_def
    by (intro keeps_andThen keeps_reading_inv keeps_option keeps_call keeps_whenever keeps_push_puback keeps_modify mq_inv_fields(8))
qed

lemma keeps_handle_oversized [keeps_intros]: "callbacks_keep env \<Longrightarrow> keeps (mq_inv cf qt) (handle_oversized env p)"
  unfolding handle_oversized_def by (intro keeps_intros)

lemma keeps_dispatch [keeps_intros]: "callbacks_keep env \<Longrightarrow> keeps (mq_inv cf qt) (dispatch env now p)"
  by (cases p) (auto simp: dispatch_def intro: keeps_intros)

lemma keeps_decoder_read_next [keeps_intros]: "keeps (mq_inv cf qt) decoder_read_next"
  unfolding decoder_read_next_def
proof (rule keeps_reading)
  fix c :: "'a MQTTClient"
  assume inv: "mq_inv cf qt c"
  then have "pd_inv (mq_decoder c)" "pd_buffer_size (mq_decoder c) = mc_rx_buffer_size (mq_cfg c)" by (simp_all add: mq_inv_def)
  with read_next_ok [of "mq_decoder c"]
  have "mq_inv cf qt (c\<lparr>mq_decoder := d\<rparr>)" if "read_next (mq_decoder c) = Inr (x, d)" for x d
    using that inv by (intro mq_inv_fields(10)) auto
  then show "mq_inv cf qt (snd ((case read_next (mq_decoder c) of Inl e \<Rightarrow> throw e
   | Inr (packet, d) \<Rightarrow> andThen (modify (\<lambda>c. c\<lparr>mq_decoder := d\<rparr>)) (ret packet)) c))"
    using inv by (auto simp: prog_simps split: sum.split)
qed

lemma keeps_dispatch_loop [keeps_intros]: "callbacks_keep env \<Longrightarrow> keeps (mq_inv cf qt) (dispatch_loop env now n)"
proof (induction n)
  case (Suc n)
  then show ?case unfolding dispatch_loop.simps by (intro keeps_intros)
qed (simp only: dispatch_loop.simps keeps_basic)

text \<open>The batch goes to the head of a queue that holds none.\<close>

lemma flush_pubacks_inv:
  assumes "mq_inv cf True c"
  shows "mq_inv cf False (snd (flush_pubacks c))"
proof -
  let ?p = "concat (mq_pending_pubacks c)"
  have c: "mq_inv cf False c" "\<not> mq_puback_batch_queued c" using assms by (auto simp: mq_inv_def)
  have "mq_inv cf False (c\<lparr>mq_tx_queue := TxPacket ?p # mq_tx_queue c, mq_puback_batch_queued := True, mq_pending_pubacks := []\<rparr>)"
    if "length (mq_tx_queue c) < tx_queue_hard_cap c" "mq_pending_pubacks c \<noteq> []"
  proof -
    have "is_puback_batch ?p" using c(1) that(2) by (intro concat_batch) (auto simp: mq_inv_def)
    then show ?thesis using c that by (auto simp: mq_inv_def tx_ok_def tx_queue_hard_cap_def item_ok_def is_batch_def is_puback_batch_def)
  qed
  moreover have "mq_inv cf False (c\<lparr>mq_pending_pubacks := []\<rparr>)" using c(1) by (intro mq_inv_fields(7)) auto
  ultimately show ?thesis
    using c(1) by (auto simp: flush_pubacks_def enqueue_internal_tx_def reading_def prog_simps deque_appendleft_room)
qed

text \<open>\<^verbatim>\<open>recv_into\<close> fills at most the bytes it is asked for.\<close>

definition recv_bounded :: "'w mqtt_env \<Rightarrow> bool" where
  "recv_bounded env \<longleftrightarrow> (\<forall>s n w bs w'. cv_recv_into env s n w = (Inr bs, w') \<longrightarrow> length bs \<le> n)"

lemma receive_inv:
  "pd_inv d \<Longrightarrow> int (length bs) \<le> fill_capacity d \<Longrightarrow> pd_inv (receive d bs) \<and> pd_buffer_size (receive d bs) = pd_buffer_size d"
  by (cases "pd_drain_mode d") (auto simp: receive_live receive_drain)

lemma keeps_receive_into [keeps_intros]:
  assumes "recv_bounded env"
  shows "keeps (mq_inv cf qt) (receive_into env)"
  unfolding receive_into_def
proof (rule keeps_reading)
  fix c :: "'a MQTTClient"
  assume inv: "mq_inv cf qt c"
  define fill where "fill = fill_capacity (mq_decoder c)"
  define cap where "cap = (if fill > mc_recv_budget_per_tick (mq_cfg c) then mc_recv_budget_per_tick (mq_cfg c) else fill)"
  let ?get = "catch (mbind (case mq_socket c of None \<Rightarrow> throw AttributeError
                   | Some s \<Rightarrow> world_result (cv_recv_into env s (nat cap))) (\<lambda>bs.
             if bs = [] then throw (MQTTProtocolError ''broker closed connection'') else ret bs))
           (\<lambda>e. if e = OSError EAGAIN then ret [] else throw e)"
  have "case ?get c of (Inl e, c1) \<Rightarrow> mq_inv cf qt c1
     | (Inr bs, c1) \<Rightarrow> mq_inv cf qt (c1\<lparr>mq_decoder := receive (mq_decoder c1) bs\<rparr>)" if "0 < cap"
  proof -
    have d: "pd_inv (mq_decoder c)" "pd_buffer_size (mq_decoder c) = mc_rx_buffer_size (mq_cfg c)" using inv by (simp_all add: mq_inv_def)
    have rec: "mq_inv cf qt (c\<lparr>mq_world := w, mq_decoder := receive (mq_decoder c) bs\<rparr>)" if "int (length bs) \<le> fill" for bs w
      using receive_inv [OF d(1) that [unfolded fill_def]] inv d(2) by (intro mq_inv_fields(10)) auto
    have "cap \<le> fill" by (simp add: cap_def)
    with that have fit: "length bs \<le> nat cap \<Longrightarrow> int (length bs) \<le> fill" for bs :: "byte list" by simp
    show ?thesis
    proof (cases "mq_socket c")
      case None
      then show ?thesis using inv by (simp add: prog_simps)
    next
      case (Some s)
      obtain r w where r: "cv_recv_into env s (nat cap) (mq_world c) = (r, w)" by fastforce
      with assms have "r = Inr bs \<Longrightarrow> length bs \<le> nat cap" for bs unfolding recv_bounded_def by blast
      then show ?thesis
        using Some r inv rec fit [of "[]"] fit that \<open>cap \<le> fill\<close>
        by (cases r) (auto simp: prog_simps world_result_def world_def)
    qed
  qed
  then show "mq_inv cf qt (snd ((let fill = fill_capacity (mq_decoder c); budget = mc_recv_budget_per_tick (mq_cfg c);
         capacity = (if fill > budget then budget else fill) in
     whenever (capacity > 0)
       (mbind (catch
           (mbind (case mq_socket c of None \<Rightarrow> throw AttributeError
                   | Some s \<Rightarrow> world_result (cv_recv_into env s (nat capacity))) (\<lambda>bs.
             if bs = [] then throw (MQTTProtocolError ''broker closed connection'') else ret bs))
           (\<lambda>e. if e = OSError EAGAIN then ret [] else throw e))
         (\<lambda>bs. modify (\<lambda>c. c\<lparr>mq_decoder := receive (mq_decoder c) bs\<rparr>)))) c))"
    using inv unfolding Let_def fill_def [symmetric] cap_def [symmetric]
    by (auto simp: run_whenever run_mbind split: prod.splits sum.splits)
qed

lemma valid_snd: "valid P m (\<lambda>_. J) (\<lambda>_. J) \<Longrightarrow> P s \<Longrightarrow> J (snd (m s))"
  by (cases "m s"; cases "fst (m s)") (auto dest: validD_Inr validD_Inl)

lemma mq_inv_True: "mq_inv cf True c \<longleftrightarrow> mq_inv cf False c \<and> \<not> mq_puback_batch_queued c"
  by (auto simp: mq_inv_def)

lemma keeps_read_inbound [keeps_intros]:
  assumes "callbacks_keep env" "recv_bounded env"
  shows "keeps (mq_inv cf False) (read_inbound env now)"
  unfolding read_inbound_def
proof (rule keeps_reading)
  fix c :: "'a MQTTClient"
  assume inv: "mq_inv cf False c"
  let ?m = "andThen (receive_into env) (andThen (modify (\<lambda>c. c\<lparr>mq_pending_pubacks := []\<rparr>)) (reading (\<lambda>c.
          mbind (dispatch_loop env now (pd_buffer_size (mq_decoder c) + 2)) (\<lambda>ran_dry. whenever ran_dry flush_pubacks))))"
  have w: "mq_inv cf True s \<Longrightarrow> mq_inv cf False s" for s :: "'a MQTTClient" by (simp add: mq_inv_True)
  have clear: "keeps (mq_inv cf True) (modify (\<lambda>c :: 'a MQTTClient. c\<lparr>mq_pending_pubacks := []\<rparr>))"
    by (intro keeps_modify mq_inv_fields(7)) auto
  have fl: "valid (mq_inv cf True :: 'a MQTTClient \<Rightarrow> bool) (whenever b flush_pubacks) (\<lambda>_. mq_inv cf False) (\<lambda>_. mq_inv cf False)" for b
  proof (rule validI)
    fix s :: "'a MQTTClient"
    assume "mq_inv cf True s"
    then show "case whenever b flush_pubacks s of (Inl e, s1) \<Rightarrow> mq_inv cf False s1 | (Inr x, s1) \<Rightarrow> mq_inv cf False s1"
      using flush_pubacks_inv [of cf s] w [of s] by (auto simp: run_whenever split: prod.split sum.split)
  qed
  have dl: "valid (mq_inv cf True) (mbind (dispatch_loop env now n) (\<lambda>ran_dry. whenever ran_dry flush_pubacks))
      (\<lambda>_. mq_inv cf False) (\<lambda>_. mq_inv cf False)" for n
    by (rule valid_mbind [OF keeps_valid [OF keeps_dispatch_loop [OF assms(1)] w] fl])
  have "valid (mq_inv cf True) (reading (\<lambda>c. mbind (dispatch_loop env now (pd_buffer_size (mq_decoder c) + 2))
      (\<lambda>ran_dry. whenever ran_dry flush_pubacks))) (\<lambda>_. mq_inv cf False) (\<lambda>_. mq_inv cf False)"
    by (rule valid_reading) (rule dl)
  then have v: "valid (mq_inv cf True) ?m (\<lambda>_. mq_inv cf False) (\<lambda>_. mq_inv cf False)"
    by (intro valid_andThen [OF keeps_valid [OF keeps_receive_into [OF assms(2)]]] valid_andThen [OF keeps_valid [OF clear]] w)
  show "mq_inv cf False (snd ((if recv_suppressed c then ret () else ?m) c))"
  proof (cases "recv_suppressed c")
    case False
    then have "mq_inv cf True c" using inv by (simp add: mq_inv_True recv_suppressed_def)
    from valid_snd [OF v this] False show ?thesis by simp
  qed (simp add: inv)
qed

section \<open>Timeouts\<close>

lemma keeps_retry_in_flight [keeps_intros]: "callbacks_keep env \<Longrightarrow> keeps (mq_inv cf qt) (retry_in_flight env now ks)"
proof (induction ks)
  case (Cons k ks)
  have put: "keeps (mq_inv cf qt) (modify (\<lambda>c. c\<lparr>mq_in_flight := dict_put k e (mq_in_flight c)\<rparr>))"
    if "flight_ok (mc_publish_retry_max cf) (k, e)" for e
    using that mq_inv_flights [of cf qt] by (intro keeps_modify mq_inv_fields(2) flights_put) (auto simp: mq_inv_def)
  have pop: "keeps (mq_inv cf qt) (modify (\<lambda>c. c\<lparr>mq_in_flight := dict_pop k (mq_in_flight c), mq_last_error := er\<rparr>))" for er
    by (rule keeps_modify) (simp add: mq_inv_fields(2) flights_pop mq_inv_flights)
  show ?case
    unfolding retry_in_flight.simps
  proof (intro keeps_reading_inv keeps_option)
    fix c :: "'a MQTTClient" and entry
    assume inv: "mq_inv cf qt c" and e: "map_of (mq_in_flight c) k = Some entry"
    have cfg: "mq_cfg c = cf" using inv by (simp add: mq_inv_def)
    have ok: "flight_ok (mc_publish_retry_max cf) (k, entry)"
      using mq_inv_flights [OF inv] map_of_SomeD [OF e] cfg unfolding flights_ok_def by blast
    then obtain b r where br: "if_packet_bytes entry = b # r" "unat b \<in> {0x32, 0x33}"
      "if_dup_packet_bytes entry = None \<or> if_dup_packet_bytes entry = Some ((b OR 8) # r)" by (auto simp: flight_ok_def)
    let ?dup = "case if_dup_packet_bytes entry of Some dup \<Rightarrow> Inr dup
       | None \<Rightarrow> (case if_packet_bytes entry of [] \<Rightarrow> Inl IndexError | b # r \<Rightarrow> Inr ((b OR 0x08) # r))"
    have dup: "?dup = Inr ((b OR 8) # r)" using br by auto
    have plain: "plain_packet ((b OR 8) # r)" using unat_or8 [OF br(2)] by (auto simp: plain_packet_def is_puback_batch_def PACKET_PUBACK_def)
    have ok1: "flight_ok (mc_publish_retry_max cf) (k, entry\<lparr>if_dup_packet_bytes := Some ((b OR 8) # r)\<rparr>)"
      using ok br(1) by (auto simp: flight_ok_def)
    have ok2: "flight_ok (mc_publish_retry_max cf) (k, entry\<lparr>if_dup_packet_bytes := Some ((b OR 8) # r), if_retry_count := if_retry_count entry + 1\<rparr>)"
      "flight_ok (mc_publish_retry_max cf) (k, entry\<lparr>if_dup_packet_bytes := Some ((b OR 8) # r), if_retry_count := if_retry_count entry + 1, if_deadline_ticks := d\<rparr>)"
      if "if_retry_count entry < mc_publish_retry_max cf" for d
      using ok1 that by (auto simp: flight_ok_def)
    have rest: "keeps (mq_inv cf qt) (retry_in_flight env now ks)" using Cons by blast
    show "keeps (mq_inv cf qt) (if src_diff (cv_ticks env) (if_deadline_ticks entry) now > 0 then retry_in_flight env now ks
         else if if_retry_count entry \<ge> mc_publish_retry_max (mq_cfg c) then
           andThen (modify (\<lambda>c. c\<lparr>mq_in_flight := dict_pop k (mq_in_flight c),
               mq_last_error := Some (MQTTError ''PUBLISH exceeded retry limit'')\<rparr>))
          (andThen (enter_failed env) (ret True))
         else
           mbind (lift ?dup) (\<lambda>dup.
           let entry1 = entry\<lparr>if_dup_packet_bytes := Some dup\<rparr>;
               entry2 = entry1\<lparr>if_retry_count := if_retry_count entry1 + 1\<rparr> in
           andThen (modify (\<lambda>c. c\<lparr>mq_in_flight := dict_put k entry1 (mq_in_flight c)\<rparr>))
          (mbind (enqueue_internal_tx (TxPacket dup) False) (\<lambda>queued.
             if \<not> queued then retry_in_flight env now ks
             else andThen (modify (\<lambda>c. c\<lparr>mq_in_flight := dict_put k entry2 (mq_in_flight c)\<rparr>))
               (mbind (deadline env (mc_ack_timeout_ms (mq_cfg c)) (Some now)) (\<lambda>d.
                andThen (modify (\<lambda>c. c\<lparr>mq_in_flight := dict_put k (entry2\<lparr>if_deadline_ticks := d\<rparr>) (mq_in_flight c)\<rparr>))
                  (retry_in_flight env now ks)))))))"
      unfolding dup cfg
      by (intro keeps_if rest keeps_andThen pop keeps_enter_failed Cons.prems keeps_basic keeps_lift keeps_Let keeps_mbind
          keeps_enqueue_internal keeps_deadline put) (use plain ok1 ok2 in auto)
  qed (rule keeps_basic)
qed (simp only: retry_in_flight.simps keeps_basic)

lemma keeps_expire [keeps_intros]:
  "callbacks_keep env \<Longrightarrow> keeps (mq_inv cf qt) (expire_pending env now)"
  "callbacks_keep env \<Longrightarrow> keeps (mq_inv cf qt) (expire_send env now)"
  unfolding expire_pending_def expire_send_def by (intro keeps_intros; simp)+

lemma keeps_check_deadlines [keeps_intros]: "callbacks_keep env \<Longrightarrow> keeps (mq_inv cf qt) (check_deadlines env now)"
  unfolding check_deadlines_def by (intro keeps_intros)

lemma keeps_check_keepalive [keeps_intros]: "keeps (mq_inv cf qt) (check_keepalive env now)"
  unfolding check_keepalive_def by (intro keeps_intros plain_pingreq) simp

lemma keeps_work [keeps_intros]: "callbacks_keep env \<Longrightarrow> recv_bounded env \<Longrightarrow> keeps (mq_inv cf False) (work env now)"
  unfolding work_def by (intro keeps_intros) simp_all

lemma keeps_handle: "callbacks_keep env \<Longrightarrow> recv_bounded env \<Longrightarrow> keeps (mq_inv cf False) (handle env now)"
  unfolding handle_def by (intro keeps_intros)



section \<open>User code and reachable clients\<close>

text \<open>What a callback can do to the client: call its public methods, assign \<^verbatim>\<open>on_publish\<close>, change the world.\<close>

datatype 'w user_call =
    CallConnect | CallHold | CallDisconnect
  | CallSetWill "text_or_bytes option" "text_or_bytes option" int bool
  | CallPublish pystr text_or_bytes int bool "nat option"
  | CallSubscribe pystr int "nat option"
  | CallUnsubscribe pystr "nat option"
  | CallNextMessage | CallResumeMessage
  | SetOnPublish bool
  | ChangeWorld "'w \<Rightarrow> 'w"

fun client_call :: "'w mqtt_env \<Rightarrow> 'w user_call \<Rightarrow> 'w MQTTClient \<Rightarrow> 'w MQTTClient" where
  "client_call env CallConnect c = snd (connect env c)"
| "client_call env CallHold c = snd (hold c)"
| "client_call env CallDisconnect c = snd (disconnect env c)"
| "client_call env (CallSetWill t m q r) c = snd (set_will t m q r c)"
| "client_call env (CallPublish t pl q r f) c = snd (publish env t pl q r f c)"
| "client_call env (CallSubscribe t q f) c = snd (subscribe env t q f c)"
| "client_call env (CallUnsubscribe t f) c = snd (unsubscribe env t f c)"
| "client_call env CallNextMessage c = snd (next_message c)"
| "client_call env CallResumeMessage c = snd (next_message_resume c)"
| "client_call env (SetOnPublish b) c = c\<lparr>mq_on_publish_set := b\<rparr>"
| "client_call env (ChangeWorld f) c = c\<lparr>mq_world := f (mq_world c)\<rparr>"

text \<open>
  A callback runs a sequence of such calls; the callbacks those calls make are again of this
  kind, one level further down. The definition is inductive, so the nesting is finite.
\<close>

inductive well_behaved :: "'w mqtt_env \<Rightarrow> bool" where
  "(\<And>cb c. \<exists>calls. (\<forall>(env', ca) \<in> set calls. well_behaved env')
       \<and> snd (cv_call env cb c) = fold (\<lambda>(env', ca). client_call env' ca) calls c)
   \<Longrightarrow> well_behaved env"

lemma client_call_inv: "callbacks_keep env \<Longrightarrow> mq_inv cf qt c \<Longrightarrow> mq_inv cf qt (client_call env ca c)"
  by (cases ca) (auto simp: hold_def intro!: keeps_connect keeps_disconnect keeps_set_will keeps_publish keeps_subscribe
      keeps_unsubscribe keeps_next_message keeps_next_message_resume intro: keeps_snd)

lemma well_behaved_keeps: "well_behaved env \<Longrightarrow> callbacks_keep env"
proof (induction rule: well_behaved.induct)
  case (1 env)
  have "mq_inv cf qt (snd (cv_call env cb c))" if inv: "mq_inv cf qt c" for cf qt cb c
  proof -
    obtain calls where calls: "\<forall>(env', ca) \<in> set calls. well_behaved env' \<and> callbacks_keep env'"
      "snd (cv_call env cb c) = fold (\<lambda>(env', ca). client_call env' ca) calls c"
      using 1 [of cb c] by blast
    have "mq_inv cf qt (fold (\<lambda>(env', ca). client_call env' ca) calls c)"
      using calls(1) inv by (induction calls arbitrary: c) (auto intro: client_call_inv)
    with calls(2) show ?thesis by simp
  qed
  then show ?case by (simp add: callbacks_keep_def keeps_def)
qed

inductive mq_reachable :: "'w mqtt_env \<Rightarrow> MQTTConfig \<Rightarrow> 'w MQTTClient \<Rightarrow> bool" for env cfg where
  start: "MQTTClient_init env cfg sock wt wm wq wr w = Inr c \<Longrightarrow> mq_reachable env cfg c"
| user: "mq_reachable env cfg c \<Longrightarrow> mq_reachable env cfg (client_call env ca c)"
| tick: "mq_reachable env cfg c \<Longrightarrow> mq_reachable env cfg (snd (handle env now c))"
| error: "mq_reachable env cfg c \<Longrightarrow> mq_reachable env cfg (snd (io_error env now m c))"

lemma mq_reachable_inv:
  assumes "mq_reachable env cfg c" "well_behaved env" "recv_bounded env"
  shows "mq_inv cfg False c"
  using assms(1)
proof (induction rule: mq_reachable.induct)
  case (start sock wt wm wq wr w c)
  then show ?case by (rule mq_inv_init)
next
  case (user c ca)
  then show ?case using client_call_inv [OF well_behaved_keeps [OF assms(2)]] by blast
next
  case (tick c now)
  then show ?case using keeps_handle [OF well_behaved_keeps [OF assms(2)] assms(3)] by (simp add: keeps_def)
next
  case (error c now m)
  then show ?case using keeps_io_error [OF well_behaved_keeps [OF assms(2)]] by (simp add: keeps_def)
qed



section \<open>A sample client\<close>

text \<open>
  The world is the bytes the broker has sent and the bytes it has received; the socket takes
  everything at once. The callbacks do nothing, or reconnect on \<^verbatim>\<open>on_disconnect\<close>.
\<close>

definition idle_env :: "(byte list \<times> byte list) mqtt_env" where
  "idle_env = \<lparr>cv_ticks = real_ticks, cv_ticks_ms = (\<lambda>w. (0, w)), cv_factory = (\<lambda>w. (Inr 0, w)),
     cv_set_non_blocking = (\<lambda>s w. (None, w)),
     cv_send = (\<lambda>s p w. (Inr (length p), (fst w, snd w @ p))),
     cv_recv_into = (\<lambda>s n w. if fst w = [] then (Inl (OSError EAGAIN), w) else (Inr (take n (fst w)), (drop n (fst w), snd w))),
     cv_close = (\<lambda>s w. (None, w)), cv_connector_tick = (\<lambda>k t w. (None, w)), cv_connector_state = (\<lambda>k w. ''ready''),
     cv_connector_socket = (\<lambda>k w. 1), cv_connector_io_socket = (\<lambda>k w. None), cv_connector_io_interest = (\<lambda>k t w. 0),
     cv_connector_next_deadline = (\<lambda>k t w. None), cv_connector_cancel = (\<lambda>k w. w), cv_call = (\<lambda>cb. ret ())\<rparr>"

definition eager_env :: "(byte list \<times> byte list) mqtt_env" where
  "eager_env = idle_env\<lparr>cv_call := (\<lambda>cb. if cb = OnDisconnect then connect idle_env else ret ())\<rparr>"

definition sample_cfg :: MQTTConfig where
  "sample_cfg = \<lparr>mc_client_id = Text (ustr ''c''), mc_keep_alive_seconds = 60, mc_ack_timeout_ms = 5000,
     mc_publish_retry_max = 3, mc_username = None, mc_password = None, mc_clean_session = True,
     mc_when_oversized = DROP_WITH_EVENT, mc_when_disconnected = ''queue'', mc_pre_connect_queue_size = 8,
     mc_recv_budget_per_tick = 1024, mc_max_tx_queue_size = 20, mc_send_timeout_ms = 5000, mc_rx_buffer_size = 16,
     mc_transport_factory = True\<rparr>"

definition sample_client :: "(byte list \<times> byte list) MQTTClient" where
  "sample_client = (case MQTTClient_init eager_env sample_cfg (Some 1) None None 0 False ([], []) of Inr c \<Rightarrow> c | Inl e \<Rightarrow> undefined)"

lemma idle_well_behaved: "well_behaved idle_env"
  by (rule well_behaved.intros, rule exI [of _ "[]"]) (simp add: idle_env_def)

lemma eager_well_behaved: "well_behaved eager_env"
proof (rule well_behaved.intros)
  fix cb c
  show "\<exists>calls. (\<forall>(env', ca) \<in> set calls. well_behaved env') \<and>
      snd (cv_call eager_env cb c) = fold (\<lambda>(env', ca). client_call env' ca) calls c"
    by (rule exI [of _ "if cb = OnDisconnect then [(idle_env, CallConnect)] else []"])
      (simp add: eager_env_def idle_well_behaved)
qed

lemma eager_recv_bounded: "recv_bounded eager_env"
  by (auto simp: recv_bounded_def eager_env_def idle_env_def split: if_splits)

lemma sample_init: "MQTTClient_init eager_env sample_cfg (Some 1) None None 0 False ([], []) = Inr sample_client"
proof -
  have "\<exists>c. MQTTClient_init eager_env sample_cfg (Some 1) None None 0 False ([], []) = Inr c"
    by (simp add: MQTTClient_init_def sample_cfg_def force_non_blocking_def swallow_def world_do_def world_def prog_simps
        eager_env_def idle_env_def)
  then show ?thesis by (auto simp: sample_client_def)
qed

section \<open>Properties\<close>

text \<open>
  C3. Every client reached from the constructor by public calls, ticks and poll errors, with
  callbacks that call the client again to any finite depth, stays within its bounds: the
  transmit queue under its hard cap with at most one PUBACK batch in it, the pre-connect and
  inbound queues under theirs, the next packet id in 1..65535, the in-flight table with distinct
  ids, at most the allowed retries, and every retransmission the original packet with only its DUP
  bit set. It holds when a method returns and when it raises.
\<close>

theorem mqtt_client_invariant:
  assumes "mq_reachable env cfg c" "well_behaved env" "recv_bounded env"
  shows "mq_cfg c = cfg \<and> length (mq_tx_queue c) \<le> mc_max_tx_queue_size cfg + 64
    \<and> length (filter is_batch (mq_tx_queue c)) \<le> 1
    \<and> length (mq_pre_connect_queue c) \<le> mc_pre_connect_queue_size cfg
    \<and> (\<forall>q. mq_inbound_queue c = Some q \<longrightarrow> length q \<le> 16)
    \<and> 1 \<le> mq_next_packet_id c \<and> mq_next_packet_id c \<le> 65535
    \<and> distinct (map fst (mq_in_flight c))
    \<and> (\<forall>(k, e) \<in> set (mq_in_flight c). if_packet_id e = k \<and> 1 \<le> k \<and> k \<le> 65535
        \<and> if_retry_count e \<le> max 0 (mc_publish_retry_max cfg)
        \<and> (\<forall>dup. if_dup_packet_bytes e = Some dup \<longrightarrow>
            (\<exists>b r. if_packet_bytes e = b # r \<and> dup = (b OR 8) # r)))"
  using mq_reachable_inv [OF assms]
  by (auto simp: mq_inv_def tx_ok_def flights_ok_def flight_ok_def inbound_ok_def tx_queue_hard_cap_def
      MAX_INBOUND_QUEUE_SIZE_def split: if_splits)

theorem mqtt_client_invariant_witness:
  "length (mq_tx_queue (snd (handle eager_env 0 (client_call eager_env CallConnect sample_client)))) \<le> 84"
  using mqtt_client_invariant [OF mq_reachable.tick [OF mq_reachable.user [OF mq_reachable.start [OF sample_init]]]
      eager_well_behaved eager_recv_bounded, of 0 CallConnect]
  by (simp add: sample_cfg_def)

end
