(* ===== verification/Mqtt_Client_Props.thy ===== *)
theory Mqtt_Client_Props
  imports Mqtt_Client_Inv
begin

text \<open>
  What the MQTT client does, beyond its invariant: packet ids, the byte stream it sends, PUBACKs,
  publishing under backpressure, reconnection, and the cases in which it falls short.
\<close>

section \<open>Packet ids\<close>

definition succ_id :: "nat \<Rightarrow> nat" where
  "succ_id i = (if i + 1 > 65535 then 1 else i + 1)"

lemma succ_id_pow: "1 \<le> s \<Longrightarrow> s \<le> 65535 \<Longrightarrow> (succ_id ^^ j) s = (s - 1 + j) mod 65535 + 1"
proof (induction j)
  case (Suc j)
  let ?m = "(s - 1 + j) mod 65535"
  have m: "?m < 65535" by simp
  have e: "(s - 1 + Suc j) mod 65535 = (?m + 1) mod 65535" by (simp add: mod_Suc_eq)
  have "(succ_id ^^ Suc j) s = succ_id (?m + 1)" using Suc by simp
  also have "\<dots> = (?m + 1) mod 65535 + 1"
    using m by (cases "?m = 65534") (simp_all add: succ_id_def del: One_nat_def)
  finally show ?case unfolding e .
qed simp

lemma succ_id_covers:
  assumes "1 \<le> s" "s \<le> 65535" "1 \<le> i" "i \<le> 65535"
  shows "\<exists>j < 65535. i = (succ_id ^^ j) s"
proof -
  define j where "j = (if s \<le> i then i - s else i + 65535 - s)"
  have "(s - 1 + j) mod 65535 = i - 1"
  proof (cases "s \<le> i")
    case False
    then have "s - 1 + j = (i - 1) + 65535" using assms by (simp add: j_def)
    then have "(s - 1 + j) mod 65535 = (i - 1) mod 65535" by (simp only: mod_add_self2)
    then show ?thesis using assms by simp
  qed (use assms in \<open>simp add: j_def\<close>)
  then have "(succ_id ^^ j) s = i" using succ_id_pow [OF assms(1,2), of j] assms by simp
  moreover have "j < 65535" using assms by (auto simp: j_def)
  ultimately show ?thesis by blast
qed

lemma allocate_loop_run:
  "allocate_loop n c =
     (if \<exists>j < n. (succ_id ^^ j) (mq_next_packet_id c) \<notin> fst ` set (mq_in_flight c)
      then let j = (LEAST j. (succ_id ^^ j) (mq_next_packet_id c) \<notin> fst ` set (mq_in_flight c));
               i = (succ_id ^^ j) (mq_next_packet_id c)
           in (Inr i, c\<lparr>mq_next_packet_id := succ_id i\<rparr>)
      else (Inl (OverflowError ''MQTT in-flight table is full''), c\<lparr>mq_next_packet_id := (succ_id ^^ n) (mq_next_packet_id c)\<rparr>))"
proof (induction n arbitrary: c)
  case (Suc n)
  let ?s = "mq_next_packet_id c" and ?used = "fst ` set (mq_in_flight c)"
  let ?P = "\<lambda>j. (succ_id ^^ j) ?s \<notin> ?used"
  define c1 where "c1 = c\<lparr>mq_next_packet_id := succ_id ?s\<rparr>"
  have run: "allocate_loop (Suc n) c = (if ?s \<notin> ?used then (Inr ?s, c1) else allocate_loop n c1)"
    by (simp add: reading_def prog_simps Let_def c1_def succ_id_def)
  show ?case
  proof (cases "?P 0")
    case True
    then have "(LEAST j. ?P j) = 0" by (intro Least_equality) auto
    moreover have "\<exists>j < Suc n. ?P j" using True by blast
    ultimately show ?thesis using True run by (simp add: c1_def Let_def del: allocate_loop.simps)
  next
    case False
    have sh: "(succ_id ^^ j) (mq_next_packet_id c1) = (succ_id ^^ Suc j) ?s" for j by (simp add: c1_def funpow_swap1)
    have ex: "(\<exists>j < Suc n. ?P j) = (\<exists>j < n. ?P (Suc j))"
      using False by (metis Suc_less_eq funpow_0 less_Suc_eq_0_disj)
    have least: "(LEAST j. ?P j) = Suc (LEAST j. ?P (Suc j))" if "\<exists>j. ?P (Suc j)"
    proof -
      from that obtain j where "?P (Suc j)" ..
      then show ?thesis using False by (rule Least_Suc [of ?P])
    qed
    have used: "fst ` set (mq_in_flight c1) = ?used" by (simp add: c1_def)
    have "allocate_loop (Suc n) c = allocate_loop n c1" using run False by (simp del: allocate_loop.simps)
    also have "\<dots> = (if \<exists>j < n. ?P (Suc j) then let j = (LEAST j. ?P (Suc j)); i = (succ_id ^^ Suc j) ?s
           in (Inr i, c1\<lparr>mq_next_packet_id := succ_id i\<rparr>)
      else (Inl (OverflowError ''MQTT in-flight table is full''), c1\<lparr>mq_next_packet_id := (succ_id ^^ Suc n) ?s\<rparr>))"
      unfolding Suc.IH [of c1] sh used by (rule refl)
    finally have run1: "allocate_loop (Suc n) c = \<dots>" .
    have c1u: "c1\<lparr>mq_next_packet_id := x\<rparr> = c\<lparr>mq_next_packet_id := x\<rparr>" for x by (simp add: c1_def)
    show ?thesis
    proof (cases "\<exists>j < n. ?P (Suc j)")
      case True
      then have l: "(LEAST j. ?P j) = Suc (LEAST j. ?P (Suc j))" using least by blast
      from True show ?thesis unfolding run1 ex l by (simp only: if_True Let_def c1u)
    next
      case False
      then show ?thesis unfolding run1 ex by (simp only: if_False c1u)
    qed
  qed
qed simp

text \<open>
  C23. \<open>_allocate_packet_id\<close> always ends and never hands out an id in use: it returns the first id
  free in the cycle 1..65535 starting at the counter and moves the counter past it, and raises
  \<open>OverflowError\<close> exactly when all 65535 ids are in flight.
\<close>

theorem allocate_packet_id_spec:
  assumes "mq_inv cf qt c"
  shows "case allocate_packet_id c of
      (Inr i, c') \<Rightarrow> 1 \<le> i \<and> i \<le> 65535 \<and> i \<notin> fst ` set (mq_in_flight c)
        \<and> (\<exists>j. i = (mq_next_packet_id c - 1 + j) mod 65535 + 1
            \<and> (\<forall>l < j. (mq_next_packet_id c - 1 + l) mod 65535 + 1 \<in> fst ` set (mq_in_flight c)))
        \<and> c' = c\<lparr>mq_next_packet_id := (if i = 65535 then 1 else i + 1)\<rparr>
    | (Inl e, c') \<Rightarrow> e = OverflowError ''MQTT in-flight table is full'' \<and> {1..65535} \<subseteq> fst ` set (mq_in_flight c)"
proof -
  let ?s = "mq_next_packet_id c" and ?used = "fst ` set (mq_in_flight c)"
  have s: "1 \<le> ?s" "?s \<le> 65535" using assms by (auto simp: mq_inv_def)
  note pow = succ_id_pow [OF s]
  show ?thesis
  proof (cases "\<exists>j < 65535. (succ_id ^^ j) ?s \<notin> ?used")
    case True
    define j where "j = (LEAST j. (succ_id ^^ j) ?s \<notin> ?used)"
    define i where "i = (succ_id ^^ j) ?s"
    have i: "i \<notin> ?used" "\<forall>l < j. (succ_id ^^ l) ?s \<in> ?used"
      using True LeastI_ex [of "\<lambda>j. (succ_id ^^ j) ?s \<notin> ?used"] not_less_Least unfolding i_def j_def by blast+
    have "allocate_packet_id c = (Inr i, c\<lparr>mq_next_packet_id := succ_id i\<rparr>)"
      using True unfolding allocate_packet_id_def allocate_loop_run [of 65535 c] by (simp only: if_True Let_def j_def i_def)
    moreover have "succ_id i = (if i = 65535 then 1 else i + 1)" "1 \<le> i" "i \<le> 65535"
      using pow [of j] by (auto simp: succ_id_def i_def)
    ultimately show ?thesis using i pow by (auto simp: i_def intro!: exI [of _ j])
  next
    case False
    then have "{1..65535} \<subseteq> ?used" using succ_id_covers [OF s] by force
    moreover have "allocate_packet_id c = (Inl (OverflowError ''MQTT in-flight table is full''),
        c\<lparr>mq_next_packet_id := (succ_id ^^ 65535) ?s\<rparr>)"
      using False unfolding allocate_packet_id_def allocate_loop_run [of 65535 c] by (simp only: if_False)
    ultimately show ?thesis by simp
  qed
qed

theorem allocate_packet_id_spec_witness:
  "case allocate_packet_id sample_client of
      (Inr i, c') \<Rightarrow> 1 \<le> i \<and> i \<le> 65535 \<and> i \<notin> fst ` set (mq_in_flight sample_client)
    | (Inl e, c') \<Rightarrow> {1..65535} \<subseteq> fst ` set (mq_in_flight sample_client)"
  using allocate_packet_id_spec [OF mq_inv_init [OF sample_init]] by (auto split: prod.splits sum.splits)



section \<open>Publishing is all or nothing\<close>

definition same_but_id :: "'w MQTTClient \<Rightarrow> 'w MQTTClient \<Rightarrow> bool" where
  "same_but_id c c1 \<longleftrightarrow> c1 = c\<lparr>mq_next_packet_id := mq_next_packet_id c1, mq_world := mq_world c1\<rparr>"

lemma allocate_runs:
  obtains r n where "allocate_packet_id c = (r, c\<lparr>mq_next_packet_id := n\<rparr>)"
    "\<And>i. r = Inr i \<Longrightarrow> i \<notin> fst ` set (mq_in_flight c)"
proof -
  let ?P = "\<lambda>j. (succ_id ^^ j) (mq_next_packet_id c) \<notin> fst ` set (mq_in_flight c)"
  show thesis
  proof (cases "\<exists>j < 65535. ?P j")
    case True
    define i where "i = (succ_id ^^ (LEAST j. ?P j)) (mq_next_packet_id c)"
    have free: "i \<notin> fst ` set (mq_in_flight c)" using True unfolding i_def by (metis (mono_tags, lifting) LeastI)
    have "allocate_packet_id c = (Inr i, c\<lparr>mq_next_packet_id := succ_id i\<rparr>)"
      using True unfolding allocate_packet_id_def allocate_loop_run [of 65535 c] by (simp only: if_True Let_def i_def)
    then show ?thesis using free by (intro that) auto
  next
    case False
    then have "allocate_packet_id c = (Inl (OverflowError ''MQTT in-flight table is full''),
        c\<lparr>mq_next_packet_id := (succ_id ^^ 65535) (mq_next_packet_id c)\<rparr>)"
      unfolding allocate_packet_id_def allocate_loop_run [of 65535 c] by (simp only: if_False)
    then show ?thesis by (intro that) auto
  qed
qed

lemma deadline_runs:
  obtains w where "deadline env d now c = (case src_add (cv_ticks env) (case now of Some n \<Rightarrow> n | None \<Rightarrow> fst (cv_ticks_ms env (mq_world c))) d of
      Inl e \<Rightarrow> (Inl e, c\<lparr>mq_world := w\<rparr>) | Inr u \<Rightarrow> (Inr u, c\<lparr>mq_world := w\<rparr>))"
proof (cases now)
  case None
  then show ?thesis by (intro that [of "snd (cv_ticks_ms env (mq_world c))"])
    (auto simp: deadline_def world_def prog_simps split: prod.split sum.split)
next
  case (Some n)
  then show ?thesis by (intro that [of "mq_world c"]) (auto simp: deadline_def prog_simps split: sum.split)
qed

lemma enqueue_user_runs:
  "enqueue_user_tx items c = (if length (mq_tx_queue c) + length items > mc_max_tx_queue_size (mq_cfg c)
     then (Inl (MQTTBackpressureError ''tx queue full''), c)
     else (Inr (), c\<lparr>mq_tx_queue := mq_tx_queue c @ items\<rparr>))"
proof -
  have "foldl (deque_append cap) q items = q @ items" if "length q + length items \<le> cap" for q :: "tx_item list" and cap
    using that by (induction items arbitrary: q) (simp_all add: deque_append_room)
  then show ?thesis by (simp add: enqueue_user_tx_def reading_def tx_queue_hard_cap_def)
qed

text \<open>What a successful publish adds: an entry of the pre-connect queue, or a packet and its record.\<close>

definition publish_effect :: "pystr \<Rightarrow> byte list \<Rightarrow> int \<Rightarrow> bool \<Rightarrow> nat option \<Rightarrow> 'w MQTTClient \<Rightarrow> 'w MQTTClient \<Rightarrow> bool" where
  "publish_effect topic payload qos retain on_publish c c1 \<longleftrightarrow>
     (if mq_state c \<noteq> CONNECTED then
        c1 = c\<lparr>mq_pre_connect_queue := mq_pre_connect_queue c @ [(topic, payload, qos, retain, on_publish)]\<rparr>
        \<and> length (mq_pre_connect_queue c1) \<le> mc_pre_connect_queue_size (mq_cfg c)
      else if qos = 0 then
        \<exists>packet markers. encode_publish (Text topic) (Raw payload) 0 retain None = Inr packet
          \<and> markers = (if on_publish \<noteq> None \<or> mq_on_publish_set c then [TxMarker on_publish topic payload] else [])
          \<and> c1 = c\<lparr>mq_tx_queue := mq_tx_queue c @ TxPacket packet # markers\<rparr>
          \<and> length (mq_tx_queue c1) \<le> mc_max_tx_queue_size (mq_cfg c)
      else
        \<exists>packet i d. i \<notin> fst ` set (mq_in_flight c)
          \<and> encode_publish (Text topic) (Raw payload) 1 retain (Some (int i)) = Inr packet
          \<and> same_but_id (c\<lparr>mq_tx_queue := mq_tx_queue c @ [TxPacket packet],
              mq_in_flight := mq_in_flight c @ [(i, \<lparr>if_packet_id = i, if_packet_bytes = packet, if_retry_count = 0,
                if_deadline_ticks = d, if_callback = (on_publish, topic, payload), if_dup_packet_bytes = None\<rparr>)]\<rparr>) c1
          \<and> length (mq_tx_queue c1) \<le> mc_max_tx_queue_size (mq_cfg c))"

lemma do_publish_1:
  assumes "qos \<noteq> 0" "mq_state c = CONNECTED"
  shows "case do_publish env topic payload qos retain on_publish now c of
      (Inl e, c1) \<Rightarrow> same_but_id c c1
    | (Inr _, c1) \<Rightarrow> publish_effect topic payload qos retain on_publish c c1"
proof -
  obtain r n where a: "allocate_packet_id c = (r, c\<lparr>mq_next_packet_id := n\<rparr>)"
    "\<And>i. r = Inr i \<Longrightarrow> i \<notin> fst ` set (mq_in_flight c)" using allocate_runs [of c] by metis
  let ?c0 = "c\<lparr>mq_next_packet_id := n\<rparr>"
  obtain w where d: "deadline env (mc_ack_timeout_ms (mq_cfg c)) now ?c0 =
      (case src_add (cv_ticks env) (case now of Some n \<Rightarrow> n | None \<Rightarrow> fst (cv_ticks_ms env (mq_world ?c0))) (mc_ack_timeout_ms (mq_cfg c)) of
      Inl e \<Rightarrow> (Inl e, ?c0\<lparr>mq_world := w\<rparr>) | Inr u \<Rightarrow> (Inr u, ?c0\<lparr>mq_world := w\<rparr>))" using deadline_runs by blast
  show ?thesis
  proof (cases r)
    case (Inl e)
    then show ?thesis using a(1) assms by (simp add: do_publish_def run_mbind same_but_id_def)
  next
    case (Inr i)
    note fresh = a(2) [OF Inr]
    show ?thesis
    proof (cases "encode_publish (Text topic) (Raw payload) 1 retain (Some (int i))")
      case (Inl e)
      then show ?thesis using a(1) Inr assms by (simp add: do_publish_def run_mbind same_but_id_def)
    next
      case enc: (Inr packet)
      note run = do_publish_def run_mbind reading_def run_andThen run_catch enqueue_user_runs dict_put_fresh dict_pop_fresh enc
      show ?thesis
      proof (cases "src_add (cv_ticks env) (case now of Some n \<Rightarrow> n | None \<Rightarrow> fst (cv_ticks_ms env (mq_world ?c0))) (mc_ack_timeout_ms (mq_cfg c))")
        case (Inl e)
        then show ?thesis using a(1) Inr d assms fresh \<open>r = Inr i\<close> by (simp add: run same_but_id_def)
      next
        case (Inr b)
        have "publish_effect topic payload qos retain on_publish c (?c0\<lparr>mq_world := w,
            mq_in_flight := mq_in_flight c @ [(i, \<lparr>if_packet_id = i, if_packet_bytes = packet, if_retry_count = 0,
              if_deadline_ticks = b, if_callback = (on_publish, topic, payload), if_dup_packet_bytes = None\<rparr>)],
            mq_tx_queue := mq_tx_queue c @ [TxPacket packet]\<rparr>)" if "Suc (length (mq_tx_queue c)) \<le> mc_max_tx_queue_size (mq_cfg c)"
          unfolding publish_effect_def using assms fresh enc that
          by (auto simp: same_but_id_def intro!: exI [of _ packet] exI [of _ i] exI [of _ b])
        then show ?thesis using a(1) Inr d assms fresh \<open>r = Inr i\<close> by (auto simp: run same_but_id_def)
      qed
    qed
  qed
qed

lemma do_publish_0:
  assumes "qos = 0" "mq_state c = CONNECTED"
  shows "case do_publish env topic payload qos retain on_publish now c of
      (Inl e, c1) \<Rightarrow> same_but_id c c1
    | (Inr _, c1) \<Rightarrow> publish_effect topic payload qos retain on_publish c c1"
  using assms by (cases "encode_publish (Text topic) (Raw payload) 0 retain None")
    (auto simp: do_publish_def run_mbind reading_def enqueue_user_runs same_but_id_def publish_effect_def)

lemma publish_disconnected_effect:
  assumes "mq_state c \<noteq> CONNECTED"
  shows "case publish_disconnected topic payload qos retain on_publish c of
      (Inl e, c1) \<Rightarrow> same_but_id c c1
    | (Inr _, c1) \<Rightarrow> publish_effect topic payload qos retain on_publish c c1"
  using assms by (auto simp: publish_disconnected_def reading_def same_but_id_def publish_effect_def deque_append_room)

text \<open>
  C24. \<open>publish\<close> is all or nothing, in every state of the client. If it raises (unsupported QoS, text
  that does not encode, a full transmit or pre-connect queue, no free packet id, a timeout the clock
  cannot add) the client is as before but for the packet id counter and the clock it has read: no
  packet and no in-flight record is left behind. If it returns, exactly one message was accepted:
  buffered while not connected, or encoded and put at the end of the transmit queue within the
  user's limit, for QoS 1 with a fresh packet id and an in-flight record that holds the same bytes.
\<close>

theorem publish_all_or_nothing:
  "case publish env topic payload qos retain on_publish c of
     (Inl e, c1) \<Rightarrow> same_but_id c c1
   | (Inr _, c1) \<Rightarrow> \<exists>bytes. as_bytes payload = Inr bytes \<and> qos \<le> 1 \<and> publish_effect topic bytes qos retain on_publish c c1"
proof (cases "qos > 1")
  case True
  then show ?thesis by (simp add: publish_def same_but_id_def)
next
  case False
  show ?thesis
  proof (cases "as_bytes payload")
    case (Inl e)
    then show ?thesis using False by (simp add: publish_def run_mbind same_but_id_def)
  next
    case (Inr bytes)
    have "case publish env topic payload qos retain on_publish c of
        (Inl e, c1) \<Rightarrow> same_but_id c c1 | (Inr _, c1) \<Rightarrow> publish_effect topic bytes qos retain on_publish c c1"
    proof (cases "mq_state c = CONNECTED")
      case True
      then have eq: "publish env topic payload qos retain on_publish c = do_publish env topic bytes qos retain on_publish None c"
        using False Inr by (simp add: publish_def run_mbind reading_def)
      show ?thesis unfolding eq using do_publish_0 [OF _ True] do_publish_1 [OF _ True] by (cases "qos = 0")
    next
      case dis: False
      then have eq: "publish env topic payload qos retain on_publish c = publish_disconnected topic bytes qos retain on_publish c"
        using False Inr by (simp add: publish_def run_mbind reading_def)
      show ?thesis unfolding eq by (rule publish_disconnected_effect [OF dis])
    qed
    then show ?thesis using False Inr by (auto split: prod.splits sum.splits)
  qed
qed



section \<open>Deadlines\<close>

lemma earlier_None [simp]: "earlier tk None d = Some d"
  by (simp add: earlier_def)

text \<open>All the times the client waits for, while it has a connection or is making one.\<close>

definition waits_for :: "'w MQTTClient \<Rightarrow> int list" where
  "waits_for c = (if mq_state c = CONNECTED \<and> keepalive_enabled c then [mq_next_ping_due_ticks c] else [])
     @ map pr_deadline_ticks (mq_pending_responses c) @ map (\<lambda>(_, e). if_deadline_ticks e) (mq_in_flight c)
     @ (case mq_send_deadline_ticks c of None \<Rightarrow> [] | Some d \<Rightarrow> [d])"

lemma next_deadline_fold:
  assumes "mq_state c = CONNECTED \<or> mq_state c = CONNECTING"
  shows "next_deadline env now c = foldl (earlier (cv_ticks env)) None (waits_for c)"
  using assms by (cases "mq_send_deadline_ticks c") (auto simp: next_deadline_def waits_for_def Let_def)

context tick_source
begin

definition near :: "int \<Rightarrow> int \<Rightarrow> bool" where
  "near now u \<longleftrightarrow> - span < 2 * src_diff tk u now \<and> 2 * src_diff tk u now < span"

lemma near_diff:
  assumes "near now u" "near now v"
  shows "src_diff tk u v = src_diff tk u now - src_diff tk v now"
proof -
  have "src_diff tk now v = - src_diff tk v now" using assms(2) span_pos by (intro diff_flip) (simp add: near_def)
  then show ?thesis using diff_trans [of u now v] assms by (simp add: near_def)
qed

lemma earlier_near:
  assumes "near now d" "\<And>u. n = Some u \<Longrightarrow> near now u"
  obtains t where "earlier tk n d = Some t" "near now t" "t = d \<or> n = Some t"
    "src_diff tk t now \<le> src_diff tk d now" "\<And>u. n = Some u \<Longrightarrow> src_diff tk t now \<le> src_diff tk u now"
proof (cases n)
  case None
  then show ?thesis using assms that [of d] by (simp add: earlier_def)
next
  case (Some u)
  have "src_diff tk d u = src_diff tk d now - src_diff tk u now" using near_diff assms Some by simp
  then show ?thesis using Some assms that [of d] that [of u] by (cases "src_diff tk d u < 0") (auto simp: earlier_def)
qed

lemma earliest:
  assumes "\<forall>d \<in> set ds. near now d" "\<And>u. n = Some u \<Longrightarrow> near now u"
  shows "case foldl (earlier tk) n ds of
      None \<Rightarrow> n = None \<and> ds = []
    | Some t \<Rightarrow> (t \<in> set ds \<or> n = Some t) \<and> (\<forall>d \<in> set ds. src_diff tk t now \<le> src_diff tk d now)
        \<and> (\<forall>u. n = Some u \<longrightarrow> src_diff tk t now \<le> src_diff tk u now)"
  using assms
proof (induction ds arbitrary: n)
  case (Cons d ds)
  obtain t where t: "earlier tk n d = Some t" "near now t" "t = d \<or> n = Some t"
    "src_diff tk t now \<le> src_diff tk d now" "\<And>u. n = Some u \<Longrightarrow> src_diff tk t now \<le> src_diff tk u now"
    using earlier_near [of now d n] Cons.prems by (metis list.set_intros(1))
  have "case foldl (earlier tk) (Some t) ds of
      None \<Rightarrow> Some t = None \<and> ds = []
    | Some t1 \<Rightarrow> (t1 \<in> set ds \<or> Some t = Some t1) \<and> (\<forall>d \<in> set ds. src_diff tk t1 now \<le> src_diff tk d now)
        \<and> (\<forall>u. Some t = Some u \<longrightarrow> src_diff tk t1 now \<le> src_diff tk u now)"
    using Cons.prems t(2) by (intro Cons.IH) auto
  then show ?case using t(1,3,4,5) by (fastforce split: option.splits)
qed (auto split: option.split)

end

lemma next_deadline_min:
  assumes "tick_source (cv_ticks env) span" "mq_state c = CONNECTED \<or> mq_state c = CONNECTING"
    "\<forall>d \<in> set (waits_for c). - span < 2 * src_diff (cv_ticks env) d now \<and> 2 * src_diff (cv_ticks env) d now < span"
  shows "case next_deadline env now c of
      None \<Rightarrow> waits_for c = []
    | Some t \<Rightarrow> t \<in> set (waits_for c)
        \<and> (\<forall>d \<in> set (waits_for c). src_diff (cv_ticks env) t now \<le> src_diff (cv_ticks env) d now)"
  using tick_source.earliest [OF assms(1), of "waits_for c" now None] assms(3) next_deadline_fold [OF assms(2)]
  by (simp add: tick_source.near_def [OF assms(1)] split: option.splits)

text \<open>Before its time, a timer does nothing.\<close>

lemma retry_idle:
  assumes "\<forall>(k, e) \<in> set (mq_in_flight c). src_diff (cv_ticks env) (if_deadline_ticks e) now > 0" "distinct (map fst (mq_in_flight c))"
    "set ks \<subseteq> fst ` set (mq_in_flight c)"
  shows "retry_in_flight env now ks c = (Inr False, c)"
  using assms(3)
proof (induction ks)
  case (Cons k ks)
  then obtain e where "(k, e) \<in> set (mq_in_flight c)" by auto
  then have "map_of (mq_in_flight c) k = Some e" "src_diff (cv_ticks env) (if_deadline_ticks e) now > 0"
    using assms(1,2) by auto
  then show ?case using Cons by (simp add: reading_def)
qed simp

lemma take_first_None: "(\<forall>x \<in> set xs. \<not> P x) \<Longrightarrow> take_first P xs = None"
  by (induction xs) auto

lemma timers_idle:
  assumes "distinct (map fst (mq_in_flight c))" "\<forall>d \<in> set (waits_for c). src_diff (cv_ticks env) d now > 0"
  shows "check_deadlines env now c = (Inr (), c) \<and> check_keepalive env now c = (Inr (), c)"
proof -
  have d: "\<forall>p \<in> set (mq_pending_responses c). src_diff (cv_ticks env) (pr_deadline_ticks p) now > 0"
    "\<forall>(k, e) \<in> set (mq_in_flight c). src_diff (cv_ticks env) (if_deadline_ticks e) now > 0"
    "\<forall>t. mq_send_deadline_ticks c = Some t \<longrightarrow> src_diff (cv_ticks env) t now > 0"
    "mq_state c = CONNECTED \<Longrightarrow> keepalive_enabled c \<Longrightarrow> src_diff (cv_ticks env) (mq_next_ping_due_ticks c) now > 0"
    using assms(2) by (auto simp: waits_for_def)
  have "retry_in_flight env now (map fst (mq_in_flight c)) c = (Inr False, c)"
    using retry_idle [OF d(2) assms(1)] by simp
  moreover have "expire_pending env now c = (Inr False, c)"
  proof -
    have "take_first (\<lambda>p. src_diff (cv_ticks env) (pr_deadline_ticks p) now \<le> 0) (mq_pending_responses c) = None"
      using d(1) by (intro take_first_None) (auto simp: not_le)
    then show ?thesis by (simp add: expire_pending_def reading_def)
  qed
  moreover have "expire_send env now c = (Inr (), c)"
    using d(3) by (auto simp: expire_send_def reading_def whenever_def split: option.split)
  ultimately show ?thesis using d(4)
    by (simp add: check_deadlines_def check_keepalive_def reading_def run_mbind run_whenever)
qed

text \<open>
  The same in every state: while a transport is being opened the connector's own deadline and that
  of the attempt (or at once, when there is no socket to poll yet), after a failure the time of the
  next self-heal attempt (or at once, when none is set), and nothing while disconnected.
\<close>

definition client_waits :: "'w mqtt_env \<Rightarrow> int \<Rightarrow> 'w MQTTClient \<Rightarrow> int list" where
  "client_waits env now c = (case mq_state c of
     DISCONNECTED \<Rightarrow> []
   | FAILED \<Rightarrow> (if self_heal_active c then [case mq_self_heal_retry_at_ticks c of None \<Rightarrow> now | Some t \<Rightarrow> t] else [])
   | AWAITING_TRANSPORT \<Rightarrow>
       (case mq_connector c of
          None \<Rightarrow> []
        | Some k \<Rightarrow>
            if io_socket env c = None then [now]
            else (case cv_connector_next_deadline env k now (mq_world c) of None \<Rightarrow> [] | Some d \<Rightarrow> [d])
              @ (case mq_transport_deadline_ticks c of None \<Rightarrow> [] | Some d \<Rightarrow> [d]))
   | _ \<Rightarrow> waits_for c)"

lemma next_deadline_waits: "next_deadline env now c = foldl (earlier (cv_ticks env)) None (client_waits env now c)"
proof (cases "mq_state c = CONNECTED \<or> mq_state c = CONNECTING")
  case True
  then show ?thesis unfolding next_deadline_fold [OF True] by (auto simp: client_waits_def)
next
  case False
  then show ?thesis by (cases "mq_state c") (auto simp: client_waits_def next_deadline_def Let_def split: option.split)
qed

lemma next_deadline_least:
  assumes "tick_source (cv_ticks env) span"
    "\<forall>d \<in> set (client_waits env now c). - span < 2 * src_diff (cv_ticks env) d now \<and> 2 * src_diff (cv_ticks env) d now < span"
  shows "case next_deadline env now c of
      None \<Rightarrow> client_waits env now c = []
    | Some t \<Rightarrow> t \<in> set (client_waits env now c)
        \<and> (\<forall>d \<in> set (client_waits env now c). src_diff (cv_ticks env) t now \<le> src_diff (cv_ticks env) d now)"
  using tick_source.earliest [OF assms(1), of "client_waits env now c" now None] assms(2)
  by (simp add: next_deadline_waits tick_source.near_def [OF assms(1)] split: option.splits)

text \<open>What a tick finds to do for its timers alone, in each state: nothing.\<close>

definition timers_quiet :: "'w mqtt_env \<Rightarrow> int \<Rightarrow> 'w MQTTClient \<Rightarrow> bool" where
  "timers_quiet env now c \<longleftrightarrow> (case mq_state c of
     DISCONNECTED \<Rightarrow> handle env now c = (Inr (), c)
   | FAILED \<Rightarrow> handle env now c = (Inr (), c)
   | AWAITING_TRANSPORT \<Rightarrow> mq_connector c \<noteq> None \<longrightarrow> check_transport_deadline env now c = (Inr False, c)
   | _ \<Rightarrow> check_deadlines env now c = (Inr (), c) \<and> check_keepalive env now c = (Inr (), c))"

lemma waits_ahead_quiet:
  assumes "tick_source (cv_ticks env) span" "mq_inv cf qt c"
    "\<forall>d \<in> set (client_waits env now c). src_diff (cv_ticks env) d now > 0"
  shows "timers_quiet env now c"
proof (cases "mq_state c")
  case FAILED
  then show ?thesis using assms(3) tick_source.diff_self [OF assms(1)]
    by (auto simp: timers_quiet_def client_waits_def handle_def reading_def run_mbind run_whenever split: option.splits if_splits)
next
  case AWAITING_TRANSPORT
  have "src_diff (cv_ticks env) d now > 0" if "mq_connector c = Some k" "mq_transport_deadline_ticks c = Some d" for k d
  proof (cases "io_socket env c")
    case None
    then have "client_waits env now c = [now]" using AWAITING_TRANSPORT that by (simp add: client_waits_def)
    then show ?thesis using assms(3) by (simp add: tick_source.diff_self [OF assms(1)])
  next
    case (Some s)
    then have "d \<in> set (client_waits env now c)" using AWAITING_TRANSPORT that by (simp add: client_waits_def)
    then show ?thesis using assms(3) by blast
  qed
  then show ?thesis using AWAITING_TRANSPORT
    by (auto simp: timers_quiet_def check_transport_deadline_def reading_def split: option.split)
next
  case DISCONNECTED
  then show ?thesis by (simp add: timers_quiet_def handle_def reading_def run_mbind run_whenever)
qed (use timers_idle [of c env now] assms(2,3) in \<open>auto simp: timers_quiet_def client_waits_def mq_inv_def flights_ok_def\<close>)

text \<open>
  C25. The runner may sleep until \<open>next_deadline\<close>. In every state, over any tick source and as long as
  every time the client waits for is less than half the counter's window away, \<open>next_deadline\<close> is the
  earliest of them and \<^verbatim>\<open>None\<close> when there is none. Those times are: while connected or connecting, the
  ping, the acknowledgements, the retransmissions and the send timeout; while a transport is being
  opened, the connector's deadline and that of the attempt, or now while the connector has no socket;
  after a failure, the self-heal retry. A tick strictly before the announced time (or with none
  announced) finds nothing to do for the timers: \<open>_check_deadlines\<close> and \<open>_check_keepalive\<close> leave a
  connected or connecting client untouched, \<open>_check_transport_deadline\<close> does not end the attempt of a
  client whose connector is at work, and \<open>handle\<close> does nothing at all for one that failed or is disconnected.
\<close>

theorem next_deadline_earliest:
  assumes "tick_source (cv_ticks env) span" "mq_inv cf qt c"
    "\<forall>d \<in> set (client_waits env now c). - span < 2 * src_diff (cv_ticks env) d now \<and> 2 * src_diff (cv_ticks env) d now < span"
  shows "(case next_deadline env now c of
      None \<Rightarrow> client_waits env now c = []
    | Some t \<Rightarrow> t \<in> set (client_waits env now c)
        \<and> (\<forall>d \<in> set (client_waits env now c). src_diff (cv_ticks env) t now \<le> src_diff (cv_ticks env) d now))
    \<and> ((case next_deadline env now c of None \<Rightarrow> True | Some t \<Rightarrow> src_diff (cv_ticks env) t now > 0)
       \<longrightarrow> timers_quiet env now c)"
proof -
  note e = next_deadline_least [OF assms(1,3)]
  moreover have "timers_quiet env now c"
    if "case next_deadline env now c of None \<Rightarrow> True | Some t \<Rightarrow> src_diff (cv_ticks env) t now > 0"
    using that e by (intro waits_ahead_quiet [OF assms(1,2)]) (auto split: option.splits)
  ultimately show ?thesis by blast
qed

definition pinging_client :: "(byte list \<times> byte list) MQTTClient" where
  "pinging_client = sample_client\<lparr>mq_state := CONNECTED, mq_next_ping_due_ticks := 30000,
     mq_pending_responses := [\<lparr>pr_awaiting = AWAIT_SUBACK, pr_deadline_ticks = 5000, pr_packet_id = Some 1, pr_callback = None, pr_topic = Some [65]\<rparr>]\<rparr>"

lemma pinging_inv: "mq_inv sample_cfg False pinging_client"
  using mq_inv_init [OF sample_init] by (auto simp: pinging_client_def mq_inv_def tx_queue_hard_cap_def)

lemma pinging_waits: "waits_for pinging_client = [30000, 5000]"
  by (simp add: pinging_client_def waits_for_def keepalive_enabled_def sample_client_def MQTTClient_init_def sample_cfg_def
    force_non_blocking_def swallow_def world_do_def world_def prog_simps eager_env_def idle_env_def)

text \<open>An attempt that must end at 5000, whose connector has a socket and asks to run at 7000.\<close>

definition opening_env :: "(byte list \<times> byte list) mqtt_env" where
  "opening_env = eager_env\<lparr>cv_connector_io_socket := (\<lambda>k w. Some 1), cv_connector_next_deadline := (\<lambda>k t w. Some 7000)\<rparr>"

definition opening_client :: "(byte list \<times> byte list) MQTTClient" where
  "opening_client = sample_client\<lparr>mq_state := AWAITING_TRANSPORT, mq_connector := Some 0, mq_transport_deadline_ticks := Some 5000\<rparr>"

lemma opening_inv: "mq_inv sample_cfg False opening_client"
  using mq_inv_init [OF sample_init] by (simp add: opening_client_def)

lemma opening_waits: "client_waits opening_env 4000 opening_client = [7000, 5000]"
  by (simp add: opening_client_def opening_env_def client_waits_def io_socket_def)

theorem next_deadline_earliest_witness:
  "next_deadline eager_env 4000 pinging_client = Some 5000 \<and> check_deadlines eager_env 4000 pinging_client = (Inr (), pinging_client)
   \<and> next_deadline opening_env 4000 opening_client = Some 5000
   \<and> check_transport_deadline opening_env 4000 opening_client = (Inr False, opening_client)"
proof -
  have st: "mq_state pinging_client = CONNECTED" "mq_state opening_client = AWAITING_TRANSPORT" "mq_connector opening_client = Some 0"
    by (simp_all add: pinging_client_def opening_client_def)
  have tk: "cv_ticks eager_env = real_ticks" "cv_ticks opening_env = real_ticks"
    by (simp_all add: opening_env_def eager_env_def idle_env_def)
  have w: "client_waits eager_env 4000 pinging_client = [30000, 5000]"
    using pinging_waits by (simp add: client_waits_def st)
  have d: "src_diff real_ticks 30000 4000 = 26000" "src_diff real_ticks 7000 4000 = 3000" "src_diff real_ticks 5000 4000 = 1000"
    by (simp_all add: real_ticks_def ticks_diff_def tick_consts)
  have ts: "tick_source (cv_ticks eager_env) TICKS_HALFPERIOD" "tick_source (cv_ticks opening_env) TICKS_HALFPERIOD"
    unfolding tk by (rule wrapped.tick_source_axioms)+
  have a: "next_deadline eager_env 4000 pinging_client = Some 5000 \<and> timers_quiet eager_env 4000 pinging_client"
    using next_deadline_earliest [OF ts(1) pinging_inv, of 4000] unfolding w tk by (auto simp: d tick_consts split: option.splits)
  have b: "next_deadline opening_env 4000 opening_client = Some 5000 \<and> timers_quiet opening_env 4000 opening_client"
    using next_deadline_earliest [OF ts(2) opening_inv, of 4000] unfolding opening_waits tk
    by (auto simp: d tick_consts split: option.splits)
  show ?thesis using a b by (simp add: timers_quiet_def st)
qed



section \<open>Where the client falls short\<close>

text \<open>
  The keepalive timer can pin the runner. Once a ping is due while the answer to the previous
  one is still pending (a ping interval below the ack timeout, and a slow broker),
  \<open>_check_keepalive\<close> returns without moving the due time, and \<open>next_deadline\<close> reports a time
  that has passed: until the answer or its timeout comes, no \<open>wait\<close> idles.
\<close>

lemma keepalive_pins_deadline:
  assumes "tick_source (cv_ticks env) span" "mq_state c = CONNECTED" "keepalive_enabled c"
    "p \<in> set (mq_pending_responses c)" "pr_awaiting p = AWAIT_PINGRESP"
    "src_diff (cv_ticks env) (mq_next_ping_due_ticks c) now \<le> 0"
    "\<forall>d \<in> set (waits_for c). - span < 2 * src_diff (cv_ticks env) d now \<and> 2 * src_diff (cv_ticks env) d now < span"
  shows "check_keepalive env now c = (Inr (), c)
    \<and> (\<exists>t. next_deadline env now c = Some t \<and> src_diff (cv_ticks env) t now \<le> 0)"
proof
  show "check_keepalive env now c = (Inr (), c)"
    using assms(2-6) by (auto simp: check_keepalive_def reading_def)
  have "mq_next_ping_due_ticks c \<in> set (waits_for c)" using assms(2,3) by (simp add: waits_for_def)
  then show "\<exists>t. next_deadline env now c = Some t \<and> src_diff (cv_ticks env) t now \<le> 0"
    using next_deadline_min [OF assms(1) disjI1 [OF assms(2)] assms(7)] assms(6) by (fastforce split: option.splits)
qed

definition silent_broker_client :: "(byte list \<times> byte list) MQTTClient" where
  "silent_broker_client = sample_client\<lparr>mq_cfg := sample_cfg\<lparr>mc_keep_alive_seconds := 2\<rparr>, mq_state := CONNECTED, mq_next_ping_due_ticks := 1000\<rparr>"

text \<open>A ping every second, five seconds for an answer: the ping of second 1 is out, and second 2 passes.\<close>

lemma silent_broker_tick:
  "snd (check_keepalive eager_env 1000 silent_broker_client) = silent_broker_client\<lparr>mq_tx_queue := [TxPacket PACKET_PINGREQ],
     mq_next_ping_due_ticks := 2000, mq_pending_responses := [\<lparr>pr_awaiting = AWAIT_PINGRESP, pr_deadline_ticks = 6000, pr_packet_id = None,
       pr_callback = None, pr_topic = None\<rparr>]\<rparr>"
  by (simp add: silent_broker_client_def check_keepalive_def reading_def keepalive_enabled_def ping_interval_ms_def sample_client_def
    MQTTClient_init_def sample_cfg_def force_non_blocking_def swallow_def world_do_def world_def prog_simps eager_env_def idle_env_def
    real_ticks_def ticks_diff_def ticks_add_def tick_consts enqueue_internal_tx_def await_ack_def deadline_def tx_queue_hard_cap_def deque_append_def)

lemma keepalive_pins_deadline_witness:
  "\<exists>t. next_deadline eager_env 2500 (snd (check_keepalive eager_env 1000 silent_broker_client)) = Some t
     \<and> ticks_diff t 2500 \<le> 0"
proof -
  have tk: "cv_ticks eager_env = real_ticks" by (simp add: eager_env_def idle_env_def)
  have ts: "tick_source (cv_ticks eager_env) TICKS_HALFPERIOD" unfolding tk by (rule wrapped.tick_source_axioms)
  let ?c = "snd (check_keepalive eager_env 1000 silent_broker_client)"
  have w: "waits_for ?c = [2000, 6000]" unfolding silent_broker_tick
    by (simp add: silent_broker_client_def waits_for_def keepalive_enabled_def sample_client_def MQTTClient_init_def sample_cfg_def
      force_non_blocking_def swallow_def world_do_def world_def prog_simps eager_env_def idle_env_def)
  have d: "src_diff real_ticks 2000 2500 = -500" "src_diff real_ticks 6000 2500 = 3500"
    by (simp_all add: real_ticks_def ticks_diff_def tick_consts)
  have st: "mq_state ?c = CONNECTED" "keepalive_enabled ?c" "mq_next_ping_due_ticks ?c = 2000"
    "mq_pending_responses ?c = [\<lparr>pr_awaiting = AWAIT_PINGRESP, pr_deadline_ticks = 6000, pr_packet_id = None,
       pr_callback = None, pr_topic = None\<rparr>]"
    unfolding silent_broker_tick by (simp_all add: silent_broker_client_def keepalive_enabled_def)
  show ?thesis
    using keepalive_pins_deadline [OF ts st(1,2), of "hd (mq_pending_responses ?c)" 2500] unfolding w tk st(3,4)
    by (simp add: d tick_consts) (simp add: real_ticks_def)
qed



lemma allocate_free:
  assumes "mq_next_packet_id c \<notin> fst ` set (mq_in_flight c)"
  shows "allocate_packet_id c = (Inr (mq_next_packet_id c), c\<lparr>mq_next_packet_id := succ_id (mq_next_packet_id c)\<rparr>)"
proof -
  have n: "(65535 :: nat) = Suc 65534" by simp
  show ?thesis using assms unfolding allocate_packet_id_def n allocate_loop.simps
    by (simp add: reading_def prog_simps Let_def succ_id_def)
qed

text \<open>A client whose CONNECT is out, with one declared subscription, one buffered message, and a queue of one.\<close>

definition crowded_client :: "(byte list \<times> byte list) MQTTClient" where
  "crowded_client = sample_client\<lparr>mq_cfg := sample_cfg\<lparr>mc_max_tx_queue_size := 1\<rparr>, mq_state := CONNECTING,
     mq_subscriptions := [([65], 0, Some None)], mq_pre_connect_queue := [([66], [B 67], 0, False, None)]\<rparr>"

text \<open>
  Replayed subscriptions can push out what was buffered. On a CONNACK the client queues one
  SUBSCRIBE per declared topic in the protocol headroom above the user's limit and then publishes the
  buffered messages under that limit; with as many subscriptions as the limit allows, the first
  message meets a full queue. The error leaves \<open>_handle_connack\<close> (and fails the connection the
  broker had just accepted), the message it was popped for is in no queue any more, and
  \<open>on_connect\<close> has not run.
\<close>

lemma connack_drops_buffered_publish:
  "case handle_connack eager_env (ParsedAck PACKET_CONNACK None (Some 0) None (Some False)) 0 crowded_client of
     (Inl e, c1) \<Rightarrow> e = MQTTBackpressureError ''tx queue full'' \<and> mq_pre_connect_queue c1 = [] \<and> mq_in_flight c1 = []
       \<and> mq_tx_queue c1 = [TxPacket (map B [0x82, 6, 0, 1, 0, 1, 65, 0])] \<and> mq_state c1 = CONNECTED
   | (Inr _, c1) \<Rightarrow> False"
proof -
  have sub: "encode_subscribe 1 [(Text [65], 0)] = Inr (map B [0x82, 6, 0, 1, 0, 1, 65, 0])"
    by (simp add: encode_publish_def encode_subscribe_def as_bytes_def append_string_def append_packed_h_def pack_uint_def
        finalize_packet_def encode_varlen_def varlen_loop_simps scalar_value_def utf8_char_def
        PACKET_PUBLISH_def PACKET_SUBSCRIBE_def numeral_2_eq_2)
  have pub: "encode_publish (Text [66]) (Raw [B 67]) 0 False None = Inr (map B [0x30, 4, 0, 1, 66, 67])"
    by (simp add: encode_publish_def encode_subscribe_def as_bytes_def append_string_def append_packed_h_def pack_uint_def
        finalize_packet_def encode_varlen_def varlen_loop_simps scalar_value_def utf8_char_def
        PACKET_PUBLISH_def PACKET_SUBSCRIBE_def numeral_2_eq_2)
  show ?thesis
    by (simp add: pub handle_connack_def discard_pending_def reading_def prog_simps crowded_client_def sample_client_def
    MQTTClient_init_def sample_cfg_def force_non_blocking_def swallow_def world_do_def world_def eager_env_def idle_env_def
    real_ticks_def ticks_add_def tick_consts deadline_def ping_interval_ms_def replay_subscriptions_def replay_subscription_def
    allocate_free sub enqueue_internal_tx_def tx_queue_hard_cap_def deque_append_def await_ack_def
    drain_pre_connect_queue_def do_publish_def enqueue_user_runs)
qed



section \<open>Retransmission\<close>

text \<open>One entry after a tick at which it was due, with its new deadline.\<close>

definition dup_of :: "InFlightPublish \<Rightarrow> byte list" where
  "dup_of e = (hd (if_packet_bytes e) OR 0x08) # tl (if_packet_bytes e)"

definition resent :: "int \<Rightarrow> InFlightPublish \<Rightarrow> InFlightPublish" where
  "resent d e = e\<lparr>if_dup_packet_bytes := Some (dup_of e), if_retry_count := if_retry_count e + 1, if_deadline_ticks := d\<rparr>"

lemma dict_put_mid: "k \<notin> fst ` set pre \<Longrightarrow> dict_put k v (pre @ (k, u) # post) = pre @ (k, v) # post"
  by (induction pre) auto

lemma retry_in_flight_run:
  fixes c :: "'w MQTTClient"
  assumes "mq_in_flight c = pre @ todo" "flights_ok (mc_publish_retry_max (mq_cfg c)) (pre @ todo)"
    "src_add (cv_ticks env) now (mc_ack_timeout_ms (mq_cfg c)) = Inr d"
    "due = (\<lambda>e. src_diff (cv_ticks env) (if_deadline_ticks e) now \<le> 0)"
    "\<forall>(k, e) \<in> set todo. due e \<longrightarrow> if_retry_count e < mc_publish_retry_max (mq_cfg c)"
    "length (mq_tx_queue c) + length (filter (due \<circ> snd) todo) \<le> tx_queue_hard_cap c"
  shows "retry_in_flight env now (map fst todo) c = (Inr False, c\<lparr>
      mq_in_flight := pre @ map (\<lambda>(k, e). (k, if due e then resent d e else e)) todo,
      mq_tx_queue := mq_tx_queue c @ map (TxPacket \<circ> dup_of \<circ> snd) (filter (due \<circ> snd) todo)\<rparr>)"
  using assms(1,2,3,5,6)
proof (induction todo arbitrary: pre c)
  case Nil
  then show ?case by simp
next
  case (Cons ke todo)
  obtain k e where ke: "ke = (k, e)" by fastforce
  have dist: "k \<notin> fst ` set pre" "distinct (map fst (pre @ (k, e) # todo))" using Cons.prems(2) ke by (auto simp: flights_ok_def)
  have look: "map_of (mq_in_flight c) k = Some e" using Cons.prems(1) ke dist(2) by (intro map_of_is_SomeI) auto
  show ?case
  proof (cases "due e")
    case False
    then have run: "retry_in_flight env now (map fst (ke # todo)) c = retry_in_flight env now (map fst todo) c"
      using look ke assms(4) by (simp add: reading_def)
    have "retry_in_flight env now (map fst todo) c = (Inr False, c\<lparr>
      mq_in_flight := (pre @ [ke]) @ map (\<lambda>(k, e). (k, if due e then resent d e else e)) todo,
      mq_tx_queue := mq_tx_queue c @ map (TxPacket \<circ> dup_of \<circ> snd) (filter (due \<circ> snd) todo)\<rparr>)"
      using Cons.prems False ke by (intro Cons.IH) auto
    then show ?thesis using False ke unfolding run by (simp add: comp_def)
  next
    case True
    have fl: "flight_ok (mc_publish_retry_max (mq_cfg c)) (k, e)" using Cons.prems(2) ke by (simp add: flights_ok_def)
    have dup: "(case if_dup_packet_bytes e of Some dup \<Rightarrow> Inr dup
        | None \<Rightarrow> (case if_packet_bytes e of [] \<Rightarrow> Inl IndexError | b # r \<Rightarrow> Inr ((b OR 0x08) # r))) = Inr (dup_of e)"
      using fl by (auto simp: flight_ok_def dup_of_def)
    have lim: "if_retry_count e < mc_publish_retry_max (mq_cfg c)" using Cons.prems(4) True ke by auto
    have room: "length (mq_tx_queue c) < tx_queue_hard_cap c" using Cons.prems(5) True ke by simp
    let ?c1 = "c\<lparr>mq_tx_queue := mq_tx_queue c @ [TxPacket (dup_of e)], mq_in_flight := (pre @ [(k, resent d e)]) @ todo\<rparr>"
    have run: "retry_in_flight env now (map fst (ke # todo)) c = retry_in_flight env now (map fst todo) ?c1"
    proof -
      have nd: "\<not> src_diff (cv_ticks env) (if_deadline_ticks e) now > 0" using True assms(4) by simp
      have put: "dict_put k v (mq_in_flight c) = pre @ (k, v) # todo" for v using Cons.prems(1) ke dist by (simp add: dict_put_mid)
      show ?thesis
        using look ke nd lim room Cons.prems(3) dist
        by (simp add: reading_def dup run_mbind run_andThen Let_def put dict_put_mid enqueue_internal_tx_def deque_append_room
            tx_queue_hard_cap_def deadline_def resent_def)
    qed
    have again: "flight_ok (mc_publish_retry_max (mq_cfg c)) (k, resent d e)"
    proof -
      obtain b r where "if_packet_bytes e = b # r" "unat b \<in> {0x32, 0x33}" using fl by (auto simp: flight_ok_def)
      then show ?thesis using fl lim unfolding flight_ok_def resent_def dup_of_def by simp
    qed
    have "retry_in_flight env now (map fst todo) ?c1 = (Inr False, ?c1\<lparr>
      mq_in_flight := (pre @ [(k, resent d e)]) @ map (\<lambda>(k, e). (k, if due e then resent d e else e)) todo,
      mq_tx_queue := mq_tx_queue ?c1 @ map (TxPacket \<circ> dup_of \<circ> snd) (filter (due \<circ> snd) todo)\<rparr>)"
    proof (rule Cons.IH)
      show "flights_ok (mc_publish_retry_max (mq_cfg ?c1)) ((pre @ [(k, resent d e)]) @ todo)"
        using Cons.prems(2) ke again by (auto simp: flights_ok_def)
    qed (use Cons.prems True ke in \<open>auto simp: tx_queue_hard_cap_def\<close>)
    then show ?thesis using True ke unfolding run by (simp add: comp_def)
  qed
qed

text \<open>
  C26. At-least-once delivery. When no due PUBLISH has used up its retries and the protocol headroom
  has room, the retransmission loop of \<open>_check_deadlines\<close> queues, in the order they were published,
  exactly the in-flight messages whose deadline has passed, each as its original bytes with the DUP
  bit set; each of them counts one more retry and waits one more ack timeout from now, and every other
  message keeps its record.
\<close>

theorem retransmits_due_publishes:
  assumes "mq_inv cf qt c" "src_add (cv_ticks env) now (mc_ack_timeout_ms (mq_cfg c)) = Inr d"
    "\<forall>(k, e) \<in> set (mq_in_flight c). src_diff (cv_ticks env) (if_deadline_ticks e) now \<le> 0
       \<longrightarrow> if_retry_count e < mc_publish_retry_max (mq_cfg c)"
    "length (mq_tx_queue c) + length (mq_in_flight c) \<le> tx_queue_hard_cap c"
  shows "retry_in_flight env now (map fst (mq_in_flight c)) c = (Inr False, c\<lparr>
      mq_in_flight := map (\<lambda>(k, e). (k, if src_diff (cv_ticks env) (if_deadline_ticks e) now \<le> 0
        then e\<lparr>if_dup_packet_bytes := Some ((hd (if_packet_bytes e) OR 8) # tl (if_packet_bytes e)),
               if_retry_count := if_retry_count e + 1, if_deadline_ticks := d\<rparr> else e)) (mq_in_flight c),
      mq_tx_queue := mq_tx_queue c @ map (\<lambda>(k, e). TxPacket ((hd (if_packet_bytes e) OR 8) # tl (if_packet_bytes e)))
        (filter (\<lambda>(k, e). src_diff (cv_ticks env) (if_deadline_ticks e) now \<le> 0) (mq_in_flight c))\<rparr>)"
proof -
  let ?due = "\<lambda>e. src_diff (cv_ticks env) (if_deadline_ticks e) now \<le> 0"
  have "length (mq_tx_queue c) + length (filter (?due \<circ> snd) (mq_in_flight c)) \<le> tx_queue_hard_cap c"
    using assms(4) length_filter_le [of "?due \<circ> snd" "mq_in_flight c"] by linarith
  moreover have "mq_in_flight c = [] @ mq_in_flight c" "flights_ok (mc_publish_retry_max (mq_cfg c)) ([] @ mq_in_flight c)"
    using assms(1) by (auto simp: mq_inv_def)
  ultimately have "retry_in_flight env now (map fst (mq_in_flight c)) c = (Inr False, c\<lparr>
      mq_in_flight := [] @ map (\<lambda>(k, e). (k, if ?due e then resent d e else e)) (mq_in_flight c),
      mq_tx_queue := mq_tx_queue c @ map (TxPacket \<circ> dup_of \<circ> snd) (filter (?due \<circ> snd) (mq_in_flight c))\<rparr>)"
    using assms(2,3) by (intro retry_in_flight_run) auto
  then show ?thesis by (simp add: resent_def dup_of_def comp_def case_prod_unfold)
qed

definition waiting_client :: "(byte list \<times> byte list) MQTTClient" where
  "waiting_client = sample_client\<lparr>mq_state := CONNECTED, mq_in_flight := [(1, \<lparr>if_packet_id = 1, if_packet_bytes = [0x32, 5, 0, 1, 65, 0, 1],
     if_retry_count = 0, if_deadline_ticks = 5000, if_callback = (None, [65], []), if_dup_packet_bytes = None\<rparr>)]\<rparr>"

lemma waiting_inv: "mq_inv sample_cfg False waiting_client"
  using mq_inv_init [OF sample_init]
  by (auto simp: waiting_client_def mq_inv_def tx_queue_hard_cap_def flights_ok_def flight_ok_def)

theorem retransmits_due_publishes_witness:
  "mq_tx_queue (snd (retry_in_flight eager_env 6000 (map fst (mq_in_flight waiting_client)) waiting_client))
     = [TxPacket [0x3A, 5, 0, 1, 65, 0, 1]]"
proof -
  have q: "mq_tx_queue waiting_client = []" "mq_cfg waiting_client = sample_cfg"
    by (simp_all add: waiting_client_def sample_client_def MQTTClient_init_def sample_cfg_def
      force_non_blocking_def swallow_def world_do_def world_def prog_simps eager_env_def idle_env_def)
  have tk: "cv_ticks eager_env = real_ticks" by (simp add: eager_env_def idle_env_def)
  have d: "src_diff real_ticks 5000 6000 = -1000" "src_add real_ticks 6000 5000 = Inr 11000"
    by (simp_all add: real_ticks_def ticks_diff_def ticks_add_def tick_consts)
  show ?thesis
    using retransmits_due_publishes [OF waiting_inv, of eager_env 6000 11000] unfolding tk q
    by (simp add: waiting_client_def d sample_cfg_def tx_queue_hard_cap_def q [unfolded waiting_client_def, simplified] del: retry_in_flight.simps)
qed



section \<open>Self-heal\<close>

lemma backoff_delay_min: "attempts \<le> 6 \<Longrightarrow> backoff_delay attempts = min 60000 (1000 * 2 ^ attempts)"
proof -
  assume "attempts \<le> 6"
  then consider "attempts = 0" | "attempts = 1" | "attempts = 2" | "attempts = 3" | "attempts = 4" | "attempts = 5" | "attempts = 6"
    by linarith
  then show ?thesis by cases (simp_all add: backoff_delay_def SELF_HEAL_BACKOFF_BASE_MS_def SELF_HEAL_BACKOFF_CAP_MS_def push_bit_eq_mult)
qed

text \<open>An environment in which a socket closes with at most an \<^verbatim>\<open>OSError\<close> and a transport can be built and takes its time.\<close>

definition transport_pending :: "'w mqtt_env \<Rightarrow> int \<Rightarrow> bool" where
  "transport_pending env now \<longleftrightarrow>
     (\<forall>s w. case fst (cv_close env s w) of None \<Rightarrow> True | Some e \<Rightarrow> is_OSError e)
     \<and> (\<forall>w. \<exists>k. fst (cv_factory env w) = Inr k)
     \<and> (\<forall>k w. fst (cv_connector_tick env k now w) = None
         \<and> cv_connector_state env k (snd (cv_connector_tick env k now w)) \<notin> {''ready'', ''failed''})"

lemma close_swallowed:
  assumes "\<forall>s w. case fst (cv_close env s w) of None \<Rightarrow> True | Some e \<Rightarrow> is_OSError e"
  obtains w where "swallow is_OSError (close_socket env) c = (Inr (), c\<lparr>mq_world := w\<rparr>)"
proof (cases "mq_socket c")
  case None
  then show ?thesis using that [of "mq_world c"] by (simp add: swallow_def close_socket_def reading_def run_catch)
next
  case (Some s)
  obtain r w where r: "cv_close env s (mq_world c) = (r, w)" by fastforce
  then have "case r of None \<Rightarrow> True | Some e \<Rightarrow> is_OSError e" using assms by (metis fst_conv)
  then show ?thesis using that [of w] Some r
    by (cases r) (simp_all add: swallow_def close_socket_def reading_def run_catch world_do_def world_def run_mbind)
qed

text \<open>The client at the start of a new attempt.\<close>

definition healed :: "nat \<Rightarrow> int \<Rightarrow> 'w \<Rightarrow> 'w MQTTClient \<Rightarrow> 'w MQTTClient" where
  "healed k t w c = (reset_transient_state (c\<lparr>mq_socket := None\<rparr>))\<lparr>
     mq_in_flight := (if mc_clean_session (mq_cfg c) then [] else mq_in_flight c),
     mq_next_packet_id := (if mc_clean_session (mq_cfg c) then 1 else mq_next_packet_id c),
     mq_connector := Some k, mq_transport_deadline_ticks := Some t, mq_state := AWAITING_TRANSPORT, mq_last_error := None, mq_world := w\<rparr>"

lemma attempt_self_heal_runs:
  assumes "transport_pending env now" "mc_transport_factory (mq_cfg c)"
    "src_add (cv_ticks env) now (mc_ack_timeout_ms (mq_cfg c)) = Inr t"
  obtains k w where "attempt_self_heal env now c = (Inr True, healed k t w c)"
proof -
  obtain w1 where w1: "swallow is_OSError (close_socket env) c = (Inr (), c\<lparr>mq_world := w1\<rparr>)"
    using close_swallowed assms(1) unfolding transport_pending_def by blast
  obtain k where "fst (cv_factory env w1) = Inr k" using assms(1) unfolding transport_pending_def by blast
  then obtain w2 where f: "cv_factory env w1 = (Inr k, w2)" by (metis prod.collapse)
  show ?thesis
    using assms(2,3) w1 f by (intro that [where k = k and w = w2])
      (simp add: healed_def attempt_self_heal_def run_andThen run_mbind build_connector_def reset_transient_state_def Let_def reading_def run_catch
        world_result_def world_def deadline_def)
qed

lemma advance_pending:
  assumes "transport_pending env now" "mq_connector c = Some k"
  obtains w where "advance_connector env now c = (Inr False, c\<lparr>mq_world := w\<rparr>)"
proof -
  obtain r w where r: "cv_connector_tick env k now (mq_world c) = (r, w)" by fastforce
  have "fst (cv_connector_tick env k now (mq_world c)) = None"
    "cv_connector_state env k (snd (cv_connector_tick env k now (mq_world c))) \<notin> {''ready'', ''failed''}"
    using assms(1) unfolding transport_pending_def by blast+
  then have "r = None" "cv_connector_state env k w \<noteq> ''ready''" "cv_connector_state env k w \<noteq> ''failed''"
    using r by simp_all
  then show ?thesis using r assms(2) by (intro that [of w])
    (simp add: advance_connector_def reading_def run_andThen world_do_def world_def run_mbind)
qed

lemma arm_backoff:
  assumes "tick_source (cv_ticks env) span" "60000 < span" "mq_self_heal_attempts c \<le> 6"
  obtains t where "arm_self_heal_backoff env now c
      = (Inr (), c\<lparr>mq_self_heal_attempts := min 6 (mq_self_heal_attempts c + 1), mq_self_heal_retry_at_ticks := Some t\<rparr>)"
    "src_diff (cv_ticks env) t now = min 60000 (1000 * 2 ^ mq_self_heal_attempts c)"
proof -
  let ?delay = "backoff_delay (mq_self_heal_attempts c)"
  have delay: "?delay = min 60000 (1000 * 2 ^ mq_self_heal_attempts c)" "0 < ?delay" "?delay \<le> 60000"
    unfolding backoff_delay_min [OF assms(3)] by simp_all
  obtain t where t: "src_add (cv_ticks env) now ?delay = Inr t"
    using tick_source.add_total [OF assms(1), of ?delay now] delay(2,3) assms(2) by auto
  show ?thesis using t assms(3) tick_source.diff_add [OF assms(1) t] delay(1)
    by (intro that [of t]; cases c)
      (auto simp: arm_self_heal_backoff_def reading_def run_andThen run_whenever run_mbind deadline_def min_def)
qed

lemma self_heal_tick:
  assumes "tick_source (cv_ticks env) span" "60000 < span" "0 < mc_ack_timeout_ms (mq_cfg c)" "mc_ack_timeout_ms (mq_cfg c) < span"
    "mq_self_heal_attempts c \<le> 6" "mq_state c = FAILED" "self_heal_active c" "transport_pending env now"
    and due: "\<forall>t. mq_self_heal_retry_at_ticks c = Some t \<longrightarrow> src_diff (cv_ticks env) t now \<le> 0"
  obtains k t1 t2 w where "handle env now c = (Inr (), healed k t2 w
      (c\<lparr>mq_self_heal_attempts := min 6 (mq_self_heal_attempts c + 1), mq_self_heal_retry_at_ticks := Some t1\<rparr>))"
    "src_diff (cv_ticks env) t1 now = min 60000 (1000 * 2 ^ mq_self_heal_attempts c)"
proof -
  obtain t1 where arm: "arm_self_heal_backoff env now c
      = (Inr (), c\<lparr>mq_self_heal_attempts := min 6 (mq_self_heal_attempts c + 1), mq_self_heal_retry_at_ticks := Some t1\<rparr>)"
    and t1: "src_diff (cv_ticks env) t1 now = min 60000 (1000 * 2 ^ mq_self_heal_attempts c)"
    using arm_backoff [OF assms(1,2,5)] .
  obtain t2 where t2: "src_add (cv_ticks env) now (mc_ack_timeout_ms (mq_cfg c)) = Inr t2"
    using tick_source.add_total [OF assms(1), of "mc_ack_timeout_ms (mq_cfg c)" now] assms(3,4) by auto
  let ?c1 = "c\<lparr>mq_self_heal_attempts := min 6 (mq_self_heal_attempts c + 1), mq_self_heal_retry_at_ticks := Some t1\<rparr>"
  obtain k w where heal: "attempt_self_heal env now ?c1 = (Inr True, healed k t2 w ?c1)"
    using attempt_self_heal_runs [of env now ?c1 t2] assms(7,8) t2 by (auto simp: self_heal_active_def)
  have "src_diff (cv_ticks env) t2 now > 0" using tick_source.diff_add [OF assms(1) t2] assms(3) by simp
  then have dl: "check_transport_deadline env now (healed k t2 w ?c1) = (Inr False, healed k t2 w ?c1)"
    by (simp add: check_transport_deadline_def reading_def healed_def)
  have "mq_connector (healed k t2 w ?c1) = Some k" by (simp add: healed_def)
  then obtain w2 where adv: "advance_connector env now (healed k t2 w ?c1) = (Inr False, (healed k t2 w ?c1)\<lparr>mq_world := w2\<rparr>)"
    using advance_pending [OF assms(8)] by blast
  have ready: "\<not> (case mq_self_heal_retry_at_ticks c of None \<Rightarrow> False | Some t \<Rightarrow> src_diff (cv_ticks env) t now > 0)"
    using due by (auto split: option.split)
  have st: "mq_state (healed k t2 w ?c1) = AWAITING_TRANSPORT" by (simp add: healed_def)
  have "handle env now c = (Inr (), (healed k t2 w ?c1)\<lparr>mq_world := w2\<rparr>)"
    unfolding handle_def run_mbind reading_def using assms(6,7) ready arm heal dl adv st
    by (simp add: run_andThen run_mbind run_whenever)
  also have "(healed k t2 w ?c1)\<lparr>mq_world := w2\<rparr> = healed k t2 w2 ?c1" by (simp add: healed_def)
  finally show ?thesis using t1 by (intro that [of k t2 w2 t1]) simp_all
qed

text \<open>What a tick that starts a new attempt leaves: fresh queues, and all that outlives a connection.\<close>

definition new_attempt :: "'w mqtt_env \<Rightarrow> int \<Rightarrow> 'w MQTTClient \<Rightarrow> 'w MQTTClient \<Rightarrow> bool" where
  "new_attempt env now c c1 \<longleftrightarrow> mq_state c1 = AWAITING_TRANSPORT \<and> mq_socket c1 = None \<and> mq_connector c1 \<noteq> None
     \<and> mq_tx_queue c1 = [] \<and> mq_partial_send c1 = None \<and> mq_pending_responses c1 = []
     \<and> mq_subscriptions c1 = mq_subscriptions c \<and> mq_pre_connect_queue c1 = mq_pre_connect_queue c
     \<and> mq_in_flight c1 = (if mc_clean_session (mq_cfg c) then [] else mq_in_flight c)
     \<and> self_heal_active c1
     \<and> (\<exists>t. mq_self_heal_retry_at_ticks c1 = Some t
         \<and> src_diff (cv_ticks env) t now = min 60000 (1000 * 2 ^ mq_self_heal_attempts c))"

lemma self_heal_tick_new_attempt:
  assumes "tick_source (cv_ticks env) span" "60000 < span" "0 < mc_ack_timeout_ms (mq_cfg c)" "mc_ack_timeout_ms (mq_cfg c) < span"
    "mq_self_heal_attempts c \<le> 6" "mq_state c = FAILED" "self_heal_active c" "transport_pending env now"
    "\<forall>t. mq_self_heal_retry_at_ticks c = Some t \<longrightarrow> src_diff (cv_ticks env) t now \<le> 0"
  shows "fst (handle env now c) = Inr () \<and> new_attempt env now c (snd (handle env now c))"
proof -
  obtain k t1 t2 w where "handle env now c = (Inr (), healed k t2 w
      (c\<lparr>mq_self_heal_attempts := min 6 (mq_self_heal_attempts c + 1), mq_self_heal_retry_at_ticks := Some t1\<rparr>))"
    "src_diff (cv_ticks env) t1 now = min 60000 (1000 * 2 ^ mq_self_heal_attempts c)"
    using self_heal_tick [OF assms] by metis
  then show ?thesis using assms(7) by (simp add: new_attempt_def healed_def reset_transient_state_def self_heal_active_def)
qed

text \<open>
  A broker that cannot be reached: a socket closes with at most an \<^verbatim>\<open>OSError\<close>, a factory that does not
  give a connector raises some \<^verbatim>\<open>Exception\<close>, and a connector ticks without raising but is never ready.
\<close>

definition unreachable :: "'w mqtt_env \<Rightarrow> bool" where
  "unreachable env \<longleftrightarrow>
     (\<forall>s w. case fst (cv_close env s w) of None \<Rightarrow> True | Some e \<Rightarrow> is_OSError e)
     \<and> (\<forall>w. case fst (cv_factory env w) of Inr k \<Rightarrow> True | Inl e \<Rightarrow> is_Exception e)
     \<and> (\<forall>k now w. fst (cv_connector_tick env k now w) = None \<and> cv_connector_state env k w \<noteq> ''ready'')"

text \<open>A client between two attempts, or in one that has a connector and a deadline.\<close>

definition retrying :: "MQTTConfig \<Rightarrow> 'w MQTTClient \<Rightarrow> bool" where
  "retrying cf c \<longleftrightarrow> mq_cfg c = cf \<and> mq_self_heal_attempts c \<le> 6 \<and> self_heal_active c
     \<and> (mq_state c = FAILED
        \<or> mq_state c = AWAITING_TRANSPORT \<and> mq_connector c \<noteq> None \<and> mq_transport_deadline_ticks c \<noteq> None)"

text \<open>What a tick that fails to connect leaves as it was.\<close>

definition outlasts :: "'w MQTTClient \<Rightarrow> 'w MQTTClient \<Rightarrow> bool" where
  "outlasts c c1 \<longleftrightarrow> mq_subscriptions c1 = mq_subscriptions c \<and> mq_pre_connect_queue c1 = mq_pre_connect_queue c
     \<and> (\<not> mc_clean_session (mq_cfg c) \<longrightarrow> mq_in_flight c1 = mq_in_flight c)"

lemma attempt_self_heal_unreachable:
  assumes "unreachable env" "mq_state c = FAILED" "retrying cf c"
    "src_add (cv_ticks env) now (mc_ack_timeout_ms (mq_cfg c)) = Inr t" "src_diff (cv_ticks env) t now > 0"
  obtains b c1 where "attempt_self_heal env now c = (Inr b, c1)" "retrying cf c1" "outlasts c c1"
    "mq_self_heal_retry_at_ticks c1 = mq_self_heal_retry_at_ticks c"
    "if b then mq_state c1 = AWAITING_TRANSPORT \<and> mq_transport_deadline_ticks c1 = Some t else mq_state c1 = FAILED"
proof -
  obtain w1 where w1: "swallow is_OSError (close_socket env) c = (Inr (), c\<lparr>mq_world := w1\<rparr>)"
    using close_swallowed assms(1) unfolding unreachable_def by blast
  obtain r w2 where f: "cv_factory env w1 = (r, w2)" by fastforce
  have r: "case r of Inr k \<Rightarrow> True | Inl e \<Rightarrow> is_Exception e" using assms(1) f unfolding unreachable_def by (metis fst_conv)
  note simps = attempt_self_heal_def run_andThen run_mbind build_connector_def reset_transient_state_def Let_def reading_def run_catch
    world_result_def world_def deadline_def
  show ?thesis
  proof (cases r)
    case (Inl e)
    then show ?thesis using assms w1 f r
      by (intro that [of False "snd (attempt_self_heal env now c)"]) (auto simp: simps retrying_def self_heal_active_def outlasts_def)
  next
    case (Inr k)
    then show ?thesis using assms w1 f r
      by (intro that [of True "snd (attempt_self_heal env now c)"]) (auto simp: simps retrying_def self_heal_active_def outlasts_def)
  qed
qed

lemma advance_unreachable:
  assumes "unreachable env" "mq_state c = AWAITING_TRANSPORT" "retrying cf c"
  obtains c1 where "advance_connector env now c = (Inr False, c1)" "retrying cf c1" "outlasts c c1"
    "mq_self_heal_retry_at_ticks c1 = mq_self_heal_retry_at_ticks c"
    "\<forall>k. mq_connector c = Some k \<and> cv_connector_state env k (snd (cv_connector_tick env k now (mq_world c))) = ''failed''
      \<longrightarrow> mq_state c1 = FAILED"
proof -
  obtain k where k: "mq_connector c = Some k" using assms(2,3) by (auto simp: retrying_def)
  obtain r w where r: "cv_connector_tick env k now (mq_world c) = (r, w)" by fastforce
  have "r = None" "cv_connector_state env k w \<noteq> ''ready''" using assms(1) r unfolding unreachable_def by (metis fst_conv)+
  then show ?thesis using assms(2,3) k r
    by (intro that [of "snd (advance_connector env now c)"])
      (auto simp: advance_connector_def reading_def run_andThen world_do_def world_def run_mbind retrying_def self_heal_active_def
        outlasts_def enter_failed_def run_whenever)
qed

lemma transport_deadline_passes:
  assumes "mq_state c = AWAITING_TRANSPORT" "retrying cf c" "mq_transport_deadline_ticks c = Some d" "src_diff (cv_ticks env) d now \<le> 0"
  obtains c1 where "check_transport_deadline env now c = (Inr True, c1)" "retrying cf c1" "outlasts c c1"
    "mq_self_heal_retry_at_ticks c1 = mq_self_heal_retry_at_ticks c" "mq_state c1 = FAILED"
proof -
  obtain k where "mq_connector c = Some k" using assms(1,2) by (auto simp: retrying_def)
  then show ?thesis using assms
    by (intro that [of "snd (check_transport_deadline env now c)"])
      (auto simp: check_transport_deadline_def cancel_connector_def reading_def run_andThen world_def run_mbind retrying_def
        self_heal_active_def outlasts_def enter_failed_def run_whenever)
qed

text \<open>
  One more try: a failed client whose retry time has come arms the next one, and an attempt whose
  deadline has passed or whose connector has failed leaves a failed client, its retry time still set.
\<close>

definition tries_again :: "'w mqtt_env \<Rightarrow> int \<Rightarrow> 'w MQTTClient \<Rightarrow> 'w MQTTClient \<Rightarrow> bool" where
  "tries_again env now c c1 \<longleftrightarrow>
     (mq_state c = FAILED \<and> (\<forall>t. mq_self_heal_retry_at_ticks c = Some t \<longrightarrow> src_diff (cv_ticks env) t now \<le> 0)
       \<longrightarrow> (\<exists>t. mq_self_heal_retry_at_ticks c1 = Some t
            \<and> src_diff (cv_ticks env) t now = min 60000 (1000 * 2 ^ mq_self_heal_attempts c)))
     \<and> (mq_state c = AWAITING_TRANSPORT
         \<and> ((\<exists>d. mq_transport_deadline_ticks c = Some d \<and> src_diff (cv_ticks env) d now \<le> 0)
            \<or> (\<exists>k. mq_connector c = Some k \<and> cv_connector_state env k (snd (cv_connector_tick env k now (mq_world c))) = ''failed''))
       \<longrightarrow> mq_state c1 = FAILED \<and> mq_self_heal_retry_at_ticks c1 = mq_self_heal_retry_at_ticks c)"

lemma outlasts_trans: "outlasts a b \<Longrightarrow> outlasts b c \<Longrightarrow> mq_cfg a = mq_cfg b \<Longrightarrow> outlasts a c"
  by (simp add: outlasts_def)

lemma retrying_cfg: "retrying cf c \<Longrightarrow> mq_cfg c = cf"
  by (simp add: retrying_def)

lemma awaiting_tick:
  assumes "unreachable env" "retrying cf c" "mq_state c = AWAITING_TRANSPORT"
  obtains c1 where "handle env now c = (Inr (), c1)" "retrying cf c1" "outlasts c c1" "tries_again env now c c1"
    "mq_self_heal_retry_at_ticks c1 = mq_self_heal_retry_at_ticks c"
proof -
  obtain d where d: "mq_transport_deadline_ticks c = Some d" using assms(2,3) by (auto simp: retrying_def)
  show ?thesis
  proof (cases "src_diff (cv_ticks env) d now \<le> 0")
    case True
    obtain c1 where c1: "check_transport_deadline env now c = (Inr True, c1)" "retrying cf c1" "outlasts c c1"
      "mq_self_heal_retry_at_ticks c1 = mq_self_heal_retry_at_ticks c" "mq_state c1 = FAILED"
      using transport_deadline_passes [OF assms(3,2) d True] .
    then show ?thesis using assms(3)
      by (intro that [of c1]) (auto simp: handle_def reading_def run_mbind run_whenever tries_again_def)
  next
    case False
    obtain c1 where c1: "advance_connector env now c = (Inr False, c1)" "retrying cf c1" "outlasts c c1"
      "mq_self_heal_retry_at_ticks c1 = mq_self_heal_retry_at_ticks c"
      "\<forall>k. mq_connector c = Some k \<and> cv_connector_state env k (snd (cv_connector_tick env k now (mq_world c))) = ''failed''
        \<longrightarrow> mq_state c1 = FAILED"
      using advance_unreachable [OF assms(1,3,2)] .
    then show ?thesis using assms(3) d False
      by (intro that [of c1]) (auto simp: handle_def reading_def run_mbind run_whenever tries_again_def check_transport_deadline_def)
  qed
qed

lemma due_tick:
  assumes "tick_source (cv_ticks env) span" "60000 < span" "0 < mc_ack_timeout_ms cf" "mc_ack_timeout_ms cf < span"
    "unreachable env" "retrying cf c" "mq_state c = FAILED"
    "\<forall>t. mq_self_heal_retry_at_ticks c = Some t \<longrightarrow> src_diff (cv_ticks env) t now \<le> 0"
  obtains c1 where "handle env now c = (Inr (), c1)" "retrying cf c1" "outlasts c c1" "tries_again env now c c1"
proof -
  have cf: "mq_cfg c = cf" "mq_self_heal_attempts c \<le> 6" "self_heal_active c" using assms(6) by (simp_all add: retrying_def)
  obtain t where arm: "arm_self_heal_backoff env now c
      = (Inr (), c\<lparr>mq_self_heal_attempts := min 6 (mq_self_heal_attempts c + 1), mq_self_heal_retry_at_ticks := Some t\<rparr>)"
    and t: "src_diff (cv_ticks env) t now = min 60000 (1000 * 2 ^ mq_self_heal_attempts c)"
    using arm_backoff [OF assms(1,2) cf(2)] .
  let ?c1 = "c\<lparr>mq_self_heal_attempts := min 6 (mq_self_heal_attempts c + 1), mq_self_heal_retry_at_ticks := Some t\<rparr>"
  have r1: "retrying cf ?c1" "mq_state ?c1 = FAILED" "outlasts c ?c1"
    using cf assms(7) by (simp_all add: retrying_def self_heal_active_def outlasts_def)
  obtain u where u: "src_add (cv_ticks env) now (mc_ack_timeout_ms (mq_cfg ?c1)) = Inr u"
    using tick_source.add_total [OF assms(1), of "mc_ack_timeout_ms (mq_cfg ?c1)" now] assms(3,4) cf(1) by auto
  have ahead: "src_diff (cv_ticks env) u now > 0" using tick_source.diff_add [OF assms(1) u] assms(3) cf(1) by simp
  obtain b c2 where c2: "attempt_self_heal env now ?c1 = (Inr b, c2)" "retrying cf c2" "outlasts ?c1 c2"
    "mq_self_heal_retry_at_ticks c2 = mq_self_heal_retry_at_ticks ?c1"
    "if b then mq_state c2 = AWAITING_TRANSPORT \<and> mq_transport_deadline_ticks c2 = Some u else mq_state c2 = FAILED"
    using attempt_self_heal_unreachable [OF assms(5) r1(2,1) u ahead] .
  have o: "outlasts c c2" using outlasts_trans [OF r1(3) c2(3)] by simp
  have due: "\<not> (case mq_self_heal_retry_at_ticks c of None \<Rightarrow> False | Some t \<Rightarrow> src_diff (cv_ticks env) t now > 0)"
    using assms(8) by (auto split: option.split)
  have go: "handle env now c = (if b then handle env now c2 else (Inr (), c2))"
    using assms(7) cf(3) due arm c2(1,5) by (cases b) (auto simp: handle_def reading_def run_mbind run_andThen run_whenever)
  show ?thesis
  proof (cases b)
    case False
    then show ?thesis using go c2 o t assms(7) by (intro that [of c2]) (auto simp: tries_again_def)
  next
    case True
    then obtain c3 where c3: "handle env now c2 = (Inr (), c3)" "retrying cf c3" "outlasts c2 c3"
      "mq_self_heal_retry_at_ticks c3 = mq_self_heal_retry_at_ticks c2"
      using awaiting_tick [OF assms(5) c2(2)] c2(5) by auto
    then show ?thesis using go True c2(4) t assms(7) outlasts_trans [OF o c3(3)] cf(1) retrying_cfg [OF c2(2)]
      by (intro that [of c3]) (auto simp: tries_again_def)
  qed
qed

lemma retrying_tick:
  assumes "tick_source (cv_ticks env) span" "60000 < span" "0 < mc_ack_timeout_ms cf" "mc_ack_timeout_ms cf < span"
    "unreachable env" "retrying cf c"
  obtains c1 where "handle env now c = (Inr (), c1)" "retrying cf c1" "outlasts c c1" "tries_again env now c c1"
proof -
  consider "mq_state c = AWAITING_TRANSPORT"
    | t where "mq_state c = FAILED" "mq_self_heal_retry_at_ticks c = Some t" "src_diff (cv_ticks env) t now > 0"
    | "mq_state c = FAILED" "\<forall>t. mq_self_heal_retry_at_ticks c = Some t \<longrightarrow> src_diff (cv_ticks env) t now \<le> 0"
    using assms(6) by (auto simp: retrying_def) (meson not_le)
  then show ?thesis
  proof cases
    case 1
    then show ?thesis using awaiting_tick [OF assms(5,6)] that by metis
  next
    case 2
    then show ?thesis using assms(6) by (intro that [of c])
      (auto simp: handle_def reading_def run_mbind run_whenever tries_again_def outlasts_def retrying_def)
  next
    case 3
    then show ?thesis using due_tick [OF assms] that by metis
  qed
qed

lemma retrying_ticks:
  assumes "tick_source (cv_ticks env) span" "60000 < span" "0 < mc_ack_timeout_ms cf" "mc_ack_timeout_ms cf < span"
    "unreachable env" "retrying cf c"
  shows "\<exists>c1. for_each (handle env) nows c = (Inr (), c1) \<and> retrying cf c1 \<and> outlasts c c1"
  using assms(6)
proof (induction nows arbitrary: c)
  case Nil
  then show ?case by (simp add: outlasts_def)
next
  case (Cons now nows)
  obtain c1 where c1: "handle env now c = (Inr (), c1)" "retrying cf c1" "outlasts c c1"
    using retrying_tick [OF assms(1-5) Cons.prems] by metis
  obtain c2 where "for_each (handle env) nows c1 = (Inr (), c2)" "retrying cf c2" "outlasts c1 c2" using Cons.IH [OF c1(2)] by blast
  then show ?case using c1 outlasts_trans [OF c1(3)] retrying_cfg [OF Cons.prems] retrying_cfg [OF c1(2)]
    by (simp add: run_andThen)
qed

text \<open>
  C27. A client that should be connected and is not reconnects by itself. (1) Failed, before its retry
  time, a tick does nothing and \<open>next_deadline\<close> reports that time. (2) At or after it, when a transport
  can be built, one tick starts a new attempt: the socket is dropped, queues and decoder are fresh,
  declared subscriptions and buffered messages are kept (in-flight messages too, in a persistent
  session), and the next retry is armed \<open>min(60 s, 1 s * 2 ^ attempts)\<close> ahead. (3) While the broker cannot
  be reached it keeps doing so: after any number of ticks at any times, with the factory raising,
  connectors failing or attempts timing out in any order, no tick has raised, the client is still
  failed or in an attempt with a connector and a deadline, nothing that outlasts a connection is lost,
  and the next tick tries again: a failed client at or past its retry time arms the next one, at most
  60 s ahead, and an attempt whose deadline has passed or whose connector has failed returns to failed
  with its retry time set, from where (1) and (2) apply once more.
\<close>

theorem self_heal_retries:
  assumes "tick_source (cv_ticks env) span" "60000 < span" "0 < mc_ack_timeout_ms cf" "mc_ack_timeout_ms cf < span" "retrying cf c"
  shows "(\<forall>t now. mq_state c = FAILED \<and> mq_self_heal_retry_at_ticks c = Some t \<and> src_diff (cv_ticks env) t now > 0
      \<longrightarrow> handle env now c = (Inr (), c) \<and> next_deadline env now c = Some t)
    \<and> (\<forall>now. mq_state c = FAILED \<and> transport_pending env now
        \<and> (\<forall>t. mq_self_heal_retry_at_ticks c = Some t \<longrightarrow> src_diff (cv_ticks env) t now \<le> 0)
      \<longrightarrow> fst (handle env now c) = Inr () \<and> new_attempt env now c (snd (handle env now c)))
    \<and> (unreachable env \<longrightarrow> (\<forall>nows now. \<exists>c1 c2. for_each (handle env) nows c = (Inr (), c1) \<and> handle env now c1 = (Inr (), c2)
        \<and> retrying cf c1 \<and> retrying cf c2 \<and> outlasts c c2 \<and> tries_again env now c1 c2))"
proof (intro conjI allI impI)
  fix t now assume "mq_state c = FAILED \<and> mq_self_heal_retry_at_ticks c = Some t \<and> src_diff (cv_ticks env) t now > 0"
  then show "handle env now c = (Inr (), c)" "next_deadline env now c = Some t"
    using assms(5) by (simp_all add: retrying_def handle_def reading_def run_mbind run_whenever next_deadline_def)
next
  have cf: "mq_cfg c = cf" "mq_self_heal_attempts c \<le> 6" "self_heal_active c" using assms(5) by (simp_all add: retrying_def)
  fix now assume a: "mq_state c = FAILED \<and> transport_pending env now
    \<and> (\<forall>t. mq_self_heal_retry_at_ticks c = Some t \<longrightarrow> src_diff (cv_ticks env) t now \<le> 0)"
  show "fst (handle env now c) = Inr ()" "new_attempt env now c (snd (handle env now c))"
    using self_heal_tick_new_attempt [OF assms(1,2), of c, unfolded cf(1), OF assms(3,4) cf(2) _ cf(3)] a by blast+
next
  fix nows now assume un: "unreachable env"
  obtain c1 where c1: "for_each (handle env) nows c = (Inr (), c1)" "retrying cf c1" "outlasts c c1"
    using retrying_ticks [OF assms(1-4) un assms(5)] by blast
  obtain c2 where "handle env now c1 = (Inr (), c2)" "retrying cf c2" "outlasts c1 c2" "tries_again env now c1 c2"
    using retrying_tick [OF assms(1-4) un c1(2)] .
  then show "\<exists>c1 c2. for_each (handle env) nows c = (Inr (), c1) \<and> handle env now c1 = (Inr (), c2)
      \<and> retrying cf c1 \<and> retrying cf c2 \<and> outlasts c c2 \<and> tries_again env now c1 c2"
    using c1 outlasts_trans [OF c1(3)] retrying_cfg [OF assms(5)] retrying_cfg [OF c1(2)] by auto
qed

definition slow_env :: "(byte list \<times> byte list) mqtt_env" where
  "slow_env = eager_env\<lparr>cv_connector_state := (\<lambda>k w. ''connecting'')\<rparr>"

definition dropped_client :: "(byte list \<times> byte list) MQTTClient" where
  "dropped_client = sample_client\<lparr>mq_state := FAILED, mq_user_wants_connected := True, mq_self_heal_attempts := 3,
     mq_self_heal_retry_at_ticks := Some 5000, mq_subscriptions := [([65], 1, None)]\<rparr>"

lemma dropped_retrying: "retrying sample_cfg dropped_client"
  by (simp add: dropped_client_def retrying_def self_heal_active_def sample_client_def MQTTClient_init_def sample_cfg_def
    force_non_blocking_def swallow_def world_do_def world_def prog_simps eager_env_def idle_env_def)

theorem self_heal_retries_witness:
  "handle slow_env 4000 dropped_client = (Inr (), dropped_client)
   \<and> mq_state (snd (handle slow_env 6000 dropped_client)) = AWAITING_TRANSPORT
   \<and> mq_subscriptions (snd (handle slow_env 6000 dropped_client)) = [([65], 1, None)]
   \<and> (\<exists>t. mq_self_heal_retry_at_ticks (snd (handle slow_env 6000 dropped_client)) = Some t \<and> ticks_diff t 6000 = 8000)
   \<and> (\<exists>c1. for_each (handle slow_env) [6000, 11000, 11010, 20000] dropped_client = (Inr (), c1)
        \<and> retrying sample_cfg (snd (handle slow_env 80000 c1)))"
proof -
  have tk: "cv_ticks slow_env = real_ticks" by (simp add: slow_env_def eager_env_def idle_env_def)
  have ts: "tick_source (cv_ticks slow_env) TICKS_HALFPERIOD" unfolding tk by (rule wrapped.tick_source_axioms)
  have d: "src_diff real_ticks 5000 4000 = 1000" "src_diff real_ticks 5000 6000 = -1000"
    by (simp_all add: real_ticks_def ticks_diff_def tick_consts)
  have st: "mq_state dropped_client = FAILED" "self_heal_active dropped_client" "mq_self_heal_retry_at_ticks dropped_client = Some 5000"
    "mq_self_heal_attempts dropped_client = 3" "mq_subscriptions dropped_client = [([65], 1, None)]"
    by (simp_all add: dropped_client_def self_heal_active_def sample_client_def MQTTClient_init_def sample_cfg_def
      force_non_blocking_def swallow_def world_do_def world_def prog_simps eager_env_def idle_env_def)
  have tp: "transport_pending slow_env 6000"
    by (simp add: transport_pending_def slow_env_def eager_env_def idle_env_def)
  have un: "unreachable slow_env"
    by (simp add: unreachable_def slow_env_def eager_env_def idle_env_def)
  have a: "(60000 :: int) < TICKS_HALFPERIOD" "0 < mc_ack_timeout_ms sample_cfg" "mc_ack_timeout_ms sample_cfg < TICKS_HALFPERIOD"
    by (simp_all add: tick_consts sample_cfg_def)
  have r: "ticks_diff = src_diff real_ticks" by (simp add: real_ticks_def)
  note heal = self_heal_retries [OF ts a dropped_retrying]
  have idle: "handle slow_env 4000 dropped_client = (Inr (), dropped_client)"
    using conjunct1 [OF heal] st(1,3) by (simp add: tk d)
  have again: "new_attempt slow_env 6000 dropped_client (snd (handle slow_env 6000 dropped_client))"
    using conjunct1 [OF conjunct2 [OF heal]] st(1,3) tp by (simp add: tk d)
  have on: "\<exists>c1. for_each (handle slow_env) [6000, 11000, 11010, 20000] dropped_client = (Inr (), c1)
      \<and> retrying sample_cfg (snd (handle slow_env 80000 c1))"
    using mp [OF conjunct2 [OF conjunct2 [OF heal]] un] by (metis snd_conv)
  from again have "mq_state (snd (handle slow_env 6000 dropped_client)) = AWAITING_TRANSPORT"
    "mq_subscriptions (snd (handle slow_env 6000 dropped_client)) = [([65], 1, None)]"
    "\<exists>t. mq_self_heal_retry_at_ticks (snd (handle slow_env 6000 dropped_client)) = Some t \<and> ticks_diff t 6000 = 8000"
    unfolding new_attempt_def st tk r by auto
  with idle on show ?thesis by blast
qed

end
