(* ===== verification/Fake_Socket.thy ===== *)
theory Fake_Socket
  imports Chu_Program
begin

text \<open>
  The stream-socket contract the network libraries rely on, as a locale over the part of the
  world a socket is, and the \<open>FakeSocket\<close> of
  \<^verbatim>\<open>libraries/sockets/src/chumicro_sockets/testing.py\<close>, which meets it.
\<close>

section \<open>The contract\<close>

text \<open>
  A send puts a prefix of its bytes on the wire and returns how many; a send that raises puts
  none. A receive returns at most the bytes asked for, the next of what the peer has sent.
\<close>

locale stream_socket =
  fixes send :: "byte list \<Rightarrow> 'w \<Rightarrow> nat result \<times> 'w"
    and recv :: "nat \<Rightarrow> 'w \<Rightarrow> byte list result \<times> 'w"
    and ok :: "'w \<Rightarrow> bool"
    and wire :: "'w \<Rightarrow> byte list"
    and arriving :: "'w \<Rightarrow> byte list"
  assumes send_ok: "ok w \<Longrightarrow> send p w = (r, w1) \<Longrightarrow> ok w1 \<and> arriving w1 = arriving w"
    and send_some: "ok w \<Longrightarrow> send p w = (Inr n, w1) \<Longrightarrow> n \<le> length p \<and> wire w1 = wire w @ take n p"
    and send_none: "ok w \<Longrightarrow> send p w = (Inl e, w1) \<Longrightarrow> wire w1 = wire w"
    and recv_ok: "ok w \<Longrightarrow> recv n w = (r1, w1) \<Longrightarrow> ok w1 \<and> wire w1 = wire w"
    and recv_some: "ok w \<Longrightarrow> recv n w = (Inr bs, w1) \<Longrightarrow> length bs \<le> n \<and> arriving w = bs @ arriving w1"
    and recv_none: "ok w \<Longrightarrow> recv n w = (Inl e, w1) \<Longrightarrow> arriving w1 = arriving w"
begin

text \<open>What a send of \<open>p\<close> did: some prefix of \<open>p\<close> went out, all the rest is still to send.\<close>

lemma send_splits:
  assumes "ok w" "send p w = (r, w1)"
  shows "wire w1 @ (case r of Inr n \<Rightarrow> drop n p | Inl e \<Rightarrow> p) = wire w @ p"
  using assms send_some [of w p] send_none [of w p] by (cases r) auto

end

section \<open>FakeSocket\<close>

record FakeSocket =
  fs_sent :: "byte list"
  fs_closed :: bool
  fs_blocking :: bool
  fs_recv_queue :: "byte list list"
  fs_peer_closed :: bool
  fs_send_eagains :: int
  fs_recv_eagains :: int

definition FAKE_SOCKET_QUEUE_MAXLEN :: nat where "FAKE_SOCKET_QUEUE_MAXLEN = 1024"
definition FS_EAGAIN :: int where "FS_EAGAIN = 11"
definition FS_EBADF :: int where "FS_EBADF = 9"

definition FakeSocket_init :: FakeSocket where
  "FakeSocket_init = \<lparr>fs_sent = [], fs_closed = False, fs_blocking = True, fs_recv_queue = [], fs_peer_closed = False,
     fs_send_eagains = 0, fs_recv_eagains = 0\<rparr>"

definition fs_enqueue_recv :: "byte list \<Rightarrow> 'z FakeSocket_scheme \<Rightarrow> 'z FakeSocket_scheme" where
  "fs_enqueue_recv chunk w = w\<lparr>fs_recv_queue := deque_append FAKE_SOCKET_QUEUE_MAXLEN (fs_recv_queue w) chunk\<rparr>"

definition fs_enqueue_eagain_for_send :: "int \<Rightarrow> 'z FakeSocket_scheme \<Rightarrow> 'z FakeSocket_scheme" where
  "fs_enqueue_eagain_for_send count w = w\<lparr>fs_send_eagains := fs_send_eagains w + count\<rparr>"

definition fs_enqueue_eagain_for_recv :: "int \<Rightarrow> 'z FakeSocket_scheme \<Rightarrow> 'z FakeSocket_scheme" where
  "fs_enqueue_eagain_for_recv count w = w\<lparr>fs_recv_eagains := fs_recv_eagains w + count\<rparr>"

definition fs_simulate_peer_close :: "'z FakeSocket_scheme \<Rightarrow> 'z FakeSocket_scheme" where
  "fs_simulate_peer_close w = w\<lparr>fs_peer_closed := True\<rparr>"

definition fs_send :: "byte list \<Rightarrow> 'z FakeSocket_scheme \<Rightarrow> nat result \<times> 'z FakeSocket_scheme" where
  "fs_send data w =
     (if fs_closed w then (Inl (OSError FS_EBADF), w)
      else if fs_send_eagains w > 0 then (Inl (OSError FS_EAGAIN), w\<lparr>fs_send_eagains := fs_send_eagains w - 1\<rparr>)
      else (Inr (length data), w\<lparr>fs_sent := fs_sent w @ data\<rparr>))"

text \<open>\<^verbatim>\<open>recv_into(buffer, nbytes)\<close> with \<open>nbytes\<close> the size of the buffer: the bytes it writes.\<close>

definition fs_recv_into :: "nat \<Rightarrow> 'z FakeSocket_scheme \<Rightarrow> byte list result \<times> 'z FakeSocket_scheme" where
  "fs_recv_into nbytes w =
     (if fs_closed w then (Inl (OSError FS_EBADF), w)
      else if fs_recv_eagains w > 0 then (Inl (OSError FS_EAGAIN), w\<lparr>fs_recv_eagains := fs_recv_eagains w - 1\<rparr>)
      else case fs_recv_queue w of
          [] \<Rightarrow> if fs_peer_closed w then (Inr [], w) else (Inl (OSError FS_EAGAIN), w)
        | chunk # rest \<Rightarrow>
            if nbytes \<le> 0 then (Inr [], w)
            else let consumed = min nbytes (length chunk) in
              (Inr (take consumed chunk),
               w\<lparr>fs_recv_queue := (if consumed < length chunk
                   then deque_appendleft FAKE_SOCKET_QUEUE_MAXLEN rest (drop consumed chunk) else rest)\<rparr>))"

definition fs_close :: "'z FakeSocket_scheme \<Rightarrow> 'z FakeSocket_scheme" where
  "fs_close w = w\<lparr>fs_closed := True\<rparr>"

definition fs_setblocking :: "bool \<Rightarrow> 'z FakeSocket_scheme \<Rightarrow> 'z FakeSocket_scheme" where
  "fs_setblocking flag w = w\<lparr>fs_blocking := flag\<rparr>"

text \<open>
  The queue never holds more chunks than its limit, so putting a chunk back after a short read
  finds room; sockets are taken with that property.
\<close>

definition fs_ok :: "'z FakeSocket_scheme \<Rightarrow> bool" where
  "fs_ok w \<longleftrightarrow> length (fs_recv_queue w) \<le> FAKE_SOCKET_QUEUE_MAXLEN"

lemma fs_ok_steps:
  "fs_ok FakeSocket_init"
  "fs_ok w \<Longrightarrow> fs_ok (fs_enqueue_recv chunk w)"
  "fs_ok w \<Longrightarrow> fs_ok (snd (fs_send data w))"
  "fs_ok w \<Longrightarrow> fs_ok (snd (fs_recv_into n w))"
  by (auto simp: fs_ok_def FakeSocket_init_def fs_enqueue_recv_def deque_append_bound fs_send_def fs_recv_into_def
      deque_appendleft_def Let_def split: list.split)

definition fs_arriving :: "'z FakeSocket_scheme \<Rightarrow> byte list" where
  "fs_arriving w = concat (fs_recv_queue w)"

interpretation fake_socket: stream_socket fs_send fs_recv_into fs_ok fs_sent fs_arriving
proof (unfold_locales, goal_cases)
  case (1 w p r w1)
  then show ?case by (auto simp: fs_send_def fs_ok_def fs_arriving_def split: if_splits)
next
  case (2 w p n w1)
  then show ?case by (auto simp: fs_send_def split: if_splits)
next
  case (3 w p e w1)
  then show ?case by (auto simp: fs_send_def split: if_splits)
next
  case (4 w n r w1)
  then show ?case using fs_ok_steps(4) [of w n]
    by (auto simp: fs_recv_into_def Let_def split: if_splits list.splits)
next
  case (5 w n bs w1)
  then show ?case
    by (auto simp: fs_recv_into_def fs_arriving_def fs_ok_def Let_def deque_appendleft_room split: if_splits list.splits)
next
  case (6 w n e w1)
  then show ?case by (auto simp: fs_recv_into_def fs_arriving_def Let_def split: if_splits list.splits)
qed

end
