(* ===== verification/Mqtt_Stream.thy ===== *)
theory Mqtt_Stream
  imports Mqtt_Client_Inv Fake_Socket
begin

text \<open>
  The transmit side of \<open>Mqtt_Client\<close> over any socket that keeps the contract \<open>stream_socket\<close>: the
  locale \<open>mqtt_wire\<close> joins the contract with an environment whose callbacks only add to the queue,
  and shows that the queue is sent as one byte stream. It is interpreted on the \<open>FakeSocket\<close>.
\<close>

section \<open>The byte stream sent\<close>

text \<open>The bytes still to send: the rest of a short send, then the queue; markers send nothing.\<close>

definition item_bytes :: "tx_item \<Rightarrow> byte list" where
  "item_bytes item = (case item of TxPacket p \<Rightarrow> p | TxMarker _ _ _ \<Rightarrow> [])"

definition outgoing :: "'w MQTTClient \<Rightarrow> byte list" where
  "outgoing c = (case mq_partial_send c of None \<Rightarrow> [] | Some (p, offset) \<Rightarrow> drop offset p)
     @ concat (map item_bytes (mq_tx_queue c))"

text \<open>What the next call of \<^verbatim>\<open>send\<close> is given, if no marker comes first.\<close>

definition next_send :: "'w MQTTClient \<Rightarrow> byte list option" where
  "next_send c = (case mq_partial_send c of
     Some (p, offset) \<Rightarrow> Some (drop offset p)
   | None \<Rightarrow> (case mq_tx_queue c of TxPacket p # _ \<Rightarrow> Some p | _ \<Rightarrow> None))"

text \<open>
  A client over a stream socket: its clock leaves the socket alone, and its callbacks may add
  packets at the end of the queue.
\<close>

locale mqtt_wire = stream_socket send recv ok wire arriving
  for send recv and ok :: "'w \<Rightarrow> bool" and wire arriving +
  fixes env :: "'w mqtt_env"
  assumes env_send: "cv_send env s = send"
    and ticks_quiet: "ok w \<Longrightarrow> cv_ticks_ms env w = (t, w1) \<Longrightarrow> ok w1 \<and> wire w1 = wire w"
    and callbacks_append: "ok (mq_world c) \<Longrightarrow> cv_call env cb c = (r, c1) \<Longrightarrow> ok (mq_world c1) \<and> wire (mq_world c1) = wire (mq_world c)
      \<and> mq_partial_send c1 = mq_partial_send c \<and> (\<exists>items. mq_tx_queue c1 = mq_tx_queue c @ items)"
begin

text \<open>What is on the wire and still to send only grows at its end; \<open>streams\<close>: with no send cut short.\<close>

definition grows :: "'w MQTTClient \<Rightarrow> 'w MQTTClient \<Rightarrow> bool" where
  "grows c c1 \<longleftrightarrow> ok (mq_world c1) \<and> (\<exists>sent. wire (mq_world c1) = wire (mq_world c) @ sent)
     \<and> (\<exists>added. wire (mq_world c1) @ outgoing c1 = wire (mq_world c) @ outgoing c @ added)"

definition streams :: "'w MQTTClient \<Rightarrow> 'w MQTTClient \<Rightarrow> bool" where
  "streams c c1 \<longleftrightarrow> grows c c1 \<and> mq_partial_send c1 = mq_partial_send c"

lemma grows_ok: "grows c c1 \<Longrightarrow> ok (mq_world c1)"
  by (simp add: grows_def)

lemma queue_grows_trans: "grows a b \<Longrightarrow> grows b c \<Longrightarrow> grows a c"
  unfolding grows_def by (elim conjE exE) (metis append.assoc)

lemma streams_trans: "streams a b \<Longrightarrow> streams b c \<Longrightarrow> streams a c"
  unfolding streams_def using queue_grows_trans by auto

lemma streams_refl: "ok (mq_world c) \<Longrightarrow> streams c c"
  by (auto simp: streams_def grows_def)

lemma grows_eq:
  "ok (mq_world c1) \<Longrightarrow> wire (mq_world c1) = wire (mq_world c) @ sent \<Longrightarrow> wire (mq_world c1) @ outgoing c1 = wire (mq_world c) @ outgoing c \<Longrightarrow> grows c c1"
  by (auto simp: grows_def)

lemma streams_eq:
  "ok (mq_world c1) \<Longrightarrow> wire (mq_world c1) = wire (mq_world c) \<Longrightarrow> outgoing c1 = outgoing c
    \<Longrightarrow> mq_partial_send c1 = mq_partial_send c \<Longrightarrow> streams c c1"
  by (auto simp: streams_def grows_def)

definition streaming :: "('w, 'a) mq \<Rightarrow> bool" where
  "streaming m \<longleftrightarrow> (\<forall>c. ok (mq_world c) \<longrightarrow> streams c (snd (m c)))"

lemma streaming_basic: "streaming (ret x)" "streaming (throw e)"
  by (simp_all add: streaming_def streams_refl)

lemma streaming_andThen: "streaming m \<Longrightarrow> streaming n \<Longrightarrow> streaming (andThen m n)"
  unfolding streaming_def run_andThen
proof (intro allI impI)
  fix c :: "'w MQTTClient"
  assume m: "\<forall>c. ok (mq_world c) \<longrightarrow> streams c (snd (m c))" and n: "\<forall>c. ok (mq_world c) \<longrightarrow> streams c (snd (n c))" and ok: "ok (mq_world c)"
  obtain r c1 where r: "m c = (r, c1)" by fastforce
  have 1: "streams c c1" using m ok r by force
  then have "streams c1 (snd (n c1))" using n by (simp add: streams_def grows_def)
  from streams_trans [OF 1 this] 1 r show "streams c (snd (case m c of (Inl e, s1) \<Rightarrow> (Inl e, s1) | (Inr x, s1) \<Rightarrow> n s1))"
    by (cases r) simp_all
qed

lemma streaming_reading: "(\<And>c. ok (mq_world c) \<Longrightarrow> streams c (snd (f c c))) \<Longrightarrow> streaming (reading f)"
  by (simp add: streaming_def reading_def)

lemma streaming_call: "streaming (call env cb)"
proof -
  have "streams c (snd (cv_call env cb c))" if "ok (mq_world c)" for c
  proof -
    obtain r c1 where r: "cv_call env cb c = (r, c1)" by fastforce
    from callbacks_append [OF that r] r show ?thesis
      by (auto simp: streams_def grows_def outgoing_def)
  qed
  then show ?thesis by (simp add: streaming_def call_def)
qed

lemma streaming_call_publish: "streaming (call_publish env f t pl)"
  unfolding call_publish_def by (cases f) (auto intro: streaming_andThen streaming_basic streaming_call)

lemma streaming_drain_markers: "streaming (drain_markers env n)"
proof (induction n)
  case (Suc n)
  show ?case
    unfolding drain_markers.simps
  proof (rule streaming_reading)
    fix c :: "'w MQTTClient"
    assume ok: "ok (mq_world c)"
    have k: "streaming (andThen (call_publish env f t pl) (drain_markers env n))" for f t pl
      by (intro streaming_andThen streaming_call_publish Suc)
    have pop: "streams c (c\<lparr>mq_tx_queue := rest\<rparr>)" if "mq_tx_queue c = TxMarker f t pl # rest" for f t pl rest
      using that ok by (intro streams_eq) (auto simp: outgoing_def item_bytes_def)
    have "streams c (snd (andThen (call_publish env f t pl) (drain_markers env n) (c\<lparr>mq_tx_queue := rest\<rparr>)))"
      if "mq_tx_queue c = TxMarker f t pl # rest" for f t pl rest
      using streams_trans [OF pop [OF that]] k [of f t pl] ok by (simp add: streaming_def)
    then show "streams c (snd ((case mq_tx_queue c of
        TxMarker cb topic payload # rest \<Rightarrow> andThen (modify (\<lambda>c. c\<lparr>mq_tx_queue := rest\<rparr>))
          (andThen (call_publish env cb topic payload) (drain_markers env n)) | _ \<Rightarrow> ret ()) c))"
      using streams_refl [OF ok] by (auto simp: run_andThen [of "modify g" for g] split: list.split tx_item.split)
  qed
qed (simp only: drain_markers.simps streaming_basic)

lemma streaming_drain_callback_markers: "streaming (drain_callback_markers env)"
  unfolding drain_callback_markers_def using streaming_drain_markers by (intro streaming_reading) (simp add: streaming_def del: drain_markers.simps)

lemma streaming_update_send_deadline: "streaming (update_send_deadline env n)"
proof -
  have "streams c (snd (update_send_deadline env n c))" if ok: "ok (mq_world c)" for c
  proof (rule streams_eq)
    obtain now w where t: "cv_ticks_ms env (mq_world c) = (now, w)" by fastforce
    note q = ticks_quiet [OF ok t]
    show "ok (mq_world (snd (update_send_deadline env n c)))"
      "mq_partial_send (snd (update_send_deadline env n c)) = mq_partial_send c"
      "wire (mq_world (snd (update_send_deadline env n c))) = wire (mq_world c)"
      "outgoing (snd (update_send_deadline env n c)) = outgoing c"
      using t q ok by (cases "src_add (cv_ticks env) now (mc_send_timeout_ms (mq_cfg c))";
        simp add: outgoing_def update_send_deadline_def reading_def prog_simps deadline_def world_def)+
  qed
  then show ?thesis by (simp add: streaming_def)
qed

lemma send_raw_wire:
  assumes "ok (mq_world c)"
  obtains r w where "send_raw env p c = (r, c\<lparr>mq_world := w\<rparr>)" "ok w"
    "wire w = wire (mq_world c) @ (case r of Inr n \<Rightarrow> take n p | Inl e \<Rightarrow> [])"
proof (cases "mq_socket c")
  case None
  then show ?thesis using that [of "Inl AttributeError" "mq_world c"] assms by (simp add: send_raw_def reading_def prog_simps)
next
  case (Some s)
  obtain x w where x: "send p (mq_world c) = (x, w)" by fastforce
  have w: "ok w" "wire w = wire (mq_world c) @ (case x of Inr n \<Rightarrow> take n p | Inl e \<Rightarrow> [])"
    using send_ok [OF assms x] send_some [OF assms] send_none [OF assms] x by (auto split: sum.split)
  have run: "send_raw env p c = (case x of Inr n \<Rightarrow> (Inr n, c\<lparr>mq_world := w\<rparr>)
      | Inl e \<Rightarrow> if e = OSError EAGAIN then (Inr 0, c\<lparr>mq_world := w\<rparr>) else (Inl e, c\<lparr>mq_world := w\<rparr>))"
    using Some x by (cases x) (simp_all add: send_raw_def reading_def prog_simps world_result_def world_def env_send)
  show ?thesis
  proof (cases "\<exists>e. x = Inl e \<and> e = OSError EAGAIN")
    case True
    with run w show ?thesis by (intro that [of "Inr 0" w]) auto
  next
    case False
    with run w show ?thesis by (intro that [of x w]) (auto split: sum.splits)
  qed
qed

lemma take_then_drop: "take k (drop n p) @ drop (n + k) p = drop n p" "n + k \<ge> length p \<Longrightarrow> take k (drop n p) = drop n p"
  by (metis append_take_drop_id drop_drop add.commute) simp

lemma streaming_then: "streaming n \<Longrightarrow> grows c c1 \<Longrightarrow> grows c (snd (n c1))"
  unfolding streaming_def streams_def by (meson grows_ok queue_grows_trans)

text \<open>The rest of an iteration of the drain loop, once a packet has gone out in full.\<close>

abbreviation after_packet :: "byte list \<Rightarrow> nat \<Rightarrow> nat \<Rightarrow> ('w, unit) mq" where
  "after_packet p k n \<equiv> andThen (update_send_deadline env k) (if is_puback_batch p
     then andThen (modify (\<lambda>c. c\<lparr>mq_puback_batch_queued := False\<rparr>)) (drain_loop env n) else drain_callback_markers env)"

lemma after_packet_grows:
  assumes IH: "\<And>c. ok (mq_world c) \<Longrightarrow> mq_partial_send c = None \<Longrightarrow> grows c (snd (drain_loop env n c))"
    and ok: "ok (mq_world c)" and np: "mq_partial_send c = None"
  shows "grows c (snd (after_packet p k n c))"
proof -
  obtain r c1 where r: "update_send_deadline env k c = (r, c1)" by fastforce
  have "streams c (snd (update_send_deadline env k c))" using streaming_update_send_deadline ok by (simp add: streaming_def)
  then have c1: "grows c c1" "mq_partial_send c1 = None" using r np by (simp_all add: streams_def)
  let ?c2 = "c1\<lparr>mq_puback_batch_queued := False\<rparr>"
  have c2: "grows c ?c2" using c1 by (intro queue_grows_trans [OF c1(1) grows_eq]) (auto simp: outgoing_def grows_def)
  have "grows c (snd (drain_loop env n ?c2))"
    using queue_grows_trans [OF c2 IH] grows_ok [OF c2] c1 by simp
  moreover have "grows c (snd (drain_callback_markers env c1))"
    using streaming_then [OF streaming_drain_callback_markers c1(1)] .
  ultimately show ?thesis using c1 r by (cases r) (simp_all add: run_andThen)
qed

lemma drain_loop_send:
  assumes "drain_callback_markers env c = (Inr (), c1)" "mq_tx_queue c1 = TxPacket p # rest" "p \<noteq> []"
    "send_raw env p c1 = (r, c1\<lparr>mq_world := w\<rparr>)"
  shows "snd (drain_loop env (Suc n) c) = (let s = c1\<lparr>mq_world := w\<rparr> in case r of Inl e \<Rightarrow> s | Inr sent \<Rightarrow>
      if sent = 0 then snd (update_send_deadline env 0 s)
      else if sent < length p then snd (update_send_deadline env sent
        (s\<lparr>mq_partial_send := Some (p, sent), mq_tx_queue := rest,
            mq_puback_batch_queued := (if is_puback_batch p then False else mq_puback_batch_queued s)\<rparr>))
      else snd (after_packet p sent n (s\<lparr>mq_tx_queue := rest\<rparr>)))"
  using assms
  by (cases r) (simp_all add: reading_def run_andThen [of "drain_callback_markers env"] run_andThen [of "modify f" for f] run_mbind)

lemma drain_loop_grows: "ok (mq_world c) \<Longrightarrow> mq_partial_send c = None \<Longrightarrow> grows c (snd (drain_loop env n c))"
proof (induction n arbitrary: c)
  case 0
  then show ?case using streams_refl [OF 0(1)] by (simp add: streams_def)
next
  case (Suc n)
  obtain r c1 where r: "drain_callback_markers env c = (r, c1)" by fastforce
  have st: "grows c c1" "mq_partial_send c1 = None"
    using streaming_drain_callback_markers Suc.prems r by (force simp: streaming_def streams_def)+
  note upd = streaming_then [OF streaming_update_send_deadline]
  show ?case
  proof (cases "\<exists>p rest. r = Inr () \<and> mq_tx_queue c1 = TxPacket p # rest \<and> p \<noteq> []")
    case True
    then obtain p rest where p: "r = Inr ()" "mq_tx_queue c1 = TxPacket p # rest" "p \<noteq> []" by blast
    obtain r2 w where s: "send_raw env p c1 = (r2, c1\<lparr>mq_world := w\<rparr>)" "ok w"
      "wire w = wire (mq_world c1) @ (case r2 of Inr n \<Rightarrow> take n p | Inl e \<Rightarrow> [])"
      using send_raw_wire [OF grows_ok [OF st(1)]] by metis
    let ?s = "c1\<lparr>mq_world := w\<rparr>"
    have stay: "grows c ?s" if "case r2 of Inr n \<Rightarrow> n = 0 | Inl e \<Rightarrow> True"
      using queue_grows_trans [OF st(1) grows_eq [of ?s c1]] s that by (auto simp: outgoing_def split: sum.splits)
    have part: "grows c (?s\<lparr>mq_partial_send := Some (p, k), mq_tx_queue := rest, mq_puback_batch_queued := b\<rparr>)" if "r2 = Inr k" for k b
      using s that p(2) st(2) by (intro queue_grows_trans [OF st(1) grows_eq]) (auto simp: outgoing_def item_bytes_def)
    have full: "grows c (?s\<lparr>mq_tx_queue := rest\<rparr>)" if "r2 = Inr k" "\<not> k < length p" for k
      using s that p(2) st(2) by (intro queue_grows_trans [OF st(1) grows_eq]) (auto simp: outgoing_def item_bytes_def)
    have rest: "grows c (snd (after_packet p k n (?s\<lparr>mq_tx_queue := rest\<rparr>)))" if "r2 = Inr k" "\<not> k < length p" for k
      using queue_grows_trans [OF full [OF that] after_packet_grows [OF Suc.IH]] s(2) st(2) by simp
    note d = drain_loop_send [OF r [unfolded p(1)] p(2,3) s(1), of n]
    show ?thesis
      using stay part upd rest unfolding d Let_def by (cases r2) simp_all
  next
    case False
    have "snd (drain_loop env (Suc n) c) = c1 \<or> snd (drain_loop env (Suc n) c) = snd (update_send_deadline env 0 c1)"
      using False r by (cases r) (auto simp: reading_def run_andThen [of "drain_callback_markers env"] split: list.split tx_item.split)
    then show ?thesis using st(1) upd [OF st(1)] by (elim disjE) (simp_all del: drain_loop.simps)
  qed
qed

lemma drain_tx_queue_grows:
  assumes "ok (mq_world c)"
  shows "grows c (snd (drain_tx_queue env c))"
proof (cases "mq_partial_send c")
  case None
  then show ?thesis using drain_loop_grows [OF assms None] by (simp add: drain_tx_queue_def reading_def del: drain_loop.simps)
next
  case (Some po)
  obtain p offset where po: "po = (p, offset)" by fastforce
  obtain r w where s: "send_raw env (drop offset p) c = (r, c\<lparr>mq_world := w\<rparr>)" "ok w"
    "wire w = wire (mq_world c) @ (case r of Inr n \<Rightarrow> take n (drop offset p) | Inl e \<Rightarrow> [])"
    using send_raw_wire [OF assms] by metis
  show ?thesis
  proof (cases r)
    case (Inl e)
    then show ?thesis using s Some po
      by (auto simp: drain_tx_queue_def reading_def prog_simps outgoing_def intro!: grows_eq)
  next
    case (Inr k)
    let ?c1 = "c\<lparr>mq_world := w, mq_partial_send := (if offset + k \<ge> length p then None else Some (p, offset + k))\<rparr>"
    have "grows c ?c1" using s Some po Inr by (intro grows_eq) (auto simp: outgoing_def take_then_drop)
    then show ?thesis using s Some po Inr streaming_then [OF streaming_update_send_deadline]
      by (simp add: drain_tx_queue_def reading_def run_mbind run_andThen)
  qed
qed

text \<open>Bytes the socket takes from the head of the stream are on the wire when the drain ends.\<close>

lemma send_raw_Inr:
  assumes "mq_socket c = Some sock" "send p (mq_world c) = (Inr k, w)"
  shows "send_raw env p c = (Inr k, c\<lparr>mq_world := w\<rparr>)"
  using assms by (simp add: send_raw_def reading_def prog_simps world_result_def world_def env_send)

lemma drain_tx_queue_sends:
  assumes ok: "ok (mq_world c)" and nx: "next_send c = Some p" "p \<noteq> []"
    and sock: "mq_socket c = Some sock" "send p (mq_world c) = (Inr k, w)"
  shows "\<exists>sent. wire (mq_world (snd (drain_tx_queue env c))) = wire (mq_world c) @ take k p @ sent"
proof -
  note s = send_raw_Inr [OF sock]
  have w: "ok w" "wire w = wire (mq_world c) @ take k p" using send_ok [OF ok sock(2)] send_some [OF ok sock(2)] by auto
  define good where "good c1 \<longleftrightarrow> (\<exists>sent. wire (mq_world c1) = wire (mq_world c) @ take k p @ sent)" for c1 :: "'w MQTTClient"
  have goodI: "good c2" if "grows c1 c2" "mq_world c1 = w" for c1 c2
    using that w by (auto simp: good_def grows_def)
  have upd: "good (snd (update_send_deadline env n c1))" if "mq_world c1 = w" for n c1
    using streaming_update_send_deadline [of n] that w by (intro goodI [OF _ that]) (simp add: streaming_def streams_def)
  have "good (snd (drain_tx_queue env c))"
  proof (cases "mq_partial_send c")
    case None
    then obtain rest where q: "mq_tx_queue c = TxPacket p # rest"
      using nx(1) by (auto simp: next_send_def split: list.splits tx_item.splits)
    have m: "drain_callback_markers env c = (Inr (), c)" using q by (simp add: drain_callback_markers_def reading_def)
    note d = drain_loop_send [OF m q nx(2) s, of "length rest + 1"]
    have full: "good (snd (after_packet p k n c1))" if "mq_partial_send c1 = None" "mq_world c1 = w" for c1 n
      using that w by (intro goodI [OF after_packet_grows [OF drain_loop_grows] that(2)]) simp_all
    have "snd (drain_tx_queue env c) = snd (drain_loop env (Suc (length rest + 1)) c)"
      using None q by (simp add: drain_tx_queue_def reading_def del: drain_loop.simps)
    then show ?thesis unfolding d Let_def sum.case using upd full None by (simp del: drain_loop.simps)
  next
    case (Some po)
    then show ?thesis using nx(1) s upd
      by (cases po) (simp add: next_send_def drain_tx_queue_def reading_def run_mbind run_andThen)
  qed
  then show ?thesis by (simp add: good_def)
qed

end

section \<open>Over the fake socket\<close>

text \<open>
  A client on a \<open>FakeSocket\<close> whose callbacks answer with QoS 0 messages of their own; a full queue
  refuses them.
\<close>

definition reply :: "'w mqtt_env \<Rightarrow> (pystr \<times> byte list) list \<Rightarrow> ('w, unit) mq" where
  "reply env messages = for_each (\<lambda>(topic, payload). swallow is_Exception (publish env topic (Raw payload) 0 False None)) messages"

definition fake_base :: "ticks_source \<Rightarrow> int \<Rightarrow> FakeSocket mqtt_env" where
  "fake_base tk now = \<lparr>cv_ticks = tk, cv_ticks_ms = (\<lambda>w. (now, w)), cv_factory = (\<lambda>w. (Inr 0, w)),
     cv_set_non_blocking = (\<lambda>s w. (None, fs_setblocking False w)), cv_send = (\<lambda>s. fs_send), cv_recv_into = (\<lambda>s. fs_recv_into),
     cv_close = (\<lambda>s w. (None, fs_close w)), cv_connector_tick = (\<lambda>k t w. (None, w)), cv_connector_state = (\<lambda>k w. ''ready''),
     cv_connector_socket = (\<lambda>k w. 1), cv_connector_io_socket = (\<lambda>k w. None), cv_connector_io_interest = (\<lambda>k t w. 0),
     cv_connector_next_deadline = (\<lambda>k t w. None), cv_connector_cancel = (\<lambda>k w. w), cv_call = (\<lambda>cb. ret ())\<rparr>"

definition fake_env :: "ticks_source \<Rightarrow> int \<Rightarrow> (callback \<Rightarrow> (pystr \<times> byte list) list) \<Rightarrow> FakeSocket mqtt_env" where
  "fake_env tk now replies = (fake_base tk now)\<lparr>cv_call := (\<lambda>cb. reply (fake_base tk now) (replies cb))\<rparr>"

definition appends :: "('w, 'a) mq \<Rightarrow> bool" where
  "appends m \<longleftrightarrow> (\<forall>c. mq_world (snd (m c)) = mq_world c \<and> mq_partial_send (snd (m c)) = mq_partial_send c
     \<and> (\<exists>items. mq_tx_queue (snd (m c)) = mq_tx_queue c @ items))"

lemma appends_mbind: "appends m \<Longrightarrow> (\<And>x. appends (f x)) \<Longrightarrow> appends (mbind m f)"
  unfolding appends_def run_mbind
proof (intro allI)
  fix c :: "'a MQTTClient"
  assume m: "\<forall>c. mq_world (snd (m c)) = mq_world c \<and> mq_partial_send (snd (m c)) = mq_partial_send c
      \<and> (\<exists>items. mq_tx_queue (snd (m c)) = mq_tx_queue c @ items)"
    and f: "\<And>x. \<forall>c. mq_world (snd (f x c)) = mq_world c \<and> mq_partial_send (snd (f x c)) = mq_partial_send c
      \<and> (\<exists>items. mq_tx_queue (snd (f x c)) = mq_tx_queue c @ items)"
  obtain r c1 where r: "m c = (r, c1)" by fastforce
  show "mq_world (snd (case m c of (Inl e, s1) \<Rightarrow> (Inl e, s1) | (Inr x, s1) \<Rightarrow> f x s1)) = mq_world c
      \<and> mq_partial_send (snd (case m c of (Inl e, s1) \<Rightarrow> (Inl e, s1) | (Inr x, s1) \<Rightarrow> f x s1)) = mq_partial_send c
      \<and> (\<exists>items. mq_tx_queue (snd (case m c of (Inl e, s1) \<Rightarrow> (Inl e, s1) | (Inr x, s1) \<Rightarrow> f x s1)) = mq_tx_queue c @ items)"
    using m [rule_format, of c] f [rule_format, of _ c1] r by (cases r) (auto, metis append.assoc)
qed

lemma appends_simple: "appends (ret x)" "appends (throw e)" "appends (lift r)"
  by (simp_all add: appends_def)

lemma appends_publish: "appends (publish env topic (Raw payload) 0 False None)"
proof -
  have "appends (publish_disconnected topic payload 0 False None)"
    by (auto simp: appends_def publish_disconnected_def reading_def)
  moreover have "appends (do_publish env topic payload 0 False None None)"
  proof -
    have "appends (reading (\<lambda>c. enqueue_user_tx (if mq_on_publish_set c then [TxPacket p, TxMarker None topic payload] else [TxPacket p])))" for p
      by (auto simp: appends_def reading_def enqueue_user_tx_def deque_append_room tx_queue_hard_cap_def)
    then show ?thesis by (auto simp: do_publish_def intro!: appends_mbind appends_simple)
  qed
  ultimately show ?thesis
    by (auto simp: publish_def reading_def appends_def run_mbind as_bytes_def)
qed

lemma snd_swallow: "snd (swallow caught m c) = snd (m c)"
  by (auto simp: swallow_def run_catch split: prod.split sum.split)

lemma appends_reply: "appends (reply env messages)"
proof (induction messages)
  case (Cons x xs)
  have "appends (swallow is_Exception (publish env t (Raw p) 0 False None))" for t p
    using appends_publish [of env t p] by (simp add: appends_def snd_swallow)
  then show ?case using Cons by (cases x) (auto simp: reply_def andThen_def intro!: appends_mbind)
qed (simp only: reply_def for_each.simps appends_simple)

interpretation fake_wire: mqtt_wire fs_send fs_recv_into fs_ok fs_sent fs_arriving "fake_env tk now replies"
proof (unfold_locales, goal_cases)
  case (3 c cb r c1)
  then have c1: "c1 = snd (reply (fake_base tk now) (replies cb) c)" by (simp add: fake_env_def)
  show ?case using 3(1) appends_reply [of "fake_base tk now" "replies cb"] by (simp add: c1 appends_def)
qed (auto simp: fake_env_def fake_base_def)

section \<open>Properties\<close>

text \<open>
  C4. The transmit queue is a byte stream. However short the socket's sends, and whatever packets
  the callbacks add at the end of the queue meanwhile, a drain never reorders, repeats or drops a
  byte: what the wire has got followed by what is still to send is what it was before, with at most
  additions at its end, and the bytes the socket accepts of the head of the stream are on the wire.
\<close>

theorem tx_stream_in_order:
  assumes "mqtt_wire send recv ok wire arriving env" "ok (mq_world c)"
  shows "(\<exists>added. wire (mq_world (snd (drain_tx_queue env c))) @ outgoing (snd (drain_tx_queue env c))
        = wire (mq_world c) @ outgoing c @ added)
    \<and> (\<forall>p sock k w. next_send c = Some p \<and> p \<noteq> [] \<and> mq_socket c = Some sock \<and> send p (mq_world c) = (Inr k, w)
        \<longrightarrow> (\<exists>sent. wire (mq_world (snd (drain_tx_queue env c))) = wire (mq_world c) @ take k p @ sent))"
  using mqtt_wire.drain_tx_queue_grows [OF assms] mqtt_wire.drain_tx_queue_sends [OF assms]
  unfolding mqtt_wire.grows_def [OF assms(1)] by blast

text \<open>A half-sent packet, then a marker, then another packet, on a socket.\<close>

definition midway_client :: "FakeSocket MQTTClient" where
  "midway_client = (case MQTTClient_init (fake_base real_ticks 0) sample_cfg (Some 1) None None 0 False FakeSocket_init of
     Inr c \<Rightarrow> c\<lparr>mq_state := CONNECTED, mq_partial_send := Some ([0x30, 5, 0, 1, 65, 66, 67], 3), mq_tx_queue := [TxMarker None [65] [66, 67], TxPacket [0xC0, 0]]\<rparr>
   | Inl e \<Rightarrow> undefined)"

theorem tx_stream_in_order_witness:
  "(\<exists>added. fs_sent (mq_world (snd (drain_tx_queue (fake_env real_ticks 0 (\<lambda>_. [])) midway_client)))
      @ outgoing (snd (drain_tx_queue (fake_env real_ticks 0 (\<lambda>_. [])) midway_client)) = [1, 65, 66, 67, 0xC0, 0] @ added)
   \<and> (\<exists>sent. fs_sent (mq_world (snd (drain_tx_queue (fake_env real_ticks 0 (\<lambda>_. [])) midway_client))) = [1, 65, 66, 67] @ sent)"
  using tx_stream_in_order [OF fake_wire.mqtt_wire_axioms, of midway_client real_ticks 0 "\<lambda>_. []"]
  by (simp add: midway_client_def MQTTClient_init_def sample_cfg_def force_non_blocking_def swallow_def world_do_def world_def prog_simps
    fake_base_def fs_ok_def FakeSocket_init_def fs_setblocking_def outgoing_def item_bytes_def next_send_def fs_send_def)

end
