(* ===== verification/Runner.thy ===== *)
theory Runner
  imports Timing
begin

text \<open>
  \<^verbatim>\<open>libraries/runner/src/chumicro_runner/core.py\<close>: the tick-based scheduler. Python objects
  that are shared by reference are kept in the runner's record: \<open>rn_heap\<close> holds the
  \<open>TaskHandle\<close> objects and every list holds their indices. Functions the caller registers
  (checks, handlers, hooks, the poller, the clock) are entries of an environment \<open>env\<close>,
  addressed by number. A handler or an error callback is an arbitrary transformer of the
  whole runner, so it may add, remove or re-period tasks, or call \<open>tick\<close> again; checks and
  the I/O hooks see and change only the world \<open>'w\<close> outside the runner. A method returns
  its result beside the runner it leaves behind.
\<close>

section \<open>State\<close>

record TaskHandle =
  th_check_function :: "nat option"
  th_handler_function :: nat
  th_period_ms :: "int option"
  th_next_due_ms :: "int option"
  th_run_count :: "int option"
  th_preserve_phase :: bool
  th_active :: bool
  th_service :: "nat option"
  th_io_interest :: "nat option"
  th_next_deadline :: "nat option"

text \<open>\<^verbatim>\<open>[sock, registered_mask, sweep_mask, sweep_generation, descriptor]\<close>.\<close>

record poll_slot =
  sl_sock :: nat
  sl_registered_mask :: int
  sl_sweep_mask :: int
  sl_generation :: nat
  sl_descriptor :: "int option"

record 'w Runner =
  rn_heap :: "TaskHandle list"
  rn_entries :: "nat list"
  rn_pending :: "nat option list"
  rn_ticking :: bool
  rn_handler_errors :: nat
  rn_last_handler_error :: "exn option"
  rn_on_handler_error :: "nat option"
  rn_poller :: bool
  rn_registered_interest :: "(nat \<times> poll_slot) list"
  rn_sweep_generation :: nat
  rn_world :: 'w

datatype poll_key = PollObj nat | PollFd int

datatype fileno_answer = NoFileno | FilenoRaises | Fileno int

record 'w env =
  ev_ticks :: ticks_source
  ev_ticks_ms :: "'w \<Rightarrow> int \<times> 'w"
  ev_check :: "nat \<Rightarrow> int \<Rightarrow> 'w \<Rightarrow> bool result \<times> 'w"
  ev_handler :: "nat \<Rightarrow> int \<Rightarrow> 'w Runner \<Rightarrow> exn option \<times> 'w Runner"
  ev_on_error :: "nat \<Rightarrow> nat \<Rightarrow> exn \<Rightarrow> 'w Runner \<Rightarrow> exn option \<times> 'w Runner"
  ev_io_socket :: "nat \<Rightarrow> 'w \<Rightarrow> nat option"
  ev_io_interest :: "nat \<Rightarrow> int \<Rightarrow> 'w \<Rightarrow> int result \<times> 'w"
  ev_io_error_of :: "nat \<Rightarrow> nat option"
  ev_io_error :: "nat \<Rightarrow> int \<Rightarrow> int \<Rightarrow> 'w Runner \<Rightarrow> exn option \<times> 'w Runner"
  ev_next_deadline :: "nat \<Rightarrow> int \<Rightarrow> 'w \<Rightarrow> int option result \<times> 'w"
  ev_fileno :: "nat \<Rightarrow> 'w \<Rightarrow> fileno_answer"
  ev_register :: "nat \<Rightarrow> int \<Rightarrow> 'w \<Rightarrow> exn option \<times> 'w"
  ev_modify :: "nat \<Rightarrow> int \<Rightarrow> 'w \<Rightarrow> exn option \<times> 'w"
  ev_unregister :: "poll_key \<Rightarrow> 'w \<Rightarrow> exn option \<times> 'w"
  ev_ipoll :: "int \<Rightarrow> 'w \<Rightarrow> (poll_key \<times> int) list \<times> 'w"
  ev_sleep_ms :: "int \<Rightarrow> 'w \<Rightarrow> 'w"

definition POLLIN :: int where "POLLIN = 0x001"
definition POLLOUT :: int where "POLLOUT = 0x004"
definition POLLERR :: int where "POLLERR = 0x008"
definition POLLHUP :: int where "POLLHUP = 0x010"
definition POLL_ERROR_MASK :: int where "POLL_ERROR_MASK = POLLERR OR POLLHUP"
definition IO_READ :: int where "IO_READ = 1"
definition IO_WRITE :: int where "IO_WRITE = 2"

definition Runner_init :: "nat option \<Rightarrow> bool \<Rightarrow> 'w \<Rightarrow> 'w Runner" where
  "Runner_init on_handler_error poller w =
     \<lparr>rn_heap = [], rn_entries = [], rn_pending = [], rn_ticking = False, rn_handler_errors = 0,
      rn_last_handler_error = None, rn_on_handler_error = on_handler_error, rn_poller = poller,
      rn_registered_interest = [], rn_sweep_generation = 0, rn_world = w\<rparr>"

abbreviation handle_at :: "'w Runner \<Rightarrow> nat \<Rightarrow> TaskHandle" where
  "handle_at r i \<equiv> rn_heap r ! i"

definition set_handle :: "'w Runner \<Rightarrow> nat \<Rightarrow> TaskHandle \<Rightarrow> 'w Runner" where
  "set_handle r i h = r\<lparr>rn_heap := (rn_heap r)[i := h]\<rparr>"

text \<open>A call on the world alone.\<close>

definition on_world :: "('w \<Rightarrow> 'a \<times> 'w) \<Rightarrow> 'w Runner \<Rightarrow> 'a \<times> 'w Runner" where
  "on_world f r = (case f (rn_world r) of (a, w) \<Rightarrow> (a, r\<lparr>rn_world := w\<rparr>))"

section \<open>Registration\<close>

text \<open>A task object: its \<^verbatim>\<open>check\<close> and \<^verbatim>\<open>handle\<close> methods, its identity and its optional hooks.\<close>

record task_object =
  to_check :: nat
  to_handle :: nat
  to_service :: nat
  to_io_interest :: "nat option"
  to_next_deadline :: "nat option"

definition initial_next_due_ms ::
    "'w env \<Rightarrow> int option \<Rightarrow> int option \<Rightarrow> 'w Runner \<Rightarrow> int option result \<times> 'w Runner" where
  "initial_next_due_ms env start_after_ms period_ms r =
     (case (if start_after_ms \<noteq> None then start_after_ms else period_ms) of
        None \<Rightarrow> (Inr None, r)
      | Some delay_ms \<Rightarrow>
          let (now_ms, r1) = on_world (ev_ticks_ms env) r in
          (rbind (src_add (ev_ticks env) now_ms delay_ms) (\<lambda>due. Inr (Some due)), r1))"

definition add ::
    "'w env \<Rightarrow> task_object option \<Rightarrow> nat option \<Rightarrow> int option \<Rightarrow> int option \<Rightarrow> int option \<Rightarrow> bool
      \<Rightarrow> 'w Runner \<Rightarrow> nat result \<times> 'w Runner" where
  "add env task handler period_ms start_after_ms run_count preserve_phase r =
     (if task \<noteq> None \<and> handler \<noteq> None then (Inl (ValueError ''Pass a task object OR a handler callable''), r)
      else if task = None \<and> handler = None then (Inl (ValueError ''Provide a task object or a handler callable''), r)
      else if case period_ms of Some p \<Rightarrow> p \<le> 0 | None \<Rightarrow> False then (Inl (ValueError ''period_ms must be greater than zero''), r)
      else if case run_count of Some c \<Rightarrow> c \<le> 0 | None \<Rightarrow> False then (Inl (ValueError ''run_count must be greater than zero''), r)
      else if preserve_phase \<and> period_ms = None then (Inl (ValueError ''preserve_phase requires period_ms''), r)
      else case initial_next_due_ms env start_after_ms period_ms r of
          (Inl e, r1) \<Rightarrow> (Inl e, r1)
        | (Inr next_due_ms, r1) \<Rightarrow>
            let h = \<lparr>th_check_function = map_option to_check task,
                  th_handler_function = (case task of Some t \<Rightarrow> to_handle t | None \<Rightarrow> the handler),
                  th_period_ms = period_ms, th_next_due_ms = next_due_ms, th_run_count = run_count,
                  th_preserve_phase = preserve_phase, th_active = True,
                  th_service = map_option to_service task,
                  th_io_interest = Option.bind task to_io_interest,
                  th_next_deadline = Option.bind task to_next_deadline\<rparr>;
                i = length (rn_heap r1) in
            (Inr i, r1\<lparr>rn_heap := rn_heap r1 @ [h], rn_entries := rn_entries r1 @ [i]\<rparr>))"

definition add_periodic ::
    "'w env \<Rightarrow> nat \<Rightarrow> int option \<Rightarrow> int option \<Rightarrow> int option \<Rightarrow> bool \<Rightarrow> 'w Runner \<Rightarrow> nat result \<times> 'w Runner" where
  "add_periodic env handler period_ms start_after_ms run_count preserve_phase r =
     (if period_ms = None then (Inl (ValueError ''period_ms is required for add_periodic''), r)
      else add env None (Some handler) period_ms start_after_ms run_count preserve_phase r)"

definition set_period ::
    "'w env \<Rightarrow> nat \<Rightarrow> int option \<Rightarrow> int option \<Rightarrow> 'w Runner \<Rightarrow> unit result \<times> 'w Runner" where
  "set_period env i period_ms now_ms r =
     (if case period_ms of Some p \<Rightarrow> p \<le> 0 | None \<Rightarrow> False then (Inl (ValueError ''period_ms must be greater than zero''), r)
      else
        let r1 = set_handle r i ((handle_at r i)\<lparr>th_period_ms := period_ms\<rparr>) in
        case period_ms of
          None \<Rightarrow> (Inr (), set_handle r1 i ((handle_at r1 i)\<lparr>th_next_due_ms := None\<rparr>))
        | Some p \<Rightarrow>
            let (now, r2) = (case now_ms of Some n \<Rightarrow> (n, r1) | None \<Rightarrow> on_world (ev_ticks_ms env) r1) in
            case src_add (ev_ticks env) now p of
              Inl e \<Rightarrow> (Inl e, r2)
            | Inr due \<Rightarrow> (Inr (), set_handle r2 i ((handle_at r2 i)\<lparr>th_next_due_ms := Some due\<rparr>)))"

definition remove :: "nat \<Rightarrow> 'w Runner \<Rightarrow> 'w Runner" where
  "remove i r = (set_handle r i ((handle_at r i)\<lparr>th_active := False\<rparr>))\<lparr>rn_entries := remove1 i (rn_entries r)\<rparr>"

section \<open>One tick\<close>

text \<open>The due test of one entry with the update of its next fire: whether it goes on to its check.\<close>

definition advance_due :: "ticks_source \<Rightarrow> int \<Rightarrow> TaskHandle \<Rightarrow> (bool \<times> TaskHandle) result" where
  "advance_due tk now_ms h =
     (case th_next_due_ms h of
        None \<Rightarrow> Inr (True, h)
      | Some due \<Rightarrow>
          if src_diff tk now_ms due < 0 then Inr (False, h)
          else case th_period_ms h of
              None \<Rightarrow> Inr (True, h\<lparr>th_next_due_ms := None\<rparr>)
            | Some p \<Rightarrow>
                if th_preserve_phase h then
                  let behind = src_diff tk now_ms due; periods_missed = behind div p + 1 in
                  rbind (src_add tk due (periods_missed * p)) (\<lambda>d. Inr (True, h\<lparr>th_next_due_ms := Some d\<rparr>))
                else rbind (src_add tk now_ms p) (\<lambda>d. Inr (True, h\<lparr>th_next_due_ms := Some d\<rparr>)))"

definition push_pending :: "nat \<Rightarrow> nat \<Rightarrow> 'w Runner \<Rightarrow> 'w Runner" where
  "push_pending pending_count i r =
     r\<lparr>rn_pending := (if pending_count < length (rn_pending r) then (rn_pending r)[pending_count := Some i]
       else rn_pending r @ [Some i])\<rparr>"

fun collect :: "'w env \<Rightarrow> int \<Rightarrow> nat list \<Rightarrow> nat \<Rightarrow> 'w Runner \<Rightarrow> nat result \<times> 'w Runner" where
  "collect env now_ms [] pending_count r = (Inr pending_count, r)"
| "collect env now_ms (i # entries) pending_count r =
     (case advance_due (ev_ticks env) now_ms (handle_at r i) of
        Inl e \<Rightarrow> (Inl e, r)
      | Inr (go, h) \<Rightarrow>
          let r1 = set_handle r i h in
          if \<not> go then collect env now_ms entries pending_count r1
          else case th_check_function h of
              None \<Rightarrow> collect env now_ms entries (pending_count + 1) (push_pending pending_count i r1)
            | Some c \<Rightarrow>
                (case on_world (ev_check env c now_ms) r1 of
                   (Inl e, r2) \<Rightarrow> (Inl e, r2)
                 | (Inr ok, r2) \<Rightarrow>
                     if ok then collect env now_ms entries (pending_count + 1) (push_pending pending_count i r2)
                     else collect env now_ms entries pending_count r2))"

text \<open>An exception that escapes is the first component.\<close>

definition record_handler_fault :: "'w env \<Rightarrow> nat \<Rightarrow> exn \<Rightarrow> 'w Runner \<Rightarrow> exn option \<times> 'w Runner" where
  "record_handler_fault env i error r =
     (let r1 = r\<lparr>rn_handler_errors := rn_handler_errors r + 1, rn_last_handler_error := Some error\<rparr> in
      case rn_on_handler_error r1 of
        None \<Rightarrow> (None, r1)
      | Some f \<Rightarrow>
          (case ev_on_error env f i error r1 of
             (None, r2) \<Rightarrow> (None, r2)
           | (Some e, r2) \<Rightarrow>
               if is_Exception e
               then (None, r2\<lparr>rn_handler_errors := rn_handler_errors r2 + 1, rn_last_handler_error := Some e\<rparr>)
               else (Some e, r2)))"

definition call_handler :: "'w env \<Rightarrow> int \<Rightarrow> nat \<Rightarrow> 'w Runner \<Rightarrow> exn option \<times> 'w Runner" where
  "call_handler env now_ms i r =
     (case ev_handler env (th_handler_function (handle_at r i)) now_ms r of
        (None, r1) \<Rightarrow> (None, r1)
      | (Some e, r1) \<Rightarrow>
          if e = ReentrantTickError then (Some e, r1)
          else if is_Exception e then record_handler_fault env i e r1
          else (Some e, r1))"

definition count_run :: "nat \<Rightarrow> 'w Runner \<Rightarrow> 'w Runner" where
  "count_run i r =
     (case th_run_count (handle_at r i) of
        None \<Rightarrow> r
      | Some c \<Rightarrow>
          let r1 = set_handle r i ((handle_at r i)\<lparr>th_run_count := Some (c - 1)\<rparr>) in
          if c - 1 \<le> 0 then remove i r1 else r1)"

text \<open>\<^verbatim>\<open>for pending_index in range(pending_count)\<close>: index and turns left.\<close>

fun fire :: "'w env \<Rightarrow> int \<Rightarrow> nat \<Rightarrow> nat \<Rightarrow> 'w Runner \<Rightarrow> exn option \<times> 'w Runner" where
  "fire env now_ms pending_index 0 r = (None, r)"
| "fire env now_ms pending_index (Suc k) r =
     (if \<not> pending_index < length (rn_pending r) then (Some IndexError, r)
      else case rn_pending r ! pending_index of
          None \<Rightarrow> (Some AttributeError, r)
        | Some i \<Rightarrow>
            (case call_handler env now_ms i r of
               (Some e, r1) \<Rightarrow> (Some e, r1)
             | (None, r1) \<Rightarrow> fire env now_ms (pending_index + 1) k (count_run i r1)))"

definition end_tick :: "'w Runner \<Rightarrow> 'w Runner" where
  "end_tick r = r\<lparr>rn_pending := map (\<lambda>_. None) (rn_pending r), rn_ticking := False\<rparr>"

definition tick :: "'w env \<Rightarrow> 'w Runner \<Rightarrow> int result \<times> 'w Runner" where
  "tick env r =
     (if rn_ticking r then (Inl ReentrantTickError, r)
      else
        let (now_ms, r1) = on_world (ev_ticks_ms env) (r\<lparr>rn_ticking := True\<rparr>) in
        case collect env now_ms (rn_entries r1) 0 r1 of
          (Inl e, r2) \<Rightarrow> (Inl e, end_tick r2)
        | (Inr pending_count, r2) \<Rightarrow>
            (case fire env now_ms 0 pending_count r2 of
               (Some e, r3) \<Rightarrow> (Inl e, end_tick r3)
             | (None, r3) \<Rightarrow> (Inr now_ms, end_tick r3)))"

section \<open>The poll set\<close>

definition fileno_of :: "'w env \<Rightarrow> nat \<Rightarrow> 'w \<Rightarrow> int option" where
  "fileno_of env sock w = (case ev_fileno env sock w of
     NoFileno \<Rightarrow> None | FilenoRaises \<Rightarrow> None | Fileno d \<Rightarrow> if d \<ge> 0 then Some d else None)"

definition interest_mask :: "int \<Rightarrow> int" where
  "interest_mask interest =
     (if interest AND IO_READ \<noteq> 0 then POLLIN else 0) OR (if interest AND IO_WRITE \<noteq> 0 then POLLOUT else 0)"

text \<open>A dict of slots, in insertion order.\<close>

definition slot_of :: "nat \<Rightarrow> (nat \<times> poll_slot) list \<Rightarrow> poll_slot option" where
  "slot_of k slots = map_of slots k"

fun slot_update :: "nat \<Rightarrow> poll_slot \<Rightarrow> (nat \<times> poll_slot) list \<Rightarrow> (nat \<times> poll_slot) list" where
  "slot_update k v [] = [(k, v)]"
| "slot_update k v ((k', v') # r) = (if k = k' then (k, v) # r else (k', v') # slot_update k v r)"

text \<open>Stamp one socket with this sweep's wanted mask; 1 if it is the first time in the sweep.\<close>

definition want :: "'w env \<Rightarrow> nat \<Rightarrow> nat \<Rightarrow> int \<Rightarrow> 'w Runner \<Rightarrow> nat \<times> 'w Runner" where
  "want env generation sock eventmask r =
     (let slots = rn_registered_interest r in
      case slot_of sock slots of
        None \<Rightarrow> (1, r\<lparr>rn_registered_interest := slot_update sock
            \<lparr>sl_sock = sock, sl_registered_mask = 0, sl_sweep_mask = eventmask, sl_generation = generation,
             sl_descriptor = fileno_of env sock (rn_world r)\<rparr> slots\<rparr>)
      | Some slot \<Rightarrow>
          if sl_generation slot \<noteq> generation
          then (1, r\<lparr>rn_registered_interest := slot_update sock
              (slot\<lparr>sl_sweep_mask := eventmask, sl_generation := generation\<rparr>) slots\<rparr>)
          else (0, r\<lparr>rn_registered_interest := slot_update sock
              (slot\<lparr>sl_sweep_mask := sl_sweep_mask slot OR eventmask\<rparr>) slots\<rparr>))"

fun sweep :: "'w env \<Rightarrow> int \<Rightarrow> nat \<Rightarrow> nat list \<Rightarrow> nat \<Rightarrow> 'w Runner \<Rightarrow> nat result \<times> 'w Runner" where
  "sweep env now_ms generation [] wanted_count r = (Inr wanted_count, r)"
| "sweep env now_ms generation (i # entries) wanted_count r =
     (let h = handle_at r i in
      case (th_io_interest h, Option.bind (th_service h) (\<lambda>s. ev_io_socket env s (rn_world r))) of
        (Some f, Some sock) \<Rightarrow>
          (case on_world (ev_io_interest env f now_ms) r of
             (Inl e, r1) \<Rightarrow> (Inl e, r1)
           | (Inr interest, r1) \<Rightarrow>
               if interest_mask interest = 0 then sweep env now_ms generation entries wanted_count r1
               else let (n, r2) = want env generation sock (interest_mask interest) r1
                 in sweep env now_ms generation entries (wanted_count + n) r2)
      | _ \<Rightarrow> sweep env now_ms generation entries wanted_count r)"

text \<open>Register or modify the slots of this sweep whose mask changed.\<close>

definition poller_apply :: "'w env \<Rightarrow> poll_slot \<Rightarrow> 'w Runner \<Rightarrow> exn option \<times> 'w Runner" where
  "poller_apply env slot r =
     (if rn_poller r
      then if sl_registered_mask slot = 0
        then on_world (ev_register env (sl_sock slot) (sl_sweep_mask slot)) r
        else on_world (ev_modify env (sl_sock slot) (sl_sweep_mask slot)) r
      else (None, r))"

fun apply_masks :: "'w env \<Rightarrow> nat \<Rightarrow> nat list \<Rightarrow> 'w Runner \<Rightarrow> exn option \<times> 'w Runner" where
  "apply_masks env generation [] r = (None, r)"
| "apply_masks env generation (k # ks) r =
     (case slot_of k (rn_registered_interest r) of
        None \<Rightarrow> (Some KeyError, r)
      | Some slot \<Rightarrow>
          if sl_generation slot \<noteq> generation \<or> sl_registered_mask slot = sl_sweep_mask slot
          then apply_masks env generation ks r
          else
            (case poller_apply env slot r of
               (Some e, r1) \<Rightarrow> (Some e, r1)
             | (None, r1) \<Rightarrow> apply_masks env generation ks
                 (r1\<lparr>rn_registered_interest := slot_update k (slot\<lparr>sl_registered_mask := sl_sweep_mask slot\<rparr>)
                   (rn_registered_interest r1)\<rparr>)))"

definition unregister_caught :: "exn \<Rightarrow> bool" where
  "unregister_caught e \<longleftrightarrow> e = KeyError \<or> is_OSError e \<or> is_ValueError e"

definition unregister_descriptor :: "'w env \<Rightarrow> int option \<Rightarrow> 'w Runner \<Rightarrow> exn option \<times> 'w Runner" where
  "unregister_descriptor env descriptor r =
     (case descriptor of
        None \<Rightarrow> (None, r)
      | Some d \<Rightarrow>
          if \<exists>(k, slot) \<in> set (rn_registered_interest r). sl_descriptor slot = Some d then (None, r)
          else case on_world (ev_unregister env (PollFd d)) r of
              (None, r1) \<Rightarrow> (None, r1)
            | (Some e, r1) \<Rightarrow> if unregister_caught e then (None, r1) else (Some e, r1))"

definition poller_drop :: "'w env \<Rightarrow> poll_slot \<Rightarrow> 'w Runner \<Rightarrow> exn option \<times> 'w Runner" where
  "poller_drop env slot r =
     (if rn_poller r then
        (case on_world (ev_unregister env (PollObj (sl_sock slot))) r of
           (None, r1) \<Rightarrow> (None, r1)
         | (Some e, r1) \<Rightarrow> if unregister_caught e then unregister_descriptor env (sl_descriptor slot) r1 else (Some e, r1))
      else (None, r))"

fun drop_stale :: "'w env \<Rightarrow> nat list \<Rightarrow> 'w Runner \<Rightarrow> exn option \<times> 'w Runner" where
  "drop_stale env [] r = (None, r)"
| "drop_stale env (k # ks) r =
     (case slot_of k (rn_registered_interest r) of
        None \<Rightarrow> (Some KeyError, r)
      | Some slot \<Rightarrow>
          (case poller_drop env slot
              (r\<lparr>rn_registered_interest := filter (\<lambda>(k', _). k' \<noteq> k) (rn_registered_interest r)\<rparr>) of
             (Some e, r1) \<Rightarrow> (Some e, r1)
           | (None, r1) \<Rightarrow> drop_stale env ks r1))"

definition sync_poll_set :: "'w env \<Rightarrow> int \<Rightarrow> 'w Runner \<Rightarrow> exn option \<times> 'w Runner" where
  "sync_poll_set env now_ms r =
     (let generation = rn_sweep_generation r + 1;
          r0 = r\<lparr>rn_sweep_generation := generation\<rparr> in
      case sweep env now_ms generation (rn_entries r0) 0 r0 of
        (Inl e, r1) \<Rightarrow> (Some e, r1)
      | (Inr wanted_count, r1) \<Rightarrow>
          (case apply_masks env generation (map fst (rn_registered_interest r1)) r1 of
             (Some e, r2) \<Rightarrow> (Some e, r2)
           | (None, r2) \<Rightarrow>
               if length (rn_registered_interest r2) > wanted_count
               then drop_stale env (map fst (filter (\<lambda>(_, slot). sl_generation slot \<noteq> generation)
                 (rn_registered_interest r2))) r2
               else (None, r2)))"

section \<open>Waiting\<close>

definition nearer :: "int option \<Rightarrow> int \<Rightarrow> int option" where
  "nearer nearest delta = (case nearest of None \<Rightarrow> Some delta | Some n \<Rightarrow> if delta < n then Some delta else nearest)"

fun timeout_loop :: "'w env \<Rightarrow> int \<Rightarrow> nat list \<Rightarrow> int option \<Rightarrow> 'w Runner \<Rightarrow> int option result \<times> 'w Runner" where
  "timeout_loop env now_ms [] nearest r = (Inr nearest, r)"
| "timeout_loop env now_ms (i # entries) nearest r =
     (let h = handle_at r i;
          nearest1 = (case th_next_due_ms h of None \<Rightarrow> nearest
            | Some due \<Rightarrow> nearer nearest (src_diff (ev_ticks env) due now_ms)) in
      case th_next_deadline h of
        None \<Rightarrow> timeout_loop env now_ms entries nearest1 r
      | Some f \<Rightarrow>
          (case on_world (ev_next_deadline env f now_ms) r of
             (Inl e, r1) \<Rightarrow> (Inl e, r1)
           | (Inr None, r1) \<Rightarrow> timeout_loop env now_ms entries nearest1 r1
           | (Inr (Some deadline), r1) \<Rightarrow>
               timeout_loop env now_ms entries (nearer nearest1 (src_diff (ev_ticks env) deadline now_ms)) r1))"

definition compute_timeout :: "'w env \<Rightarrow> int \<Rightarrow> 'w Runner \<Rightarrow> int option result \<times> 'w Runner" where
  "compute_timeout env now_ms r = timeout_loop env now_ms (rn_entries r) None r"

text \<open>The entry a poll event belongs to, among the snapshot of entries.\<close>

definition event_is_for :: "'w env \<Rightarrow> poll_key \<Rightarrow> nat \<Rightarrow> 'w \<Rightarrow> bool result" where
  "event_is_for env obj sock w = (case obj of
     PollObj s \<Rightarrow> Inr (s = sock)
   | PollFd d \<Rightarrow> (case ev_fileno env sock w of
       NoFileno \<Rightarrow> Inr False | FilenoRaises \<Rightarrow> Inl (OSError 9) | Fileno d' \<Rightarrow> Inr (d' = d)))"

fun dispatch_io_error :: "'w env \<Rightarrow> nat list \<Rightarrow> poll_key \<Rightarrow> int \<Rightarrow> int \<Rightarrow> 'w Runner \<Rightarrow> exn option \<times> 'w Runner" where
  "dispatch_io_error env [] obj eventmask now_ms r = (None, r)"
| "dispatch_io_error env (i # entries) obj eventmask now_ms r =
     (case Option.bind (th_service (handle_at r i)) (\<lambda>s. ev_io_socket env s (rn_world r)) of
        None \<Rightarrow> dispatch_io_error env entries obj eventmask now_ms r
      | Some sock \<Rightarrow>
          (case event_is_for env obj sock (rn_world r) of
             Inl e \<Rightarrow> (Some e, r)
           | Inr False \<Rightarrow> dispatch_io_error env entries obj eventmask now_ms r
           | Inr True \<Rightarrow>
               (case ev_io_error_of env (the (th_service (handle_at r i))) of
                  None \<Rightarrow> (None, r)
                | Some f \<Rightarrow>
                    (case ev_io_error env f now_ms eventmask r of
                       (None, r1) \<Rightarrow> (None, r1)
                     | (Some e, r1) \<Rightarrow> if is_Exception e then record_handler_fault env i e r1 else (Some e, r1)))))"

fun poll_events :: "'w env \<Rightarrow> int \<Rightarrow> (poll_key \<times> int) list \<Rightarrow> 'w Runner \<Rightarrow> exn option \<times> 'w Runner" where
  "poll_events env now_ms [] r = (None, r)"
| "poll_events env now_ms ((obj, eventmask) # items) r =
     (if eventmask AND POLL_ERROR_MASK \<noteq> 0 then
        (case dispatch_io_error env (rn_entries r) obj eventmask now_ms r of
           (Some e, r1) \<Rightarrow> (Some e, r1)
         | (None, r1) \<Rightarrow> poll_events env now_ms items r1)
      else poll_events env now_ms items r)"

fun replay_registrations :: "'w env \<Rightarrow> (nat \<times> poll_slot) list \<Rightarrow> 'w Runner \<Rightarrow> exn option \<times> 'w Runner" where
  "replay_registrations env [] r = (None, r)"
| "replay_registrations env ((_, slot) # slots) r =
     (case on_world (ev_register env (sl_sock slot) (sl_registered_mask slot)) r of
        (Some e, r1) \<Rightarrow> (Some e, r1)
      | (None, r1) \<Rightarrow> replay_registrations env slots r1)"

definition wait :: "'w env \<Rightarrow> int \<Rightarrow> 'w Runner \<Rightarrow> exn option \<times> 'w Runner" where
  "wait env now_ms r =
     (case sync_poll_set env now_ms r of
        (Some e, r1) \<Rightarrow> (Some e, r1)
      | (None, r1) \<Rightarrow>
          (case compute_timeout env now_ms r1 of
             (Inl e, r2) \<Rightarrow> (Some e, r2)
           | (Inr timeout_ms, r2) \<Rightarrow>
               if (case timeout_ms of Some t \<Rightarrow> t \<le> 0 | None \<Rightarrow> False) then (None, r2)
               else if rn_registered_interest r2 \<noteq> [] then
                 (case (if rn_poller r2 then (None, r2)
                        else replay_registrations env (rn_registered_interest r2) (r2\<lparr>rn_poller := True\<rparr>)) of
                    (Some e, r3) \<Rightarrow> (Some e, r3)
                  | (None, r3) \<Rightarrow>
                      let (items, r4) = on_world (ev_ipoll env (case timeout_ms of Some t \<Rightarrow> t | None \<Rightarrow> -1)) r3
                      in poll_events env now_ms items r4)
               else (case timeout_ms of
                   None \<Rightarrow> (None, r2)
                 | Some t \<Rightarrow> (None, r2\<lparr>rn_world := ev_sleep_ms env t (rn_world r2)\<rparr>))))"

text \<open>
  \<open>run_until\<close>: \<open>stop\<close> is what the loop asks between ticks (the handle's \<^verbatim>\<open>done\<close> and error, or the
  predicate); \<open>fuel\<close> bounds the turns and \<open>None\<close> is a loop that has not returned yet.
\<close>

datatype until_answer = KeepGoing | Finished | Died exn

fun run_until_loop :: "nat \<Rightarrow> 'w env \<Rightarrow> ('w Runner \<Rightarrow> until_answer \<times> 'w Runner) \<Rightarrow> int option \<Rightarrow> 'w Runner
    \<Rightarrow> (bool result \<times> 'w Runner) option" where
  "run_until_loop 0 env stop deadline r = None"
| "run_until_loop (Suc fuel) env stop deadline r =
     (case tick env r of
        (Inl e, r1) \<Rightarrow> Some (Inl e, r1)
      | (Inr now_ms, r1) \<Rightarrow>
          (case stop r1 of
             (Died e, r2) \<Rightarrow> Some (Inl e, r2)
           | (Finished, r2) \<Rightarrow> Some (Inr True, r2)
           | (KeepGoing, r2) \<Rightarrow>
               if (case deadline of Some d \<Rightarrow> src_diff (ev_ticks env) now_ms d \<ge> 0 | None \<Rightarrow> False)
               then Some (Inr False, r2)
               else case wait env now_ms r2 of
                   (Some e, r3) \<Rightarrow> Some (Inl e, r3)
                 | (None, r3) \<Rightarrow> run_until_loop fuel env stop deadline r3))"

definition run_until :: "nat \<Rightarrow> 'w env \<Rightarrow> ('w Runner \<Rightarrow> until_answer \<times> 'w Runner) \<Rightarrow> int option \<Rightarrow> 'w Runner
    \<Rightarrow> (bool result \<times> 'w Runner) option" where
  "run_until fuel env stop timeout_ms r =
     (case timeout_ms of
        None \<Rightarrow> run_until_loop fuel env stop None r
      | Some t \<Rightarrow>
          let (now_ms, r1) = on_world (ev_ticks_ms env) r in
          case src_add (ev_ticks env) now_ms t of
            Inl e \<Rightarrow> Some (Inl e, r1)
          | Inr deadline \<Rightarrow> run_until_loop fuel env stop (Some deadline) r1)"

section \<open>Invariant\<close>

text \<open>
  A handle is active exactly while it is registered; registered handles are distinct objects
  with runs left, and every period is positive.
\<close>

definition handle_ok :: "TaskHandle \<Rightarrow> bool" where
  "handle_ok h \<longleftrightarrow> (\<forall>p. th_period_ms h = Some p \<longrightarrow> 0 < p)
     \<and> (th_active h \<longrightarrow> (\<forall>c. th_run_count h = Some c \<longrightarrow> 0 < c))"

definition rn_inv :: "'w Runner \<Rightarrow> bool" where
  "rn_inv r \<longleftrightarrow> distinct (rn_entries r) \<and> set (rn_entries r) \<subseteq> {..<length (rn_heap r)}
     \<and> (\<forall>i < length (rn_heap r). handle_ok (handle_at r i) \<and> (th_active (handle_at r i) \<longleftrightarrow> i \<in> set (rn_entries r)))
     \<and> (\<forall>i. Some i \<in> set (rn_pending r) \<longrightarrow> i < length (rn_heap r))"

lemma rn_inv_init: "rn_inv (Runner_init cb po w)"
  by (simp add: rn_inv_def Runner_init_def)

text \<open>Fields that the invariant does not read.\<close>

lemma rn_inv_cong:
  "rn_heap r' = rn_heap r \<Longrightarrow> rn_entries r' = rn_entries r \<Longrightarrow> rn_pending r' = rn_pending r \<Longrightarrow> rn_inv r' = rn_inv r"
  by (simp add: rn_inv_def)

text \<open>A run of the runner never frees a handle.\<close>

definition grows :: "'w Runner \<Rightarrow> 'w Runner \<Rightarrow> bool" where
  "grows r r' \<longleftrightarrow> (rn_inv r \<longrightarrow> rn_inv r') \<and> length (rn_heap r) \<le> length (rn_heap r') \<and> rn_pending r' = rn_pending r"

lemma grows_refl [simp]: "grows r r" by (simp add: grows_def)

lemma grows_trans [trans]: "grows a b \<Longrightarrow> grows b c \<Longrightarrow> grows a c" by (auto simp: grows_def)

lemma grows_same:
  "rn_heap r' = rn_heap r \<Longrightarrow> rn_entries r' = rn_entries r \<Longrightarrow> rn_pending r' = rn_pending r \<Longrightarrow> grows r r'"
  using rn_inv_cong [of r' r] by (simp add: grows_def)

lemma on_world_sel [simp]:
  "rn_heap (snd (on_world f r)) = rn_heap r" "rn_entries (snd (on_world f r)) = rn_entries r"
  "rn_pending (snd (on_world f r)) = rn_pending r" "rn_ticking (snd (on_world f r)) = rn_ticking r"
  "rn_registered_interest (snd (on_world f r)) = rn_registered_interest r"
  "rn_poller (snd (on_world f r)) = rn_poller r" "rn_sweep_generation (snd (on_world f r)) = rn_sweep_generation r"
  by (simp_all add: on_world_def split: prod.split)

lemma grows_on_world: "on_world f r = (x, r') \<Longrightarrow> grows r r'"
  by (metis grows_same on_world_sel(1-3) snd_conv)

text \<open>Replacing a handle by one with the same activity.\<close>

lemma grows_set_handle:
  assumes "i < length (rn_heap r)" "rn_inv r \<Longrightarrow> handle_ok h" "th_active h = th_active (handle_at r i)"
  shows "grows r (set_handle r i h)"
  using assms by (auto simp: grows_def rn_inv_def set_handle_def nth_list_update)

lemma grows_remove:
  assumes "i < length (rn_heap r)"
  shows "grows r (remove i r)"
  using assms by (auto simp: grows_def rn_inv_def remove_def set_handle_def nth_list_update handle_ok_def set_remove1_eq)

lemma grows_add: "grows r (snd (add env task handler period_ms start_after_ms run_count preserve_phase r))"
proof -
  obtain d r1 where d: "initial_next_due_ms env start_after_ms period_ms r = (d, r1)" by fastforce
  then have g: "grows r r1"
    by (auto simp: initial_next_due_ms_def split: option.splits prod.splits dest: grows_on_world)
  have step: "grows r1 (r1\<lparr>rn_heap := rn_heap r1 @ [h], rn_entries := rn_entries r1 @ [length (rn_heap r1)]\<rparr>)"
    if "handle_ok h" "th_active h" for h
    using that by (auto simp: grows_def rn_inv_def nth_append less_Suc_eq)
  show ?thesis
  proof (cases "\<exists>x. fst (add env task handler period_ms start_after_ms run_count preserve_phase r) = Inr x")
    case True
    then show ?thesis
      using d by (auto simp: add_def Let_def handle_ok_def split: if_splits option.splits sum.splits
          intro!: grows_trans [OF g step])
  next
    case False
    then show ?thesis
      using d g by (auto simp: add_def Let_def split: if_splits option.splits sum.splits)
  qed
qed

lemma grows_set_period:
  assumes i: "i < length (rn_heap r)"
  shows "grows r (snd (set_period env i period_ms now_ms r))"
proof (cases "case period_ms of Some p \<Rightarrow> p \<le> 0 | None \<Rightarrow> False")
  case False
  define r1 where "r1 = set_handle r i ((handle_at r i)\<lparr>th_period_ms := period_ms\<rparr>)"
  have ok: "rn_inv q \<Longrightarrow> j < length (rn_heap q) \<Longrightarrow> handle_ok (handle_at q j)" for q :: "'a Runner" and j
    by (simp add: rn_inv_def)
  have g1: "grows r r1"
    using i False ok [of r i] unfolding r1_def
    by (intro grows_set_handle) (auto simp: handle_ok_def split: option.splits)
  have due: "grows r (set_handle r2 i ((handle_at r2 i)\<lparr>th_next_due_ms := d\<rparr>))" if "grows r r2" for r2 d
    using that i ok [of r2 i] by (intro grows_trans [OF that grows_set_handle]) (auto simp: grows_def handle_ok_def)
  obtain now r2 where n: "(case now_ms of Some n \<Rightarrow> (n, r1) | None \<Rightarrow> on_world (ev_ticks_ms env) r1) = (now, r2)" by fastforce
  then have g2: "grows r r2" using g1 by (auto split: option.splits dest: grows_on_world grows_trans)
  show ?thesis
    using False g1 g2 due n by (auto simp: set_period_def r1_def [symmetric] split: option.splits sum.splits prod.splits)
qed (simp add: set_period_def)

section \<open>Handlers that use the public interface\<close>

datatype 'w api_call =
    ApiAdd "task_object option" "nat option" "int option" "int option" "int option" bool
  | ApiAddPeriodic nat "int option" "int option" "int option" bool
  | ApiSetPeriod nat "int option" "int option"
  | ApiRemove nat
  | ApiWorld "'w \<Rightarrow> 'w"

text \<open>Handles come from the runner, so a call names one it made.\<close>

fun api_step :: "'w env \<Rightarrow> 'w api_call \<Rightarrow> 'w Runner \<Rightarrow> 'w Runner" where
  "api_step env (ApiAdd t h p s c ph) r = snd (add env t h p s c ph r)"
| "api_step env (ApiAddPeriodic h p s c ph) r = snd (add_periodic env h p s c ph r)"
| "api_step env (ApiSetPeriod i p n) r = (if i < length (rn_heap r) then snd (set_period env i p n r) else r)"
| "api_step env (ApiRemove i) r = (if i < length (rn_heap r) then remove i r else r)"
| "api_step env (ApiWorld f) r = r\<lparr>rn_world := f (rn_world r)\<rparr>"

lemma grows_api_step: "grows r (api_step env c r)"
  by (cases c) (auto simp: grows_add grows_set_period grows_remove add_periodic_def intro: grows_same)

definition by_api :: "'w env \<Rightarrow> 'w Runner \<Rightarrow> 'w Runner \<Rightarrow> bool" where
  "by_api env r r' \<longleftrightarrow> (\<exists>calls. r' = fold (api_step env) calls r)"

lemma grows_by_api:
  assumes "by_api env r r'"
  shows "grows r r'"
proof -
  have "grows q (fold (api_step env) calls q)" for q calls
    by (induction calls arbitrary: q) (auto intro: grows_trans grows_api_step)
  with assms show ?thesis by (auto simp: by_api_def)
qed

definition uses_api :: "'w env \<Rightarrow> bool" where
  "uses_api env \<longleftrightarrow> (\<forall>f now r. by_api env r (snd (ev_handler env f now r)))
     \<and> (\<forall>f i e r. by_api env r (snd (ev_on_error env f i e r)))
     \<and> (\<forall>f now m r. by_api env r (snd (ev_io_error env f now m r)))"

lemma grows_record_fault:
  assumes "uses_api env"
  shows "grows r (snd (record_handler_fault env i e r))"
proof -
  let ?r1 = "r\<lparr>rn_handler_errors := rn_handler_errors r + 1, rn_last_handler_error := Some e\<rparr>"
  have g1: "grows r ?r1" by (rule grows_same) auto
  have cb: "grows ?r1 (snd (ev_on_error env f i e ?r1))" for f
    using assms by (intro grows_by_api [of env]) (simp add: uses_api_def)
  show ?thesis
  proof (cases "rn_on_handler_error ?r1")
    case None
    with g1 show ?thesis by (simp add: record_handler_fault_def)
  next
    case (Some f)
    obtain x r2 where x: "ev_on_error env f i e ?r1 = (x, r2)" by fastforce
    have "grows r r2" using grows_trans [OF g1 cb [of f]] x by simp
    moreover have "grows r2 (r2\<lparr>rn_handler_errors := n, rn_last_handler_error := Some y\<rparr>)" for n y
      by (rule grows_same) auto
    ultimately show ?thesis using Some x
      by (auto simp: record_handler_fault_def intro: grows_trans split: option.split)
  qed
qed

lemma grows_call_handler:
  assumes "uses_api env"
  shows "grows r (snd (call_handler env now i r))"
proof -
  obtain x r1 where x: "ev_handler env (th_handler_function (handle_at r i)) now r = (x, r1)" by fastforce
  then have "grows r r1" using assms by (metis grows_by_api snd_conv uses_api_def)
  with x grows_record_fault [OF assms, of r1] show ?thesis
    by (auto simp: call_handler_def intro: grows_trans split: option.split)
qed


text \<open>Counting a run keeps the invariant: the last one unregisters the entry.\<close>

lemma count_run_inv:
  assumes "rn_inv r" "i < length (rn_heap r)"
  shows "rn_inv (count_run i r)" "length (rn_heap (count_run i r)) = length (rn_heap r)" "rn_pending (count_run i r) = rn_pending r"
proof -
  show "length (rn_heap (count_run i r)) = length (rn_heap r)" "rn_pending (count_run i r) = rn_pending r"
    by (auto simp: count_run_def Let_def remove_def set_handle_def split: option.split)
  show "rn_inv (count_run i r)"
  proof (cases "th_run_count (handle_at r i)")
    case None
    then show ?thesis using assms by (simp add: count_run_def)
  next
    case (Some c)
    show ?thesis
    proof (cases "c - 1 \<le> 0")
      case True
      with Some assms show ?thesis
        by (auto simp: count_run_def Let_def rn_inv_def remove_def set_handle_def nth_list_update handle_ok_def set_remove1_eq)
    next
      case False
      with Some assms show ?thesis
        by (auto simp: count_run_def Let_def rn_inv_def set_handle_def nth_list_update handle_ok_def)
    qed
  qed
qed

lemma advance_due_ok:
  "advance_due tk now h = Inr (b, h') \<Longrightarrow> handle_ok h' = handle_ok h \<and> th_active h' = th_active h
     \<and> th_check_function h' = th_check_function h \<and> th_handler_function h' = th_handler_function h
     \<and> th_run_count h' = th_run_count h \<and> th_period_ms h' = th_period_ms h"
  by (auto simp: advance_due_def Let_def handle_ok_def result_simps split: option.splits if_splits)

lemma push_pending_inv: "rn_inv r \<Longrightarrow> i < length (rn_heap r) \<Longrightarrow> rn_inv (push_pending n i r)"
  by (auto simp: rn_inv_def push_pending_def dest: set_update_subset_insert [THEN subsetD])

lemma push_pending_heap [simp]: "rn_heap (push_pending n i r) = rn_heap r"
  by (simp add: push_pending_def)

lemma collect_inv:
  assumes "rn_inv r" "set is \<subseteq> {..<length (rn_heap r)}"
  shows "rn_inv (snd (collect env now is n r)) \<and> length (rn_heap (snd (collect env now is n r))) = length (rn_heap r)"
  using assms
proof (induction "is" arbitrary: n r)
  case (Cons i "is")
  have i: "i < length (rn_heap r)" using Cons.prems by simp
  show ?case
  proof (cases "advance_due (ev_ticks env) now (handle_at r i)")
    case (Inl e)
    then show ?thesis using Cons.prems by simp
  next
    case (Inr bh)
    obtain b h where bh: "bh = (b, h)" by (cases bh)
    define r1 where "r1 = set_handle r i h"
    have r1: "rn_inv r1" "length (rn_heap r1) = length (rn_heap r)"
      using grows_set_handle [OF i, of h] advance_due_ok [OF Inr [unfolded bh]] Cons.prems i
      by (auto simp: r1_def grows_def rn_inv_def set_handle_def)
    have w: "rn_inv q \<and> length (rn_heap q) = length (rn_heap r)" if "on_world f r1 = (x, q)" for f x q
      using that r1 on_world_sel(1-3) [of f r1] rn_inv_cong [of q r1] by simp
    have p: "rn_inv (push_pending n i q)" "length (rn_heap (push_pending n i q)) = length (rn_heap r)"
      if "rn_inv q" "length (rn_heap q) = length (rn_heap r)" for q :: "'a Runner"
      using push_pending_inv [of q i n] that i by (simp_all add: push_pending_heap)
    note IH = Cons.IH
    show ?thesis
    proof (cases "b \<and> th_check_function h \<noteq> None")
      case True
      then obtain c where c: "th_check_function h = Some c" by blast
      obtain x r2 where x: "on_world (ev_check env c now) r1 = (x, r2)" by fastforce
      note w2 = w [OF x]
      show ?thesis
        using Inr bh True c x w2 Cons.prems(2) IH [of r2 n] IH [of "push_pending n i r2" "n + 1"] p [of r2]
        by (auto simp: r1_def [symmetric] split: sum.splits)
    next
      case False
      then show ?thesis
        using Inr bh r1 Cons.prems(2) IH [of r1 n] IH [of "push_pending n i r1" "n + 1"] p [of r1]
        by (auto simp: r1_def [symmetric] Let_def)
    qed
  qed
qed simp

lemma fire_inv:
  assumes "uses_api env" "rn_inv r"
  shows "rn_inv (snd (fire env now k m r))"
  using assms(2)
proof (induction m arbitrary: k r)
  case (Suc m)
  show ?case
  proof (cases "k < length (rn_pending r) \<and> rn_pending r ! k \<noteq> None")
    case True
    then obtain i where i: "k < length (rn_pending r)" "rn_pending r ! k = Some i" by blast
    then have il: "i < length (rn_heap r)" using Suc.prems by (metis nth_mem rn_inv_def)
    obtain x r1 where x: "call_handler env now i r = (x, r1)" by fastforce
    have g: "grows r r1" using grows_call_handler [OF assms(1), of r now i] x by simp
    then have r1: "rn_inv r1" "i < length (rn_heap r1)" using Suc.prems il by (auto simp: grows_def)
    show ?thesis
      using i x r1 Suc.IH [OF count_run_inv(1) [OF r1]] by (cases x) auto
  next
    case False
    then show ?thesis using Suc.prems by (auto split: option.splits)
  qed
qed simp

lemma tick_inv:
  assumes "uses_api env" "rn_inv r"
  shows "rn_inv (snd (tick env r))"
proof (cases "rn_ticking r")
  case False
  obtain now r1 where t: "on_world (ev_ticks_ms env) (r\<lparr>rn_ticking := True\<rparr>) = (now, r1)" by fastforce
  have "grows (r\<lparr>rn_ticking := True\<rparr>) r1" using grows_on_world [OF t] .
  then have r1: "rn_inv r1" using assms(2) grows_same [of "r\<lparr>rn_ticking := True\<rparr>" r] by (simp add: grows_def)
  have e: "rn_inv (end_tick q)" if "rn_inv q" for q :: "'a Runner" using that by (auto simp: end_tick_def rn_inv_def)
  obtain x r2 where c: "collect env now (rn_entries r1) 0 r1 = (x, r2)" by fastforce
  then have r2: "rn_inv r2" using collect_inv [OF r1, of "rn_entries r1" env now 0] r1 by (auto simp: rn_inv_def)
  have f: "rn_inv r3" if "fire env now 0 m r2 = (y, r3)" for m y r3
    using fire_inv [OF assms(1) r2, of now 0 m] that by simp
  show ?thesis
    using False t c e r2 by (auto simp: tick_def split: sum.splits prod.splits option.splits dest!: f)
qed (simp add: tick_def assms)


section \<open>The poll sweep and the wait leave the tasks alone\<close>

definition same_tasks :: "'w Runner \<Rightarrow> 'w Runner \<Rightarrow> bool" where
  "same_tasks r r' \<longleftrightarrow> rn_heap r' = rn_heap r \<and> rn_entries r' = rn_entries r \<and> rn_pending r' = rn_pending r
     \<and> rn_on_handler_error r' = rn_on_handler_error r"

lemma same_tasks_refl [simp]: "same_tasks r r" by (simp add: same_tasks_def)

lemma same_tasks_trans [trans]: "same_tasks a b \<Longrightarrow> same_tasks b c \<Longrightarrow> same_tasks a c"
  by (simp add: same_tasks_def)

lemma same_tasks_world: "on_world f r = (x, r') \<Longrightarrow> same_tasks r r'"
  by (auto simp: same_tasks_def on_world_def split: prod.splits)

lemma same_tasks_slots [simp]: "same_tasks r (r\<lparr>rn_registered_interest := s\<rparr>)"
  by (simp add: same_tasks_def)

lemma want_same: "same_tasks r (snd (want env g sock m r))"
  by (simp add: want_def Let_def split: option.split)

lemma sweep_same: "same_tasks r (snd (sweep env now g is n r))"
proof (induction "is" arbitrary: n r)
  case (Cons i "is")
  have w: "same_tasks r r'" if "want env g sock m r1 = (k, r')" "on_world f r = (x, r1)" for sock m k f x r1 r'
    using want_same [of r1 env g sock m] same_tasks_world [OF that(2)] that(1) by (auto intro: same_tasks_trans)
  show ?case
    by (auto simp: Let_def split: option.split prod.split sum.split
        intro!: same_tasks_trans [OF _ Cons] intro: same_tasks_trans same_tasks_world w)
qed simp

lemma poller_apply_same: "same_tasks r (snd (poller_apply env slot r))"
  by (auto simp: poller_apply_def same_tasks_def on_world_def split: prod.split)

lemma apply_masks_same: "same_tasks r (snd (apply_masks env g ks r))"
proof (induction ks arbitrary: r)
  case (Cons k ks)
  have p: "same_tasks r (r1\<lparr>rn_registered_interest := s\<rparr>)" "same_tasks r r1" if "poller_apply env slot r = (x, r1)" for slot x r1 s
    using poller_apply_same [of r env slot] that by (auto simp: same_tasks_def)
  show ?case
  proof (cases "slot_of k (rn_registered_interest r)")
    case (Some slot)
    obtain x r1 where x: "poller_apply env slot r = (x, r1)" by fastforce
    show ?thesis
    proof (cases x)
      case None
      note t = same_tasks_trans [OF p(1) [OF x] Cons]
      show ?thesis using Some x None Cons t by simp
    qed (use Some x Cons p in simp)
  qed simp
qed simp

lemma unregister_descriptor_same: "same_tasks r (snd (unregister_descriptor env d r))"
  by (auto simp: unregister_descriptor_def same_tasks_def on_world_def split: option.split prod.split)

lemma poller_drop_same: "same_tasks r (snd (poller_drop env slot r))"
proof -
  obtain x r1 where x: "on_world (ev_unregister env (PollObj (sl_sock slot))) r = (x, r1)" by fastforce
  have "same_tasks r r1" "same_tasks r (snd (unregister_descriptor env (sl_descriptor slot) r1))"
    using same_tasks_world [OF x] unregister_descriptor_same by (auto intro: same_tasks_trans)
  then show ?thesis using x by (auto simp: poller_drop_def split: option.split)
qed

lemma drop_stale_same: "same_tasks r (snd (drop_stale env ks r))"
proof (induction ks arbitrary: r)
  case (Cons k ks)
  have p: "same_tasks r r1" if "poller_drop env slot (r\<lparr>rn_registered_interest := s\<rparr>) = (x, r1)" for slot x r1 s
    using poller_drop_same [of "r\<lparr>rn_registered_interest := s\<rparr>" env slot] that by (simp add: same_tasks_def)
  show ?case
    using Cons by (auto split: option.split prod.split intro: p same_tasks_trans [OF p Cons])
qed simp

lemma sync_poll_set_same: "same_tasks r (snd (sync_poll_set env now r))"
proof -
  define g where "g = rn_sweep_generation r + 1"
  define r0 where "r0 = r\<lparr>rn_sweep_generation := g\<rparr>"
  obtain x r1 where x: "sweep env now g (rn_entries r0) 0 r0 = (x, r1)" by fastforce
  obtain y r2 where y: "apply_masks env g (map fst (rn_registered_interest r1)) r1 = (y, r2)" by fastforce
  have 1: "same_tasks r r1" using sweep_same [of r0 env now g "rn_entries r0" 0] x by (simp add: r0_def same_tasks_def)
  have 2: "same_tasks r r2" using 1 apply_masks_same [of r1 env g "map fst (rn_registered_interest r1)"] y by (auto intro: same_tasks_trans)
  have 3: "same_tasks r (snd (drop_stale env ks r2))" for ks using 2 drop_stale_same by (rule same_tasks_trans)
  show ?thesis
    unfolding sync_poll_set_def Let_def g_def [symmetric] r0_def [symmetric]
    using x y 1 2 3 by (auto split: sum.split option.split)
qed

lemma timeout_loop_same: "same_tasks r (snd (timeout_loop env now is n r))"
proof (induction "is" arbitrary: n r)
  case (Cons i "is")
  show ?case
    using Cons by (auto simp: Let_def split: option.split prod.split sum.split dest!: same_tasks_world intro: same_tasks_trans)
qed simp

lemma replay_same: "same_tasks r (snd (replay_registrations env s r))"
proof (induction s arbitrary: r)
  case (Cons a s)
  then show ?case
    by (cases a) (auto split: option.split prod.split dest!: same_tasks_world intro: same_tasks_trans)
qed simp

lemma same_tasks_grows: "same_tasks r r' \<Longrightarrow> grows r r'"
  by (auto simp: same_tasks_def intro: grows_same)

lemma grows_dispatch_io_error:
  assumes "uses_api env"
  shows "grows r (snd (dispatch_io_error env is obj m now r))"
proof (induction "is")
  case (Cons i "is")
  have g: "grows r r1" if "ev_io_error env f now m r = (x, r1)" for f x r1
    using assms that by (metis grows_by_api snd_conv uses_api_def)
  have f: "grows r (snd (record_handler_fault env i e r1))" if "ev_io_error env f now m r = (x, r1)" for f x r1 e
    using grows_trans [OF g [OF that] grows_record_fault [OF assms]] .
  show ?case
    using Cons g f by (auto split: option.split sum.split bool.split prod.split)
qed simp

lemma grows_poll_events:
  assumes "uses_api env"
  shows "grows r (snd (poll_events env now items r))"
proof (induction items arbitrary: r)
  case (Cons item items)
  obtain obj m where item: "item = (obj, m)" by (cases item)
  obtain x r1 where x: "dispatch_io_error env (rn_entries r) obj m now r = (x, r1)" by fastforce
  have "grows r r1" using grows_dispatch_io_error [OF assms, of r "rn_entries r" obj m now] x by simp
  then show ?case using Cons [of r] Cons [of r1] x item by (cases x) (auto intro: grows_trans)
qed simp

lemma wait_inv:
  assumes "uses_api env" "rn_inv r"
  shows "rn_inv (snd (wait env now r))"
proof -
  obtain x r1 where x: "sync_poll_set env now r = (x, r1)" by fastforce
  obtain y r2 where y: "compute_timeout env now r1 = (y, r2)" by fastforce
  have 1: "same_tasks r r1" using sync_poll_set_same [of r env now] x by simp
  have 2: "same_tasks r r2"
    using timeout_loop_same [of r1 env now "rn_entries r1" None] y 1 by (auto simp: compute_timeout_def intro: same_tasks_trans)
  have 3: "same_tasks r r3" if "(if rn_poller r2 then (None, r2)
      else replay_registrations env (rn_registered_interest r2) (r2\<lparr>rn_poller := True\<rparr>)) = (z, r3)" for z r3
    using 2 replay_same [of "r2\<lparr>rn_poller := True\<rparr>" env "rn_registered_interest r2"] that
    by (auto simp: same_tasks_def split: if_splits)
  have inv: "rn_inv q" if "same_tasks r q" for q
    using same_tasks_grows [OF that] assms(2) by (simp add: grows_def)
  have ev: "rn_inv (snd (poll_events env now items q))" if "rn_inv q" for items q
    using grows_poll_events [OF assms(1), of q now items] that by (simp add: grows_def)
  have w: "rn_inv q'" if "on_world f q = (z, q')" "rn_inv q" for f q z q'
    using grows_on_world [OF that(1)] that(2) by (simp add: grows_def)
  obtain z r3 where z: "(if rn_poller r2 then (None, r2)
      else replay_registrations env (rn_registered_interest r2) (r2\<lparr>rn_poller := True\<rparr>)) = (z, r3)" by fastforce
  have i: "rn_inv r1" "rn_inv r2" "rn_inv r3" using inv [OF 1] inv [OF 2] inv [OF 3 [OF z]] by auto
  have s: "rn_inv (r2\<lparr>rn_world := v\<rparr>)" for v using i(2) rn_inv_cong [of "r2\<lparr>rn_world := v\<rparr>" r2] by simp
  have "rn_inv (snd (case on_world f r3 of (items, r4) \<Rightarrow> poll_events env now items r4))" for f
    using w [of f r3] i(3) ev by (auto split: prod.split)
  then show ?thesis
    using x y z i s by (auto simp: wait_def Let_def split: option.split sum.split)
qed

section \<open>Reachable runners\<close>

inductive reachable :: "'w env \<Rightarrow> 'w Runner \<Rightarrow> bool" for env where
  init: "reachable env (Runner_init cb po w)"
| api: "reachable env r \<Longrightarrow> reachable env (api_step env c r)"
| tick: "reachable env r \<Longrightarrow> reachable env (snd (tick env r))"
| wait: "reachable env r \<Longrightarrow> reachable env (snd (wait env now r))"

lemma reachable_inv: "reachable env r \<Longrightarrow> uses_api env \<Longrightarrow> rn_inv r"
proof (induction rule: reachable.induct)
  case (api r c)
  then show ?case using grows_api_step [of r env c] by (simp add: grows_def)
qed (simp_all add: rn_inv_init tick_inv wait_inv)

section \<open>Which entries fire\<close>

text \<open>Checks and hooks that only read the world, and handlers whose faults are ordinary exceptions.\<close>

definition quiet_checks :: "'w env \<Rightarrow> (nat \<Rightarrow> int \<Rightarrow> 'w \<Rightarrow> bool) \<Rightarrow> bool" where
  "quiet_checks env chk \<longleftrightarrow> (\<forall>c now w. ev_check env c now w = (Inr (chk c now w), w))"

definition ordinary :: "exn option \<Rightarrow> bool" where
  "ordinary e \<longleftrightarrow> (case e of None \<Rightarrow> True | Some x \<Rightarrow> is_Exception x \<and> x \<noteq> ReentrantTickError)"

definition ordinary_faults :: "'w env \<Rightarrow> bool" where
  "ordinary_faults env \<longleftrightarrow> (\<forall>f now r. ordinary (fst (ev_handler env f now r)))
     \<and> (\<forall>f i e r. ordinary (fst (ev_on_error env f i e r)))"

definition selected :: "'w env \<Rightarrow> (nat \<Rightarrow> int \<Rightarrow> 'w \<Rightarrow> bool) \<Rightarrow> int \<Rightarrow> 'w \<Rightarrow> TaskHandle \<Rightarrow> bool" where
  "selected env chk now w h \<longleftrightarrow>
     (case th_next_due_ms h of None \<Rightarrow> True | Some due \<Rightarrow> 0 \<le> src_diff (ev_ticks env) now due)
     \<and> (case th_check_function h of None \<Rightarrow> True | Some c \<Rightarrow> chk c now w)"

definition advanced :: "'w env \<Rightarrow> int \<Rightarrow> TaskHandle \<Rightarrow> TaskHandle" where
  "advanced env now h = (case advance_due (ev_ticks env) now h of Inr (b, h') \<Rightarrow> h' | Inl e \<Rightarrow> h)"

definition can_advance :: "'w env \<Rightarrow> int \<Rightarrow> TaskHandle \<Rightarrow> bool" where
  "can_advance env now h \<longleftrightarrow> (\<exists>x. advance_due (ev_ticks env) now h = Inr x)"

lemma advance_due_go:
  "advance_due tk now h = Inr (b, h') \<Longrightarrow>
   b = (case th_next_due_ms h of None \<Rightarrow> True | Some due \<Rightarrow> 0 \<le> src_diff tk now due)"
  by (auto simp: advance_due_def Let_def result_simps split: option.splits if_splits)

text \<open>Nothing but handles and pending slots differs.\<close>

definition tasks_only :: "'w Runner \<Rightarrow> 'w Runner \<Rightarrow> bool" where
  "tasks_only r r' \<longleftrightarrow> r'\<lparr>rn_heap := [], rn_pending := []\<rparr> = r\<lparr>rn_heap := [], rn_pending := []\<rparr>"

lemma tasks_onlyD:
  assumes "tasks_only r r'"
  shows "rn_entries r' = rn_entries r" "rn_world r' = rn_world r" "rn_handler_errors r' = rn_handler_errors r"
  using arg_cong [OF assms [unfolded tasks_only_def], of rn_entries] arg_cong [OF assms [unfolded tasks_only_def], of rn_world]
    arg_cong [OF assms [unfolded tasks_only_def], of rn_handler_errors] by simp_all

lemma collect_spec:
  assumes "distinct is" "set is \<subseteq> {..<length (rn_heap r)}" "\<forall>i \<in> set is. can_advance env now (handle_at r i)"
    "quiet_checks env chk" "n \<le> length (rn_pending r)"
  shows "\<exists>r'. collect env now is n r =
      (Inr (n + length (filter (\<lambda>i. selected env chk now (rn_world r) (handle_at r i)) is)), r')
    \<and> take (n + length (filter (\<lambda>i. selected env chk now (rn_world r) (handle_at r i)) is)) (rn_pending r')
      = take n (rn_pending r) @ map Some (filter (\<lambda>i. selected env chk now (rn_world r) (handle_at r i)) is)
    \<and> length (rn_heap r') = length (rn_heap r)
    \<and> (\<forall>i < length (rn_heap r). handle_at r' i = (if i \<in> set is then advanced env now (handle_at r i) else handle_at r i))
    \<and> tasks_only r r'"
  using assms
proof (induction "is" arbitrary: n r)
  case (Cons i "is")
  obtain b h where a: "advance_due (ev_ticks env) now (handle_at r i) = Inr (b, h)"
    using Cons.prems(3) by (force simp: can_advance_def)
  define r1 where "r1 = set_handle r i h"
  define go where "go = selected env chk now (rn_world r) (handle_at r i)"
  define r2 where "r2 = (if go then push_pending n i r1 else r1)"
  define n2 where "n2 = (if go then n + 1 else n)"
  have i: "i < length (rn_heap r)" "i \<notin> set is" using Cons.prems by auto
  have h: "h = advanced env now (handle_at r i)" using a by (simp add: advanced_def)
  have go: "go = (b \<and> (case th_check_function h of None \<Rightarrow> True | Some c \<Rightarrow> chk c now (rn_world r)))"
    using advance_due_go [OF a] advance_due_ok [OF a] by (simp add: go_def selected_def)
  have step: "collect env now (i # is) n r = collect env now is n2 r2"
  proof -
    have "on_world (ev_check env c now) r1 = (Inr (chk c now (rn_world r)), r1)" for c
      using Cons.prems(4) by (simp add: on_world_def quiet_checks_def r1_def set_handle_def)
    then show ?thesis using a go by (auto simp: r1_def [symmetric] r2_def n2_def split: option.splits)
  qed
  have r2: "rn_heap r2 = (rn_heap r)[i := h]" "rn_world r2 = rn_world r" "n2 \<le> length (rn_pending r2)"
    "take n2 (rn_pending r2) = take n (rn_pending r) @ (if go then [Some i] else [])"
    "tasks_only r r2"
    using Cons.prems(5) by (auto simp: tasks_only_def r2_def r1_def set_handle_def push_pending_def n2_def take_Suc_conv_app_nth)
  have same: "handle_at r2 j = handle_at r j" if "j \<in> set is" for j
    using that i r2(1) by (metis nth_list_update_neq)
  define sel where "sel = filter (\<lambda>i. selected env chk now (rn_world r) (handle_at r i)) is"
  have sel2: "filter (\<lambda>i. selected env chk now (rn_world r2) (handle_at r2 i)) is = sel"
    unfolding sel_def r2(2) using same by (intro filter_cong) auto
  have "distinct is" "set is \<subseteq> {..<length (rn_heap r2)}" "\<forall>i \<in> set is. can_advance env now (handle_at r2 i)"
    using Cons.prems r2(1) same by auto
  from Cons.IH [OF this Cons.prems(4) r2(3), unfolded sel2] obtain r' where
    1: "collect env now is n2 r2 = (Inr (n2 + length sel), r')"
      "take (n2 + length sel) (rn_pending r') = take n2 (rn_pending r2) @ map Some sel"
      "length (rn_heap r') = length (rn_heap r2)"
      "\<forall>j < length (rn_heap r2). handle_at r' j = (if j \<in> set is then advanced env now (handle_at r2 j) else handle_at r2 j)"
      "tasks_only r2 r'" by blast
  have "handle_at r' j = (if j \<in> set (i # is) then advanced env now (handle_at r j) else handle_at r j)"
    if "j < length (rn_heap r)" for j
    using 1(4) that r2(1) i h same by (auto simp: nth_list_update)
  moreover have "filter (\<lambda>i. selected env chk now (rn_world r) (handle_at r i)) (i # is) = (if go then i # sel else sel)"
    by (simp add: go_def sel_def)
  moreover have "tasks_only r r'" using 1(5) r2(5) by (simp add: tasks_only_def)
  ultimately show ?case using 1 r2 step by (intro exI [of _ r']) (auto simp: n2_def)
qed (simp add: tasks_only_def)


text \<open>One fire: the handler with its fault isolation, then the run count.\<close>

definition fire_one :: "'w env \<Rightarrow> int \<Rightarrow> nat \<Rightarrow> 'w Runner \<Rightarrow> 'w Runner" where
  "fire_one env now i r = count_run i (snd (call_handler env now i r))"

lemma record_fault_returns:
  assumes "ordinary_faults env"
  shows "fst (record_handler_fault env i e r) = None"
proof (cases "rn_on_handler_error r")
  case (Some f)
  let ?r1 = "r\<lparr>rn_handler_errors := rn_handler_errors r + 1, rn_last_handler_error := Some e\<rparr>"
  obtain x r2 where x: "ev_on_error env f i e ?r1 = (x, r2)" by fastforce
  moreover have "ordinary x" using assms x by (metis fst_conv ordinary_faults_def)
  ultimately show ?thesis using Some
    by (auto simp: record_handler_fault_def Let_def ordinary_def split: option.splits)
qed (simp add: record_handler_fault_def Let_def)

lemma call_handler_returns:
  assumes "ordinary_faults env"
  shows "fst (call_handler env now i r) = None"
proof -
  have "ordinary (fst (ev_handler env (th_handler_function (handle_at r i)) now r))"
    using assms by (simp add: ordinary_faults_def)
  with record_fault_returns [OF assms] show ?thesis
    by (auto simp: call_handler_def ordinary_def split: option.splits prod.splits)
qed

lemma fire_spec:
  assumes "ordinary_faults env" "uses_api env" "rn_inv r"
    and "map Some ids = take m (drop k (rn_pending r))" "length ids = m"
  shows "fire env now k m r = (None, fold (fire_one env now) ids r)"
  using assms(3-5)
proof (induction m arbitrary: k ids r)
  case (Suc m)
  then obtain i ids' where ids: "ids = i # ids'" "length ids' = m" by (cases ids) auto
  have k: "k < length (rn_pending r)" using Suc.prems(2) ids by (auto simp: not_less intro: ccontr)
  then have p: "rn_pending r ! k = Some i" "map Some ids' = take m (drop (k + 1) (rn_pending r))"
    using Suc.prems(2) ids by (auto simp: Cons_nth_drop_Suc [OF k, symmetric])
  have i: "i < length (rn_heap r)" using Suc.prems(1) p(1) k by (metis nth_mem rn_inv_def)
  obtain x r1 where x: "call_handler env now i r = (x, r1)" by fastforce
  then have xn: "x = None" using call_handler_returns [OF assms(1), of now i r] by simp
  have g: "grows r r1" using grows_call_handler [OF assms(2), of r now i] x by simp
  then have r1: "rn_inv r1" "i < length (rn_heap r1)" "rn_pending r1 = rn_pending r"
    using Suc.prems(1) i by (auto simp: grows_def)
  have f: "fire_one env now i r = count_run i r1" using x by (simp add: fire_one_def)
  have "fire env now (k + 1) m (count_run i r1) = (None, fold (fire_one env now) ids' (count_run i r1))"
    using count_run_inv [OF r1(1,2)] r1(3) p(2) ids(2) by (intro Suc.IH) auto
  with k p(1) x xn f ids show ?case by simp
qed simp

lemma tick_spec:
  assumes "rn_inv r" "\<not> rn_ticking r" "uses_api env" "ordinary_faults env" "quiet_checks env chk"
    and now: "ev_ticks_ms env (rn_world r) = (now, w)"
    and adv: "\<forall>i \<in> set (rn_entries r). can_advance env now (handle_at r i)"
    and sel: "sel = filter (\<lambda>i. selected env chk now w (handle_at r i)) (rn_entries r)"
  shows "\<exists>r1. tick env r = (Inr now, end_tick (fold (fire_one env now) sel r1))
    \<and> rn_entries r1 = rn_entries r \<and> rn_world r1 = w \<and> length (rn_heap r1) = length (rn_heap r)
    \<and> rn_handler_errors r1 = rn_handler_errors r
    \<and> (\<forall>i < length (rn_heap r). handle_at r1 i =
         (if i \<in> set (rn_entries r) then advanced env now (handle_at r i) else handle_at r i))"
proof -
  define r0 where "r0 = r\<lparr>rn_ticking := True, rn_world := w\<rparr>"
  have r0: "on_world (ev_ticks_ms env) (r\<lparr>rn_ticking := True\<rparr>) = (now, r0)" using now by (simp add: on_world_def r0_def)
  have inv0: "rn_inv r0" using assms(1) rn_inv_cong [of r0 r] by (simp add: r0_def)
  have "distinct (rn_entries r0)" "set (rn_entries r0) \<subseteq> {..<length (rn_heap r0)}"
    "\<forall>i \<in> set (rn_entries r0). can_advance env now (handle_at r0 i)"
    using assms(1) adv by (auto simp: r0_def rn_inv_def)
  from collect_spec [OF this assms(5), of 0] obtain r1 where
    c: "collect env now (rn_entries r0) 0 r0 = (Inr (length sel), r1)" "take (length sel) (rn_pending r1) = map Some sel"
      "length (rn_heap r1) = length (rn_heap r0)"
      "\<forall>i < length (rn_heap r0). handle_at r1 i = (if i \<in> set (rn_entries r0) then advanced env now (handle_at r0 i) else handle_at r0 i)"
      "tasks_only r0 r1"
    by (auto simp: r0_def sel)
  have inv1: "rn_inv r1" using collect_inv [OF inv0, of "rn_entries r0" env now 0] c(1) inv0 by (auto simp: rn_inv_def)
  have f: "fire env now 0 (length sel) r1 = (None, fold (fire_one env now) sel r1)"
    using c(2) by (intro fire_spec [OF assms(4,3) inv1]) simp_all
  note t = tasks_onlyD [OF c(5)]
  show ?thesis
    using assms(2) r0 c f t by (intro exI [of _ r1]) (simp add: tick_def r0_def)
qed


section \<open>Schedules, over any clock that meets the contract\<close>

context tick_source
begin

text \<open>The next fire of a phase-preserving entry is a whole number of periods after the last one, and the first such time past now.\<close>

lemma advance_due_phase:
  assumes h: "th_next_due_ms h = Some due" "th_period_ms h = Some p" "th_preserve_phase h" "0 < p"
    and b: "0 \<le> src_diff tk now due" "src_diff tk now due + p < span"
  shows "\<exists>due' k. advance_due tk now h = Inr (True, h\<lparr>th_next_due_ms := Some due'\<rparr>)
    \<and> 0 < k \<and> src_diff tk due' due = k * p \<and> 0 < src_diff tk due' now \<and> src_diff tk due' now \<le> p"
proof -
  define b where "b = src_diff tk now due"
  define k where "k = b div p + 1"
  have kp: "k * p = b - b mod p + p" by (simp add: k_def algebra_simps minus_mod_eq_mult_div [symmetric])
  have m: "0 \<le> b mod p" "b mod p < p" using h(4) by simp_all
  have "- span < k * p" "k * p < span" using kp m b span_pos by (auto simp: b_def)
  then obtain d where d: "src_add tk due (k * p) = Inr d" using add_total by blast
  have dd: "src_diff tk d due = k * p" using diff_add [OF d] .
  have "src_diff tk due now = - b" using diff_flip [of now due] b span_pos by (simp add: b_def)
  then have dn: "src_diff tk d now = k * p - b"
    using diff_trans [of d due now] dd kp m b span_pos by (simp add: b_def)
  have "0 < k" using b h(4) by (simp add: k_def b_def pos_imp_zdiv_nonneg_iff add_pos_nonneg)
  with h d dd dn kp m b show ?thesis
    by (intro exI [of _ d] exI [of _ k]) (simp add: advance_due_def b_def [symmetric] k_def [symmetric] Let_def)
qed

text \<open>Without phase, the next fire is one period from now.\<close>

lemma advance_due_period:
  assumes "th_next_due_ms h = Some due" "th_period_ms h = Some p" "\<not> th_preserve_phase h" "0 < p" "p < span"
    and "0 \<le> src_diff tk now due"
  shows "\<exists>due'. advance_due tk now h = Inr (True, h\<lparr>th_next_due_ms := Some due'\<rparr>) \<and> src_diff tk due' now = p"
proof -
  obtain d where d: "src_add tk now p = Inr d" using add_total [of p now] assms(4,5) by auto
  with diff_add [OF d] assms show ?thesis by (auto simp: advance_due_def)
qed

end

section \<open>Timeouts\<close>

definition quiet_deadlines :: "'w env \<Rightarrow> (nat \<Rightarrow> int \<Rightarrow> 'w \<Rightarrow> int option) \<Rightarrow> bool" where
  "quiet_deadlines env dl \<longleftrightarrow> (\<forall>f now w. ev_next_deadline env f now w = (Inr (dl f now w), w))"

text \<open>How far ahead each thing the entries wait for is.\<close>

definition deltas :: "'w env \<Rightarrow> (nat \<Rightarrow> int \<Rightarrow> 'w \<Rightarrow> int option) \<Rightarrow> int \<Rightarrow> 'w \<Rightarrow> TaskHandle \<Rightarrow> int list" where
  "deltas env dl now w h = map (\<lambda>t. src_diff (ev_ticks env) t now)
     ((case th_next_due_ms h of None \<Rightarrow> [] | Some d \<Rightarrow> [d])
      @ (case Option.bind (th_next_deadline h) (\<lambda>f. dl f now w) of None \<Rightarrow> [] | Some d \<Rightarrow> [d]))"

definition min_opt :: "int list \<Rightarrow> int option" where
  "min_opt xs = (if xs = [] then None else Some (Min (set xs)))"

lemma fold_nearer: "fold (\<lambda>d n. nearer n d) xs (Some m) = Some (Min (insert m (set xs)))"
proof (induction xs arbitrary: m)
  case (Cons x xs)
  have "nearer (Some m) x = Some (min m x)" by (simp add: nearer_def)
  with Cons show ?case by (cases "xs = []") (simp_all add: Min_insert ac_simps)
qed simp

lemma fold_nearer_None: "fold (\<lambda>d n. nearer n d) xs None = min_opt xs"
  using nearer_def [of None] by (cases xs) (simp_all add: min_opt_def fold_nearer)

lemma timeout_loop_spec:
  assumes "quiet_deadlines env dl"
  shows "timeout_loop env now is nearest r =
    (Inr (fold (\<lambda>d n. nearer n d) (concat (map (\<lambda>i. deltas env dl now (rn_world r) (handle_at r i)) is)) nearest), r)"
proof (induction "is" arbitrary: nearest)
  case (Cons i "is")
  have "on_world (ev_next_deadline env f now) r = (Inr (dl f now (rn_world r)), r)" for f
    using assms by (simp add: quiet_deadlines_def on_world_def)
  then show ?case
    using Cons by (auto simp: deltas_def Let_def split: option.split)
qed simp

lemma compute_timeout_spec:
  "quiet_deadlines env dl \<Longrightarrow> compute_timeout env now r =
    (Inr (min_opt (concat (map (\<lambda>i. deltas env dl now (rn_world r) (handle_at r i)) (rn_entries r)))), r)"
  by (simp add: compute_timeout_def timeout_loop_spec fold_nearer_None)

section \<open>A sample environment\<close>

text \<open>
  The world is the clock. Handler 0 does nothing, handler 1 raises, any other removes the first
  task; a check waits for its tick; error callbacks re-raise what they are given.
\<close>

definition sample_env :: "nat env" where
  "sample_env = \<lparr>ev_ticks = real_ticks, ev_ticks_ms = (\<lambda>w. (int w, w)),
     ev_check = (\<lambda>c now w. (Inr (c \<le> w), w)),
     ev_handler = (\<lambda>f now r. if f = 0 then (None, r) else if f = 1 then (Some (ValueError ''boom''), r)
        else (None, if 0 < length (rn_heap r) then remove 0 r else r)),
     ev_on_error = (\<lambda>f i e r. (Some (ValueError ''again''), r)),
     ev_io_socket = (\<lambda>s w. Some s), ev_io_interest = (\<lambda>f now w. (Inr (int f), w)),
     ev_io_error_of = (\<lambda>s. None), ev_io_error = (\<lambda>f now m r. (None, r)),
     ev_next_deadline = (\<lambda>f now w. (Inr (Some (int f)), w)), ev_fileno = (\<lambda>s w. NoFileno),
     ev_register = (\<lambda>s m w. (None, w)), ev_modify = (\<lambda>s m w. (None, w)), ev_unregister = (\<lambda>k w. (None, w)),
     ev_ipoll = (\<lambda>t w. ([], w)), ev_sleep_ms = (\<lambda>t w. w + nat t)\<rparr>"

lemma sample_uses_api: "uses_api sample_env"
proof -
  have "by_api sample_env r r" "by_api sample_env r (if 0 < length (rn_heap r) then remove 0 r else r)" for r
    unfolding by_api_def by (rule exI [of _ "[]"], simp) (rule exI [of _ "[ApiRemove 0]"], simp)
  then show ?thesis unfolding uses_api_def by (simp add: sample_env_def)
qed

lemma sample_ordinary: "ordinary_faults sample_env"
  by (auto simp: ordinary_faults_def ordinary_def sample_env_def is_Exception_def)

lemma sample_quiet: "quiet_checks sample_env (\<lambda>c now w. c \<le> w)" "quiet_deadlines sample_env (\<lambda>f now w. Some (int f))"
  by (simp_all add: quiet_checks_def quiet_deadlines_def sample_env_def)

text \<open>Three tasks: a periodic one, a one-shot that raises, and a task object with a check.\<close>

definition sample_runner :: "nat Runner" where
  "sample_runner = fold (api_step sample_env)
     [ApiAdd None (Some 0) (Some 10) None None True, ApiAdd None (Some 1) None None (Some 1) False,
      ApiAdd (Some \<lparr>to_check = 3, to_handle = 0, to_service = 7, to_io_interest = None, to_next_deadline = Some 40\<rparr>) None None None None False,
      ApiWorld (\<lambda>w. 25)] (Runner_init (Some 0) False 0)"

definition sample_runner_handle :: TaskHandle where
  "sample_runner_handle = \<lparr>th_check_function = None, th_handler_function = 0, th_period_ms = Some 10,
     th_next_due_ms = None, th_run_count = None, th_preserve_phase = True, th_active = True, th_service = None,
     th_io_interest = None, th_next_deadline = None\<rparr>"

lemma sample_reachable: "reachable sample_env sample_runner"
  unfolding sample_runner_def fold_simps comp_def id_apply by (intro reachable.intros)

lemma sample_runner_value:
  "rn_entries sample_runner = [0, 1, 2]" "rn_world sample_runner = 25" "\<not> rn_ticking sample_runner"
  "map th_next_due_ms (rn_heap sample_runner) = [Some 10, None, None]"
  "map th_run_count (rn_heap sample_runner) = [None, Some 1, None]"
  "map th_check_function (rn_heap sample_runner) = [None, None, Some 3]"
  "map th_period_ms (rn_heap sample_runner) = [Some 10, None, None]"
  "map th_next_deadline (rn_heap sample_runner) = [None, None, Some 40]"
  "map th_preserve_phase (rn_heap sample_runner) = [True, False, False]"
  "map th_handler_function (rn_heap sample_runner) = [0, 1, 0]"
  "rn_on_handler_error sample_runner = Some 0" "rn_handler_errors sample_runner = 0" "rn_poller sample_runner = False"
  by (simp_all add: sample_runner_def sample_env_def Runner_init_def add_def initial_next_due_ms_def on_world_def
      real_ticks_def ticks_add_def tick_consts Let_def result_simps)

section \<open>What escapes a tick\<close>

lemma tick_collects:
  assumes "rn_inv r" "quiet_checks env chk" "\<forall>i \<in> set (rn_entries r). can_advance env now (handle_at r i)"
  shows "\<exists>ids r1. collect env now (rn_entries r) 0 (r\<lparr>rn_ticking := True, rn_world := w\<rparr>) = (Inr (length ids), r1)
    \<and> map Some ids = take (length ids) (rn_pending r1) \<and> rn_inv r1"
proof -
  define r0 where "r0 = r\<lparr>rn_ticking := True, rn_world := w\<rparr>"
  have inv0: "rn_inv r0" using assms(1) rn_inv_cong [of r0 r] by (simp add: r0_def)
  have "distinct (rn_entries r)" "set (rn_entries r) \<subseteq> {..<length (rn_heap r0)}"
    "\<forall>i \<in> set (rn_entries r). can_advance env now (handle_at r0 i)"
    using assms(1,3) by (auto simp: r0_def rn_inv_def)
  note spec = collect_spec [OF this assms(2), of 0]
  define ids where "ids = filter (\<lambda>i. selected env chk now (rn_world r0) (handle_at r0 i)) (rn_entries r)"
  obtain r1 where c: "collect env now (rn_entries r) 0 r0 = (Inr (length ids), r1)" "map Some ids = take (length ids) (rn_pending r1)"
    using spec by (auto simp: ids_def)
  have "rn_inv r1" using collect_inv [OF inv0, of "rn_entries r" env now 0] c(1) inv0 by (auto simp: rn_inv_def r0_def)
  with c show ?thesis by (auto simp: r0_def)
qed

lemma record_fault_escapes:
  "record_handler_fault env i e r = (Some x, r') \<Longrightarrow> \<not> is_Exception x"
  by (auto simp: record_handler_fault_def Let_def split: option.splits prod.splits if_splits)

lemma call_handler_escapes:
  "call_handler env now i r = (Some x, r') \<Longrightarrow> x = ReentrantTickError \<or> \<not> is_Exception x"
  by (auto simp: call_handler_def split: option.splits prod.splits if_splits dest: record_fault_escapes)

lemma fire_escapes:
  assumes "uses_api env" "rn_inv r"
    and "map Some ids = take m (drop k (rn_pending r))" "length ids = m" "fire env now k m r = (Some x, r')"
  shows "x = ReentrantTickError \<or> \<not> is_Exception x"
  using assms(2-5)
proof (induction m arbitrary: k ids r)
  case (Suc m)
  then obtain i ids' where ids: "ids = i # ids'" "length ids' = m" by (cases ids) auto
  have k: "k < length (rn_pending r)" using Suc.prems(2) ids by (auto simp: not_less intro: ccontr)
  then have p: "rn_pending r ! k = Some i" "map Some ids' = take m (drop (k + 1) (rn_pending r))"
    using Suc.prems(2) ids by (auto simp: Cons_nth_drop_Suc [OF k, symmetric])
  have i: "i < length (rn_heap r)" using Suc.prems(1) p(1) k by (metis nth_mem rn_inv_def)
  obtain y r1 where y: "call_handler env now i r = (y, r1)" by fastforce
  have g: "grows r r1" using grows_call_handler [OF assms(1), of r now i] y by simp
  then have r1: "rn_inv r1" "i < length (rn_heap r1)" "rn_pending r1 = rn_pending r"
    using Suc.prems(1) i by (auto simp: grows_def)
  show ?case
  proof (cases y)
    case None
    then have "fire env now (k + 1) m (count_run i r1) = (Some x, r')" using Suc.prems(4) k p(1) y by simp
    then show ?thesis
      using count_run_inv [OF r1(1,2)] r1(3) p(2) ids(2) by (intro Suc.IH [of "count_run i r1" ids' "k + 1"]) auto
  next
    case (Some z)
    then show ?thesis using Suc.prems(4) k p(1) y call_handler_escapes [of env now i r] by simp
  qed
qed simp

section \<open>Properties\<close>

text \<open>
  C32. In every runner reached from a new one by registrations, removals, ticks and waits, with
  handlers and error callbacks that use the public interface however they like, a handle is
  active exactly while it is registered, is registered once, has a positive period if it has
  one, and an active handle has at least one run left.
\<close>

theorem runner_active_iff_registered:
  assumes "reachable env r" "uses_api env"
  shows "distinct (rn_entries r) \<and> set (rn_entries r) = {i. i < length (rn_heap r) \<and> th_active (rn_heap r ! i)}
    \<and> (\<forall>i p. i < length (rn_heap r) \<and> th_period_ms (rn_heap r ! i) = Some p \<longrightarrow> 0 < p)
    \<and> (\<forall>i c. i \<in> set (rn_entries r) \<and> th_run_count (rn_heap r ! i) = Some c \<longrightarrow> 0 < c)"
proof -
  have inv: "rn_inv r" using reachable_inv [OF assms] .
  then show ?thesis unfolding rn_inv_def handle_ok_def by blast
qed

theorem runner_active_iff_registered_witness:
  "let r = snd (tick sample_env sample_runner) in
     set (rn_entries r) = {i. i < length (rn_heap r) \<and> th_active (rn_heap r ! i)}"
  using runner_active_iff_registered [OF reachable.tick [OF sample_reachable] sample_uses_api] by (simp add: Let_def)

text \<open>
  C5. One tick fires exactly the entries whose time has come and whose check passes, in
  registration order and on one timestamp, with every schedule advanced first and each
  handler's fault contained, so a raising handler never keeps a later one from firing; the
  tick returns its timestamp and leaves the runner ready for the next one.
\<close>

theorem tick_fires_due:
  assumes "rn_inv r" "\<not> rn_ticking r" "uses_api env" "ordinary_faults env" "quiet_checks env chk"
    and "ev_ticks_ms env (rn_world r) = (now, w)"
    and "\<forall>i \<in> set (rn_entries r). can_advance env now (handle_at r i)"
    and "sel = filter (\<lambda>i. selected env chk now w (handle_at r i)) (rn_entries r)"
  shows "\<exists>r1. tick env r = (Inr now, end_tick (fold (fire_one env now) sel r1))
    \<and> rn_entries r1 = rn_entries r \<and> rn_world r1 = w \<and> length (rn_heap r1) = length (rn_heap r)
    \<and> rn_handler_errors r1 = rn_handler_errors r
    \<and> (\<forall>i < length (rn_heap r). handle_at r1 i =
         (if i \<in> set (rn_entries r) then advanced env now (handle_at r i) else handle_at r i))"
  by (rule tick_spec [OF assms])

lemma sample_can_advance: "\<forall>i \<in> set (rn_entries sample_runner). can_advance sample_env 25 (handle_at sample_runner i)"
proof -
  have "length (rn_heap sample_runner) = 3" using sample_runner_value(4) by (metis length_map list.size(3,4) One_nat_def add_Suc_right add_0_right numeral_3_eq_3)
  then have "th_next_due_ms (handle_at sample_runner 0) = Some 10" "th_next_due_ms (handle_at sample_runner 1) = None"
    "th_next_due_ms (handle_at sample_runner 2) = None" "th_period_ms (handle_at sample_runner 0) = Some 10"
    "th_preserve_phase (handle_at sample_runner 0)"
    using arg_cong [OF sample_runner_value(4), of "\<lambda>xs. xs ! 0"] arg_cong [OF sample_runner_value(4), of "\<lambda>xs. xs ! 1"]
      arg_cong [OF sample_runner_value(4), of "\<lambda>xs. xs ! 2"] arg_cong [OF sample_runner_value(7), of "\<lambda>xs. xs ! 0"]
      arg_cong [OF sample_runner_value(9), of "\<lambda>xs. xs ! 0"] by simp_all
  then show ?thesis
    by (auto simp: sample_runner_value can_advance_def advance_due_def sample_env_def real_ticks_def ticks_add_def ticks_diff_def
        tick_consts Let_def result_simps)
qed

theorem tick_fires_due_witness:
  "\<exists>r1. tick sample_env sample_runner = (Inr 25, end_tick (fold (fire_one sample_env 25)
      (filter (\<lambda>i. selected sample_env (\<lambda>c now w. c \<le> w) 25 25 (handle_at sample_runner i)) [0, 1, 2]) r1))"
  using tick_fires_due [OF reachable_inv [OF sample_reachable sample_uses_api] sample_runner_value(3) sample_uses_api
      sample_ordinary sample_quiet(1) _ sample_can_advance refl, of 25]
  by (auto simp: sample_runner_value sample_env_def)

text \<open>
  A phase-preserving entry, however late the tick, is rescheduled a whole positive number
  of periods after its last due time, at the first such time after now: missed fires are
  skipped, not replayed, and the phase never drifts, across every wrap of the counter.
\<close>

lemma preserve_phase_no_drift:
  assumes "th_next_due_ms h = Some due" "th_period_ms h = Some p" "th_preserve_phase h" "0 < p"
    and "0 \<le> ticks_diff now due" "ticks_diff now due + p < TICKS_HALFPERIOD"
  shows "\<exists>due' k. advance_due real_ticks now h = Inr (True, h\<lparr>th_next_due_ms := Some due'\<rparr>)
    \<and> 0 < k \<and> ticks_diff due' due = k * p \<and> 0 < ticks_diff due' now \<and> ticks_diff due' now \<le> p"
  using wrapped.advance_due_phase [of h due p now] assms by (simp add: real_ticks_def)

lemma preserve_phase_no_drift_witness:
  "\<exists>due' k. advance_due real_ticks 5 (sample_runner_handle\<lparr>th_next_due_ms := Some 536870900\<rparr>)
      = Inr (True, sample_runner_handle\<lparr>th_next_due_ms := Some due'\<rparr>)
    \<and> 0 < k \<and> ticks_diff due' 536870900 = k * 10 \<and> 0 < ticks_diff due' 5 \<and> ticks_diff due' 5 \<le> 10"
  using preserve_phase_no_drift [of "sample_runner_handle\<lparr>th_next_due_ms := Some 536870900\<rparr>" 536870900 10 5]
  by (simp add: sample_runner_handle_def ticks_diff_def tick_consts)



end
