(* ===== verification/Runner_Poll.thy ===== *)
theory Runner_Poll
  imports Runner
begin

text \<open>
  The poll set of \<^verbatim>\<open>core.py\<close>: \<open>sync_poll_set\<close> brings the poller to exactly the sockets and
  events the registered services want. The poller is an interface, the locale
  \<open>object_poller\<close>; it is interpreted on the \<open>FakePoller\<close> of
  \<^verbatim>\<open>libraries/runner/src/chumicro_runner/testing.py\<close>.
\<close>

section \<open>The slot dict\<close>

lemma slot_of_update [simp]: "slot_of k' (slot_update k v xs) = (if k' = k then Some v else slot_of k' xs)"
  by (induction k v xs rule: slot_update.induct) (auto simp: slot_of_def)

lemma keys_slot_update: "map fst (slot_update k v xs) = (if k \<in> set (map fst xs) then map fst xs else map fst xs @ [k])"
  by (induction k v xs rule: slot_update.induct) auto

lemma slot_of_Some_key: "slot_of k xs = Some sl \<Longrightarrow> k \<in> set (map fst xs)"
  by (force simp: slot_of_def dest: map_of_SomeD)

lemma slot_of_None_key: "slot_of k xs = None \<longleftrightarrow> k \<notin> set (map fst xs)"
  by (simp add: slot_of_def map_of_eq_None_iff)

lemma slot_of_filter: "slot_of k (filter (\<lambda>(k, _). P k) xs) = (if P k then slot_of k xs else None)"
  by (induction xs) (auto simp: slot_of_def)

section \<open>What the entries want\<close>

definition quiet_interests :: "'w env \<Rightarrow> (nat \<Rightarrow> int \<Rightarrow> 'w \<Rightarrow> int) \<Rightarrow> bool" where
  "quiet_interests env ifn \<longleftrightarrow> (\<forall>f now w. ev_io_interest env f now w = (Inr (ifn f now w), w))"

definition wanted_by :: "'w env \<Rightarrow> (nat \<Rightarrow> int \<Rightarrow> 'w \<Rightarrow> int) \<Rightarrow> int \<Rightarrow> 'w \<Rightarrow> TaskHandle \<Rightarrow> (nat \<times> int) list" where
  "wanted_by env ifn now w h =
     (case (th_io_interest h, Option.bind (th_service h) (\<lambda>s. ev_io_socket env s w)) of
        (Some f, Some sock) \<Rightarrow> if interest_mask (ifn f now w) = 0 then [] else [(sock, interest_mask (ifn f now w))]
      | _ \<Rightarrow> [])"

text \<open>The masks of a socket, joined.\<close>

definition joined :: "(nat \<times> int) list \<Rightarrow> nat \<Rightarrow> int option" where
  "joined ws s = (if s \<in> fst ` set ws then Some (fold (\<lambda>(k, m) a. if k = s then a OR m else a) ws 0) else None)"

lemma joined_Nil [simp]: "joined [] s = None" by (simp add: joined_def)

lemma joined_snoc:
  "joined (ws @ [(k, m)]) s = (if k = s then Some (case joined ws s of None \<Rightarrow> m | Some a \<Rightarrow> a OR m) else joined ws s)"
proof -
  have z: "s \<notin> fst ` set ws \<Longrightarrow> fold (\<lambda>(k, m) a. if k = s then a OR m else a) ws a = a" for a
    by (induction ws arbitrary: a) auto
  show ?thesis using z [of 0] by (auto simp: joined_def)
qed

lemma or_pos: "0 \<le> a \<Longrightarrow> 0 < m \<Longrightarrow> 0 < (a OR m :: int)"
  using or_greater_eq [of a m] by (metis less_le_trans or.commute)

lemma joined_pos:
  assumes "\<forall>(k, m) \<in> set ws. 0 < m" "joined ws s = Some a"
  shows "0 < a"
proof -
  have "0 \<le> a \<Longrightarrow> 0 < a \<or> s \<in> fst ` set ws \<Longrightarrow> 0 < fold (\<lambda>(k, m) a. if k = s then a OR m else a) ws a" for a
    using assms(1)
  proof (induction ws arbitrary: a)
    case (Cons w ws)
    obtain k m where w: "w = (k, m)" by (cases w)
    then have "0 < a OR m" if "k = s" using Cons.prems or_pos [of a m] by simp
    with Cons w show ?case by (cases "k = s") auto
  qed simp
  then show ?thesis using assms(2) by (auto simp: joined_def split: if_splits)
qed

lemma interest_mask_nonneg: "0 \<le> interest_mask i"
  by (simp add: interest_mask_def POLLIN_def POLLOUT_def)

lemma wanted_by_pos: "(s, m) \<in> set (wanted_by env ifn now w h) \<Longrightarrow> 0 < m"
  using interest_mask_nonneg by (auto simp: wanted_by_def order_less_le split: option.splits if_splits)

lemma wanted_by_cases: "wanted_by env ifn now w h = [] \<or> (\<exists>s m. wanted_by env ifn now w h = [(s, m)])"
  by (auto simp: wanted_by_def split: option.splits)

section \<open>The sweep\<close>

text \<open>The slots after the wants \<open>ws\<close> of sweep \<open>g\<close> have been stamped on \<open>slots0\<close>.\<close>

definition slot_swept :: "(nat \<times> poll_slot) list \<Rightarrow> nat \<Rightarrow> (nat \<times> int) list \<Rightarrow> (nat \<times> poll_slot) list \<Rightarrow> nat \<Rightarrow> bool" where
  "slot_swept slots0 g ws slots s \<longleftrightarrow> (case joined ws s of
      None \<Rightarrow> slot_of s slots = slot_of s slots0
    | Some m \<Rightarrow> (\<exists>sl. slot_of s slots = Some sl \<and> sl_sock sl = s \<and> sl_generation sl = g \<and> sl_sweep_mask sl = m
        \<and> sl_registered_mask sl = (case slot_of s slots0 of None \<Rightarrow> 0 | Some sl0 \<Rightarrow> sl_registered_mask sl0)))"

definition swept :: "(nat \<times> poll_slot) list \<Rightarrow> nat \<Rightarrow> (nat \<times> int) list \<Rightarrow> (nat \<times> poll_slot) list \<Rightarrow> bool" where
  "swept slots0 g ws slots \<longleftrightarrow> distinct (map fst slots) \<and> set (map fst slots) = set (map fst slots0) \<union> fst ` set ws
     \<and> (\<forall>s. slot_swept slots0 g ws slots s)"

lemma slot_swept_None: "joined ws s = None \<Longrightarrow> slot_swept slots0 g ws slots s \<longleftrightarrow> slot_of s slots = slot_of s slots0"
  by (simp add: slot_swept_def)

lemma slot_swept_Some:
  "joined ws s = Some m \<Longrightarrow> slot_swept slots0 g ws slots s \<longleftrightarrow>
   (\<exists>sl. slot_of s slots = Some sl \<and> sl_sock sl = s \<and> sl_generation sl = g \<and> sl_sweep_mask sl = m
        \<and> sl_registered_mask sl = (case slot_of s slots0 of None \<Rightarrow> 0 | Some sl0 \<Rightarrow> sl_registered_mask sl0))"
  by (simp add: slot_swept_def)

definition slots_ok :: "nat \<Rightarrow> (nat \<times> poll_slot) list \<Rightarrow> bool" where
  "slots_ok g slots \<longleftrightarrow> distinct (map fst slots)
     \<and> (\<forall>s sl. slot_of s slots = Some sl \<longrightarrow> sl_sock sl = s \<and> sl_generation sl \<le> g \<and> sl_registered_mask sl \<noteq> 0)"

lemma swept_update:
  assumes sw: "swept slots0 g ws slots" and v: "sl_sock v = sock" "sl_generation v = g"
    "joined (ws @ [(sock, m)]) sock = Some (sl_sweep_mask v)"
    "sl_registered_mask v = (case slot_of sock slots0 of None \<Rightarrow> 0 | Some sl0 \<Rightarrow> sl_registered_mask sl0)"
  shows "swept slots0 g (ws @ [(sock, m)]) (slot_update sock v slots)"
proof -
  have "slot_swept slots0 g (ws @ [(sock, m)]) (slot_update sock v slots) s" for s
  proof (cases "s = sock")
    case True
    with v show ?thesis by (simp add: slot_swept_Some)
  next
    case False
    then have "joined (ws @ [(sock, m)]) s = joined ws s" by (simp add: joined_snoc)
    moreover have "slot_swept slots0 g ws slots s" using sw by (simp add: swept_def)
    ultimately show ?thesis using False unfolding slot_swept_def slot_of_update by simp
  qed
  then show ?thesis using sw by (auto simp: swept_def keys_slot_update)
qed

lemma want_swept:
  assumes ok: "slots_ok g0 slots0" "g0 < g" and sw: "swept slots0 g ws (rn_registered_interest r)"
  shows "\<exists>slots. want env g sock m r = ((if sock \<in> fst ` set ws then 0 else 1), r\<lparr>rn_registered_interest := slots\<rparr>)
    \<and> swept slots0 g (ws @ [(sock, m)]) slots"
proof (cases "joined ws sock")
  case None
  then have new: "sock \<notin> fst ` set ws" by (auto simp: joined_def split: if_splits)
  have s0: "slot_of sock (rn_registered_interest r) = slot_of sock slots0"
    using sw slot_swept_None [OF None, of slots0 g "rn_registered_interest r"] by (simp add: swept_def)
  have j: "joined (ws @ [(sock, m)]) sock = Some m" using None by (simp add: joined_snoc)
  show ?thesis
  proof (cases "slot_of sock slots0")
    case N: None
    show ?thesis using new s0 N j
      by (auto simp: want_def intro!: exI swept_update [OF sw])
  next
    case (Some sl)
    have "sl_generation sl \<le> g0 \<and> sl_sock sl = sock" using ok(1) Some unfolding slots_ok_def by blast
    then have "sl_generation sl \<noteq> g" "sl_sock sl = sock" using ok(2) by auto
    then show ?thesis using new s0 Some j
      by (auto simp: want_def intro!: exI swept_update [OF sw])
  qed
next
  case (Some a)
  then have old: "sock \<in> fst ` set ws" by (auto simp: joined_def split: if_splits)
  obtain sl where sl: "slot_of sock (rn_registered_interest r) = Some sl" "sl_sock sl = sock" "sl_generation sl = g" "sl_sweep_mask sl = a"
    "sl_registered_mask sl = (case slot_of sock slots0 of None \<Rightarrow> 0 | Some sl0 \<Rightarrow> sl_registered_mask sl0)"
    using sw slot_swept_Some [OF Some, of slots0 g "rn_registered_interest r"] unfolding swept_def by blast
  have "joined (ws @ [(sock, m)]) sock = Some (a OR m)" using Some by (simp add: joined_snoc)
  then have "swept slots0 g (ws @ [(sock, m)])
      (slot_update sock (sl\<lparr>sl_sweep_mask := sl_sweep_mask sl OR m\<rparr>) (rn_registered_interest r))"
    using sl by (intro swept_update [OF sw]) simp_all
  then show ?thesis using old sl(1,3) by (intro exI) (simp add: want_def)
qed

lemma sweep_swept:
  assumes ok: "slots_ok g0 slots0" "g0 < g" and q: "quiet_interests env ifn"
    and sw: "swept slots0 g ws (rn_registered_interest r)" "n = card (fst ` set ws)"
  shows "\<exists>slots. sweep env now g is n r =
      (Inr (card (fst ` set (ws @ concat (map (\<lambda>i. wanted_by env ifn now (rn_world r) (handle_at r i)) is)))),
       r\<lparr>rn_registered_interest := slots\<rparr>)
    \<and> swept slots0 g (ws @ concat (map (\<lambda>i. wanted_by env ifn now (rn_world r) (handle_at r i)) is)) slots"
  using sw
proof (induction "is" arbitrary: ws n r)
  case Nil
  then show ?case by (intro exI [of _ "rn_registered_interest r"]) simp
next
  case (Cons i "is")
  let ?h = "handle_at r i" and ?w = "rn_world r"
  have int: "on_world (ev_io_interest env f now) r = (Inr (ifn f now ?w), r)" for f
    using q by (simp add: quiet_interests_def on_world_def)
  consider "wanted_by env ifn now ?w ?h = []" | sock m where "wanted_by env ifn now ?w ?h = [(sock, m)]"
    using wanted_by_cases [of env ifn now ?w ?h] by blast
  then show ?case
  proof cases
    case 1
    then have "sweep env now g (i # is) n r = sweep env now g is n r"
      using int by (auto simp: wanted_by_def Let_def split: option.splits if_splits)
    with 1 Cons.IH [OF Cons.prems] show ?thesis by simp
  next
    case (2 sock m)
    obtain slots where w: "want env g sock m r = ((if sock \<in> fst ` set ws then 0 else 1), r\<lparr>rn_registered_interest := slots\<rparr>)"
      "swept slots0 g (ws @ [(sock, m)]) slots" using want_swept [OF ok Cons.prems(1)] by blast
    let ?r = "r\<lparr>rn_registered_interest := slots\<rparr>" and ?n = "n + (if sock \<in> fst ` set ws then 0 else 1)"
    have "sweep env now g (i # is) n r = sweep env now g is ?n ?r"
      using 2 int w(1) by (auto simp: wanted_by_def Let_def split: option.splits if_splits)
    moreover have "?n = card (fst ` set (ws @ [(sock, m)]))" using Cons.prems(2) by (auto simp: insert_absorb)
    ultimately show ?thesis using Cons.IH [of "ws @ [(sock, m)]" ?r ?n] w(2) 2 by simp
  qed
qed

section \<open>The poller\<close>

text \<open>What the poller holds, slot by slot: nothing for a slot that was never registered.\<close>

definition mirrors :: "('w \<Rightarrow> nat \<Rightarrow> int option) \<Rightarrow> 'w Runner \<Rightarrow> bool" where
  "mirrors pset r \<longleftrightarrow> (\<forall>k. pset (rn_world r) k = (case slot_of k (rn_registered_interest r) of
      None \<Rightarrow> None | Some sl \<Rightarrow> if sl_registered_mask sl = 0 then None else Some (sl_registered_mask sl)))"

definition applied :: "nat \<Rightarrow> nat set \<Rightarrow> poll_slot \<Rightarrow> poll_slot" where
  "applied g ks sl = (if sl_generation sl = g \<and> sl_sock sl \<in> ks then sl\<lparr>sl_registered_mask := sl_sweep_mask sl\<rparr> else sl)"

lemma applied_sel [simp]: "sl_sock (applied g ks sl) = sl_sock sl" "sl_generation (applied g ks sl) = sl_generation sl"
  "sl_sweep_mask (applied g ks sl) = sl_sweep_mask sl"
  by (simp_all add: applied_def)

locale object_poller =
  fixes env :: "'w env" and pset :: "'w \<Rightarrow> nat \<Rightarrow> int option"
  assumes register_law: "\<exists>w'. ev_register env s m w = (None, w') \<and> pset w' = (pset w)(s \<mapsto> m)"
    and modify_law: "pset w s \<noteq> None \<Longrightarrow> \<exists>w'. ev_modify env s m w = (None, w') \<and> pset w' = (pset w)(s \<mapsto> m)"
    and unregister_law: "pset w s \<noteq> None \<Longrightarrow>
      \<exists>w'. ev_unregister env (PollObj s) w = (None, w') \<and> pset w' = (pset w)(s := None)"
begin

lemma poller_apply_effect:
  assumes "rn_poller r" "mirrors pset r" "slot_of k (rn_registered_interest r) = Some sl" "sl_sock sl = k"
  shows "\<exists>w. poller_apply env sl r = (None, r\<lparr>rn_world := w\<rparr>) \<and> pset w = (pset (rn_world r))(k \<mapsto> sl_sweep_mask sl)"
proof (cases "sl_registered_mask sl = 0")
  case True
  then show ?thesis using assms register_law [of k "sl_sweep_mask sl" "rn_world r"]
    by (auto simp: poller_apply_def on_world_def)
next
  case False
  have "pset (rn_world r) k \<noteq> None" using assms(2,3) False unfolding mirrors_def by simp
  from modify_law [OF this, of "sl_sweep_mask sl"] show ?thesis using assms False
    by (auto simp: poller_apply_def on_world_def)
qed

lemma apply_masks_effect:
  assumes "rn_poller r" "mirrors pset r" "set ks \<subseteq> set (map fst (rn_registered_interest r))"
    and "\<forall>k sl. slot_of k (rn_registered_interest r) = Some sl \<longrightarrow> sl_sock sl = k \<and> (sl_generation sl = g \<longrightarrow> sl_sweep_mask sl \<noteq> 0)"
  shows "\<exists>slots w. apply_masks env g ks r = (None, r\<lparr>rn_registered_interest := slots, rn_world := w\<rparr>)
    \<and> map fst slots = map fst (rn_registered_interest r)
    \<and> (\<forall>k. slot_of k slots = map_option (applied g (set ks)) (slot_of k (rn_registered_interest r)))
    \<and> mirrors pset (r\<lparr>rn_registered_interest := slots, rn_world := w\<rparr>)"
  using assms
proof (induction ks arbitrary: r)
  case Nil
  have "map_option (applied g {}) x = x" for x by (cases x) (simp_all add: applied_def)
  with Nil show ?case by (intro exI [of _ "rn_registered_interest r"] exI [of _ "rn_world r"]) simp
next
  case (Cons k ks)
  obtain sl where sl: "slot_of k (rn_registered_interest r) = Some sl"
    using Cons.prems(3) slot_of_None_key [of k "rn_registered_interest r"] by (cases "slot_of k (rn_registered_interest r)") auto
  have slk: "sl_sock sl = k" "sl_generation sl = g \<Longrightarrow> sl_sweep_mask sl \<noteq> 0" using Cons.prems(4) sl by blast+
  show ?case
  proof (cases "sl_generation sl \<noteq> g \<or> sl_registered_mask sl = sl_sweep_mask sl")
    case True
    have "map_option (applied g (set (k # ks))) (slot_of j (rn_registered_interest r)) =
        map_option (applied g (set ks)) (slot_of j (rn_registered_interest r))" for j
      using True sl slk Cons.prems(4) by (cases "slot_of j (rn_registered_interest r)"; cases "j = k") (auto simp: applied_def)
    with Cons.IH [of r] Cons.prems True sl show ?thesis by simp
  next
    case False
    obtain w where w: "poller_apply env sl r = (None, r\<lparr>rn_world := w\<rparr>)" "pset w = (pset (rn_world r))(k \<mapsto> sl_sweep_mask sl)"
      using poller_apply_effect [OF Cons.prems(1,2) sl slk(1)] by blast
    define r1 where "r1 = r\<lparr>rn_world := w, rn_registered_interest :=
      slot_update k (sl\<lparr>sl_registered_mask := sl_sweep_mask sl\<rparr>) (rn_registered_interest r)\<rparr>"
    have keys: "map fst (rn_registered_interest r1) = map fst (rn_registered_interest r)"
      using slot_of_Some_key [OF sl] by (simp add: r1_def keys_slot_update)
    have look: "slot_of j (rn_registered_interest r1) =
        (if j = k then Some (sl\<lparr>sl_registered_mask := sl_sweep_mask sl\<rparr>) else slot_of j (rn_registered_interest r))" for j
      by (simp add: r1_def)
    have m: "mirrors pset r1"
      using Cons.prems(2) w(2) slk(2) False unfolding mirrors_def look by (simp add: r1_def)
    have "\<exists>slots w. apply_masks env g ks r1 = (None, r1\<lparr>rn_registered_interest := slots, rn_world := w\<rparr>)
        \<and> map fst slots = map fst (rn_registered_interest r1)
        \<and> (\<forall>k. slot_of k slots = map_option (applied g (set ks)) (slot_of k (rn_registered_interest r1)))
        \<and> mirrors pset (r1\<lparr>rn_registered_interest := slots, rn_world := w\<rparr>)"
    proof (rule Cons.IH)
      show "rn_poller r1" using Cons.prems(1) by (simp add: r1_def)
      show "set ks \<subseteq> set (map fst (rn_registered_interest r1))" using Cons.prems(3) unfolding keys by simp
      show "\<forall>k sl. slot_of k (rn_registered_interest r1) = Some sl \<longrightarrow> sl_sock sl = k \<and> (sl_generation sl = g \<longrightarrow> sl_sweep_mask sl \<noteq> 0)"
        unfolding look using Cons.prems(4) slk by auto
    qed (rule m)
    then obtain slots w' where 1: "apply_masks env g ks r1 = (None, r1\<lparr>rn_registered_interest := slots, rn_world := w'\<rparr>)"
      "map fst slots = map fst (rn_registered_interest r)"
      "\<forall>k. slot_of k slots = map_option (applied g (set ks)) (slot_of k (rn_registered_interest r1))"
      "mirrors pset (r1\<lparr>rn_registered_interest := slots, rn_world := w'\<rparr>)" unfolding keys by blast
    have r1u: "r1\<lparr>rn_registered_interest := slots, rn_world := w'\<rparr> = r\<lparr>rn_registered_interest := slots, rn_world := w'\<rparr>"
      by (simp add: r1_def)
    have step: "apply_masks env g (k # ks) r = apply_masks env g ks r1"
      using sl False w(1) by (simp add: r1_def)
    have "slot_of j slots = map_option (applied g (set (k # ks))) (slot_of j (rn_registered_interest r))" for j
      using 1(3) look [of j] sl slk False Cons.prems(4) by (cases "slot_of j (rn_registered_interest r)") (auto simp: applied_def)
    with 1(1,2,4) show ?thesis unfolding step r1u by (intro exI [of _ slots] exI [of _ w'] conjI allI)
  qed
qed

lemma drop_stale_effect:
  assumes "rn_poller r" "mirrors pset r" "distinct ks" "set ks \<subseteq> set (map fst (rn_registered_interest r))"
    and "\<forall>k sl. slot_of k (rn_registered_interest r) = Some sl \<longrightarrow> sl_sock sl = k \<and> sl_registered_mask sl \<noteq> 0"
  shows "\<exists>w. drop_stale env ks r = (None, r\<lparr>rn_registered_interest := filter (\<lambda>(k, _). k \<notin> set ks) (rn_registered_interest r), rn_world := w\<rparr>)
    \<and> mirrors pset (r\<lparr>rn_registered_interest := filter (\<lambda>(k, _). k \<notin> set ks) (rn_registered_interest r), rn_world := w\<rparr>)"
  using assms
proof (induction ks arbitrary: r)
  case Nil
  have "filter (\<lambda>(k, _). k \<notin> set []) xs = xs" for xs :: "(nat \<times> poll_slot) list" by (induction xs) auto
  with Nil show ?case by (intro exI [of _ "rn_world r"]) simp
next
  case (Cons k ks)
  obtain sl where sl: "slot_of k (rn_registered_interest r) = Some sl"
    using Cons.prems(4) slot_of_None_key [of k "rn_registered_interest r"] by (cases "slot_of k (rn_registered_interest r)") auto
  have slk: "sl_sock sl = k" "sl_registered_mask sl \<noteq> 0" using Cons.prems(5) sl by blast+
  let ?f = "filter (\<lambda>(k', _). k' \<noteq> k) (rn_registered_interest r)"
  have "pset (rn_world r) k \<noteq> None" using Cons.prems(2) sl slk unfolding mirrors_def by simp
  then obtain w where w: "ev_unregister env (PollObj k) (rn_world r) = (None, w)" "pset w = (pset (rn_world r))(k := None)"
    using unregister_law by blast
  define r1 where "r1 = r\<lparr>rn_registered_interest := ?f, rn_world := w\<rparr>"
  have step: "drop_stale env (k # ks) r = drop_stale env ks r1"
    using sl slk w(1) Cons.prems(1) by (simp add: poller_drop_def on_world_def r1_def)
  have look: "slot_of j (rn_registered_interest r1) = (if j = k then None else slot_of j (rn_registered_interest r))" for j
    by (simp add: r1_def slot_of_filter)
  have f: "filter (\<lambda>(k, _). k \<notin> set ks) ?f = filter (\<lambda>(k', _). k' \<notin> set (k # ks)) (rn_registered_interest r)"
    by (simp add: conj_commute case_prod_unfold)
  have "\<exists>w. drop_stale env ks r1 = (None, r1\<lparr>rn_registered_interest := filter (\<lambda>(k, _). k \<notin> set ks) (rn_registered_interest r1), rn_world := w\<rparr>)
    \<and> mirrors pset (r1\<lparr>rn_registered_interest := filter (\<lambda>(k, _). k \<notin> set ks) (rn_registered_interest r1), rn_world := w\<rparr>)"
  proof (rule Cons.IH)
    show "rn_poller r1" "distinct ks" using Cons.prems by (simp_all add: r1_def)
    show "mirrors pset r1" using Cons.prems(2) w(2) unfolding mirrors_def look by (simp add: r1_def)
    show "set ks \<subseteq> set (map fst (rn_registered_interest r1))" using Cons.prems(3,4) by (fastforce simp: r1_def subset_eq image_iff)
    show "\<forall>k sl. slot_of k (rn_registered_interest r1) = Some sl \<longrightarrow> sl_sock sl = k \<and> sl_registered_mask sl \<noteq> 0"
      unfolding look using Cons.prems(5) by simp
  qed
  moreover have "r1\<lparr>rn_registered_interest := x, rn_world := w'\<rparr> = r\<lparr>rn_registered_interest := x, rn_world := w'\<rparr>" for x w'
    by (simp add: r1_def)
  moreover have "rn_registered_interest r1 = ?f" by (simp add: r1_def)
  ultimately show ?case unfolding step by (simp only: f)
qed

text \<open>One sync: every entry's wish, joined per socket, and nothing else, is what the poller holds.\<close>

lemma sync_effect:
  assumes q: "quiet_interests env ifn" and po: "rn_poller r" and ok: "slots_ok (rn_sweep_generation r) (rn_registered_interest r)"
    and m: "mirrors pset r"
    and ws: "ws = concat (map (\<lambda>i. wanted_by env ifn now (rn_world r) (handle_at r i)) (rn_entries r))"
  shows "\<exists>r'. sync_poll_set env now r = (None, r') \<and> pset (rn_world r') = joined ws
    \<and> slots_ok (rn_sweep_generation r') (rn_registered_interest r') \<and> mirrors pset r'
    \<and> rn_poller r' \<and> same_tasks r r'"
proof -
  define g where "g = rn_sweep_generation r + 1"
  let ?s0 = "rn_registered_interest r"
  define r0 where "r0 = r\<lparr>rn_sweep_generation := g\<rparr>"
  have "swept ?s0 g [] (rn_registered_interest r0)"
    using ok by (simp add: swept_def slots_ok_def slot_swept_def r0_def)
  from sweep_swept [OF ok _ q this, of _ now "rn_entries r0"] obtain s1 where
    s1: "sweep env now g (rn_entries r0) 0 r0 = (Inr (card (fst ` set ws)), r0\<lparr>rn_registered_interest := s1\<rparr>)"
      "swept ?s0 g ws s1"
    by (auto simp: g_def r0_def ws)
  let ?r1 = "r0\<lparr>rn_registered_interest := s1\<rparr>"
  have pos: "\<forall>(k, m) \<in> set ws. 0 < m" using wanted_by_pos by (fastforce simp: ws)
  have slot1: "sl_sock sl = k \<and> (sl_generation sl = g \<longleftrightarrow> joined ws k \<noteq> None)
      \<and> (sl_generation sl = g \<longrightarrow> joined ws k = Some (sl_sweep_mask sl)) \<and> (sl_generation sl \<noteq> g \<longrightarrow> sl_registered_mask sl \<noteq> 0)
      \<and> sl_generation sl \<le> g" if "slot_of k s1 = Some sl" for k sl
  proof -
    have sw: "slot_swept ?s0 g ws s1 k" using s1(2) by (simp add: swept_def)
    show ?thesis
    proof (cases "joined ws k")
      case None
      then have "slot_of k ?s0 = Some sl" using sw that by (simp add: slot_swept_None)
      then have "sl_sock sl = k \<and> sl_generation sl \<le> rn_sweep_generation r \<and> sl_registered_mask sl \<noteq> 0"
        using ok unfolding slots_ok_def by blast
      with None show ?thesis by (simp add: g_def)
    next
      case (Some a)
      with sw that show ?thesis by (simp add: slot_swept_Some)
    qed
  qed
  have swm: "sl_sweep_mask sl \<noteq> 0" if "slot_of k s1 = Some sl" "sl_generation sl = g" for k sl
    using slot1 [OF that(1)] that(2) joined_pos [OF pos, of k "sl_sweep_mask sl"] by simp
  have m1: "mirrors pset ?r1"
    unfolding mirrors_def
  proof
    fix k
    have "slot_swept ?s0 g ws s1 k" "pset (rn_world r) k = (case slot_of k ?s0 of
      None \<Rightarrow> None | Some sl \<Rightarrow> if sl_registered_mask sl = 0 then None else Some (sl_registered_mask sl))"
      using s1(2) m by (simp_all add: swept_def mirrors_def)
    then show "pset (rn_world ?r1) k = (case slot_of k (rn_registered_interest ?r1) of
      None \<Rightarrow> None | Some sl \<Rightarrow> if sl_registered_mask sl = 0 then None else Some (sl_registered_mask sl))"
      by (cases "joined ws k"; cases "slot_of k ?s0") (auto simp: slot_swept_def r0_def)
  qed
  have "\<exists>slots w. apply_masks env g (map fst s1) ?r1 = (None, ?r1\<lparr>rn_registered_interest := slots, rn_world := w\<rparr>)
    \<and> map fst slots = map fst (rn_registered_interest ?r1)
    \<and> (\<forall>k. slot_of k slots = map_option (applied g (set (map fst s1))) (slot_of k (rn_registered_interest ?r1)))
    \<and> mirrors pset (?r1\<lparr>rn_registered_interest := slots, rn_world := w\<rparr>)"
    by (rule apply_masks_effect [OF _ m1]) (use po slot1 swm in \<open>auto simp: r0_def\<close>)
  then obtain s2 w2 where s2: "apply_masks env g (map fst s1) ?r1 = (None, ?r1\<lparr>rn_registered_interest := s2, rn_world := w2\<rparr>)"
    "map fst s2 = map fst s1" "\<forall>k. slot_of k s2 = map_option (applied g (set (map fst s1))) (slot_of k s1)"
    "mirrors pset (?r1\<lparr>rn_registered_interest := s2, rn_world := w2\<rparr>)" by auto
  let ?r2 = "?r1\<lparr>rn_registered_interest := s2, rn_world := w2\<rparr>"
  have slot2: "sl_sock sl = k \<and> (sl_generation sl = g \<longleftrightarrow> joined ws k \<noteq> None)
      \<and> (sl_generation sl = g \<longrightarrow> joined ws k = Some (sl_registered_mask sl)) \<and> sl_registered_mask sl \<noteq> 0
      \<and> sl_generation sl \<le> g" if k2: "slot_of k s2 = Some sl" for k sl
  proof -
    obtain sl1 where sl1: "slot_of k s1 = Some sl1" "sl = applied g (set (map fst s1)) sl1" using s2(3) k2 by auto
    with slot1 [OF sl1(1)] swm [OF sl1(1)] slot_of_Some_key [OF sl1(1)] show ?thesis by (auto simp: applied_def)
  qed
  have dom2: "joined ws k \<noteq> None \<Longrightarrow> \<exists>sl. slot_of k s2 = Some sl" for k
  proof -
    assume "joined ws k \<noteq> None"
    then have "k \<in> set (map fst s1)" using s1(2) by (auto simp: joined_def swept_def split: if_splits)
    then have "slot_of k s1 \<noteq> None" using slot_of_None_key [of k s1] by simp
    then show ?thesis using s2(3) by auto
  qed
  define ks where "ks = map fst (filter (\<lambda>(_, slot). sl_generation slot \<noteq> g) s2)"
  have d2: "distinct (map fst s2)" using s1(2) s2(2) by (simp add: swept_def)
  have mem: "k \<in> set ks \<longleftrightarrow> (\<exists>sl. slot_of k s2 = Some sl \<and> sl_generation sl \<noteq> g)" for k
    using d2 by (force simp: ks_def slot_of_def)
  have none: "ks = []" if "\<not> length s2 > card (fst ` set ws)"
  proof -
    have sub: "fst ` set ws \<subseteq> set (map fst s2)" using s1(2) s2(2) by (simp add: swept_def)
    moreover have "card (set (map fst s2)) = length s2" using distinct_card [OF d2] by simp
    ultimately have "fst ` set ws = set (map fst s2)"
      using that by (intro card_seteq [OF finite_set]) auto
    then have "joined ws k \<noteq> None" if "slot_of k s2 = Some sl" for k sl
      using slot_of_Some_key [OF that] by (simp add: joined_def)
    then have "hd ks \<notin> set ks" using mem [of "hd ks"] slot2 [of "hd ks"] by blast
    then show ?thesis using hd_in_set [of ks] by blast
  qed
  have sync: "sync_poll_set env now r = drop_stale env ks ?r2"
  proof -
    have "rn_sweep_generation r + 1 = g" by (simp add: g_def)
    then show ?thesis unfolding sync_poll_set_def using s1(1) s2(1,2) none
      by (simp add: Let_def r0_def ks_def)
  qed
  let ?s3 = "filter (\<lambda>(k, _). k \<notin> set ks) s2"
  have "\<exists>w. drop_stale env ks ?r2 = (None, ?r2\<lparr>rn_registered_interest := filter (\<lambda>(k, _). k \<notin> set ks) (rn_registered_interest ?r2), rn_world := w\<rparr>)
    \<and> mirrors pset (?r2\<lparr>rn_registered_interest := filter (\<lambda>(k, _). k \<notin> set ks) (rn_registered_interest ?r2), rn_world := w\<rparr>)"
  proof (rule drop_stale_effect [OF _ s2(4)])
    show "distinct ks" using d2 by (simp add: ks_def distinct_map_filter)
  qed (use po slot2 in \<open>auto simp: r0_def ks_def\<close>)
  then obtain w3 where w3: "drop_stale env ks ?r2 = (None, ?r2\<lparr>rn_registered_interest := ?s3, rn_world := w3\<rparr>)"
    "mirrors pset (?r2\<lparr>rn_registered_interest := ?s3, rn_world := w3\<rparr>)" by auto
  let ?r3 = "?r2\<lparr>rn_registered_interest := ?s3, rn_world := w3\<rparr>"
  have look: "slot_of k ?s3 = (if k \<in> set ks then None else slot_of k s2)" for k by (simp add: slot_of_filter)
  have "pset w3 k = joined ws k" for k
  proof (cases "slot_of k s2")
    case None
    then have "k \<notin> set ks" "joined ws k = None" using mem [of k] dom2 [of k] by (cases "joined ws k"; simp)+
    with None w3(2) show ?thesis by (simp add: mirrors_def look)
  next
    case (Some sl)
    with w3(2) slot2 [OF Some] mem [of k] show ?thesis
      by (cases "sl_generation sl = g") (auto simp: mirrors_def look)
  qed
  then have "pset w3 = joined ws" by (rule ext)
  moreover have "slots_ok g ?s3"
    using d2 slot2 by (auto simp: slots_ok_def look distinct_map_filter split: if_splits)
  ultimately show ?thesis using w3 sync po
    by (intro exI [of _ ?r3]) (simp add: r0_def same_tasks_def)
qed

end

section \<open>The test poller\<close>

text \<open>The world of a test: the fields of \<open>FakePoller\<close>, extended by whatever else there is.\<close>

record FakePoller =
  po_registered :: "nat \<rightharpoonup> nat \<times> int"
  po_register_calls :: "(nat \<times> int) list"
  po_modify_calls :: "(nat \<times> int) list"
  po_unregister_calls :: "poll_key list"
  po_ipoll_calls :: "int list"
  po_ready :: "(poll_key \<times> int) list"

definition FakePoller_init :: FakePoller where
  "FakePoller_init = \<lparr>po_registered = Map.empty, po_register_calls = [], po_modify_calls = [],
     po_unregister_calls = [], po_ipoll_calls = [], po_ready = []\<rparr>"

definition poller_register :: "nat \<Rightarrow> int \<Rightarrow> 'z FakePoller_scheme \<Rightarrow> exn option \<times> 'z FakePoller_scheme" where
  "poller_register obj eventmask w = (None, w\<lparr>po_registered := (po_registered w)(obj \<mapsto> (obj, eventmask)),
     po_register_calls := po_register_calls w @ [(obj, eventmask)]\<rparr>)"

definition poller_modify :: "nat \<Rightarrow> int \<Rightarrow> 'z FakePoller_scheme \<Rightarrow> exn option \<times> 'z FakePoller_scheme" where
  "poller_modify obj eventmask w = (None, w\<lparr>po_registered := (po_registered w)(obj \<mapsto> (obj, eventmask)),
     po_modify_calls := po_modify_calls w @ [(obj, eventmask)]\<rparr>)"

text \<open>A descriptor is another object than any socket, so popping its id removes nothing.\<close>

definition poller_unregister :: "poll_key \<Rightarrow> 'z FakePoller_scheme \<Rightarrow> exn option \<times> 'z FakePoller_scheme" where
  "poller_unregister obj w = (None, w\<lparr>po_registered :=
       (case obj of PollObj s \<Rightarrow> (po_registered w)(s := None) | PollFd d \<Rightarrow> po_registered w),
     po_unregister_calls := po_unregister_calls w @ [obj]\<rparr>)"

definition poller_ipoll :: "int \<Rightarrow> 'z FakePoller_scheme \<Rightarrow> (poll_key \<times> int) list \<times> 'z FakePoller_scheme" where
  "poller_ipoll timeout_ms w = (po_ready w, w\<lparr>po_ipoll_calls := po_ipoll_calls w @ [timeout_ms], po_ready := []\<rparr>)"

definition poller_set_ready :: "poll_key \<Rightarrow> int \<Rightarrow> 'z FakePoller_scheme \<Rightarrow> 'z FakePoller_scheme" where
  "poller_set_ready obj eventmask w = w\<lparr>po_ready := po_ready w @ [(obj, eventmask)]\<rparr>"

definition with_fake_poller :: "'z FakePoller_scheme env \<Rightarrow> 'z FakePoller_scheme env" where
  "with_fake_poller env = env\<lparr>ev_register := poller_register, ev_modify := poller_modify,
     ev_unregister := poller_unregister, ev_ipoll := poller_ipoll\<rparr>"

definition fake_set :: "'z FakePoller_scheme \<Rightarrow> nat \<Rightarrow> int option" where
  "fake_set w k = map_option snd (po_registered w k)"

interpretation fake: object_poller "with_fake_poller env" fake_set for env
  by unfold_locales
    (auto simp: with_fake_poller_def poller_register_def poller_modify_def poller_unregister_def fake_set_def fun_eq_iff)

lemma fake_env_simps [simp]:
  "quiet_interests (with_fake_poller env) ifn = quiet_interests env ifn"
  "wanted_by (with_fake_poller env) ifn = wanted_by env ifn"
  by (simp_all add: quiet_interests_def wanted_by_def with_fake_poller_def fun_eq_iff)

section \<open>Idling\<close>

definition next_wake :: "'w env \<Rightarrow> (nat \<Rightarrow> int \<Rightarrow> 'w \<Rightarrow> int option) \<Rightarrow> int \<Rightarrow> 'w Runner \<Rightarrow> int option" where
  "next_wake env dl now r = min_opt (concat (map (\<lambda>i. deltas env dl now (rn_world r) (handle_at r i)) (rn_entries r)))"

lemma fake_deadlines [simp]: "quiet_deadlines (with_fake_poller env) dl = quiet_deadlines env dl"
  by (simp add: quiet_deadlines_def with_fake_poller_def)

lemma no_slots_no_set: "mirrors pset r \<Longrightarrow> slots_ok g (rn_registered_interest r) \<Longrightarrow>
  rn_registered_interest r = [] \<longleftrightarrow> pset (rn_world r) = Map.empty"
proof
  assume m: "mirrors pset r" and s: "slots_ok g (rn_registered_interest r)" and e: "pset (rn_world r) = Map.empty"
  show "rn_registered_interest r = []"
  proof (rule ccontr)
    assume "rn_registered_interest r \<noteq> []"
    then obtain k sl slots where "rn_registered_interest r = (k, sl) # slots" by (metis list.exhaust surj_pair)
    then have k: "slot_of k (rn_registered_interest r) = Some sl" by (simp add: slot_of_def)
    with s have "sl_registered_mask sl \<noteq> 0" unfolding slots_ok_def by blast
    with k m have "pset (rn_world r) k \<noteq> None" by (simp add: mirrors_def)
    then show False using e by simp
  qed
qed (auto simp: mirrors_def slot_of_def)

text \<open>
  C16. After a sync of the poll set, the poller watches exactly the sockets some registered
  service wants, each for the union of the events its services want; a socket no service wants
  is gone, and the runner's slots again mirror the poller, so the next sync starts from the truth.
\<close>

theorem poll_set_synced:
  assumes "quiet_interests env ifn" "rn_poller r" "slots_ok (rn_sweep_generation r) (rn_registered_interest r)"
    and "mirrors fake_set r"
  shows "\<exists>r'. sync_poll_set (with_fake_poller env) now r = (None, r')
    \<and> fake_set (rn_world r') = joined (concat (map (\<lambda>i. wanted_by env ifn now (rn_world r) (handle_at r i)) (rn_entries r)))
    \<and> slots_ok (rn_sweep_generation r') (rn_registered_interest r') \<and> mirrors fake_set r'
    \<and> rn_poller r' \<and> same_tasks r r'"
  using fake.sync_effect [OF _ assms(2-4) refl, of env ifn now] assms(1) by simp

text \<open>
  C34. A wait syncs the poll set and then idles until the nearest due time or service deadline:
  not at all when that has passed, in the poller with exactly that timeout (without limit when
  nothing is due) when a socket is wanted, and in a plain sleep of exactly that length when none
  is; the poller's events then go to the error dispatch.
\<close>

theorem wait_idles_until_next:
  assumes "quiet_interests env ifn" "quiet_deadlines env dl" "rn_poller r"
    and "slots_ok (rn_sweep_generation r) (rn_registered_interest r)" "mirrors fake_set r"
    and ws: "ws = concat (map (\<lambda>i. wanted_by env ifn now (rn_world r) (handle_at r i)) (rn_entries r))"
  shows "\<exists>r'. fake_set (rn_world r') = joined ws \<and> same_tasks r r' \<and> wait (with_fake_poller env) now r =
    (let t = next_wake (with_fake_poller env) dl now r' in
     if \<exists>d. t = Some d \<and> d \<le> 0 then (None, r')
     else if ws \<noteq> [] then
       poll_events (with_fake_poller env) now (po_ready (rn_world r'))
         (r'\<lparr>rn_world := (rn_world r')\<lparr>po_ipoll_calls := po_ipoll_calls (rn_world r') @ [case t of Some d \<Rightarrow> d | None \<Rightarrow> - 1], po_ready := []\<rparr>\<rparr>)
     else case t of None \<Rightarrow> (None, r') | Some d \<Rightarrow> (None, r'\<lparr>rn_world := ev_sleep_ms env d (rn_world r')\<rparr>))"
proof -
  let ?env = "with_fake_poller env"
  from fake.sync_effect [of env ifn r ws now] assms obtain r' where
    r': "sync_poll_set ?env now r = (None, r')" "fake_set (rn_world r') = joined ws"
      "slots_ok (rn_sweep_generation r') (rn_registered_interest r')" "mirrors fake_set r'" "rn_poller r'" "same_tasks r r'"
    by auto
  have t: "compute_timeout ?env now r' = (Inr (next_wake ?env dl now r'), r')"
    using compute_timeout_spec [of ?env dl now r'] assms(2) by (simp add: next_wake_def)
  have "joined ws = Map.empty \<longleftrightarrow> ws = []" by (cases ws) (auto simp: joined_def fun_eq_iff)
  then have e: "rn_registered_interest r' = [] \<longleftrightarrow> ws = []" using no_slots_no_set [OF r'(4,3)] r'(2) by simp
  have p: "on_world (ev_ipoll ?env d) r' = (po_ready (rn_world r'),
      r'\<lparr>rn_world := (rn_world r')\<lparr>po_ipoll_calls := po_ipoll_calls (rn_world r') @ [d], po_ready := []\<rparr>\<rparr>)" for d
    by (simp add: on_world_def with_fake_poller_def poller_ipoll_def)
  have s: "ev_sleep_ms ?env = ev_sleep_ms env" by (simp add: with_fake_poller_def)
  show ?thesis
    using r' t e p s by (intro exI [of _ r']) (auto simp: wait_def Let_def split: option.split)
qed

section \<open>Witnesses\<close>

text \<open>The sample environment over a world that is a test poller.\<close>

definition poll_env :: "FakePoller env" where
  "poll_env = \<lparr>ev_ticks = real_ticks, ev_ticks_ms = (\<lambda>w. (0, w)), ev_check = (\<lambda>c now w. (Inr True, w)),
     ev_handler = (\<lambda>f now r. (None, r)), ev_on_error = (\<lambda>f i e r. (None, r)),
     ev_io_socket = (\<lambda>s w. Some (s div 2)), ev_io_interest = (\<lambda>f now w. (Inr (int f), w)),
     ev_io_error_of = (\<lambda>s. None), ev_io_error = (\<lambda>f now m r. (None, r)),
     ev_next_deadline = (\<lambda>f now w. (Inr (Some (int f)), w)), ev_fileno = (\<lambda>s w. NoFileno),
     ev_register = poller_register, ev_modify = poller_modify, ev_unregister = poller_unregister,
     ev_ipoll = poller_ipoll, ev_sleep_ms = (\<lambda>t w. w)\<rparr>"

definition poll_runner :: "FakePoller Runner" where
  "poll_runner = fold (api_step poll_env)
     [ApiAdd (Some \<lparr>to_check = 0, to_handle = 0, to_service = 6, to_io_interest = Some 1, to_next_deadline = Some 40\<rparr>) None None None None False,
      ApiAdd (Some \<lparr>to_check = 0, to_handle = 0, to_service = 7, to_io_interest = Some 2, to_next_deadline = None\<rparr>) None None None None False]
     (Runner_init None True FakePoller_init)"

lemma poll_env_quiet: "quiet_interests poll_env (\<lambda>f now w. int f)" "quiet_deadlines poll_env (\<lambda>f now w. Some (int f))"
  by (simp_all add: quiet_interests_def quiet_deadlines_def poll_env_def)

lemma poll_runner_start: "rn_poller poll_runner" "rn_registered_interest poll_runner = []" "rn_world poll_runner = FakePoller_init"
  by (simp_all add: poll_runner_def poll_env_def Runner_init_def add_def initial_next_due_ms_def)

lemma poll_runner_ok: "slots_ok g (rn_registered_interest poll_runner)" "mirrors fake_set poll_runner"
  by (simp_all add: slots_ok_def mirrors_def slot_of_def poll_runner_start fake_set_def FakePoller_init_def)

lemma poll_runner_wants:
  "concat (map (\<lambda>i. wanted_by poll_env (\<lambda>f now w. int f) 0 w (handle_at poll_runner i)) (rn_entries poll_runner)) = [(3, POLLIN), (3, POLLOUT)]"
  by (simp add: poll_runner_def poll_env_def Runner_init_def add_def initial_next_due_ms_def wanted_by_def interest_mask_def
      IO_READ_def IO_WRITE_def POLLIN_def POLLOUT_def)

theorem poll_set_synced_witness:
  "\<exists>r'. sync_poll_set (with_fake_poller poll_env) 0 poll_runner = (None, r') \<and> fake_set (rn_world r') 3 = Some 5 \<and> fake_set (rn_world r') 4 = None"
  using poll_set_synced [OF poll_env_quiet(1) poll_runner_start(1) poll_runner_ok, of 0]
  unfolding poll_runner_wants by (auto simp: joined_def POLLIN_def POLLOUT_def)

theorem wait_idles_until_next_witness:
  "\<exists>r'. fake_set (rn_world r') = joined [(3, POLLIN), (3, POLLOUT)] \<and> same_tasks poll_runner r' \<and> wait (with_fake_poller poll_env) 0 poll_runner =
    (let t = next_wake (with_fake_poller poll_env) (\<lambda>f now w. Some (int f)) 0 r' in
     if \<exists>d. t = Some d \<and> d \<le> 0 then (None, r')
     else poll_events (with_fake_poller poll_env) 0 (po_ready (rn_world r'))
         (r'\<lparr>rn_world := (rn_world r')\<lparr>po_ipoll_calls := po_ipoll_calls (rn_world r') @ [case t of Some d \<Rightarrow> d | None \<Rightarrow> - 1], po_ready := []\<rparr>\<rparr>))"
  using wait_idles_until_next [OF poll_env_quiet poll_runner_start(1) poll_runner_ok refl, of 0]
  unfolding poll_runner_wants by (simp only: list.distinct not_False_eq_True if_True)

end
