(* ===== verification/Ws_Handshake.thy ===== *)
theory Ws_Handshake
  imports Chu_Text Chu_Program
begin

text \<open>
  The opening handshake of \<^verbatim>\<open>libraries/websockets/src/chumicro_websockets/_wire.py\<close>: URLs, the
  case-insensitive header dict, the accept key, the HTTP/1.1 messages of both sides and the streaming
  parsers that read them. A parser is one record with the fields of \<^verbatim>\<open>_HandshakeLineParser\<close> and of
  its two subclasses; \<open>hp_role\<close> says which of them it is. What \<^verbatim>\<open>feed\<close> has written before it raises
  stays written, so it returns the parser beside its result.
\<close>

section \<open>Constants\<close>

definition WS_MAGIC_GUID :: pystr where "WS_MAGIC_GUID = ustr ''258EAFA5-E914-47DA-95CA-C5AB0DC85B11''"
definition WS_VERSION :: pystr where "WS_VERSION = ustr ''13''"
definition CRLF :: "byte list" where "CRLF = [B 13, B 10]"
definition DEFAULT_MAX_HEADER_BYTES :: nat where "DEFAULT_MAX_HEADER_BYTES = 8192"

section \<open>Headers\<close>

record CaseInsensitiveDict =
  cd_entries :: "pystr \<rightharpoonup> pystr \<times> pystr"
  cd_order :: "pystr list"

definition CaseInsensitiveDict_init :: CaseInsensitiveDict where
  "CaseInsensitiveDict_init = \<lparr>cd_entries = Map.empty, cd_order = []\<rparr>"

definition cd_setitem :: "pystr \<Rightarrow> pystr \<Rightarrow> CaseInsensitiveDict \<Rightarrow> CaseInsensitiveDict" where
  "cd_setitem name v d = (let lower = py_lower name in
     d\<lparr>cd_order := (if cd_entries d lower = None then cd_order d @ [lower] else cd_order d),
       cd_entries := (cd_entries d)(lower \<mapsto> (name, v))\<rparr>)"

definition cd_getitem :: "pystr \<Rightarrow> CaseInsensitiveDict \<Rightarrow> pystr result" where
  "cd_getitem name d = (case cd_entries d (py_lower name) of None \<Rightarrow> Inl KeyError | Some e \<Rightarrow> Inr (snd e))"

definition cd_contains :: "pystr \<Rightarrow> CaseInsensitiveDict \<Rightarrow> bool" where
  "cd_contains name d \<longleftrightarrow> cd_entries d (py_lower name) \<noteq> None"

definition cd_get :: "pystr \<Rightarrow> pystr \<Rightarrow> CaseInsensitiveDict \<Rightarrow> pystr" where
  "cd_get name dflt d = (case cd_entries d (py_lower name) of None \<Rightarrow> dflt | Some e \<Rightarrow> snd e)"

fun entries_of :: "(pystr \<rightharpoonup> pystr \<times> pystr) \<Rightarrow> pystr list \<Rightarrow> (pystr \<times> pystr) list result" where
  "entries_of m [] = Inr []"
| "entries_of m (k # ks) = (case m k of None \<Rightarrow> Inl KeyError | Some e \<Rightarrow> rbind (entries_of m ks) (\<lambda>es. Inr (e # es)))"

definition cd_items :: "CaseInsensitiveDict \<Rightarrow> (pystr \<times> pystr) list result" where
  "cd_items d = entries_of (cd_entries d) (cd_order d)"

section \<open>URLs\<close>

definition parse_ws_url :: "pystr \<Rightarrow> (pystr \<times> pystr \<times> int \<times> pystr) result" where
  "parse_ws_url url =
     (case (if starts_with url (ustr ''ws://'') then Some (ustr ''ws'', drop 5 url, 80 :: int)
            else if starts_with url (ustr ''wss://'') then Some (ustr ''wss'', drop 6 url, 443)
            else None) of
        None \<Rightarrow> Inl (WebSocketURLError ''url must start with ws:// or wss://'')
      | Some (scheme, rest, default_port) \<Rightarrow>
          if rest = [] then Inl (WebSocketURLError ''url is missing host'')
          else
            let (host_and_port, path) = (case find_char 47 rest of
                None \<Rightarrow> (rest, [47]) | Some slash_index \<Rightarrow> (take slash_index rest, drop slash_index rest)) in
            if host_and_port = [] then Inl (WebSocketURLError ''url is missing host'')
            else case find_char 58 host_and_port of
                None \<Rightarrow> Inr (scheme, host_and_port, default_port, path)
              | Some colon_index \<Rightarrow>
                  if colon_index = 0 then Inl (WebSocketURLError ''url is missing host'')
                  else case py_int (drop (colon_index + 1) host_and_port) of
                      Inl e \<Rightarrow> Inl (WebSocketURLError ''url has non-integer port'')
                    | Inr port \<Rightarrow>
                        if port \<le> 0 \<or> port > 65535 then Inl (WebSocketURLError ''url port out of range 1-65535'')
                        else Inr (scheme, take colon_index host_and_port, port, path))"

section \<open>Keys\<close>

definition base64_text :: "byte list \<Rightarrow> pystr result" where
  "base64_text bs = ascii_decode (rstrip_byte (B 13) (rstrip_byte (B 10) (b2a_base64 bs)))"

text \<open>The nonce is what \<^verbatim>\<open>os.urandom(16)\<close> returned.\<close>

definition make_websocket_key :: "byte list \<Rightarrow> pystr result" where
  "make_websocket_key nonce = base64_text nonce"

definition derive_accept_key :: "pystr \<Rightarrow> pystr result" where
  "derive_accept_key client_key = rbind (ascii_encode (client_key @ WS_MAGIC_GUID)) (\<lambda>bs. base64_text (sha1_digest bs))"

section \<open>Encoders\<close>

definition merge_extra_headers :: "(pystr \<times> pystr) list \<Rightarrow> CaseInsensitiveDict \<Rightarrow> CaseInsensitiveDict" where
  "merge_extra_headers extra merged = fold (\<lambda>(name, v). cd_setitem name v) extra merged"

definition header_line :: "pystr \<times> pystr \<Rightarrow> byte list result" where
  "header_line h = ascii_encode (fst h @ ustr '': '' @ snd h @ [13, 10])"

fun header_lines :: "(pystr \<times> pystr) list \<Rightarrow> byte list result" where
  "header_lines [] = Inr []"
| "header_lines (h # hs) = rbind (header_line h) (\<lambda>b. rbind (header_lines hs) (\<lambda>bs. Inr (b @ bs)))"

definition encode_client_handshake :: "pystr \<Rightarrow> int \<Rightarrow> pystr \<Rightarrow> pystr \<Rightarrow> (pystr \<times> pystr) list \<Rightarrow> byte list result" where
  "encode_client_handshake host port path key extra_headers =
     (let host_value = (if port \<in> {80, 443} then host else host @ [58] @ py_str port);
          merged = cd_setitem (ustr ''Sec-WebSocket-Version'') WS_VERSION
            (cd_setitem (ustr ''Sec-WebSocket-Key'') key
            (cd_setitem (ustr ''Connection'') (ustr ''Upgrade'')
            (cd_setitem (ustr ''Upgrade'') (ustr ''websocket'')
            (cd_setitem (ustr ''Host'') host_value
            (merge_extra_headers extra_headers CaseInsensitiveDict_init))))) in
      rbind (ascii_encode (ustr ''GET '' @ path @ ustr '' HTTP/1.1'' @ [13, 10])) (\<lambda>first.
      rbind (cd_items merged) (\<lambda>items.
      rbind (header_lines items) (\<lambda>lines. Inr (first @ lines @ CRLF)))))"

definition encode_server_handshake_response :: "pystr \<Rightarrow> (pystr \<times> pystr) list \<Rightarrow> byte list result" where
  "encode_server_handshake_response client_key extra_headers =
     rbind (derive_accept_key client_key) (\<lambda>accept_token.
     let merged = cd_setitem (ustr ''Sec-WebSocket-Accept'') accept_token
            (cd_setitem (ustr ''Connection'') (ustr ''Upgrade'')
            (cd_setitem (ustr ''Upgrade'') (ustr ''websocket'')
            (merge_extra_headers extra_headers CaseInsensitiveDict_init))) in
     rbind (cd_items merged) (\<lambda>items.
     rbind (header_lines items) (\<lambda>lines.
       Inr (map B (ustr ''HTTP/1.1 101 Switching Protocols'') @ CRLF @ lines @ CRLF))))"

definition encode_server_rejection :: "int \<Rightarrow> pystr \<Rightarrow> byte list option \<Rightarrow> pystr \<Rightarrow> byte list result" where
  "encode_server_rejection status_code reason_phrase body content_type =
     rbind (ascii_encode (ustr ''HTTP/1.1 '' @ py_str status_code @ [32] @ reason_phrase @ [13, 10])) (\<lambda>first.
     rbind (case body of None \<Rightarrow> Inr []
       | Some b \<Rightarrow> rbind (ascii_encode (ustr ''Content-Length: '' @ py_str (int (length b)) @ [13, 10])) (\<lambda>l.
           rbind (ascii_encode (ustr ''Content-Type: '' @ content_type @ [13, 10])) (\<lambda>t. Inr (l @ t)))) (\<lambda>entity.
     Inr (first @ map B (ustr ''Connection: close'') @ CRLF @ entity @ CRLF @ (case body of None \<Rightarrow> [] | Some b \<Rightarrow> b))))"

section \<open>The parsers\<close>

datatype HandshakeParseState = REQUEST_LINE | STATUS_LINE | HEADERS | DONE | ERROR

datatype handshake_role = RequestParser | ResponseParser (expected_accept: pystr)

record HandshakeParser =
  hp_role :: handshake_role
  hp_max_header_bytes :: nat
  hp_buffer :: "byte list"
  hp_read_offset :: nat
  hp_state :: HandshakeParseState
  hp_http_version :: pystr
  hp_headers :: CaseInsensitiveDict
  hp_error :: "string option"
  hp_leftover :: "byte list"
  hp_status_code :: "int option"
  hp_reason :: pystr
  hp_method :: pystr
  hp_path :: pystr

type_synonym 'a hp = "(HandshakeParser, 'a) prog"

definition initial_state :: "handshake_role \<Rightarrow> HandshakeParseState" where
  "initial_state role = (case role of RequestParser \<Rightarrow> REQUEST_LINE | ResponseParser _ \<Rightarrow> STATUS_LINE)"

definition HandshakeParser_init :: "handshake_role \<Rightarrow> nat \<Rightarrow> HandshakeParser" where
  "HandshakeParser_init role max_header_bytes =
     \<lparr>hp_role = role, hp_max_header_bytes = max_header_bytes, hp_buffer = [], hp_read_offset = 0, hp_state = initial_state role,
      hp_http_version = [], hp_headers = CaseInsensitiveDict_init, hp_error = None, hp_leftover = [], hp_status_code = None,
      hp_reason = [], hp_method = [], hp_path = []\<rparr>"

definition hs_fail :: "string \<Rightarrow> 'a hp" where
  "hs_fail message = andThen (modify (\<lambda>p. p\<lparr>hp_error := Some message, hp_state := ERROR\<rparr>)) (throw (WebSocketHandshakeError message))"

definition live :: "HandshakeParser \<Rightarrow> byte list" where
  "live p = drop (hp_read_offset p) (hp_buffer p)"

definition live_len :: "HandshakeParser \<Rightarrow> int" where
  "live_len p = int (length (hp_buffer p)) - int (hp_read_offset p)"

text \<open>\<^verbatim>\<open>bytearray.find(b"\r\n", start)\<close>, relative to the start.\<close>

fun find_crlf :: "byte list \<Rightarrow> nat option" where
  "find_crlf (a # b # r) = (if a = B 13 \<and> b = B 10 then Some 0 else map_option Suc (find_crlf (b # r)))"
| "find_crlf _ = None"

definition live_find :: "HandshakeParser \<Rightarrow> nat option" where
  "live_find p = find_crlf (live p)"

definition live_slice :: "nat \<Rightarrow> nat option \<Rightarrow> HandshakeParser \<Rightarrow> byte list" where
  "live_slice start len p = (case len of
     None \<Rightarrow> drop (hp_read_offset p + start) (hp_buffer p)
   | Some n \<Rightarrow> take n (drop (hp_read_offset p + start) (hp_buffer p)))"

definition hs_consume :: "nat \<Rightarrow> HandshakeParser \<Rightarrow> HandshakeParser" where
  "hs_consume count p = (let offset = hp_read_offset p + count in
     if offset > 0 \<and> offset * 2 \<ge> length (hp_buffer p)
     then p\<lparr>hp_buffer := drop offset (hp_buffer p), hp_read_offset := 0\<rparr>
     else p\<lparr>hp_read_offset := offset\<rparr>)"

definition parse_header_line :: "byte list \<Rightarrow> unit hp" where
  "parse_header_line line = (let decoded = latin1_decode line in
     case find_char 58 decoded of
       None \<Rightarrow> hs_fail ''header line missing colon''
     | Some colon_index \<Rightarrow>
         let header_name = py_strip (take colon_index decoded);
             header_value = py_strip (drop (colon_index + 1) decoded) in
         if header_name = [] then hs_fail ''empty header name''
         else modify (\<lambda>p. p\<lparr>hp_headers := cd_setitem header_name header_value (hp_headers p)\<rparr>))"

definition validate_upgrade_headers :: "unit hp" where
  "validate_upgrade_headers p =
     (if \<not> has_substring (ustr ''websocket'') (py_lower (cd_get (ustr ''Upgrade'') [] (hp_headers p)))
      then hs_fail ''missing Upgrade: websocket'' p
      else if ustr ''upgrade'' \<notin> set (map py_strip (split_on 44 (py_lower (cd_get (ustr ''Connection'') [] (hp_headers p)))))
      then hs_fail ''missing Connection: Upgrade'' p
      else ret () p)"

definition commit_done :: "unit hp" where
  "commit_done = modify (\<lambda>p. p\<lparr>hp_leftover := live_slice 0 None p, hp_buffer := [], hp_read_offset := 0, hp_state := DONE\<rparr>)"

definition response_first_line :: "byte list \<Rightarrow> unit hp" where
  "response_first_line line = (case ascii_decode line of
     Inl e \<Rightarrow> if is_ValueError e then hs_fail ''non-ASCII bytes in status line'' else throw e
   | Inr decoded \<Rightarrow>
       (case split_max 2 32 decoded of
          version # code # tail \<Rightarrow>
            andThen (modify (\<lambda>p. p\<lparr>hp_http_version := version\<rparr>))
              (case py_int code of
                 Inl e \<Rightarrow> if is_ValueError e then hs_fail ''non-integer status code'' else throw e
               | Inr status \<Rightarrow>
                   andThen (modify (\<lambda>p. p\<lparr>hp_status_code := Some status, hp_reason := (case tail of [r] \<Rightarrow> r | _ \<Rightarrow> [])\<rparr>))
                     (if status \<noteq> 101 then hs_fail ''server did not switch protocols''
                      else modify (\<lambda>p. p\<lparr>hp_state := HEADERS\<rparr>)))
        | _ \<Rightarrow> hs_fail ''malformed status line''))"

definition request_first_line :: "byte list \<Rightarrow> unit hp" where
  "request_first_line line = (case ascii_decode line of
     Inl e \<Rightarrow> if is_ValueError e then hs_fail ''non-ASCII bytes in request line'' else throw e
   | Inr decoded \<Rightarrow>
       (case split_on 32 decoded of
          [meth, path, version] \<Rightarrow>
            andThen (modify (\<lambda>p. p\<lparr>hp_method := meth, hp_path := path, hp_http_version := version\<rparr>))
              (if meth \<noteq> ustr ''GET'' then hs_fail ''method must be GET''
               else if \<not> starts_with version (ustr ''HTTP/1.'') then hs_fail ''unsupported HTTP version''
               else modify (\<lambda>p. p\<lparr>hp_state := HEADERS\<rparr>))
        | _ \<Rightarrow> hs_fail ''malformed request line''))"

definition parse_first_line :: "byte list \<Rightarrow> unit hp" where
  "parse_first_line line p = (case hp_role p of
     RequestParser \<Rightarrow> request_first_line line p | ResponseParser _ \<Rightarrow> response_first_line line p)"

definition client_key :: "HandshakeParser \<Rightarrow> pystr" where
  "client_key p = cd_get (ustr ''Sec-WebSocket-Key'') [] (hp_headers p)"

definition response_finalize :: "pystr \<Rightarrow> unit hp" where
  "response_finalize accepted = andThen validate_upgrade_headers (\<lambda>p.
     if cd_get (ustr ''Sec-WebSocket-Accept'') [] (hp_headers p) \<noteq> accepted
     then hs_fail ''Sec-WebSocket-Accept mismatch'' p else commit_done p)"

definition request_finalize :: "unit hp" where
  "request_finalize = andThen validate_upgrade_headers (\<lambda>p.
     if cd_get (ustr ''Sec-WebSocket-Version'') [] (hp_headers p) \<noteq> WS_VERSION
     then hs_fail ''unsupported Sec-WebSocket-Version'' p
     else let key = cd_get (ustr ''Sec-WebSocket-Key'') [] (hp_headers p) in
       if key = [] then hs_fail ''client request missing Sec-WebSocket-Key'' p
       else case rbind (ascii_encode key) a2b_base64 of
           Inl e \<Rightarrow> if is_ValueError e then hs_fail ''Sec-WebSocket-Key is not valid base64'' p else throw e p
         | Inr decoded_key \<Rightarrow>
             if length decoded_key \<noteq> 16 then hs_fail ''Sec-WebSocket-Key must decode to 16 bytes'' p else commit_done p)"

definition finalize :: "unit hp" where
  "finalize p = (case hp_role p of RequestParser \<Rightarrow> request_finalize p | ResponseParser a \<Rightarrow> response_finalize a p)"

text \<open>One turn of the loop of \<^verbatim>\<open>feed\<close> with the terminator found at \<open>i\<close>; whether the loop goes on.\<close>

definition feed_line :: "nat \<Rightarrow> bool hp" where
  "feed_line i p = (let line = live_slice 0 (Some i) p; p1 = hs_consume (i + 2) p in
     if hp_state p1 = HEADERS then
       if line = [] then andThen finalize (ret False) p1
       else andThen (parse_header_line line) (ret True) p1
     else andThen (parse_first_line line) (ret True) p1)"

lemma live_hs_consume [simp]: "live (hs_consume n p) = drop n (live p)"
  by (simp add: hs_consume_def live_def Let_def add.commute)

lemma hs_consume_other [simp]:
  "hp_state (hs_consume n p) = hp_state p" "hp_role (hs_consume n p) = hp_role p" "hp_headers (hs_consume n p) = hp_headers p"
  by (simp_all add: hs_consume_def Let_def)

lemma find_crlf_bound: "find_crlf bs = Some i \<Longrightarrow> i + 2 \<le> length bs"
  by (induction bs arbitrary: i rule: find_crlf.induct) (auto split: if_splits)

lemma feed_line_True:
  assumes "feed_line i p = (Inr True, p1)"
  shows "live p1 = drop (i + 2) (live p)"
proof -
  have "live p1 = live (hs_consume (i + 2) p)"
    using assms unfolding feed_line_def parse_header_line_def parse_first_line_def request_first_line_def response_first_line_def
      hs_fail_def Let_def
    by (auto simp: prog_simps live_def split: if_splits option.splits sum.splits prod.splits list.splits handshake_role.splits)
  then show ?thesis by simp
qed

function hs_loop :: "unit hp" where
  "hs_loop p = (case live_find p of
     None \<Rightarrow> (Inr (), p)
   | Some i \<Rightarrow> (case feed_line i p of
       (Inl e, p1) \<Rightarrow> (Inl e, p1)
     | (Inr again, p1) \<Rightarrow> if again then hs_loop p1 else (Inr (), p1)))"
  by pat_completeness auto
termination
proof (relation "measure (length \<circ> live)", simp)
  fix p i r p1 again
  assume "live_find p = Some i" "(r, p1) = feed_line i p" "r = Inr again" again
  then show "(p1, p) \<in> measure (length \<circ> live)"
    using feed_line_True [of i p p1] find_crlf_bound [of "live p" i] by (auto simp: live_find_def)
qed

declare hs_loop.simps [simp del]

definition hs_feed :: "byte list \<Rightarrow> unit hp" where
  "hs_feed chunk p =
     (if hp_state p = DONE \<or> hp_state p = ERROR then (Inr (), p)
      else let p1 = p\<lparr>hp_buffer := hp_buffer p @ chunk\<rparr> in
        if live_len p1 > int (hp_max_header_bytes p1) then hs_fail ''handshake exceeded max_header_bytes'' p1
        else hs_loop p1)"



section \<open>The buffer is a view\<close>

text \<open>Two parsers that differ only in how their buffer holds the unread bytes.\<close>

definition same :: "HandshakeParser \<Rightarrow> HandshakeParser \<Rightarrow> bool" where
  "same p q \<longleftrightarrow> live p = live q \<and> q = p\<lparr>hp_buffer := hp_buffer q, hp_read_offset := hp_read_offset q\<rparr>"

definition views :: "'a hp \<Rightarrow> bool" where
  "views m \<longleftrightarrow> (\<forall>p q. same p q \<longrightarrow> fst (m p) = fst (m q) \<and> same (snd (m p)) (snd (m q)))"

lemma same_refl [simp]: "same p p"
  by (simp add: same_def)

lemma same_fields:
  assumes "same p q"
  shows "hp_role q = hp_role p" "hp_state q = hp_state p" "hp_headers q = hp_headers p" "live q = live p"
    "hp_max_header_bytes q = hp_max_header_bytes p" "hp_leftover q = hp_leftover p" "hp_method q = hp_method p" "hp_path q = hp_path p"
proof -
  obtain b k where q: "q = p\<lparr>hp_buffer := b, hp_read_offset := k\<rparr>" using assms unfolding same_def by blast
  show "hp_role q = hp_role p" "hp_state q = hp_state p" "hp_headers q = hp_headers p" "live q = live p"
    "hp_max_header_bytes q = hp_max_header_bytes p" "hp_leftover q = hp_leftover p" "hp_method q = hp_method p" "hp_path q = hp_path p"
    using assms by (simp_all add: q same_def)
qed

lemma same_sym: "same p q \<Longrightarrow> same q p"
  unfolding same_def by (cases p; cases q) auto

lemma same_trans: "same p q \<Longrightarrow> same q r \<Longrightarrow> same p r"
  unfolding same_def by (cases p; cases q; cases r) auto

lemma viewsI: "(\<And>p b k. drop k b = live p \<Longrightarrow> fst (m p) = fst (m (p\<lparr>hp_buffer := b, hp_read_offset := k\<rparr>))
    \<and> same (snd (m p)) (snd (m (p\<lparr>hp_buffer := b, hp_read_offset := k\<rparr>)))) \<Longrightarrow> views m"
  unfolding views_def same_def by (metis live_def)

lemma views_ret: "views (ret x)" "views (throw e)"
  by (simp_all add: views_def)

lemma views_andThen: "views m \<Longrightarrow> views n \<Longrightarrow> views (andThen m n)"
  unfolding views_def run_andThen by (fastforce split: prod.splits sum.splits)

text \<open>Programs that do not touch the buffer at all.\<close>

abbreviation with_buffer :: "byte list \<Rightarrow> nat \<Rightarrow> HandshakeParser \<Rightarrow> HandshakeParser" where
  "with_buffer b k p \<equiv> p\<lparr>hp_buffer := b, hp_read_offset := k\<rparr>"

definition framed :: "'a hp \<Rightarrow> bool" where
  "framed m \<longleftrightarrow> (\<forall>p b k. m (with_buffer b k p) = (fst (m p), with_buffer b k (snd (m p))))"

lemma framedI: "(\<And>p b k. m (with_buffer b k p) = (fst (m p), with_buffer b k (snd (m p)))) \<Longrightarrow> framed m"
  by (simp add: framed_def)

lemma framed_keeps:
  assumes "framed m"
  shows "hp_buffer (snd (m p)) = hp_buffer p" "hp_read_offset (snd (m p)) = hp_read_offset p"
proof -
  have "m p = m (with_buffer (hp_buffer p) (hp_read_offset p) p)" by simp
  also have "\<dots> = (fst (m p), with_buffer (hp_buffer p) (hp_read_offset p) (snd (m p)))" using assms unfolding framed_def by blast
  finally have "snd (m p) = with_buffer (hp_buffer p) (hp_read_offset p) (snd (m p))" by (metis snd_conv)
  then show "hp_buffer (snd (m p)) = hp_buffer p" "hp_read_offset (snd (m p)) = hp_read_offset p"
    by (metis HandshakeParser.simps(3,4) HandshakeParser.select_convs HandshakeParser.surjective HandshakeParser.update_convs)+
qed

lemma framed_views: "framed m \<Longrightarrow> views m"
  by (intro viewsI) (simp add: framed_def framed_keeps same_def live_def)

lemma framed_ret: "framed (ret x)" "framed (throw e)"
  by (simp_all add: framed_def)

lemma framed_andThen: "framed m \<Longrightarrow> framed n \<Longrightarrow> framed (andThen m n)"
  unfolding framed_def run_andThen by (auto split: prod.split sum.split)

lemma framed_hs_fail: "framed (hs_fail msg)"
  unfolding hs_fail_def by (intro framed_andThen framed_ret framedI) simp

lemma framed_parse_header_line: "framed (parse_header_line line)"
proof -
  have "framed (modify (\<lambda>p. p\<lparr>hp_headers := f (hp_headers p)\<rparr>))" for f
    by (intro framedI) simp
  then show ?thesis unfolding parse_header_line_def Let_def
    by (auto simp: framed_hs_fail split: option.split)
qed

lemma framed_request_first_line: "framed (request_first_line line)"
proof -
  have 1: "framed (modify (\<lambda>p. p\<lparr>hp_method := x, hp_path := y, hp_http_version := z\<rparr>))" "framed (modify (\<lambda>p. p\<lparr>hp_state := s\<rparr>))" for x y z s
    by (intro framedI, simp)+
  show ?thesis unfolding request_first_line_def
    by (auto simp: framed_hs_fail framed_ret 1 intro!: framed_andThen split: sum.split list.split)
qed

lemma framed_response_first_line: "framed (response_first_line line)"
proof -
  have 1: "framed (modify (\<lambda>p. p\<lparr>hp_status_code := x, hp_reason := y\<rparr>))" "framed (modify (\<lambda>p. p\<lparr>hp_http_version := z\<rparr>))"
    "framed (modify (\<lambda>p. p\<lparr>hp_state := s\<rparr>))" for x y z s
    by (intro framedI, simp)+
  show ?thesis unfolding response_first_line_def
    by (auto simp: framed_hs_fail framed_ret 1 intro!: framed_andThen split: sum.split list.split)
qed

lemma framed_parse_first_line: "framed (parse_first_line line)"
proof (rule framedI)
  fix p b k
  show "parse_first_line line (with_buffer b k p) = (fst (parse_first_line line p), with_buffer b k (snd (parse_first_line line p)))"
    using framed_request_first_line [of line] framed_response_first_line [of line]
    unfolding parse_first_line_def framed_def by (cases "hp_role p") simp_all
qed

lemma framed_validate: "framed validate_upgrade_headers"
proof (rule framedI)
  fix p b k
  show "validate_upgrade_headers (with_buffer b k p) = (fst (validate_upgrade_headers p), with_buffer b k (snd (validate_upgrade_headers p)))"
    by (simp add: validate_upgrade_headers_def hs_fail_def run_andThen)
qed

lemmas views_hs_fail = framed_views [OF framed_hs_fail]
  and views_parse_header_line = framed_views [OF framed_parse_header_line]
  and views_parse_first_line = framed_views [OF framed_parse_first_line]
  and views_validate = framed_views [OF framed_validate]

lemma views_by_role:
  assumes "\<And>p. m p = f (hp_role p) p" "\<And>r. views (f r)"
  shows "views m"
  unfolding views_def
proof (intro allI impI)
  fix p q
  assume s: "same p q"
  then have "fst (f (hp_role p) p) = fst (f (hp_role p) q) \<and> same (snd (f (hp_role p) p)) (snd (f (hp_role p) q))"
    using assms(2) unfolding views_def by blast
  then show "fst (m p) = fst (m q) \<and> same (snd (m p)) (snd (m q))"
    using assms(1) [of p] assms(1) [of q] same_fields(1) [OF s] by simp
qed

lemma views_by_headers:
  assumes "\<And>p. m p = f (hp_headers p) p" "\<And>r. views (f r)"
  shows "views m"
  unfolding views_def
proof (intro allI impI)
  fix p q
  assume s: "same p q"
  then have "fst (f (hp_headers p) p) = fst (f (hp_headers p) q) \<and> same (snd (f (hp_headers p) p)) (snd (f (hp_headers p) q))"
    using assms(2) unfolding views_def by blast
  then show "fst (m p) = fst (m q) \<and> same (snd (m p)) (snd (m q))"
    using assms(1) [of p] assms(1) [of q] same_fields(3) [OF s] by simp
qed

lemma views_commit_done: "views commit_done"
  unfolding commit_done_def by (intro viewsI) (auto simp: same_def live_def live_slice_def)

lemma views_finalize: "views finalize"
proof -
  have 1: "views (response_finalize a)" for a
    unfolding response_finalize_def
    by (rule views_andThen [OF views_validate views_by_headers [where f = "\<lambda>h. if cd_get (ustr ''Sec-WebSocket-Accept'') [] h \<noteq> a
        then hs_fail ''Sec-WebSocket-Accept mismatch'' else commit_done"]]) (auto simp: views_hs_fail views_commit_done)
  have 2: "views request_finalize"
    unfolding request_finalize_def
    by (rule views_andThen [OF views_validate views_by_headers [where f = "\<lambda>h. if cd_get (ustr ''Sec-WebSocket-Version'') [] h \<noteq> WS_VERSION
        then hs_fail ''unsupported Sec-WebSocket-Version''
        else let key = cd_get (ustr ''Sec-WebSocket-Key'') [] h in
          if key = [] then hs_fail ''client request missing Sec-WebSocket-Key''
          else case rbind (ascii_encode key) a2b_base64 of
              Inl e \<Rightarrow> if is_ValueError e then hs_fail ''Sec-WebSocket-Key is not valid base64'' else throw e
            | Inr decoded_key \<Rightarrow>
                if length decoded_key \<noteq> 16 then hs_fail ''Sec-WebSocket-Key must decode to 16 bytes'' else commit_done"]])
      (auto simp: views_hs_fail views_commit_done views_ret Let_def split: sum.split)
  show ?thesis
    by (rule views_by_role [where f = "\<lambda>r. case r of RequestParser \<Rightarrow> request_finalize | ResponseParser a \<Rightarrow> response_finalize a"])
      (auto simp: finalize_def 1 2 split: handshake_role.split)
qed

lemma hs_consume_form: "\<exists>b k. hs_consume n p = with_buffer b k p"
  by (cases p) (auto simp: hs_consume_def Let_def)

lemma same_consume: "same p q \<Longrightarrow> same (hs_consume n p) (hs_consume n q)"
proof -
  assume s: "same p q"
  obtain b k b' k' where "hs_consume n p = p\<lparr>hp_buffer := b, hp_read_offset := k\<rparr>" "hs_consume n q = q\<lparr>hp_buffer := b', hp_read_offset := k'\<rparr>"
    using hs_consume_form by metis
  moreover obtain b0 k0 where "q = p\<lparr>hp_buffer := b0, hp_read_offset := k0\<rparr>" using s unfolding same_def by blast
  moreover have "live (hs_consume n p) = live (hs_consume n q)" using same_fields(4) [OF s] by simp
  ultimately show ?thesis by (simp add: same_def)
qed

lemma views_feed_line: "views (feed_line i)"
  unfolding views_def
proof (intro allI impI)
  fix p q
  assume s: "same p q"
  let ?m = "\<lambda>line st. if st = HEADERS then if line = [] then andThen finalize (ret False) else andThen (parse_header_line line) (ret True)
     else andThen (parse_first_line line) (ret True)"
  define line where "line = take i (live p)"
  have l: "live_slice 0 (Some i) p = take i (live p)" for p by (simp add: live_slice_def live_def)
  have "views (?m line st)" for line st
    by (simp add: views_andThen views_finalize views_parse_header_line views_parse_first_line views_ret)
  then have "fst (?m line st (hs_consume (i + 2) p)) = fst (?m line st (hs_consume (i + 2) q))
      \<and> same (snd (?m line st (hs_consume (i + 2) p))) (snd (?m line st (hs_consume (i + 2) q)))" for line st
    using same_consume [OF s] unfolding views_def by blast
  from this [of "hp_state p" line]
  show "fst (feed_line i p) = fst (feed_line i q) \<and> same (snd (feed_line i p)) (snd (feed_line i q))"
    unfolding feed_line_def Let_def l hs_consume_other same_fields(2,4) [OF s] line_def [symmetric] by (auto split: if_splits)
qed

lemma views_hs_loop: "same p q \<Longrightarrow> fst (hs_loop p) = fst (hs_loop q) \<and> same (snd (hs_loop p)) (snd (hs_loop q))"
proof (induction p arbitrary: q rule: hs_loop.induct)
  case (1 p)
  show ?case
  proof (cases "live_find p")
    case None
    then show ?thesis using 1(2) same_fields(4) [OF 1(2)] by (simp add: hs_loop.simps [of p] hs_loop.simps [of q] live_find_def)
  next
    case (Some i)
    then have q: "live_find q = Some i" using same_fields(4) [OF 1(2)] by (simp add: live_find_def)
    obtain r p1 where p1: "feed_line i p = (r, p1)" by fastforce
    obtain q1 where q1: "feed_line i q = (r, q1)" "same p1 q1"
      using views_feed_line [of i] 1(2) p1 unfolding views_def by (metis fst_conv prod.collapse snd_conv)
    show ?thesis
    proof (cases "r = Inr True")
      case True
      then show ?thesis using 1(1) [OF Some p1 [symmetric], of True q1] Some q p1 q1
        by (simp add: hs_loop.simps [of p] hs_loop.simps [of q])
    next
      case False
      then show ?thesis using Some q p1 q1 by (cases r) (auto simp: hs_loop.simps [of p] hs_loop.simps [of q])
    qed
  qed
qed

section \<open>Chunks\<close>

definition hp_ok :: "HandshakeParser \<Rightarrow> bool" where
  "hp_ok p \<longleftrightarrow> hp_read_offset p \<le> length (hp_buffer p)"

abbreviation more_bytes :: "byte list \<Rightarrow> HandshakeParser \<Rightarrow> HandshakeParser" where
  "more_bytes b p \<equiv> p\<lparr>hp_buffer := hp_buffer p @ b\<rparr>"

lemma live_more_bytes: "hp_ok p \<Longrightarrow> live (more_bytes b p) = live p @ b"
  by (simp add: hp_ok_def live_def)

lemma same_more_bytes: "same p q \<Longrightarrow> hp_ok p \<Longrightarrow> hp_ok q \<Longrightarrow> same (more_bytes b p) (more_bytes b q)"
proof -
  assume s: "same p q" "hp_ok p" "hp_ok q"
  have l: "live (more_bytes b p) = live (more_bytes b q)"
    using live_more_bytes [OF s(2)] live_more_bytes [OF s(3)] same_fields(4) [OF s(1)] by simp
  obtain b0 k0 where "q = with_buffer b0 k0 p" using s(1) unfolding same_def by blast
  then show ?thesis using l by (simp add: same_def)
qed

lemma find_crlf_append: "find_crlf xs = Some i \<Longrightarrow> find_crlf (xs @ ys) = Some i"
  by (induction xs arbitrary: i rule: find_crlf.induct) (auto split: if_splits)

lemma hp_ok_consume: "hp_ok p \<Longrightarrow> n \<le> length (live p) \<Longrightarrow> hp_ok (hs_consume n p)"
  by (auto simp: hp_ok_def hs_consume_def live_def Let_def)

text \<open>A line that does not end the header block, with and without bytes behind it.\<close>

lemma feed_line_more:
  assumes "live_find p = Some i" "hp_ok p" "feed_line i p = (Inr True, p1)"
  shows "hp_ok p1" "\<exists>q1. feed_line i (more_bytes b p) = (Inr True, q1) \<and> hp_ok q1 \<and> same q1 (more_bytes b p1)"
proof -
  have len: "i + 2 \<le> length (live p)" using assms(1) find_crlf_bound by (simp add: live_find_def)
  define line where "line = take i (live p)"
  define m where "m = (if hp_state p = HEADERS then parse_header_line line else parse_first_line line)"
  have fm: "framed m" by (simp add: m_def framed_parse_header_line framed_parse_first_line)
  have slice: "live_slice 0 (Some i) p = line" "live_slice 0 (Some i) (more_bytes b p) = line"
    using len live_more_bytes [OF assms(2), of b] by (simp_all add: live_slice_def line_def flip: live_def)
  have hd: "\<not> (hp_state p = HEADERS \<and> line = [])"
    using assms(3) unfolding feed_line_def Let_def slice by (auto simp: run_andThen split: prod.splits sum.splits)
  have run: "feed_line i p = andThen m (ret True) (hs_consume (i + 2) p)"
    "feed_line i (more_bytes b p) = andThen m (ret True) (hs_consume (i + 2) (more_bytes b p))"
    using hd unfolding feed_line_def Let_def slice by (simp_all add: m_def)
  have r: "m (hs_consume (i + 2) p) = (Inr (), p1)"
    using assms(3) unfolding run by (auto simp: run_andThen split: prod.splits sum.splits)
  have ok1: "hp_ok (hs_consume (i + 2) p)" "hp_ok (hs_consume (i + 2) (more_bytes b p))"
    using hp_ok_consume [OF assms(2) len] len live_more_bytes [OF assms(2), of b] assms(2)
    by (auto intro!: hp_ok_consume) (simp add: hp_ok_def)
  show "hp_ok p1" using ok1(1) framed_keeps [OF fm, of "hs_consume (i + 2) p"] r by (simp add: hp_ok_def)
  let ?c = "hs_consume (i + 2) p" and ?d = "hs_consume (i + 2) (more_bytes b p)"
  obtain b0 k0 where "?d = with_buffer b0 k0 (more_bytes b p)" using hs_consume_form by metis
  moreover obtain b1 k1 where "?c = with_buffer b1 k1 p" using hs_consume_form by metis
  ultimately have d: "?d = with_buffer b0 k0 ?c" by simp
  have "m ?d = (Inr (), with_buffer b0 k0 p1)" using fm r unfolding d framed_def by (metis fst_conv snd_conv)
  moreover have "same (with_buffer b0 k0 p1) (more_bytes b p1)"
  proof -
    have "drop k0 b0 = live ?d" unfolding d by (simp add: live_def)
    also have "\<dots> = drop (i + 2) (live p) @ b" using len live_more_bytes [OF assms(2), of b] by simp
    also have "\<dots> = live p1 @ b" using feed_line_True [OF assms(3)] by simp
    finally have "live (with_buffer b0 k0 p1) = live (more_bytes b p1)"
      using live_more_bytes [OF \<open>hp_ok p1\<close>, of b] by (simp add: live_def)
    then show ?thesis by (simp add: same_def)
  qed
  moreover have "hp_ok (with_buffer b0 k0 p1)" using ok1(2) unfolding d by (simp add: hp_ok_def)
  ultimately show "\<exists>q1. feed_line i (more_bytes b p) = (Inr True, q1) \<and> hp_ok q1 \<and> same q1 (more_bytes b p1)"
    unfolding run by (auto simp: run_andThen)
qed

text \<open>The end of the header block: what follows becomes the leftover.\<close>

lemma finalize_with_buffer:
  "fst (finalize (with_buffer b k p)) = fst (finalize p)"
  "fst (finalize p) = Inr () \<Longrightarrow> snd (finalize (with_buffer b k p)) = (snd (finalize p))\<lparr>hp_leftover := drop k b\<rparr>"
  "fst (finalize p) = Inr () \<Longrightarrow> hp_state (snd (finalize p)) = DONE \<and> hp_leftover (snd (finalize p)) = live p
     \<and> hp_buffer (snd (finalize p)) = [] \<and> hp_read_offset (snd (finalize p)) = 0"
proof -
  have "fst (finalize (with_buffer b k p)) = fst (finalize p) \<and> (fst (finalize p) = Inr () \<longrightarrow>
    snd (finalize (with_buffer b k p)) = (snd (finalize p))\<lparr>hp_leftover := drop k b\<rparr> \<and> hp_state (snd (finalize p)) = DONE
    \<and> hp_leftover (snd (finalize p)) = live p \<and> hp_buffer (snd (finalize p)) = [] \<and> hp_read_offset (snd (finalize p)) = 0)"
  proof (cases "hp_role p")
    case RequestParser
    then show ?thesis
      by (simp add: finalize_def request_finalize_def validate_upgrade_headers_def run_andThen hs_fail_def commit_done_def Let_def
          live_slice_def live_def split: sum.split)
  next
    case (ResponseParser a)
    then show ?thesis
      by (simp add: finalize_def response_finalize_def validate_upgrade_headers_def run_andThen hs_fail_def commit_done_def
          live_slice_def live_def)
  qed
  then show "fst (finalize (with_buffer b k p)) = fst (finalize p)"
    "fst (finalize p) = Inr () \<Longrightarrow> snd (finalize (with_buffer b k p)) = (snd (finalize p))\<lparr>hp_leftover := drop k b\<rparr>"
    "fst (finalize p) = Inr () \<Longrightarrow> hp_state (snd (finalize p)) = DONE \<and> hp_leftover (snd (finalize p)) = live p
     \<and> hp_buffer (snd (finalize p)) = [] \<and> hp_read_offset (snd (finalize p)) = 0"
    by blast+
qed

text \<open>The turn of the loop at \<open>i\<close>, with more bytes behind.\<close>

lemma feed_line_cases:
  assumes "live_find p = Some i" "hp_ok p"
  shows "case feed_line i p of
      (Inl e, p1) \<Rightarrow> fst (feed_line i (more_bytes b p)) = Inl e
    | (Inr again, p1) \<Rightarrow> if again then True
        else hp_state p1 = DONE \<and> hp_leftover p1 = drop (i + 2) (live p)
          \<and> feed_line i (more_bytes b p) = (Inr False, p1\<lparr>hp_leftover := hp_leftover p1 @ b\<rparr>)"
proof -
  have len: "i + 2 \<le> length (live p)" using assms(1) find_crlf_bound by (simp add: live_find_def)
  define line where "line = take i (live p)"
  have slice: "live_slice 0 (Some i) p = line" "live_slice 0 (Some i) (more_bytes b p) = line"
    using len live_more_bytes [OF assms(2), of b] by (simp_all add: live_slice_def line_def flip: live_def)
  let ?c = "hs_consume (i + 2) p" and ?d = "hs_consume (i + 2) (more_bytes b p)"
  obtain b0 k0 where "?d = with_buffer b0 k0 (more_bytes b p)" using hs_consume_form by metis
  moreover obtain b1 k1 where "?c = with_buffer b1 k1 p" using hs_consume_form by metis
  ultimately have d: "?d = with_buffer b0 k0 ?c" by simp
  have lc: "live ?c = drop (i + 2) (live p)" by simp
  have ld: "drop k0 b0 = live ?c @ b"
  proof -
    have "drop k0 b0 = live ?d" unfolding d by (simp add: live_def)
    then show ?thesis using len live_more_bytes [OF assms(2), of b] by simp
  qed
  have frm: "fst (m ?d) = fst (m ?c)" if "framed m" for m :: "unit hp"
    using that unfolding d framed_def by (metis fst_conv)
  show ?thesis
  proof (cases "hp_state p = HEADERS \<and> line = []")
    case True
    then have run: "feed_line i p = andThen finalize (ret False) ?c" "feed_line i (more_bytes b p) = andThen finalize (ret False) ?d"
      unfolding feed_line_def Let_def slice by simp_all
    note fin = finalize_with_buffer(1,2) [where b = b0 and k = k0 and p = ?c] finalize_with_buffer(3) [of ?c]
    obtain r c1 where r: "finalize ?c = (r, c1)" by fastforce
    obtain r' d1 where r': "finalize ?d = (r', d1)" by fastforce
    show ?thesis
    proof (cases r)
      case (Inl e)
      then show ?thesis using fin(1) r r' unfolding run d [symmetric] by (simp add: run_andThen)
    next
      case (Inr u)
      then have "r' = Inr ()" "d1 = c1\<lparr>hp_leftover := live ?c @ b\<rparr>" "hp_leftover c1 = live ?c" "hp_state c1 = DONE"
        using fin r r' ld unfolding d [symmetric] by simp_all
      then show ?thesis using Inr r r' lc unfolding run by (simp add: run_andThen)
    qed
  next
    case False
    define m where "m = (if hp_state p = HEADERS then parse_header_line line else parse_first_line line)"
    have fm: "framed m" by (simp add: m_def framed_parse_header_line framed_parse_first_line)
    have run: "feed_line i p = andThen m (ret True) ?c" "feed_line i (more_bytes b p) = andThen m (ret True) ?d"
      using False unfolding feed_line_def Let_def slice by (auto simp: m_def)
    show ?thesis unfolding run using frm [OF fm] by (auto simp: run_andThen split: prod.splits sum.splits)
  qed
qed

lemma feed_line_state:
  assumes "feed_line i p = (Inr True, p1)"
  shows "hp_state p1 = HEADERS"
  using assms unfolding feed_line_def parse_header_line_def parse_first_line_def request_first_line_def response_first_line_def
    hs_fail_def Let_def
  by (auto simp: prog_simps split: if_splits option.splits sum.splits prod.splits list.splits handshake_role.splits)

lemma hs_loop_more:
  assumes "hp_ok p" "hp_state p \<noteq> DONE"
  shows "case hs_loop p of
      (Inl e, p1) \<Rightarrow> fst (hs_loop (more_bytes b p)) = Inl e
    | (Inr _, p1) \<Rightarrow> if hp_state p1 = DONE
        then fst (hs_loop (more_bytes b p)) = Inr () \<and> hp_leftover (snd (hs_loop (more_bytes b p))) = hp_leftover p1 @ b
        else hp_ok p1 \<and> fst (hs_loop (more_bytes b p)) = fst (hs_loop (more_bytes b p1))
          \<and> same (snd (hs_loop (more_bytes b p))) (snd (hs_loop (more_bytes b p1)))"
  using assms
proof (induction p rule: hs_loop.induct)
  case (1 p)
  show ?case
  proof (cases "live_find p")
    case None
    then show ?thesis using 1(2,3) by (simp add: hs_loop.simps [of p])
  next
    case (Some i)
    have more: "live_find (more_bytes b p) = Some i"
      using Some find_crlf_append live_more_bytes [OF 1(2)] by (simp add: live_find_def)
    obtain r p1 where r: "feed_line i p = (r, p1)" by fastforce
    note fl = feed_line_cases [OF Some 1(2), of b, unfolded r prod.case]
    note lp = hs_loop.simps [of p] hs_loop.simps [of "more_bytes b p"]
    consider e where "r = Inl e" | "r = Inr False" | "r = Inr True" by (cases r) auto
    then show ?thesis
    proof cases
      case 1
      then show ?thesis using fl Some more r by (auto simp: lp split: prod.splits)
    next
      case 2
      then show ?thesis using fl Some more r by (simp add: lp)
    next
      case 3
      obtain q1 where q1: "feed_line i (more_bytes b p) = (Inr True, q1)" "hp_ok q1" "same q1 (more_bytes b p1)" "hp_ok p1"
        using feed_line_more [OF Some 1(2)] r 3 by blast
      have st: "hp_state p1 \<noteq> DONE" using feed_line_state r 3 by fastforce
      note ih = 1(1) [OF Some r [symmetric] 3 TrueI q1(4) st]
      have run: "hs_loop p = hs_loop p1" "hs_loop (more_bytes b p) = hs_loop q1"
        using Some more r q1(1) 3 by (simp_all add: lp)
      note eq = views_hs_loop [OF q1(3)]
      show ?thesis unfolding run using ih eq same_fields(6) [OF eq [THEN conjunct2]]
        by (auto split: prod.splits sum.splits if_splits intro: same_trans)
    qed
  qed
qed

lemma feed_line_kept:
  assumes "feed_line i p = (Inr again, p1)"
  shows "hp_max_header_bytes p1 = hp_max_header_bytes p" "hp_role p1 = hp_role p" "hp_state p1 \<noteq> ERROR"
    "\<not> again \<Longrightarrow> live p1 = [] \<and> hp_state p1 = DONE"
proof -
  have "hp_max_header_bytes p1 = hp_max_header_bytes (hs_consume (i + 2) p) \<and> hp_role p1 = hp_role (hs_consume (i + 2) p)
    \<and> hp_state p1 \<noteq> ERROR \<and> (\<not> again \<longrightarrow> live p1 = [] \<and> hp_state p1 = DONE)"
    using assms unfolding feed_line_def parse_header_line_def parse_first_line_def request_first_line_def response_first_line_def
      finalize_def request_finalize_def response_finalize_def validate_upgrade_headers_def commit_done_def hs_fail_def Let_def
    by (auto simp: prog_simps live_def split: if_splits option.splits sum.splits prod.splits list.splits handshake_role.splits)
  moreover have "hp_max_header_bytes (hs_consume n p) = hp_max_header_bytes p" for n
    by (simp add: hs_consume_def Let_def)
  ultimately show "hp_max_header_bytes p1 = hp_max_header_bytes p" "hp_role p1 = hp_role p" "hp_state p1 \<noteq> ERROR"
    "\<not> again \<Longrightarrow> live p1 = [] \<and> hp_state p1 = DONE"
    by simp_all
qed

lemma hs_loop_kept:
  "hs_loop p = (Inr (), p1) \<Longrightarrow> hp_state p \<noteq> ERROR \<Longrightarrow>
   hp_max_header_bytes p1 = hp_max_header_bytes p \<and> hp_role p1 = hp_role p \<and> hp_state p1 \<noteq> ERROR \<and> length (live p1) \<le> length (live p)"
proof (induction p arbitrary: p1 rule: hs_loop.induct)
  case (1 p)
  show ?case
  proof (cases "live_find p")
    case None
    then show ?thesis using 1(2,3) by (simp add: hs_loop.simps [of p])
  next
    case (Some i)
    obtain r p2 where r: "feed_line i p = (r, p2)" by fastforce
    then obtain again where again: "r = Inr again" using 1(2) Some by (cases r) (auto simp: hs_loop.simps [of p])
    note k = feed_line_kept [OF r [unfolded again]]
    show ?thesis
    proof (cases again)
      case True
      then have l: "hs_loop p2 = (Inr (), p1)" "length (live p2) \<le> length (live p)"
        using 1(2) Some r again feed_line_True [of i p p2] by (simp_all add: hs_loop.simps [of p])
      then show ?thesis using 1(1) [OF Some r [symmetric] again True l(1) k(3)] k by simp
    next
      case False
      then have "p1 = p2" using 1(2) Some r again by (simp add: hs_loop.simps [of p])
      then show ?thesis using k False by simp
    qed
  qed
qed

fun hs_feed_all :: "byte list list \<Rightarrow> unit hp" where
  "hs_feed_all [] = ret ()"
| "hs_feed_all (c # cs) = andThen (hs_feed c) (hs_feed_all cs)"

text \<open>
  However the bytes of a handshake that the parser accepts in one piece are cut, as long as only the
  last chunk completes it and all of them fit under the cap, the outcome is the same.
\<close>

lemma feed_chunks:
  assumes "hp_ok p" "hp_state p \<noteq> DONE" "hp_state p \<noteq> ERROR"
    "length (live p) + length (concat xs @ c) \<le> hp_max_header_bytes p"
    "hs_loop (more_bytes (concat xs @ c) p) = (Inr (), pf)" "length (hp_leftover pf) < length c"
  shows "\<exists>q. hs_feed_all (xs @ [c]) p = (Inr (), q) \<and> same pf q"
  using assms
proof (induction xs arbitrary: p pf)
  case Nil
  have "live_len (more_bytes c p) \<le> int (hp_max_header_bytes p)"
    using Nil(1,4) by (simp add: live_len_def live_def hp_ok_def)
  then show ?case using Nil by (simp add: hs_feed_def run_andThen)
next
  case (Cons x xs)
  let ?b = "concat xs @ c"
  have "live_len (more_bytes x p) \<le> int (hp_max_header_bytes p)"
    using Cons.prems(1,4) by (simp add: live_len_def live_def hp_ok_def)
  then have fd: "hs_feed x p = hs_loop (more_bytes x p)" using Cons.prems by (simp add: hs_feed_def)
  obtain r p1 where r: "hs_loop (more_bytes x p) = (r, p1)" by fastforce
  have ok: "hp_ok (more_bytes x p)" using Cons.prems(1) by (simp add: hp_ok_def)
  have full: "hs_loop (more_bytes ?b (more_bytes x p)) = (Inr (), pf)" using Cons.prems(5) by simp
  note more = hs_loop_more [OF ok, of ?b, unfolded r prod.case full]
  have "r = Inr ()" using more Cons.prems(2) by (cases r) auto
  have nd: "hp_state p1 \<noteq> DONE"
  proof
    assume "hp_state p1 = DONE"
    then have "hp_leftover pf = hp_leftover p1 @ ?b" using more Cons.prems(2) \<open>r = Inr ()\<close> by simp
    then show False using Cons.prems(6) by simp
  qed
  have p1: "hp_ok p1" "fst (hs_loop (more_bytes ?b p1)) = Inr ()" "same pf (snd (hs_loop (more_bytes ?b p1)))"
    using more nd Cons.prems(2) \<open>r = Inr ()\<close> by simp_all
  then obtain pf1 where pf1: "hs_loop (more_bytes ?b p1) = (Inr (), pf1)" "same pf pf1" by (metis prod.collapse)
  have kept: "hp_max_header_bytes p1 = hp_max_header_bytes p" "hp_state p1 \<noteq> ERROR" "length (live p1) \<le> length (live p) + length x"
    using hs_loop_kept [OF r [unfolded \<open>r = Inr ()\<close>]] Cons.prems(3) live_more_bytes [OF Cons.prems(1), of x] by simp_all
  have "\<exists>q. hs_feed_all (xs @ [c]) p1 = (Inr (), q) \<and> same pf1 q"
    using Cons.prems(4,6) kept same_fields(6) [OF pf1(2)] by (intro Cons.IH [OF p1(1) nd kept(2) _ pf1(1)]) simp_all
  then show ?case using fd r \<open>r = Inr ()\<close> same_trans [OF pf1(2)] by (auto simp: run_andThen)
qed



section \<open>Header dicts\<close>

definition cd_ok :: "CaseInsensitiveDict \<Rightarrow> bool" where
  "cd_ok d \<longleftrightarrow> distinct (cd_order d) \<and> dom (cd_entries d) = set (cd_order d)
     \<and> (\<forall>l e. cd_entries d l = Some e \<longrightarrow> py_lower (fst e) = l)"

abbreviation set_all :: "(pystr \<times> pystr) list \<Rightarrow> CaseInsensitiveDict \<Rightarrow> CaseInsensitiveDict" where
  "set_all \<equiv> fold (\<lambda>(name, v). cd_setitem name v)"

lemma cd_ok_init: "cd_ok CaseInsensitiveDict_init"
  by (simp add: cd_ok_def CaseInsensitiveDict_init_def)

lemma cd_ok_setitem: "cd_ok d \<Longrightarrow> cd_ok (cd_setitem n v d)"
  by (auto simp: cd_ok_def cd_setitem_def Let_def split: if_splits)

lemma cd_ok_set_all: "cd_ok d \<Longrightarrow> cd_ok (set_all hs d)"
  by (induction hs arbitrary: d) (auto simp: cd_ok_setitem)

lemma cd_get_setitem: "cd_get n x (cd_setitem m v d) = (if py_lower n = py_lower m then v else cd_get n x d)"
  by (simp add: cd_get_def cd_setitem_def Let_def)

definition item_list :: "CaseInsensitiveDict \<Rightarrow> (pystr \<times> pystr) list" where
  "item_list d = map (\<lambda>l. the (cd_entries d l)) (cd_order d)"

lemma cd_items_ok: "cd_ok d \<Longrightarrow> cd_items d = Inr (item_list d)"
proof -
  assume "cd_ok d"
  then have "\<forall>l \<in> set (cd_order d). \<exists>e. cd_entries d l = Some e" unfolding cd_ok_def by blast
  moreover have "\<forall>l \<in> set ks. \<exists>e. m l = Some e \<Longrightarrow> entries_of m ks = Inr (map (\<lambda>l. the (m l)) ks)" for m ks
    by (induction ks) auto
  ultimately show ?thesis by (simp add: cd_items_def item_list_def)
qed

text \<open>Setting the items of a dict one by one makes the dict again.\<close>

lemma set_all_item_list:
  assumes "cd_ok d"
  shows "set_all (item_list d) CaseInsensitiveDict_init = d"
proof -
  have "set_all (map (\<lambda>l. the (cd_entries d l)) ks) CaseInsensitiveDict_init = \<lparr>cd_entries = cd_entries d |` set ks, cd_order = ks\<rparr>"
    if "distinct ks" "set ks \<subseteq> set (cd_order d)" for ks
    using that
  proof (induction ks rule: rev_induct)
    case Nil
    then show ?case by (simp add: CaseInsensitiveDict_init_def)
  next
    case (snoc k ks)
    obtain n v where e: "cd_entries d k = Some (n, v)" "py_lower n = k"
      using assms snoc.prems by (fastforce simp: cd_ok_def)
    then show ?case using snoc by (auto simp: cd_setitem_def Let_def restrict_map_insert restrict_map_def)
  qed
  from this [of "cd_order d"] have
    "set_all (item_list d) CaseInsensitiveDict_init = \<lparr>cd_entries = cd_entries d |` set (cd_order d), cd_order = cd_order d\<rparr>"
    using assms by (simp add: item_list_def cd_ok_def)
  moreover have "cd_entries d |` set (cd_order d) = cd_entries d"
  proof
    fix l
    have "l \<notin> set (cd_order d) \<Longrightarrow> cd_entries d l = None" using assms unfolding cd_ok_def by blast
    then show "(cd_entries d |` set (cd_order d)) l = cd_entries d l" by (simp add: restrict_map_def)
  qed
  ultimately show ?thesis by simp
qed

definition good_text :: "pystr \<Rightarrow> bool" where
  "good_text s \<longleftrightarrow> (\<forall>c \<in> set s. c < 128 \<and> c \<noteq> 13) \<and> py_strip s = s"

definition good_header :: "pystr \<times> pystr \<Rightarrow> bool" where
  "good_header h \<longleftrightarrow> fst h \<noteq> [] \<and> 58 \<notin> set (fst h) \<and> good_text (fst h) \<and> good_text (snd h)"

definition cd_good :: "CaseInsensitiveDict \<Rightarrow> bool" where
  "cd_good d \<longleftrightarrow> cd_ok d \<and> (\<forall>l e. cd_entries d l = Some e \<longrightarrow> good_header e)"

lemma cd_good_init: "cd_good CaseInsensitiveDict_init"
  by (simp add: cd_good_def cd_ok_init) (simp add: CaseInsensitiveDict_init_def)

lemma cd_good_setitem: "cd_good d \<Longrightarrow> good_header (n, v) \<Longrightarrow> cd_good (cd_setitem n v d)"
  by (auto simp: cd_good_def cd_ok_setitem) (auto simp: cd_setitem_def Let_def split: if_splits)

lemma cd_good_set_all: "cd_good d \<Longrightarrow> \<forall>h \<in> set hs. good_header h \<Longrightarrow> cd_good (set_all hs d)"
  by (induction hs arbitrary: d) (auto simp: cd_good_setitem)

lemma item_list_good: "cd_good d \<Longrightarrow> h \<in> set (item_list d) \<Longrightarrow> good_header h"
proof -
  assume d: "cd_good d" "h \<in> set (item_list d)"
  then obtain l where "l \<in> set (cd_order d)" "h = the (cd_entries d l)" by (auto simp: item_list_def)
  moreover have "l \<in> dom (cd_entries d)" using d calculation(1) by (simp add: cd_good_def cd_ok_def)
  ultimately show ?thesis using d by (auto simp: cd_good_def)
qed

definition wire_line :: "pystr \<times> pystr \<Rightarrow> byte list" where
  "wire_line h = map B (fst h @ ustr '': '' @ snd h)"

lemma header_lines_good: "\<forall>h \<in> set hs. good_header h \<Longrightarrow> header_lines hs = Inr (concat (map (\<lambda>h. wire_line h @ CRLF) hs))"
proof (induction hs)
  case (Cons h hs)
  then have "\<forall>c \<in> set (fst h @ ustr '': '' @ snd h @ [13, 10]). c < 128" by (auto simp: good_header_def good_text_def)
  then have "header_line h = Inr (wire_line h @ CRLF)" by (simp add: header_line_def ascii_encode_def wire_line_def CRLF_def)
  then show ?case using Cons by simp
qed simp

section \<open>Reading a header block\<close>

lemma find_crlf_line: "B 13 \<notin> set l \<Longrightarrow> find_crlf (l @ CRLF @ r) = Some (length l)"
proof (induction l)
  case Nil
  then show ?case by (simp add: CRLF_def)
next
  case (Cons a l)
  then show ?case by (cases "l @ CRLF @ r") (auto simp: CRLF_def)
qed

lemma wire_line_no_cr: "good_header h \<Longrightarrow> B 13 \<notin> set (wire_line h)"
proof
  assume h: "good_header h" "B 13 \<in> set (wire_line h)"
  then obtain c where "c \<in> set (fst h @ ustr '': '' @ snd h)" "B 13 = B c" by (auto simp: wire_line_def)
  moreover have "c < 128" "c \<noteq> 13" if "c \<in> set (fst h @ ustr '': '' @ snd h)" for c
    using that h(1) by (auto simp: good_header_def good_text_def)
  ultimately have "c < 128" "c \<noteq> 13" "B 13 = B c" by blast+
  then show False using B_eq_iff [of 13 c] by simp
qed

lemma parse_wire_line:
  assumes "good_header h"
  shows "parse_header_line (wire_line h) p = (Inr (), p\<lparr>hp_headers := cd_setitem (fst h) (snd h) (hp_headers p)\<rparr>)"
proof -
  have l: "latin1_decode (wire_line h) = fst h @ 58 # 32 # snd h"
    using assms map_unat_B [of "fst h @ ustr '': '' @ snd h"]
    by (force simp: latin1_decode_def wire_line_def good_header_def good_text_def)
  have "find_char 58 (fst h @ 58 # 32 # snd h) = Some (length (fst h))" using assms by (simp add: find_char_append good_header_def)
  then show ?thesis using assms py_strip_leading
    by (simp add: parse_header_line_def l Let_def good_header_def good_text_def)
qed

lemma live_with_buffer [simp]: "live (with_buffer b k p) = drop k b"
  by (simp add: live_def)

lemma hs_loop_headers:
  assumes "\<forall>h \<in> set hs. good_header h" "hp_state p = HEADERS"
    "live p = concat (map (\<lambda>h. wire_line h @ CRLF) hs) @ CRLF @ rest"
  shows "\<exists>b k. drop k b = rest \<and> hs_loop p = finalize (with_buffer b k (p\<lparr>hp_headers := set_all hs (hp_headers p)\<rparr>))"
  using assms
proof (induction hs arbitrary: p)
  case Nil
  then have f: "live_find p = Some 0" using find_crlf_line [of "[]" rest] by (simp add: live_find_def)
  have "feed_line 0 p = andThen finalize (ret False) (hs_consume 2 p)"
    using Nil by (simp add: feed_line_def live_slice_def numeral_2_eq_2)
  then have "hs_loop p = finalize (hs_consume 2 p)" using f
    by (auto simp: hs_loop.simps [of p] run_andThen split: prod.split sum.split)
  moreover obtain b k where c: "hs_consume 2 p = with_buffer b k p" using hs_consume_form by blast
  moreover have "drop k b = rest" using live_hs_consume [of 2 p] Nil(3) unfolding c by (simp add: CRLF_def)
  ultimately show ?case by auto
next
  case (Cons h hs)
  let ?tail = "concat (map (\<lambda>h. wire_line h @ CRLF) hs) @ CRLF @ rest" and ?i = "length (wire_line h)"
  have h: "good_header h" using Cons.prems(1) by simp
  have lv: "live p = wire_line h @ CRLF @ ?tail" using Cons.prems(3) by simp
  have f: "live_find p = Some ?i" using find_crlf_line [OF wire_line_no_cr [OF h]] lv by (simp add: live_find_def)
  have line: "live_slice 0 (Some ?i) p = wire_line h" using lv by (simp add: live_slice_def live_def [symmetric])
  have ne: "wire_line h \<noteq> []" by (simp add: wire_line_def)
  obtain b k where c: "hs_consume (?i + 2) p = with_buffer b k p" using hs_consume_form by blast
  have lc: "drop k b = ?tail" using live_hs_consume [of "?i + 2" p] lv unfolding c by (simp add: CRLF_def)
  let ?p1 = "with_buffer b k (p\<lparr>hp_headers := cd_setitem (fst h) (snd h) (hp_headers p)\<rparr>)"
  have "feed_line ?i p = (Inr True, ?p1)"
    using Cons.prems(2) ne parse_wire_line [OF h] unfolding feed_line_def Let_def line c by (simp add: run_andThen)
  then have run: "hs_loop p = hs_loop ?p1" using f by (simp add: hs_loop.simps [of p])
  have "\<exists>b' k'. drop k' b' = rest \<and> hs_loop ?p1 = finalize (with_buffer b' k' (?p1\<lparr>hp_headers := set_all hs (hp_headers ?p1)\<rparr>))"
    using Cons.prems lc by (intro Cons.IH) (simp_all add: live_def)
  then show ?case unfolding run by (auto simp: case_prod_unfold)
qed

lemma hs_loop_first_line:
  assumes "hp_state p \<noteq> HEADERS" "B 13 \<notin> set line" "live p = line @ CRLF @ tail"
    "\<And>p. hp_role p = role \<Longrightarrow> parse_first_line line p = (Inr (), f p)" "hp_role p = role"
  shows "\<exists>b k. drop k b = tail \<and> hs_loop p = hs_loop (f (with_buffer b k p))"
proof -
  let ?i = "length line"
  have f: "live_find p = Some ?i" using find_crlf_line [OF assms(2)] assms(3) by (simp add: live_find_def)
  have l: "live_slice 0 (Some ?i) p = line" using assms(3) by (simp add: live_slice_def live_def [symmetric])
  obtain b k where c: "hs_consume (?i + 2) p = with_buffer b k p" using hs_consume_form by blast
  have lc: "drop k b = tail" using live_hs_consume [of "?i + 2" p] assms(3) unfolding c by (simp add: CRLF_def)
  have "feed_line ?i p = (Inr True, f (with_buffer b k p))"
    using assms(1,4,5) unfolding feed_line_def Let_def l c by (simp add: run_andThen)
  then show ?thesis using f lc by (auto simp: hs_loop.simps [of p])
qed

end
