(* ===== verification/Ws_Handshake_Props.thy ===== *)
theory Ws_Handshake_Props
  imports Ws_Handshake
begin

text \<open>
  What the opening handshake guarantees: the two sides' encoders and parsers fit together, a parser
  accepts nothing but a proper upgrade, URLs are split as documented, and the header cap.
\<close>

section \<open>Both sides of the handshake\<close>

definition visible :: "pystr \<Rightarrow> bool" where
  "visible s \<longleftrightarrow> (\<forall>c \<in> set s. 33 \<le> c \<and> c < 127)"

lemma visible_good: "visible s \<Longrightarrow> good_text s"
  unfolding good_text_def by (intro conjI py_strip_id) (auto simp: visible_def is_space_def)

lemma base64_text_eq: "base64_text bs = Inr (map unat (b64_groups bs))"
proof -
  have "B 10 \<notin> set (b64_groups bs)" "B 13 \<notin> set (b64_groups bs)" "\<forall>b \<in> set (b64_groups bs). unat b < 128"
    using b64_groups_ascii [of bs] by (auto simp: b64_ascii_def)
  then show ?thesis by (simp add: base64_text_def b2a_base64_def rstrip_byte_id ascii_decode_def)
qed

lemma base64_text_good: "good_text (map unat (b64_groups bs))" "\<forall>c \<in> set (map unat (b64_groups bs)). c < 128"
  using b64_groups_ascii [of bs] unfolding good_text_def
  by (auto simp: b64_ascii_def intro!: py_strip_id)

lemma ascii_encode_base64: "ascii_encode (map unat (b64_groups bs)) = Inr (b64_groups bs)"
  using base64_text_good(2) [of bs] by (auto simp: ascii_encode_def map_idI B_unat)

lemma literal_facts:
  "has_substring (ustr ''websocket'') (py_lower (ustr ''websocket''))"
  "ustr ''upgrade'' \<in> set (map py_strip (split_on 44 (py_lower (ustr ''Upgrade''))))"
  by code_simp+

lemma good_text_literals:
  "good_text (ustr ''websocket'')" "good_text (ustr ''Upgrade'')" "good_text WS_VERSION"
  "good_header (ustr ''Host'', v) \<longleftrightarrow> good_text v" "good_header (ustr ''Upgrade'', v) \<longleftrightarrow> good_text v"
  "good_header (ustr ''Connection'', v) \<longleftrightarrow> good_text v" "good_header (ustr ''Sec-WebSocket-Key'', v) \<longleftrightarrow> good_text v"
  "good_header (ustr ''Sec-WebSocket-Version'', v) \<longleftrightarrow> good_text v" "good_header (ustr ''Sec-WebSocket-Accept'', v) \<longleftrightarrow> good_text v"
  by (simp_all add: good_header_def good_text_def py_strip_def is_space_def WS_VERSION_def)

lemma lower_names:
  "py_lower (ustr ''Host'') = ustr ''host''" "py_lower (ustr ''Upgrade'') = ustr ''upgrade''"
  "py_lower (ustr ''Connection'') = ustr ''connection''" "py_lower (ustr ''Sec-WebSocket-Key'') = ustr ''sec-websocket-key''"
  "py_lower (ustr ''Sec-WebSocket-Version'') = ustr ''sec-websocket-version''"
  "py_lower (ustr ''Sec-WebSocket-Accept'') = ustr ''sec-websocket-accept''"
  by (simp_all add: py_lower_def lower_char_def)

text \<open>The header dicts the two encoders write.\<close>

definition request_headers :: "pystr \<Rightarrow> int \<Rightarrow> pystr \<Rightarrow> (pystr \<times> pystr) list \<Rightarrow> CaseInsensitiveDict" where
  "request_headers host port key extra = cd_setitem (ustr ''Sec-WebSocket-Version'') WS_VERSION
     (cd_setitem (ustr ''Sec-WebSocket-Key'') key (cd_setitem (ustr ''Connection'') (ustr ''Upgrade'')
     (cd_setitem (ustr ''Upgrade'') (ustr ''websocket'')
     (cd_setitem (ustr ''Host'') (if port \<in> {80, 443} then host else host @ [58] @ py_str port)
       (set_all extra CaseInsensitiveDict_init)))))"

definition response_headers :: "pystr \<Rightarrow> (pystr \<times> pystr) list \<Rightarrow> CaseInsensitiveDict" where
  "response_headers accept extra = cd_setitem (ustr ''Sec-WebSocket-Accept'') accept
     (cd_setitem (ustr ''Connection'') (ustr ''Upgrade'') (cd_setitem (ustr ''Upgrade'') (ustr ''websocket'')
       (set_all extra CaseInsensitiveDict_init)))"

lemma py_str_visible: "visible (py_str n)"
  using nat_digits_ok [of "nat n"] nat_digits_ok [of "nat (- n)"] by (auto simp: visible_def py_str_def is_digit_def)

lemma request_headers_good:
  assumes "visible host" "good_text key" "\<forall>h \<in> set extra. good_header h"
  shows "cd_good (request_headers host port key extra)"
proof -
  have hv: "good_text (if port \<in> {80, 443} then host else host @ [58] @ py_str port)"
    using assms(1) py_str_visible [of port] by (intro visible_good) (auto simp: visible_def)
  show ?thesis unfolding request_headers_def
    using assms(3) by (intro cd_good_setitem cd_good_set_all cd_good_init) (simp_all only: good_text_literals hv assms)
qed

lemma response_headers_good:
  assumes "good_text accept" "\<forall>h \<in> set extra. good_header h"
  shows "cd_good (response_headers accept extra)"
  unfolding response_headers_def
  using assms(2) by (intro cd_good_setitem cd_good_set_all cd_good_init) (simp_all only: good_text_literals assms)

lemma request_first_line_ok:
  assumes "visible path" "hp_role p = RequestParser"
  shows "parse_first_line (map B (ustr ''GET '' @ path @ ustr '' HTTP/1.1'')) p =
    (Inr (), p\<lparr>hp_method := ustr ''GET'', hp_path := path, hp_http_version := ustr ''HTTP/1.1'', hp_state := HEADERS\<rparr>)"
proof -
  have "\<forall>c \<in> set (ustr ''GET '' @ path @ ustr '' HTTP/1.1''). c < 128" using assms(1) by (auto simp: visible_def)
  moreover have "split_on 32 (ustr ''GET '' @ path @ ustr '' HTTP/1.1'') = [ustr ''GET'', path, ustr ''HTTP/1.1'']"
  proof -
    have p: "32 \<notin> set path" using assms(1) by (auto simp: visible_def)
    have "ustr ''GET '' @ path @ ustr '' HTTP/1.1'' = ustr ''GET'' @ 32 # path @ 32 # ustr ''HTTP/1.1''" by simp
    then show ?thesis using split_on_append(1) [OF p] split_on_append(1) [of 32 "ustr ''GET''"] by simp
  qed
  ultimately show ?thesis
    using assms(2) ascii_decode_B [of "ustr ''GET '' @ path @ ustr '' HTTP/1.1''"]
    by (simp add: parse_first_line_def request_first_line_def run_andThen starts_with_def)
qed

lemma response_first_line_ok:
  assumes "hp_role p = ResponseParser a"
  shows "parse_first_line (map B (ustr ''HTTP/1.1 101 Switching Protocols'')) p =
    (Inr (), p\<lparr>hp_http_version := ustr ''HTTP/1.1'', hp_status_code := Some 101, hp_reason := ustr ''Switching Protocols'', hp_state := HEADERS\<rparr>)"
proof -
  have d: "ascii_decode (map B (ustr ''HTTP/1.1 101 Switching Protocols'')) = Inr (ustr ''HTTP/1.1 101 Switching Protocols'')"
    by code_simp
  have s: "split_max 2 32 (ustr ''HTTP/1.1 101 Switching Protocols'') = [ustr ''HTTP/1.1'', ustr ''101'', ustr ''Switching Protocols'']"
    by code_simp
  have i: "py_int (ustr ''101'') = Inr 101" by code_simp
  show ?thesis using assms unfolding parse_first_line_def response_first_line_def d sum.case s by (simp add: i run_andThen del: list.map)
qed

lemma request_get:
  "cd_get (ustr ''Upgrade'') [] (request_headers host port key extra) = ustr ''websocket''"
  "cd_get (ustr ''Connection'') [] (request_headers host port key extra) = ustr ''Upgrade''"
  "cd_get (ustr ''Sec-WebSocket-Version'') [] (request_headers host port key extra) = WS_VERSION"
  "cd_get (ustr ''Sec-WebSocket-Key'') [] (request_headers host port key extra) = key"
  by (simp_all add: request_headers_def cd_get_setitem py_lower_def lower_char_def)

lemma response_get:
  "cd_get (ustr ''Upgrade'') [] (response_headers accept extra) = ustr ''websocket''"
  "cd_get (ustr ''Connection'') [] (response_headers accept extra) = ustr ''Upgrade''"
  "cd_get (ustr ''Sec-WebSocket-Accept'') [] (response_headers accept extra) = accept"
  by (simp_all add: response_headers_def cd_get_setitem py_lower_def lower_char_def)

lemma client_key_request: "hp_headers p = request_headers host port key extra \<Longrightarrow> client_key p = key"
  by (simp only: client_key_def request_get)

lemma commit_done_run:
  "commit_done p = (Inr (), p\<lparr>hp_leftover := live p, hp_buffer := [], hp_read_offset := 0, hp_state := DONE\<rparr>)"
  by (simp add: commit_done_def live_slice_def live_def)

lemma request_finalize_ok:
  assumes "hp_role p = RequestParser" "hp_headers p = request_headers host port (map unat (b64_groups nonce)) extra" "length nonce = 16"
  shows "finalize p = commit_done p"
proof -
  have ne: "map unat (b64_groups nonce) \<noteq> []"
    using assms(3) a2b_b64_groups [of nonce] by (cases "b64_groups nonce = []") (auto simp: a2b_base64_def)
  have v: "validate_upgrade_headers p = (Inr (), p)"
    unfolding validate_upgrade_headers_def assms(2) request_get using literal_facts by (simp only: if_False not_True_eq_False simp_thms run_simps)
  show ?thesis
    unfolding finalize_def assms(1) handshake_role.case request_finalize_def run_andThen v prod.case sum.case assms(2) request_get
      ascii_encode_base64
    using ne assms(3) by (simp add: ascii_encode_base64)
qed

lemma response_finalize_run:
  assumes "hp_role p = ResponseParser a" "hp_headers p = response_headers accept extra"
  shows "finalize p = (if accept = a then commit_done p else hs_fail ''Sec-WebSocket-Accept mismatch'' p)"
proof -
  have v: "validate_upgrade_headers p = (Inr (), p)"
    unfolding validate_upgrade_headers_def assms(2) response_get using literal_facts by (simp only: if_False not_True_eq_False simp_thms run_simps)
  show ?thesis
    unfolding finalize_def assms(1) handshake_role.case response_finalize_def run_andThen v prod.case sum.case assms(2) response_get
    by simp
qed

definition request_bytes :: "pystr \<Rightarrow> int \<Rightarrow> pystr \<Rightarrow> pystr \<Rightarrow> (pystr \<times> pystr) list \<Rightarrow> byte list" where
  "request_bytes host port path key extra = map B (ustr ''GET '' @ path @ ustr '' HTTP/1.1'') @ CRLF
     @ concat (map (\<lambda>h. wire_line h @ CRLF) (item_list (request_headers host port key extra))) @ CRLF"

definition response_bytes :: "pystr \<Rightarrow> (pystr \<times> pystr) list \<Rightarrow> byte list" where
  "response_bytes accept extra = map B (ustr ''HTTP/1.1 101 Switching Protocols'') @ CRLF
     @ concat (map (\<lambda>h. wire_line h @ CRLF) (item_list (response_headers accept extra))) @ CRLF"

lemma encode_client_handshake_eq:
  assumes "visible host" "visible path" "good_text key" "\<forall>h \<in> set extra. good_header h"
  shows "encode_client_handshake host port path key extra = Inr (request_bytes host port path key extra)"
proof -
  note g = request_headers_good [OF assms(1,3,4), of port]
  have i: "cd_items (request_headers host port key extra) = Inr (item_list (request_headers host port key extra))"
    using g by (intro cd_items_ok) (simp add: cd_good_def)
  have h: "header_lines (item_list (request_headers host port key extra)) =
      Inr (concat (map (\<lambda>h. wire_line h @ CRLF) (item_list (request_headers host port key extra))))"
    using item_list_good [OF g] by (intro header_lines_good) blast
  have a: "ascii_encode (ustr ''GET '' @ path @ ustr '' HTTP/1.1'' @ [13, 10]) = Inr (map B (ustr ''GET '' @ path @ ustr '' HTTP/1.1'') @ CRLF)"
    using assms(2) by (auto simp: ascii_encode_def visible_def CRLF_def)
  have "encode_client_handshake host port path key extra = rbind (ascii_encode (ustr ''GET '' @ path @ ustr '' HTTP/1.1'' @ [13, 10])) (\<lambda>first.
      rbind (cd_items (request_headers host port key extra)) (\<lambda>items.
      rbind (header_lines items) (\<lambda>lines. Inr (first @ lines @ CRLF))))"
    unfolding encode_client_handshake_def merge_extra_headers_def request_headers_def Let_def ..
  then show ?thesis unfolding a rbind_simps i h by (simp add: request_bytes_def)
qed

lemma encode_server_handshake_response_eq:
  assumes "\<forall>h \<in> set extra. good_header h" "derive_accept_key key = Inr accept" "good_text accept"
  shows "encode_server_handshake_response key extra = Inr (response_bytes accept extra)"
proof -
  note g = response_headers_good [OF assms(3,1)]
  have i: "cd_items (response_headers accept extra) = Inr (item_list (response_headers accept extra))"
    using g by (intro cd_items_ok) (simp add: cd_good_def)
  have h: "header_lines (item_list (response_headers accept extra)) =
      Inr (concat (map (\<lambda>h. wire_line h @ CRLF) (item_list (response_headers accept extra))))"
    using item_list_good [OF g] by (intro header_lines_good) blast
  have "encode_server_handshake_response key extra = rbind (cd_items (response_headers accept extra)) (\<lambda>items.
      rbind (header_lines items) (\<lambda>lines. Inr (map B (ustr ''HTTP/1.1 101 Switching Protocols'') @ CRLF @ lines @ CRLF)))"
    unfolding encode_server_handshake_response_def merge_extra_headers_def response_headers_def Let_def assms(2) rbind_simps ..
  then show ?thesis unfolding i h rbind_simps by (simp add: response_bytes_def del: list.map)
qed

lemma no_cr_visible: "visible path \<Longrightarrow> B 13 \<notin> set (map B (ustr ''GET '' @ path @ ustr '' HTTP/1.1''))"
proof
  assume v: "visible path" "B 13 \<in> set (map B (ustr ''GET '' @ path @ ustr '' HTTP/1.1''))"
  then obtain c where c: "c \<in> set (ustr ''GET '' @ path @ ustr '' HTTP/1.1'')" "B 13 = B c" by (auto simp del: map_append)
  then have "c < 128" "c \<noteq> 13" using v(1) by (auto simp: visible_def)
  then show False using c(2) B_eq_iff [of 13 c] by simp
qed

text \<open>A whole block: the first line, the headers of a dict, the empty line, and what follows.\<close>

lemma hs_loop_block:
  assumes "hp_state p \<noteq> HEADERS" "B 13 \<notin> set line" "cd_good d" "hp_headers p = CaseInsensitiveDict_init"
    "live p = line @ CRLF @ concat (map (\<lambda>h. wire_line h @ CRLF) (item_list d)) @ CRLF @ rest"
    "\<And>p. hp_role p = role \<Longrightarrow> parse_first_line line p = (Inr (), f p)" "hp_role p = role"
    "\<And>p. hp_state (f p) = HEADERS \<and> hp_headers (f p) = hp_headers p \<and> live (f p) = live p"
  shows "\<exists>b k b' k'. drop k b = rest \<and> hs_loop p = finalize (with_buffer b k ((f (with_buffer b' k' p))\<lparr>hp_headers := d\<rparr>))"
proof -
  obtain b' k' where 1: "drop k' b' = concat (map (\<lambda>h. wire_line h @ CRLF) (item_list d)) @ CRLF @ rest"
    "hs_loop p = hs_loop (f (with_buffer b' k' p))"
    using hs_loop_first_line [OF assms(1,2,5,6,7)] by blast
  let ?p = "f (with_buffer b' k' p)"
  have "live ?p = concat (map (\<lambda>h. wire_line h @ CRLF) (item_list d)) @ CRLF @ rest" "hp_state ?p = HEADERS"
    "hp_headers ?p = CaseInsensitiveDict_init"
    using assms(4,8) 1(1) by simp_all
  then obtain b k where "drop k b = rest" "hs_loop ?p = finalize (with_buffer b k (?p\<lparr>hp_headers := set_all (item_list d) CaseInsensitiveDict_init\<rparr>))"
    using hs_loop_headers [of "item_list d" ?p rest] item_list_good [OF assms(3)] by metis
  then show ?thesis using 1(2) set_all_item_list [of d] assms(3) by (auto simp: cd_good_def)
qed

lemma request_parsed:
  assumes "visible host" "visible path" "length nonce = 16" "\<forall>h \<in> set extra. good_header h"
    and key: "key = map unat (b64_groups nonce)"
  obtains pf where "hs_loop (more_bytes (request_bytes host port path key extra @ rest) (HandshakeParser_init RequestParser maxb)) = (Inr (), pf)"
    "hp_state pf = DONE" "hp_path pf = path" "client_key pf = key" "hp_leftover pf = rest" "hp_headers pf = request_headers host port key extra"
proof -
  let ?p = "more_bytes (request_bytes host port path key extra @ rest) (HandshakeParser_init RequestParser maxb)"
  let ?line = "map B (ustr ''GET '' @ path @ ustr '' HTTP/1.1'')" and ?d = "request_headers host port key extra"
  let ?f = "\<lambda>p. p\<lparr>hp_method := ustr ''GET'', hp_path := path, hp_http_version := ustr ''HTTP/1.1'', hp_state := HEADERS\<rparr>"
  have lv: "live ?p = ?line @ CRLF @ concat (map (\<lambda>h. wire_line h @ CRLF) (item_list ?d)) @ CRLF @ rest"
    by (simp add: live_def HandshakeParser_init_def request_bytes_def)
  have g: "cd_good ?d" unfolding key by (rule request_headers_good [OF assms(1) base64_text_good(1) assms(4)])
  have init: "hp_state ?p \<noteq> HEADERS" "hp_headers ?p = CaseInsensitiveDict_init" "hp_role ?p = RequestParser"
    by (simp_all add: HandshakeParser_init_def initial_state_def)
  have f: "hp_state (?f p) = HEADERS \<and> hp_headers (?f p) = hp_headers p \<and> live (?f p) = live p" for p
    by (simp add: live_def)
  obtain b k b' k' where r: "drop k b = rest" "hs_loop ?p = finalize (with_buffer b k ((?f (with_buffer b' k' ?p))\<lparr>hp_headers := ?d\<rparr>))"
    using hs_loop_block [OF init(1) no_cr_visible [OF assms(2)] g init(2) lv request_first_line_ok [OF assms(2)] init(3) f] by blast
  let ?q = "with_buffer b k ((?f (with_buffer b' k' ?p))\<lparr>hp_headers := ?d\<rparr>)"
  have "finalize ?q = commit_done ?q"
    by (rule request_finalize_ok [OF _ _ assms(3), of _ host port extra]) (simp_all add: HandshakeParser_init_def key)
  then have "hs_loop ?p = (Inr (), ?q\<lparr>hp_leftover := rest, hp_buffer := [], hp_read_offset := 0, hp_state := DONE\<rparr>)"
    using r by (simp add: commit_done_run)
  then show ?thesis by (rule that) (simp_all add: client_key_request)
qed

lemma response_parsed:
  assumes "good_text accept" "\<forall>h \<in> set extra. good_header h"
  obtains pf where "hs_loop (more_bytes (response_bytes accept extra @ rest) (HandshakeParser_init (ResponseParser a) maxb))
      = (if accept = a then (Inr (), pf) else (Inl (WebSocketHandshakeError ''Sec-WebSocket-Accept mismatch''), pf))"
    "accept = a \<Longrightarrow> hp_state pf = DONE \<and> hp_leftover pf = rest" "accept \<noteq> a \<Longrightarrow> hp_state pf = ERROR"
proof -
  let ?p = "more_bytes (response_bytes accept extra @ rest) (HandshakeParser_init (ResponseParser a) maxb)"
  let ?line = "map B (ustr ''HTTP/1.1 101 Switching Protocols'')" and ?d = "response_headers accept extra"
  let ?f = "\<lambda>p. p\<lparr>hp_http_version := ustr ''HTTP/1.1'', hp_status_code := Some 101, hp_reason := ustr ''Switching Protocols'', hp_state := HEADERS\<rparr>"
  have lv: "live ?p = ?line @ CRLF @ concat (map (\<lambda>h. wire_line h @ CRLF) (item_list ?d)) @ CRLF @ rest"
    by (simp add: live_def HandshakeParser_init_def response_bytes_def)
  have init: "hp_state ?p \<noteq> HEADERS" "hp_headers ?p = CaseInsensitiveDict_init" "hp_role ?p = ResponseParser a"
    by (simp_all add: HandshakeParser_init_def initial_state_def)
  have f: "hp_state (?f p) = HEADERS \<and> hp_headers (?f p) = hp_headers p \<and> live (?f p) = live p" for p
    by (simp add: live_def)
  have cr: "B 13 \<notin> set ?line" by code_simp
  obtain b k b' k' where r: "drop k b = rest" "hs_loop ?p = finalize (with_buffer b k ((?f (with_buffer b' k' ?p))\<lparr>hp_headers := ?d\<rparr>))"
    using hs_loop_block [OF init(1) cr response_headers_good [OF assms] init(2) lv response_first_line_ok [where a = a] init(3) f] by blast
  let ?q = "with_buffer b k ((?f (with_buffer b' k' ?p))\<lparr>hp_headers := ?d\<rparr>)"
  have "finalize ?q = (if accept = a then commit_done ?q else hs_fail ''Sec-WebSocket-Accept mismatch'' ?q)"
    by (rule response_finalize_run) (simp_all add: HandshakeParser_init_def)
  then show ?thesis using r by (intro that [of "if accept = a then snd (commit_done ?q) else snd (hs_fail ''Sec-WebSocket-Accept mismatch'' ?q :: unit result \<times> HandshakeParser)"])
    (simp_all add: commit_done_run hs_fail_def run_andThen)
qed

lemma init_ok: "hp_ok (HandshakeParser_init role m)" "hp_state (HandshakeParser_init role m) \<noteq> DONE"
  "hp_state (HandshakeParser_init role m) \<noteq> ERROR" "live (HandshakeParser_init role m) = []"
  "hp_max_header_bytes (HandshakeParser_init role m) = m"
  by (simp_all add: hp_ok_def HandshakeParser_init_def initial_state_def live_def split: handshake_role.split)

lemma request_fed:
  assumes "visible host" "visible path" "length nonce = 16" "\<forall>h \<in> set extra. good_header h" "key = map unat (b64_groups nonce)"
    and t: "concat xs @ c = request_bytes host port path key extra @ rest" "length rest < length c"
      "length (request_bytes host port path key extra @ rest) \<le> m"
  shows "\<exists>q. hs_feed_all (xs @ [c]) (HandshakeParser_init RequestParser m) = (Inr (), q)
      \<and> hp_state q = DONE \<and> hp_path q = path \<and> client_key q = key \<and> hp_leftover q = rest"
proof -
  obtain pf where pf: "hs_loop (more_bytes (request_bytes host port path key extra @ rest) (HandshakeParser_init RequestParser m)) = (Inr (), pf)"
    "hp_state pf = DONE" "hp_path pf = path" "client_key pf = key" "hp_leftover pf = rest"
    using request_parsed [OF assms(1-5)] by metis
  then obtain q where "hs_feed_all (xs @ [c]) (HandshakeParser_init RequestParser m) = (Inr (), q)" "same pf q"
    using feed_chunks [OF init_ok(1-3), of RequestParser m xs c pf] unfolding t(1) init_ok(4,5) using t(2,3) pf by auto
  then show ?thesis using pf same_fields [of pf q] by (auto simp: client_key_def)
qed

lemma response_fed:
  assumes "good_text accept" "\<forall>h \<in> set extra. good_header h"
    and t: "concat xs @ c = response_bytes accept extra @ rest" "length rest < length c" "length (response_bytes accept extra @ rest) \<le> m"
  shows "\<exists>q. hs_feed_all (xs @ [c]) (HandshakeParser_init (ResponseParser accept) m) = (Inr (), q) \<and> hp_state q = DONE \<and> hp_leftover q = rest"
proof -
  obtain pf where pf: "hs_loop (more_bytes (response_bytes accept extra @ rest) (HandshakeParser_init (ResponseParser accept) m)) = (Inr (), pf)"
    "hp_state pf = DONE" "hp_leftover pf = rest"
    using response_parsed [OF assms(1,2), where rest = rest and a = accept and maxb = m] by metis
  then obtain q where "hs_feed_all (xs @ [c]) (HandshakeParser_init (ResponseParser accept) m) = (Inr (), q)" "same pf q"
    using feed_chunks [OF init_ok(1-3), of "ResponseParser accept" m xs c pf] unfolding t(1) init_ok(4,5) using t(2,3) pf by auto
  then show ?thesis using pf same_fields [of pf q] by auto
qed

lemma response_refused:
  assumes "good_text accept" "\<forall>h \<in> set extra. good_header h" "other \<noteq> accept" "length (response_bytes accept extra) \<le> m"
  shows "fst (hs_feed (response_bytes accept extra) (HandshakeParser_init (ResponseParser other) m))
    = Inl (WebSocketHandshakeError ''Sec-WebSocket-Accept mismatch'')"
proof -
  have "hs_feed (response_bytes accept extra) (HandshakeParser_init (ResponseParser other) m)
      = hs_loop (more_bytes (response_bytes accept extra @ []) (HandshakeParser_init (ResponseParser other) m))"
    using assms(4) init_ok(2,3) by (simp add: hs_feed_def) (simp add: live_len_def HandshakeParser_init_def)
  then show ?thesis using response_parsed [OF assms(1,2), where rest = "[]" and a = other and maxb = m] assms(3) by (metis fst_conv)
qed

text \<open>
  C14. The two sides understand each other. For any 16-byte nonce, host, path and well-formed extra
  headers, the request the client encodes is accepted by the server's parser however the bytes are cut
  into chunks, with the same path and key and with the bytes that follow the handshake kept as
  leftover; and the response the server encodes for that key is accepted in the same way by the client
  that expects the matching accept token, while a client that expects any other token refuses it.
\<close>

theorem handshake_roundtrip:
  assumes "length nonce = 16" "visible host" "visible path" "\<forall>h \<in> set extra. good_header h" "\<forall>h \<in> set extra'. good_header h"
  shows "\<exists>key accept req resp. make_websocket_key nonce = Inr key \<and> derive_accept_key key = Inr accept
    \<and> encode_client_handshake host port path key extra = Inr req \<and> encode_server_handshake_response key extra' = Inr resp
    \<and> (\<forall>xs c rest m. concat xs @ c = req @ rest \<and> length rest < length c \<and> length (req @ rest) \<le> m \<longrightarrow>
        (\<exists>q. hs_feed_all (xs @ [c]) (HandshakeParser_init RequestParser m) = (Inr (), q)
          \<and> hp_state q = DONE \<and> hp_path q = path \<and> client_key q = key \<and> hp_leftover q = rest))
    \<and> (\<forall>xs c rest m. concat xs @ c = resp @ rest \<and> length rest < length c \<and> length (resp @ rest) \<le> m \<longrightarrow>
        (\<exists>q. hs_feed_all (xs @ [c]) (HandshakeParser_init (ResponseParser accept) m) = (Inr (), q)
          \<and> hp_state q = DONE \<and> hp_leftover q = rest))
    \<and> (\<forall>other m. other \<noteq> accept \<and> length resp \<le> m \<longrightarrow>
        fst (hs_feed resp (HandshakeParser_init (ResponseParser other) m)) = Inl (WebSocketHandshakeError ''Sec-WebSocket-Accept mismatch''))"
proof -
  define key where "key = map unat (b64_groups nonce)"
  have asc: "\<forall>c \<in> set (key @ WS_MAGIC_GUID). c < 128" using base64_text_good(2) [of nonce] by (auto simp: key_def WS_MAGIC_GUID_def)
  define accept where "accept = map unat (b64_groups (sha1_digest (map B (key @ WS_MAGIC_GUID))))"
  have k: "make_websocket_key nonce = Inr key" by (simp add: make_websocket_key_def base64_text_eq key_def)
  have a: "derive_accept_key key = Inr accept"
    using asc unfolding derive_accept_key_def ascii_encode_def accept_def by (simp add: base64_text_eq)
  have ga: "good_text accept" unfolding accept_def by (rule base64_text_good)
  have gk: "good_text key" unfolding key_def by (rule base64_text_good)
  let ?req = "request_bytes host port path key extra" and ?resp = "response_bytes accept extra'"
  have req: "encode_client_handshake host port path key extra = Inr ?req" by (rule encode_client_handshake_eq [OF assms(2,3) gk assms(4)])
  have resp: "encode_server_handshake_response key extra' = Inr ?resp" by (rule encode_server_handshake_response_eq [OF assms(5) a ga])
  note 1 = request_fed [OF assms(2,3,1,4) key_def] and 2 = response_fed [OF ga assms(5)] and 3 = response_refused [OF ga assms(5)]
  show ?thesis
    by (rule exI [of _ key], rule exI [of _ accept], rule exI [of _ ?req], rule exI [of _ ?resp], intro conjI allI impI k a req resp)
      (elim conjE, rule 1 2 3, assumption+)+
qed

theorem handshake_roundtrip_witness:
  "\<exists>key req. make_websocket_key (map B [0..<16]) = Inr key
    \<and> encode_client_handshake (ustr ''h'') 8080 (ustr ''/ws'') key [(ustr ''Origin'', ustr ''x y'')] = Inr req
    \<and> (\<exists>q. hs_feed_all [take 7 req, drop 7 req] (HandshakeParser_init RequestParser (length req)) = (Inr (), q)
        \<and> hp_state q = DONE \<and> hp_path q = ustr ''/ws'' \<and> client_key q = key \<and> hp_leftover q = [])"
proof -
  have a: "length (map B [0..<16]) = 16" "visible (ustr ''h'')" "visible (ustr ''/ws'')"
    "\<forall>h \<in> set [(ustr ''Origin'', ustr ''x y'')]. good_header h"
    by (simp_all add: visible_def good_header_def good_text_def py_strip_def is_space_def)
  obtain key req where k: "make_websocket_key (map B [0..<16]) = Inr key"
    "encode_client_handshake (ustr ''h'') 8080 (ustr ''/ws'') key [(ustr ''Origin'', ustr ''x y'')] = Inr req"
    "\<forall>xs c rest m. concat xs @ c = req @ rest \<and> length rest < length c \<and> length (req @ rest) \<le> m \<longrightarrow>
        (\<exists>q. hs_feed_all (xs @ [c]) (HandshakeParser_init RequestParser m) = (Inr (), q)
          \<and> hp_state q = DONE \<and> hp_path q = ustr ''/ws'' \<and> client_key q = key \<and> hp_leftover q = rest)"
    using handshake_roundtrip [OF a, of "[]" 8080] by auto
  have "length req > 7"
  proof -
    have "visible (ustr ''h'')" "visible (ustr ''/ws'')" "good_text key" using a k(1)
      by (auto simp: make_websocket_key_def base64_text_eq intro: base64_text_good)
    then show ?thesis using encode_client_handshake_eq [of "ustr ''h''" "ustr ''/ws''" key "[(ustr ''Origin'', ustr ''x y'')]" 8080] a(4) k(2)
      by (auto simp: request_bytes_def)
  qed
  then show ?thesis using k(1,2) k(3) [rule_format, of "[take 7 req]" "drop 7 req" "[]" "length req"] by auto
qed



section \<open>Nothing but an upgrade\<close>

lemma py_int_error: "py_int s = Inl e \<Longrightarrow> is_ValueError e"
  by (auto simp: py_int_def is_ValueError_def Let_def split: list.splits if_splits option.splits)

lemma a2b_loop_error: "a2b_loop quad pads carry out bs = Inl e \<Longrightarrow> is_ValueError e"
  by (induction quad pads carry out bs rule: a2b_loop.induct) (auto simp: is_ValueError_def split: if_splits option.splits)

lemma key_error: "rbind (ascii_encode k) a2b_base64 = Inl e \<Longrightarrow> is_ValueError e"
  using a2b_loop_error by (auto simp: ascii_encode_def a2b_base64_def is_ValueError_def split: if_splits)

lemma ascii_decode_error: "ascii_decode bs = Inl e \<Longrightarrow> is_ValueError e"
  by (auto simp: ascii_decode_def is_ValueError_def split: if_splits)

definition upgrade_ok :: "CaseInsensitiveDict \<Rightarrow> bool" where
  "upgrade_ok h \<longleftrightarrow> has_substring (ustr ''websocket'') (py_lower (cd_get (ustr ''Upgrade'') [] h))
     \<and> ustr ''upgrade'' \<in> set (map py_strip (split_on 44 (py_lower (cd_get (ustr ''Connection'') [] h))))"

definition first_line_ok :: "HandshakeParser \<Rightarrow> bool" where
  "first_line_ok p = (case hp_role p of
     RequestParser \<Rightarrow> hp_method p = ustr ''GET'' \<and> starts_with (hp_http_version p) (ustr ''HTTP/1.'')
   | ResponseParser a \<Rightarrow> hp_status_code p = Some 101)"

definition headers_ok :: "HandshakeParser \<Rightarrow> bool" where
  "headers_ok p \<longleftrightarrow> upgrade_ok (hp_headers p) \<and> (case hp_role p of
     RequestParser \<Rightarrow> cd_get (ustr ''Sec-WebSocket-Version'') [] (hp_headers p) = WS_VERSION
       \<and> (\<exists>bs. ascii_encode (client_key p) = Inr bs \<and> (\<exists>n. a2b_base64 bs = Inr n \<and> length n = 16))
   | ResponseParser a \<Rightarrow> cd_get (ustr ''Sec-WebSocket-Accept'') [] (hp_headers p) = a)"

definition hs_inv :: "HandshakeParser \<Rightarrow> bool" where
  "hs_inv p \<longleftrightarrow> hp_ok p \<and> hp_state p \<noteq> ERROR \<and> (hp_state p = HEADERS \<or> hp_state p = DONE \<longrightarrow> first_line_ok p)
     \<and> (hp_state p = DONE \<longrightarrow> headers_ok p)"

abbreviation hs_error :: "exn \<Rightarrow> HandshakeParser \<Rightarrow> bool" where
  "hs_error e p \<equiv> (\<exists>msg. e = WebSocketHandshakeError msg) \<and> hp_state p = ERROR"

lemma valid_hs_fail: "valid P (hs_fail msg) Q hs_error"
  by (simp add: valid_def hs_fail_def run_andThen)

lemma first_line_sound:
  "valid (\<lambda>p. hp_ok p) (parse_first_line line) (\<lambda>_ p. hp_ok p \<and> hp_state p = HEADERS \<and> first_line_ok p) hs_error"
  unfolding valid_def
proof (intro allI impI)
  fix p
  assume ok: "hp_ok p"
  have k: "hp_ok (snd (parse_first_line line p))"
    using ok framed_keeps [OF framed_parse_first_line, of line p] by (simp add: hp_ok_def)
  show "case parse_first_line line p of (Inl e, s1) \<Rightarrow> hs_error e s1
    | (Inr x, s1) \<Rightarrow> hp_ok s1 \<and> hp_state s1 = HEADERS \<and> first_line_ok s1"
    using k by (auto simp: parse_first_line_def request_first_line_def response_first_line_def first_line_ok_def hs_fail_def run_andThen
        ascii_decode_error py_int_error split: handshake_role.splits sum.splits list.splits if_splits)
qed

lemma header_line_sound:
  "valid (\<lambda>p. hp_ok p \<and> hp_state p = HEADERS \<and> first_line_ok p) (parse_header_line line)
     (\<lambda>_ p. hp_ok p \<and> hp_state p = HEADERS \<and> first_line_ok p) hs_error"
  by (auto simp: valid_def parse_header_line_def Let_def hs_fail_def run_andThen hp_ok_def first_line_ok_def
      split: option.split handshake_role.splits)

lemma finalize_sound:
  "valid (\<lambda>p. first_line_ok p) finalize (\<lambda>_ p. hp_ok p \<and> hp_state p = DONE \<and> first_line_ok p \<and> headers_ok p) hs_error"
  unfolding valid_def
proof (intro allI impI)
  fix p
  assume fl: "first_line_ok p"
  show "case finalize p of (Inl e, s1) \<Rightarrow> hs_error e s1
    | (Inr x, s1) \<Rightarrow> hp_ok s1 \<and> hp_state s1 = DONE \<and> first_line_ok s1 \<and> headers_ok s1"
  proof (cases "hp_role p")
    case RequestParser
    then show ?thesis using fl key_error [of "cd_get (ustr ''Sec-WebSocket-Key'') [] (hp_headers p)"]
      unfolding finalize_def RequestParser handshake_role.case request_finalize_def validate_upgrade_headers_def hs_fail_def
      by (auto simp: RequestParser run_andThen commit_done_run Let_def hp_ok_def first_line_ok_def headers_ok_def upgrade_ok_def client_key_def
          result_simps simp del: list.map split: sum.splits)
  next
    case (ResponseParser a)
    then show ?thesis using fl
      unfolding finalize_def ResponseParser handshake_role.case response_finalize_def validate_upgrade_headers_def hs_fail_def
      by (auto simp: ResponseParser run_andThen commit_done_run hp_ok_def first_line_ok_def headers_ok_def upgrade_ok_def simp del: list.map)
  qed
qed

lemma valid_then_ret:
  assumes "valid P m (\<lambda>_. Q) E" "P c" "\<And>c1. Q c1 \<Longrightarrow> R c1"
  shows "case andThen m (ret b) c of (Inl e, c1) \<Rightarrow> E e c1 | (Inr _, c1) \<Rightarrow> R c1"
  using assms unfolding valid_def run_andThen by (cases "m c"; cases "fst (m c)") fastforce+

lemma feed_line_sound:
  assumes "hs_inv p" "hp_state p \<noteq> DONE" "live_find p = Some i"
  shows "case feed_line i p of (Inl e, p1) \<Rightarrow> hs_error e p1 | (Inr _, p1) \<Rightarrow> hs_inv p1"
proof -
  have len: "i + 2 \<le> length (live p)" using assms(3) find_crlf_bound by (simp add: live_find_def)
  let ?c = "hs_consume (i + 2) p"
  obtain b k where c: "?c = with_buffer b k p" using hs_consume_form by blast
  have ok: "hp_ok ?c" using hp_ok_consume [OF _ len] assms(1) by (simp add: hs_inv_def)
  have st: "hp_state ?c = hp_state p" by simp
  have fl: "hp_state p = HEADERS \<Longrightarrow> first_line_ok ?c" using assms(1) unfolding c by (auto simp: hs_inv_def first_line_ok_def split: handshake_role.splits)
  consider (fin) "hp_state p = HEADERS" "live_slice 0 (Some i) p = []" | (hdr) "hp_state p = HEADERS" "live_slice 0 (Some i) p \<noteq> []"
    | (first) "hp_state p \<noteq> HEADERS" by blast
  then show ?thesis
  proof cases
    case fin
    then have run: "feed_line i p = andThen finalize (ret False) ?c" by (simp add: feed_line_def)
    show ?thesis unfolding run
      by (rule valid_then_ret [OF finalize_sound fl [OF fin(1)]]) (simp add: hs_inv_def)
  next
    case hdr
    then have run: "feed_line i p = andThen (parse_header_line (live_slice 0 (Some i) p)) (ret True) ?c" by (simp add: feed_line_def)
    show ?thesis unfolding run
      by (rule valid_then_ret [OF header_line_sound]) (use ok fl hdr in \<open>simp_all add: hs_inv_def\<close>)
  next
    case first
    then have run: "feed_line i p = andThen (parse_first_line (live_slice 0 (Some i) p)) (ret True) ?c" by (simp add: feed_line_def)
    show ?thesis unfolding run
      by (rule valid_then_ret [OF first_line_sound ok]) (simp add: hs_inv_def)
  qed
qed

lemma hs_loop_sound:
  "hs_inv p \<Longrightarrow> hp_state p \<noteq> DONE \<Longrightarrow> case hs_loop p of (Inl e, p1) \<Rightarrow> hs_error e p1 | (Inr _, p1) \<Rightarrow> hs_inv p1"
proof (induction p rule: hs_loop.induct)
  case (1 p)
  show ?case
  proof (cases "live_find p")
    case None
    then show ?thesis using 1(2) by (simp add: hs_loop.simps [of p])
  next
    case (Some i)
    obtain r p1 where r: "feed_line i p = (r, p1)" by fastforce
    note fl = feed_line_sound [OF 1(2,3) Some, unfolded r prod.case]
    show ?thesis
    proof (cases "r = Inr True")
      case True
      have "hp_state p1 \<noteq> DONE" using feed_line_state [of i p p1] r True by simp
      then show ?thesis using 1(1) [OF Some r [symmetric] True TrueI] fl Some r True by (simp add: hs_loop.simps [of p])
    next
      case False
      then show ?thesis using fl Some r by (cases r) (auto simp: hs_loop.simps [of p])
    qed
  qed
qed

text \<open>What one call of \<^verbatim>\<open>feed\<close> leaves: at most the cap of unread bytes.\<close>

lemma hs_feed_sound:
  assumes "hs_inv p" "hp_state p = DONE \<or> length (live p) \<le> hp_max_header_bytes p"
  shows "case hs_feed chunk p of (Inl e, p1) \<Rightarrow> hs_error e p1
    | (Inr _, p1) \<Rightarrow> hs_inv p1 \<and> hp_role p1 = hp_role p \<and> hp_max_header_bytes p1 = hp_max_header_bytes p
        \<and> (hp_state p1 = DONE \<or> length (live p1) \<le> hp_max_header_bytes p1)"
proof (cases "hp_state p = DONE")
  case True
  then show ?thesis using assms by (simp add: hs_feed_def)
next
  case nd: False
  let ?p = "more_bytes chunk p"
  have ok: "hp_ok p" "hp_state p \<noteq> ERROR" using assms(1) by (simp_all add: hs_inv_def)
  have inv: "hs_inv ?p" using assms(1) by (auto simp: hs_inv_def hp_ok_def first_line_ok_def nd split: handshake_role.splits)
  show ?thesis
  proof (cases "live_len ?p > int (hp_max_header_bytes p)")
    case True
    then show ?thesis using nd ok by (simp add: hs_feed_def hs_fail_def run_andThen)
  next
    case False
    have cap: "length (live ?p) \<le> hp_max_header_bytes p"
      using False ok(1) by (simp add: live_len_def hp_ok_def live_def)
    have run: "hs_feed chunk p = hs_loop ?p" using nd ok False by (simp add: hs_feed_def)
    have snd: "case hs_loop ?p of (Inl e, p1) \<Rightarrow> hs_error e p1 | (Inr _, p1) \<Rightarrow> hs_inv p1" using hs_loop_sound [OF inv] nd by simp
    have kept: "hs_loop ?p = (Inr (), p1) \<Longrightarrow> hp_max_header_bytes p1 = hp_max_header_bytes p \<and> hp_role p1 = hp_role p
        \<and> length (live p1) \<le> hp_max_header_bytes p" for p1
      using hs_loop_kept [of ?p p1] ok(2) cap by auto
    show ?thesis unfolding run using snd kept by (auto split: prod.splits sum.splits)
  qed
qed

lemma hs_feed_all_sound:
  assumes "hs_inv p" "hp_state p = DONE \<or> length (live p) \<le> hp_max_header_bytes p"
  shows "case hs_feed_all chunks p of (Inl e, p1) \<Rightarrow> hs_error e p1
    | (Inr _, p1) \<Rightarrow> hs_inv p1 \<and> hp_role p1 = hp_role p \<and> (hp_state p1 = DONE \<or> length (live p1) \<le> hp_max_header_bytes p)"
  using assms
proof (induction chunks arbitrary: p)
  case (Cons c cs)
  obtain r p1 where r: "hs_feed c p = (r, p1)" by fastforce
  note f = hs_feed_sound [OF Cons.prems, of c, unfolded r prod.case]
  show ?case
  proof (cases r)
    case (Inl e)
    then show ?thesis using r f by (simp add: run_andThen)
  next
    case (Inr u)
    then have p1: "hs_inv p1" "hp_state p1 = DONE \<or> length (live p1) \<le> hp_max_header_bytes p1" "hp_role p1 = hp_role p"
      "hp_max_header_bytes p1 = hp_max_header_bytes p" using f by auto
    show ?thesis using Cons.IH [OF p1(1,2), unfolded p1(3,4)] r Inr by (simp add: run_andThen)
  qed
qed simp

text \<open>
  C15. Whatever a peer sends, in whatever chunks, the parsers accept nothing but an upgrade: a parser
  that is done has seen the upgrade headers, and the client's has seen status 101 and exactly the
  accept token it expects, the server's a GET of HTTP/1.x with version 13 and a key that decodes to 16
  bytes. Every failure is a \<open>WebSocketHandshakeError\<close> that leaves the parser in its error state, and
  between chunks it never holds more unread bytes than its cap.
\<close>

theorem handshake_accepts_only_upgrades:
  "case hs_feed_all chunks (HandshakeParser_init role m) of
     (Inl e, p) \<Rightarrow> (\<exists>msg. e = WebSocketHandshakeError msg) \<and> hp_state p = ERROR
   | (Inr _, p) \<Rightarrow> hp_state p \<noteq> ERROR
       \<and> (if hp_state p = DONE then upgrade_ok (hp_headers p) \<and> (case role of
            ResponseParser accept \<Rightarrow> hp_status_code p = Some 101 \<and> cd_get (ustr ''Sec-WebSocket-Accept'') [] (hp_headers p) = accept
          | RequestParser \<Rightarrow> hp_method p = ustr ''GET'' \<and> starts_with (hp_http_version p) (ustr ''HTTP/1.'')
              \<and> cd_get (ustr ''Sec-WebSocket-Version'') [] (hp_headers p) = ustr ''13''
              \<and> (\<exists>bs key. ascii_encode (client_key p) = Inr bs \<and> a2b_base64 bs = Inr key \<and> length key = 16))
          else length (live p) \<le> m)"
proof -
  have i: "hs_inv (HandshakeParser_init role m)" "hp_role (HandshakeParser_init role m) = role"
    by (auto simp: hs_inv_def hp_ok_def HandshakeParser_init_def initial_state_def split: handshake_role.split)
  note s = hs_feed_all_sound [OF i(1) disjI2, of chunks, unfolded i(2) init_ok(4,5)]
  obtain r p where r: "hs_feed_all chunks (HandshakeParser_init role m) = (r, p)" by fastforce
  show ?thesis
  proof (cases r)
    case (Inl e)
    then show ?thesis using s r by simp
  next
    case (Inr u)
    then have p: "hs_inv p" "hp_role p = role" "hp_state p = DONE \<or> length (live p) \<le> m" using s r by simp_all
    have "case role of
            ResponseParser accept \<Rightarrow> hp_status_code p = Some 101 \<and> cd_get (ustr ''Sec-WebSocket-Accept'') [] (hp_headers p) = accept
          | RequestParser \<Rightarrow> hp_method p = ustr ''GET'' \<and> starts_with (hp_http_version p) (ustr ''HTTP/1.'')
              \<and> cd_get (ustr ''Sec-WebSocket-Version'') [] (hp_headers p) = ustr ''13''
              \<and> (\<exists>bs key. ascii_encode (client_key p) = Inr bs \<and> a2b_base64 bs = Inr key \<and> length key = 16)"
      if "hp_state p = DONE"
    proof (cases role)
      case RequestParser
      then show ?thesis using p that unfolding hs_inv_def first_line_ok_def headers_ok_def WS_VERSION_def by auto
    next
      case (ResponseParser a)
      then show ?thesis using p that unfolding hs_inv_def first_line_ok_def headers_ok_def by auto
    qed
    then show ?thesis using p Inr r unfolding r Inr prod.case sum.case by (auto simp: hs_inv_def headers_ok_def)
  qed
qed



section \<open>URLs\<close>

lemma starts_with_split: "starts_with s p \<Longrightarrow> s = p @ drop (length p) s"
  by (metis append_take_drop_id starts_with_def)

lemma url_scheme:
  "parse_ws_url url = Inr (scheme, host, port, path) \<Longrightarrow> scheme = ustr ''ws'' \<or> scheme = ustr ''wss''"
  "parse_ws_url url = Inl e \<Longrightarrow> \<exists>msg. e = WebSocketURLError msg"
  by (auto simp: parse_ws_url_def Let_def split: if_splits option.splits sum.splits prod.splits)

lemma url_host_port:
  assumes "parse_ws_url url = Inr (scheme, host, port, path)"
  shows "host \<noteq> [] \<and> 58 \<notin> set host \<and> 47 \<notin> set host \<and> 1 \<le> port \<and> port \<le> 65535 \<and> take 1 path = [47]"
proof -
  define sel where "sel = (if starts_with url (ustr ''ws://'') then Some (ustr ''ws'', drop 5 url, 80 :: int)
            else if starts_with url (ustr ''wss://'') then Some (ustr ''wss'', drop 6 url, 443) else None)"
  note a = assms [unfolded parse_ws_url_def, folded sel_def]
  obtain sch rest dp where o: "sel = Some (sch, rest, dp)" using a by (cases sel) auto
  have dp: "dp = 80 \<or> dp = 443" using o by (auto simp: sel_def split: if_splits)
  obtain hap pa where hp: "(case find_char 47 rest of None \<Rightarrow> (rest, [47]) | Some i \<Rightarrow> (take i rest, drop i rest)) = (hap, pa)"
    by (metis surj_pair)
  note b = a [unfolded o option.case prod.case hp Let_def]
  have pa: "pa = path" using b by (auto split: if_splits option.splits sum.splits)
  have u: "rest \<noteq> []" "hap \<noteq> []" "(case find_char 58 hap of None \<Rightarrow> host = hap \<and> port = dp
      | Some i \<Rightarrow> i \<noteq> 0 \<and> host = take i hap \<and> 1 \<le> port \<and> port \<le> 65535)"
    using b by (auto split: if_splits option.splits sum.splits)
  have path: "take 1 path = [47]" "47 \<notin> set hap"
    using hp unfolding pa by (auto split: option.splits simp: find_char_None dest!: find_char_Some simp: take_Suc hd_drop_conv_nth)
  show ?thesis
  proof (cases "find_char 58 hap")
    case None
    have n: "58 \<notin> set hap" using None by (simp add: find_char_None)
    show ?thesis using u(2) u(3) [unfolded None option.case] n path dp by auto
  next
    case (Some i)
    note f = find_char_Some [OF Some]
    show ?thesis using u(1,2) u(3) [unfolded Some option.case] path f in_set_takeD [of 47 i hap]
      by (auto split: if_splits sum.splits)
  qed
qed

text \<open>
  C39. \<open>parse_ws_url\<close> returns a non-empty host without slash or colon, a port from 1 to 65535 and a path
  that starts with a slash, and raises \<open>WebSocketURLError\<close> on everything else; a URL put together from
  such parts, with its port or with the default of its scheme, is split into the same parts.
\<close>

theorem parse_ws_url_spec:
  "(case parse_ws_url url of
      Inl e \<Rightarrow> \<exists>msg. e = WebSocketURLError msg
    | Inr (scheme, host, port, path) \<Rightarrow> (scheme = ustr ''ws'' \<or> scheme = ustr ''wss'') \<and> host \<noteq> [] \<and> 58 \<notin> set host \<and> 47 \<notin> set host
        \<and> 1 \<le> port \<and> port \<le> 65535 \<and> take 1 path = [47])
   \<and> (\<forall>host port path. host \<noteq> [] \<and> 58 \<notin> set host \<and> 47 \<notin> set host \<and> 1 \<le> port \<and> port \<le> 65535 \<longrightarrow>
        parse_ws_url (ustr ''ws://'' @ host @ [58] @ py_str port @ [47] @ path) = Inr (ustr ''ws'', host, port, 47 # path)
        \<and> parse_ws_url (ustr ''wss://'' @ host @ [58] @ py_str port @ [47] @ path) = Inr (ustr ''wss'', host, port, 47 # path)
        \<and> parse_ws_url (ustr ''ws://'' @ host) = Inr (ustr ''ws'', host, 80, [47])
        \<and> parse_ws_url (ustr ''wss://'' @ host @ [47] @ path) = Inr (ustr ''wss'', host, 443, 47 # path))"
proof
  show "case parse_ws_url url of
      Inl e \<Rightarrow> \<exists>msg. e = WebSocketURLError msg
    | Inr (scheme, host, port, path) \<Rightarrow> (scheme = ustr ''ws'' \<or> scheme = ustr ''wss'') \<and> host \<noteq> [] \<and> 58 \<notin> set host \<and> 47 \<notin> set host
        \<and> 1 \<le> port \<and> port \<le> 65535 \<and> take 1 path = [47]"
    using url_scheme [of url] url_host_port [of url] by (cases "parse_ws_url url") (auto simp del: list.map)
next
  show "\<forall>host port path. host \<noteq> [] \<and> 58 \<notin> set host \<and> 47 \<notin> set host \<and> 1 \<le> port \<and> port \<le> 65535 \<longrightarrow>
        parse_ws_url (ustr ''ws://'' @ host @ [58] @ py_str port @ [47] @ path) = Inr (ustr ''ws'', host, port, 47 # path)
        \<and> parse_ws_url (ustr ''wss://'' @ host @ [58] @ py_str port @ [47] @ path) = Inr (ustr ''wss'', host, port, 47 # path)
        \<and> parse_ws_url (ustr ''ws://'' @ host) = Inr (ustr ''ws'', host, 80, [47])
        \<and> parse_ws_url (ustr ''wss://'' @ host @ [47] @ path) = Inr (ustr ''wss'', host, 443, 47 # path)"
  proof (intro allI impI, elim conjE)
    fix host path :: pystr and port :: int
    assume h: "host \<noteq> []" "58 \<notin> set host" "47 \<notin> set host" "1 \<le> port" "port \<le> 65535"
    have d: "\<forall>c \<in> set (py_str port). is_digit c" using h(4) nat_digits_ok [of "nat port"] by (simp add: py_str_def)
    then have "47 \<notin> set (host @ 58 # py_str port)" using h(3) by (auto simp: is_digit_def)
    then have f: "find_char 47 (host @ 58 # py_str port @ 47 # path) = Some (length (host @ 58 # py_str port))"
      using find_char_append(1) [of 47 "host @ 58 # py_str port" path] by simp
    have g: "find_char 47 (host @ 47 # path) = Some (length host)" "find_char 47 host = None" "find_char 58 host = None"
      "find_char 58 (host @ 58 # r) = Some (length host)" for r
      using h by (simp_all add: find_char_append)
    have i: "py_int (py_str port) = Inr port" using h(4) by (intro py_int_py_str) simp
    show "parse_ws_url (ustr ''ws://'' @ host @ [58] @ py_str port @ [47] @ path) = Inr (ustr ''ws'', host, port, 47 # path)
        \<and> parse_ws_url (ustr ''wss://'' @ host @ [58] @ py_str port @ [47] @ path) = Inr (ustr ''wss'', host, port, 47 # path)
        \<and> parse_ws_url (ustr ''ws://'' @ host) = Inr (ustr ''ws'', host, 80, [47])
        \<and> parse_ws_url (ustr ''wss://'' @ host @ [47] @ path) = Inr (ustr ''wss'', host, 443, 47 # path)"
      using h f g i by (simp add: parse_ws_url_def starts_with_def)
  qed
qed

theorem parse_ws_url_spec_witness:
  "parse_ws_url (ustr ''ws://'' @ ustr ''a'' @ [58] @ py_str 81 @ [47] @ []) = Inr (ustr ''ws'', ustr ''a'', 81, [47])"
proof -
  have "ustr ''a'' \<noteq> [] \<and> 58 \<notin> set (ustr ''a'') \<and> 47 \<notin> set (ustr ''a'') \<and> (1 :: int) \<le> 81 \<and> (81 :: int) \<le> 65535"
    by simp
  then show ?thesis using parse_ws_url_spec [of "[]"] by blast
qed

end
