(* ===== verification/Ws_Frame.thy ===== *)
theory Ws_Frame
  imports Chu_Prelude
begin

text \<open>
  The binary frames of \<^verbatim>\<open>libraries/websockets/src/chumicro_websockets/_wire.py\<close>: the frame
  encoder, the streaming \<open>FrameParser\<close> with its drain of over-long frames, close payloads
  and text validation. The parser is a record of the fields of the Python object. Its
  \<^verbatim>\<open>_payload\<close> is either an alias of the steady buffer or a larger array allocated for one
  frame; the alias is \<open>fp_big = None\<close>. A method that raises has already written fields, so
  \<open>feed\<close> returns the parser beside its result.
\<close>

section \<open>Constants\<close>

definition MAX_CONTROL_PAYLOAD_BYTES :: nat where "MAX_CONTROL_PAYLOAD_BYTES = 125"
definition DEFAULT_MAX_MESSAGE_BYTES :: nat where "DEFAULT_MAX_MESSAGE_BYTES = 16384"
definition DEFAULT_PAYLOAD_BUFFER_SIZE :: nat where "DEFAULT_PAYLOAD_BUFFER_SIZE = 256"
definition OPCODE_CONTINUATION :: nat where "OPCODE_CONTINUATION = 0x0"
definition OPCODE_TEXT :: nat where "OPCODE_TEXT = 0x1"
definition OPCODE_BINARY :: nat where "OPCODE_BINARY = 0x2"
definition OPCODE_CLOSE :: nat where "OPCODE_CLOSE = 0x8"
definition OPCODE_PING :: nat where "OPCODE_PING = 0x9"
definition OPCODE_PONG :: nat where "OPCODE_PONG = 0xA"
definition CLOSE_NO_STATUS_RCVD :: nat where "CLOSE_NO_STATUS_RCVD = 1005"
definition CLOSE_ABNORMAL :: nat where "CLOSE_ABNORMAL = 1006"
definition CLOSE_TLS_HANDSHAKE :: nat where "CLOSE_TLS_HANDSHAKE = 1015"

lemmas opcode_consts = OPCODE_CONTINUATION_def OPCODE_TEXT_def OPCODE_BINARY_def OPCODE_CLOSE_def
  OPCODE_PING_def OPCODE_PONG_def

definition DATA_OPCODES :: "nat list" where
  "DATA_OPCODES = [OPCODE_CONTINUATION, OPCODE_TEXT, OPCODE_BINARY]"

definition CONTROL_OPCODES :: "nat list" where
  "CONTROL_OPCODES = [OPCODE_CLOSE, OPCODE_PING, OPCODE_PONG]"

definition RESERVED_CLOSE_CODES :: "nat list" where
  "RESERVED_CLOSE_CODES = [CLOSE_NO_STATUS_RCVD, CLOSE_ABNORMAL, CLOSE_TLS_HANDSHAKE]"

section \<open>The parser\<close>

datatype FrameParseState = READING_HEADER | READING_LEN16 | READING_LEN64 | READING_MASK
  | READING_PAYLOAD | DRAINING_PAYLOAD | FRAME_READY | FRAME_ERROR

record FrameParser =
  fp_max_payload_bytes :: nat
  fp_state :: FrameParseState
  fp_header_scratch :: "byte list"
  fp_header_len :: nat
  fp_fin :: bool
  fp_rsv :: nat
  fp_opcode :: nat
  fp_had_mask :: bool
  fp_reported_length :: nat
  fp_mask_key :: "byte list"
  fp_payload_buffer :: "byte list"
  fp_payload_capacity :: nat
  fp_big :: "byte list option"
  fp_payload_write_offset :: nat
  fp_oversized :: bool
  fp_drain_remaining :: nat
  fp_error :: "string option"

definition FrameParser_init :: "nat \<Rightarrow> nat \<Rightarrow> FrameParser" where
  "FrameParser_init max_payload_bytes payload_buffer_size =
     \<lparr>fp_max_payload_bytes = max_payload_bytes, fp_state = READING_HEADER,
      fp_header_scratch = replicate 8 (B 0), fp_header_len = 0, fp_fin = False, fp_rsv = 0,
      fp_opcode = 0, fp_had_mask = False, fp_reported_length = 0, fp_mask_key = [],
      fp_payload_buffer = replicate payload_buffer_size (B 0),
      fp_payload_capacity = payload_buffer_size, fp_big = None, fp_payload_write_offset = 0,
      fp_oversized = False, fp_drain_remaining = 0, fp_error = None\<rparr>"

text \<open>The array \<^verbatim>\<open>_payload\<close> names, and a write to it.\<close>

definition fp_payload_array :: "FrameParser \<Rightarrow> byte list" where
  "fp_payload_array p = (case fp_big p of None \<Rightarrow> fp_payload_buffer p | Some b \<Rightarrow> b)"

definition fp_set_array :: "FrameParser \<Rightarrow> byte list \<Rightarrow> FrameParser" where
  "fp_set_array p bs = (case fp_big p of None \<Rightarrow> p\<lparr>fp_payload_buffer := bs\<rparr> | Some _ \<Rightarrow> p\<lparr>fp_big := Some bs\<rparr>)"

definition fp_payload :: "FrameParser \<Rightarrow> byte list" where
  "fp_payload p = take (fp_payload_write_offset p) (fp_payload_array p)"

definition fp_reset :: "FrameParser \<Rightarrow> FrameParser" where
  "fp_reset p = p\<lparr>fp_state := READING_HEADER, fp_header_len := 0, fp_fin := False, fp_rsv := 0,
     fp_opcode := 0, fp_had_mask := False, fp_reported_length := 0, fp_mask_key := [], fp_big := None,
     fp_payload_write_offset := 0, fp_oversized := False, fp_drain_remaining := 0\<rparr>"

definition fp_fail :: "FrameParser \<Rightarrow> string \<Rightarrow> FrameParser \<times> exn option" where
  "fp_fail p message = (p\<lparr>fp_error := Some message, fp_state := FRAME_ERROR\<rparr>, Some (WebSocketProtocolError message))"

definition after_mask :: "FrameParser \<Rightarrow> FrameParser" where
  "after_mask p =
     (if fp_oversized p then
        if fp_drain_remaining p = 0 then p\<lparr>fp_state := FRAME_READY\<rparr>
        else p\<lparr>fp_state := DRAINING_PAYLOAD\<rparr>
      else if fp_reported_length p = 0 then p\<lparr>fp_state := FRAME_READY\<rparr>
      else
        (if fp_reported_length p > fp_payload_capacity p
         then p\<lparr>fp_big := Some (replicate (fp_reported_length p) (B 0))\<rparr> else p)
        \<lparr>fp_payload_write_offset := 0, fp_state := READING_PAYLOAD\<rparr>)"

definition after_length :: "FrameParser \<Rightarrow> FrameParser \<times> exn option" where
  "after_length p =
     (if fp_opcode p \<in> set CONTROL_OPCODES \<and> fp_reported_length p > MAX_CONTROL_PAYLOAD_BYTES
      then fp_fail p ''control frame payload too long''
      else if fp_reported_length p > fp_max_payload_bytes p then
        let p1 = p\<lparr>fp_oversized := True, fp_drain_remaining := fp_reported_length p\<rparr> in
        if fp_had_mask p then (p1\<lparr>fp_state := READING_MASK\<rparr>, None) else (after_mask p1, None)
      else if fp_had_mask p then (p\<lparr>fp_state := READING_MASK\<rparr>, None)
      else (after_mask p, None))"

definition dispatch_header :: "FrameParser \<Rightarrow> FrameParser \<times> exn option" where
  "dispatch_header p =
     (let first_byte = unat (fp_header_scratch p ! 0); second_byte = unat (fp_header_scratch p ! 1);
          p1 = p\<lparr>fp_fin := (first_byte AND 0x80 \<noteq> 0), fp_rsv := drop_bit 4 first_byte AND 0x07,
            fp_opcode := first_byte AND 0x0F, fp_had_mask := (second_byte AND 0x80 \<noteq> 0)\<rparr>;
          length_marker = second_byte AND 0x7F in
      if fp_rsv p1 \<noteq> 0 then fp_fail p1 ''non-zero RSV bits''
      else if fp_opcode p1 \<in> set CONTROL_OPCODES \<and> \<not> fp_fin p1 then fp_fail p1 ''control frame must be FIN=1''
      else if fp_opcode p1 \<notin> set CONTROL_OPCODES \<and> fp_opcode p1 \<notin> set DATA_OPCODES
      then fp_fail p1 ''reserved opcode''
      else let p2 = p1\<lparr>fp_header_len := 0\<rparr> in
        if length_marker < 126 then after_length (p2\<lparr>fp_reported_length := length_marker\<rparr>)
        else if length_marker = 126 then (p2\<lparr>fp_state := READING_LEN16\<rparr>, None)
        else (p2\<lparr>fp_state := READING_LEN64\<rparr>, None))"

definition HEADER_FIELD_SIZES :: "FrameParseState \<Rightarrow> nat" where
  "HEADER_FIELD_SIZES s = (case s of READING_HEADER \<Rightarrow> 2 | READING_LEN16 \<Rightarrow> 2 | READING_LEN64 \<Rightarrow> 8
     | READING_MASK \<Rightarrow> 4 | _ \<Rightarrow> 0)"

text \<open>
  The unmasking loop \<^verbatim>\<open>payload[write_offset + index] = chunk[...] ^ mask_key[(write_offset + index) & 3]\<close>
  over the bytes left to take; an index out of range raises.
\<close>

fun unmask_loop :: "byte list \<Rightarrow> byte list \<Rightarrow> nat \<Rightarrow> byte list \<Rightarrow> byte list \<times> exn option" where
  "unmask_loop key payload i [] = (payload, None)"
| "unmask_loop key payload i (b # bs) =
     (if i AND 3 < length key \<and> i < length payload
      then unmask_loop key (payload[i := b XOR key ! (i AND 3)]) (i + 1) bs
      else (payload, Some IndexError))"

text \<open>\<^verbatim>\<open>xs[a:a + n] = ys\<close> on a bytearray, for \<^verbatim>\<open>n = len(ys)\<close>.\<close>

definition write_at :: "'a list \<Rightarrow> nat \<Rightarrow> 'a list \<Rightarrow> 'a list" where
  "write_at xs a ys = take a xs @ ys @ drop (a + length ys) xs"

definition take_payload :: "FrameParser \<Rightarrow> byte list \<Rightarrow> FrameParser \<times> exn option \<times> nat" where
  "take_payload p bs =
     (let write_offset = fp_payload_write_offset p;
          n = min (fp_reported_length p - write_offset) (length bs);
          (payload, e) = (if fp_had_mask p
             then unmask_loop (fp_mask_key p) (fp_payload_array p) write_offset (take n bs)
             else (write_at (fp_payload_array p) write_offset (take n bs), None));
          p1 = fp_set_array p payload in
      case e of
        Some x \<Rightarrow> (p1, Some x, n)
      | None \<Rightarrow>
          let p2 = p1\<lparr>fp_payload_write_offset := write_offset + n\<rparr> in
          (if write_offset + n \<ge> fp_reported_length p then p2\<lparr>fp_state := FRAME_READY\<rparr> else p2, None, n))"

definition take_drain :: "FrameParser \<Rightarrow> byte list \<Rightarrow> FrameParser \<times> exn option \<times> nat" where
  "take_drain p bs =
     (let n = min (fp_drain_remaining p) (length bs);
          p1 = p\<lparr>fp_drain_remaining := fp_drain_remaining p - n\<rparr> in
      (if fp_drain_remaining p1 = 0 then p1\<lparr>fp_state := FRAME_READY\<rparr> else p1, None, n))"

definition dispatch_field :: "FrameParser \<Rightarrow> FrameParser \<times> exn option" where
  "dispatch_field p =
     (case fp_state p of
        READING_HEADER \<Rightarrow> dispatch_header p
      | READING_LEN16 \<Rightarrow> after_length
          (p\<lparr>fp_reported_length := be_nat (take 2 (fp_header_scratch p)), fp_header_len := 0\<rparr>)
      | READING_LEN64 \<Rightarrow> after_length
          (p\<lparr>fp_reported_length := be_nat (fp_header_scratch p), fp_header_len := 0\<rparr>)
      | _ \<Rightarrow> (after_mask (p\<lparr>fp_mask_key := take 4 (fp_header_scratch p), fp_header_len := 0\<rparr>), None))"

definition take_field :: "FrameParser \<Rightarrow> byte list \<Rightarrow> FrameParser \<times> exn option \<times> nat" where
  "take_field p bs =
     (let field_size = HEADER_FIELD_SIZES (fp_state p); header_len = fp_header_len p;
          n = min (field_size - header_len) (length bs);
          p1 = p\<lparr>fp_header_scratch := write_at (fp_header_scratch p) header_len (take n bs),
            fp_header_len := header_len + n\<rparr> in
      if header_len + n < field_size then (p1, None, n)
      else let (p2, e) = dispatch_field p1 in (p2, e, n))"

text \<open>One turn of the \<^verbatim>\<open>while\<close> loop of \<open>feed\<close> on the bytes left: parser, exception, bytes taken.\<close>

definition feed_step :: "FrameParser \<Rightarrow> byte list \<Rightarrow> FrameParser \<times> exn option \<times> nat" where
  "feed_step p bs =
     (case fp_state p of
        READING_PAYLOAD \<Rightarrow> take_payload p bs
      | DRAINING_PAYLOAD \<Rightarrow> take_drain p bs
      | _ \<Rightarrow> take_field p bs)"

definition feed_done :: "FrameParser \<Rightarrow> bool" where
  "feed_done p \<longleftrightarrow> fp_state p = FRAME_READY \<or> fp_state p = FRAME_ERROR"

lemma after_mask_len [simp]: "fp_header_len (after_mask p) = fp_header_len p"
  by (simp add: after_mask_def)

lemma after_length_len:
  "after_length p = (p', None) \<Longrightarrow> fp_header_len p' = fp_header_len p"
  by (auto simp: after_length_def Let_def fp_fail_def split: if_splits)

lemma dispatch_field_len: "dispatch_field p = (p', None) \<Longrightarrow> fp_header_len p' = 0"
  by (auto simp: dispatch_field_def dispatch_header_def Let_def fp_fail_def after_length_len
      split: FrameParseState.splits if_splits dest!: after_length_len)

text \<open>Each turn takes a byte, or ends the frame, or empties the field cursor.\<close>

definition feed_rank :: "FrameParser \<Rightarrow> nat" where
  "feed_rank p = (if feed_done p then 0 else if fp_header_len p = 0 then 1 else 2)"

lemma feed_step_progress:
  assumes "bs \<noteq> []" "\<not> feed_done p" "feed_step p bs = (p', None, n)"
  shows "0 < n \<or> feed_rank p' < feed_rank p"
proof -
  have "0 < n \<or> feed_rank p' < feed_rank p" if "take_field p bs = (p', None, n)"
      "fp_state p \<in> {READING_HEADER, READING_LEN16, READING_LEN64, READING_MASK}"
  proof (cases "fp_header_len p < HEADER_FIELD_SIZES (fp_state p)")
    case True
    then show ?thesis using that(1) assms(1)
      by (auto simp: take_field_def Let_def split: if_splits prod.splits)
  next
    case False
    then have "fp_header_len p' = 0" "0 < fp_header_len p"
      using that by (auto simp: take_field_def Let_def HEADER_FIELD_SIZES_def
          split: if_splits prod.splits dest!: dispatch_field_len)
    then show ?thesis using assms(2) by (simp add: feed_rank_def)
  qed
  then show ?thesis
    using assms by (auto simp: feed_step_def take_payload_def take_drain_def Let_def feed_rank_def feed_done_def
        split: FrameParseState.splits if_splits prod.splits option.splits)
qed

function feed_loop :: "FrameParser \<Rightarrow> byte list \<Rightarrow> nat \<Rightarrow> FrameParser \<times> nat result" where
  "feed_loop p bs consumed =
     (if bs = [] \<or> feed_done p then (p, Inr consumed)
      else case feed_step p bs of
          (p', Some e, n) \<Rightarrow> (p', Inl e)
        | (p', None, n) \<Rightarrow> feed_loop p' (drop n bs) (consumed + n))"
  by pat_completeness auto
termination
  by (relation "measures [\<lambda>(p, bs, c). length bs, \<lambda>(p, bs, c). feed_rank p]")
     (auto dest!: feed_step_progress [OF _ _ sym, rotated 2])

declare feed_loop.simps [simp del]

definition feed :: "FrameParser \<Rightarrow> byte list \<Rightarrow> nat \<Rightarrow> FrameParser \<times> nat result" where
  "feed p chunk start = feed_loop p (drop start chunk) 0"

section \<open>Encoding\<close>

definition append_packed_be :: "nat \<Rightarrow> byte list \<Rightarrow> int \<Rightarrow> byte list result" where
  "append_packed_be width buffer v = rbind (pack_uint width v) (\<lambda>p. Inr (buffer @ p))"

text \<open>The in-place loop \<^verbatim>\<open>parts[payload_offset + index] ^= mask[index & 3]\<close> on the payload's bytes.\<close>

fun mask_bytes :: "byte list \<Rightarrow> nat \<Rightarrow> byte list \<Rightarrow> byte list" where
  "mask_bytes key i [] = []"
| "mask_bytes key i (b # bs) = (b XOR key ! (i AND 3)) # mask_bytes key (i + 1) bs"

definition encode_frame :: "nat \<Rightarrow> byte list \<Rightarrow> bool \<Rightarrow> byte list option \<Rightarrow> byte list result" where
  "encode_frame opcode payload fin mask_arg =
     (if opcode \<in> set CONTROL_OPCODES \<and> length payload > MAX_CONTROL_PAYLOAD_BYTES
      then Inl (WebSocketProtocolError ''control frame payload too long'')
      else if mask_arg \<noteq> None \<and> length (the mask_arg) \<noteq> 4
      then Inl (WebSocketProtocolError ''mask must be 4 bytes'')
      else
        let first_byte = (if fin then 0x80 else 0x00) OR (opcode AND 0x0F);
            payload_length = length payload;
            mask_bit = (if mask_arg \<noteq> None then 0x80 else 0x00) in
        rbind (if payload_length < 126 then Inr [B first_byte, B (mask_bit OR payload_length)]
               else if payload_length \<le> 0xFFFF
               then append_packed_be 2 [B first_byte, B (mask_bit OR 126)] (int payload_length)
               else append_packed_be 8 [B first_byte, B (mask_bit OR 127)] (int payload_length)) (\<lambda>parts.
        Inr (parts @ (case mask_arg of Some key \<Rightarrow> key @ mask_bytes key 0 payload | None \<Rightarrow> payload))))"

definition encode_close_payload :: "int option \<Rightarrow> pystr \<Rightarrow> byte list result" where
  "encode_close_payload code reason =
     (case code of
        None \<Rightarrow> if reason \<noteq> [] then Inl (WebSocketProtocolError ''cannot send a close reason without a code'')
          else Inr []
      | Some c \<Rightarrow>
          if c \<in> int ` set RESERVED_CLOSE_CODES then Inl (WebSocketProtocolError ''close code is reserved'')
          else rbind (utf8_encode reason) (\<lambda>encoded_reason.
            if 2 + length encoded_reason > MAX_CONTROL_PAYLOAD_BYTES
            then Inl (WebSocketProtocolError ''close payload too long'')
            else rbind (append_packed_be 2 [] c) (\<lambda>body. Inr (body @ encoded_reason))))"

definition parse_close_payload :: "byte list \<Rightarrow> (nat option \<times> pystr) result" where
  "parse_close_payload payload =
     (if payload = [] then Inr (None, [])
      else if length payload = 1
      then Inl (WebSocketProtocolError ''close payload of exactly 1 byte is forbidden'')
      else rbind (unpack_uint_from 2 payload 0) (\<lambda>code.
        if code \<in> set RESERVED_CLOSE_CODES then Inl (WebSocketProtocolError ''peer sent reserved close code'')
        else case utf8_decode (drop 2 payload) of
            Inl _ \<Rightarrow> Inl (WebSocketProtocolError ''close reason is not valid UTF-8'')
          | Inr reason \<Rightarrow> Inr (Some code, reason)))"

definition validate_text_payload :: "byte list \<Rightarrow> pystr result" where
  "validate_text_payload payload =
     (case utf8_decode payload of
        Inl _ \<Rightarrow> Inl (WebSocketProtocolError ''text payload is not valid UTF-8'')
      | Inr s \<Rightarrow> Inr s)"

section \<open>Masking and writing\<close>

lemma length_mask_bytes [simp]: "length (mask_bytes key i bs) = length bs"
  by (induction key i bs rule: mask_bytes.induct) auto

lemma mask_bytes_append: "mask_bytes key i (a @ b) = mask_bytes key i a @ mask_bytes key (i + length a) b"
  by (induction key i a rule: mask_bytes.induct) (auto simp: add.commute)

lemma mask_bytes_involutive [simp]: "mask_bytes key i (mask_bytes key i bs) = bs"
  by (induction key i bs rule: mask_bytes.induct) (auto simp: xor.assoc)

lemma length_write_at [simp]: "a + length ys \<le> length xs \<Longrightarrow> length (write_at xs a ys) = length xs"
  by (simp add: write_at_def)

lemma write_at_write_at:
  "a + length ys + length zs \<le> length xs \<Longrightarrow> write_at (write_at xs a ys) (a + length ys) zs = write_at xs a (ys @ zs)"
  by (simp add: write_at_def ac_simps)

lemma write_at_Nil [simp]: "write_at xs a [] = xs"
  by (simp add: write_at_def)

lemma take_write_at: "a \<le> length xs \<Longrightarrow> take (a + length ys) (write_at xs a ys) = take a xs @ ys"
  by (simp add: write_at_def)

lemma and_3_less: "(i :: nat) AND 3 < 4"
  by (simp add: mask_simps)

lemma unmask_loop_write_at:
  "length key = 4 \<Longrightarrow> i + length bs \<le> length payload \<Longrightarrow>
   unmask_loop key payload i bs = (write_at payload i (mask_bytes key i bs), None)"
proof (induction key payload i bs rule: unmask_loop.induct)
  case (2 key payload i b bs)
  have "payload[i := x] = write_at payload i [x]" for x
    using 2(3) by (simp add: write_at_def upd_conv_take_nth_drop)
  with 2 write_at_write_at [of i "[b XOR key ! (i AND 3)]" "mask_bytes key (i + 1) bs" payload] and_3_less [of i]
  show ?case by simp
qed simp

section \<open>Invariant\<close>

text \<open>The bytes the current turn still wants.\<close>

definition fp_need :: "FrameParser \<Rightarrow> nat" where
  "fp_need p = (case fp_state p of
     READING_PAYLOAD \<Rightarrow> fp_reported_length p - fp_payload_write_offset p
   | DRAINING_PAYLOAD \<Rightarrow> fp_drain_remaining p
   | s \<Rightarrow> HEADER_FIELD_SIZES s - fp_header_len p)"

definition fp_fresh :: "FrameParser \<Rightarrow> bool" where
  "fp_fresh p \<longleftrightarrow> fp_big p = None \<and> fp_payload_write_offset p = 0"

definition fp_inv :: "FrameParser \<Rightarrow> bool" where
  "fp_inv p \<longleftrightarrow> length (fp_header_scratch p) = 8 \<and> length (fp_payload_buffer p) = fp_payload_capacity p \<and>
     (case fp_state p of
        FRAME_ERROR \<Rightarrow> fp_fresh p
      | READING_PAYLOAD \<Rightarrow> fp_header_len p = 0 \<and> \<not> fp_oversized p \<and> fp_payload_write_offset p < fp_reported_length p
          \<and> fp_reported_length p \<le> length (fp_payload_array p) \<and> fp_reported_length p \<le> fp_max_payload_bytes p
          \<and> (fp_had_mask p \<longrightarrow> length (fp_mask_key p) = 4)
          \<and> (\<forall>b. fp_big p = Some b \<longrightarrow> length b = fp_reported_length p)
      | DRAINING_PAYLOAD \<Rightarrow> fp_header_len p = 0 \<and> fp_oversized p \<and> 0 < fp_drain_remaining p \<and> fp_fresh p
          \<and> fp_max_payload_bytes p < fp_reported_length p
      | FRAME_READY \<Rightarrow> fp_header_len p = 0 \<and>
          (if fp_oversized p then fp_fresh p \<and> fp_max_payload_bytes p < fp_reported_length p
           else fp_payload_write_offset p = fp_reported_length p \<and> fp_reported_length p \<le> length (fp_payload_array p)
             \<and> fp_reported_length p \<le> fp_max_payload_bytes p
             \<and> (\<forall>b. fp_big p = Some b \<longrightarrow> length b = fp_reported_length p))
      | READING_MASK \<Rightarrow> fp_header_len p < 4 \<and> fp_fresh p \<and> fp_had_mask p
          \<and> (if fp_oversized p then fp_drain_remaining p = fp_reported_length p \<and> fp_max_payload_bytes p < fp_reported_length p
             else fp_reported_length p \<le> fp_max_payload_bytes p)
      | s \<Rightarrow> fp_header_len p < HEADER_FIELD_SIZES s \<and> fp_fresh p \<and> \<not> fp_oversized p)"

lemma fp_inv_init [simp]: "fp_inv (FrameParser_init m n)"
  by (simp add: fp_inv_def FrameParser_init_def fp_fresh_def HEADER_FIELD_SIZES_def)

lemma fp_inv_reset: "fp_inv p \<Longrightarrow> fp_inv (fp_reset p)"
  by (simp add: fp_inv_def fp_reset_def fp_fresh_def HEADER_FIELD_SIZES_def)

lemma fp_need_pos: "fp_inv p \<Longrightarrow> \<not> feed_done p \<Longrightarrow> 0 < fp_need p"
  by (auto simp: fp_inv_def fp_need_def feed_done_def HEADER_FIELD_SIZES_def split: FrameParseState.splits)

lemmas fp_simps = fp_inv_def fp_fresh_def fp_payload_array_def HEADER_FIELD_SIZES_def

text \<open>What the dispatch steps need of a parser whose length field is complete.\<close>

definition fp_field :: "FrameParser \<Rightarrow> bool" where
  "fp_field p \<longleftrightarrow> length (fp_header_scratch p) = 8 \<and> length (fp_payload_buffer p) = fp_payload_capacity p \<and> fp_fresh p"

lemma after_mask_inv:
  assumes "fp_field p" "fp_header_len p = 0" "fp_had_mask p \<longrightarrow> length (fp_mask_key p) = 4"
    "if fp_oversized p then fp_drain_remaining p = fp_reported_length p \<and> fp_max_payload_bytes p < fp_reported_length p
     else fp_reported_length p \<le> fp_max_payload_bytes p"
  shows "fp_inv (after_mask p)"
  using assms by (auto simp: after_mask_def fp_field_def fp_simps split: if_splits)

lemma after_length_inv:
  assumes "fp_field p" "fp_header_len p = 0" "\<not> fp_oversized p" "after_length p = (p', e)"
  shows "fp_inv p' \<and> (e = None \<or> (\<exists>m. e = Some (WebSocketProtocolError m)) \<and> fp_state p' = FRAME_ERROR)"
proof -
  have "fp_inv (after_mask p)" if "\<not> fp_had_mask p" "fp_reported_length p \<le> fp_max_payload_bytes p"
    using assms that by (intro after_mask_inv) auto
  moreover have "fp_inv (after_mask (p\<lparr>fp_oversized := True, fp_drain_remaining := fp_reported_length p\<rparr>))"
    if "\<not> fp_had_mask p" "fp_max_payload_bytes p < fp_reported_length p"
    using assms that by (intro after_mask_inv) (auto simp: fp_field_def fp_fresh_def)
  ultimately show ?thesis using assms
    by (auto simp: after_length_def fp_fail_def fp_field_def Let_def fp_simps split: if_splits)
qed

lemma dispatch_field_inv:
  assumes "fp_field p" "\<not> fp_oversized p \<or> fp_state p = READING_MASK" "dispatch_field p = (p', e)"
    "fp_state p \<in> {READING_HEADER, READING_LEN16, READING_LEN64, READING_MASK}"
    "fp_state p = READING_MASK \<longrightarrow> (if fp_oversized p
       then fp_drain_remaining p = fp_reported_length p \<and> fp_max_payload_bytes p < fp_reported_length p
       else fp_reported_length p \<le> fp_max_payload_bytes p)"
  shows "fp_inv p' \<and> (e = None \<or> (\<exists>m. e = Some (WebSocketProtocolError m)) \<and> fp_state p' = FRAME_ERROR)"
proof (cases "fp_state p")
  case READING_HEADER
  then show ?thesis using assms
    by (auto simp: dispatch_field_def dispatch_header_def Let_def fp_fail_def fp_field_def fp_simps
        split: if_splits dest!: after_length_inv [rotated 3])
next
  case READING_MASK
  then show ?thesis using assms
    by (auto simp: dispatch_field_def fp_field_def fp_fresh_def intro!: after_mask_inv)
qed (use assms in \<open>auto simp: dispatch_field_def fp_field_def fp_fresh_def dest!: after_length_inv [rotated 3]\<close>)

lemma fp_set_array_sel [simp]:
  "fp_state (fp_set_array p bs) = fp_state p" "fp_header_len (fp_set_array p bs) = fp_header_len p"
  "fp_header_scratch (fp_set_array p bs) = fp_header_scratch p" "fp_payload_array (fp_set_array p bs) = bs"
  "fp_reported_length (fp_set_array p bs) = fp_reported_length p" "fp_had_mask (fp_set_array p bs) = fp_had_mask p"
  "fp_payload_capacity (fp_set_array p bs) = fp_payload_capacity p" "fp_mask_key (fp_set_array p bs) = fp_mask_key p"
  "fp_max_payload_bytes (fp_set_array p bs) = fp_max_payload_bytes p" "fp_oversized (fp_set_array p bs) = fp_oversized p"
  by (auto simp: fp_set_array_def fp_payload_array_def split: option.splits)

lemma set_array_twice:
  "(fp_set_array ((fp_set_array p y)\<lparr>fp_payload_write_offset := m\<rparr>) x)\<lparr>fp_payload_write_offset := n, fp_state := s\<rparr>
   = (fp_set_array p x)\<lparr>fp_payload_write_offset := n, fp_state := s\<rparr>"
  by (cases "fp_big p") (simp_all add: fp_set_array_def)

lemma payload_array_offset [simp]:
  "fp_payload_array (p\<lparr>fp_payload_write_offset := m\<rparr>) = fp_payload_array p"
  "fp_payload_array (p\<lparr>fp_state := s\<rparr>) = fp_payload_array p"
  by (cases "fp_big p"; simp add: fp_payload_array_def)+

text \<open>A payload turn writes the unmasked bytes in place; it cannot raise.\<close>

definition fp_unmasked :: "FrameParser \<Rightarrow> byte list \<Rightarrow> byte list" where
  "fp_unmasked p bs = (if fp_had_mask p then mask_bytes (fp_mask_key p) (fp_payload_write_offset p) bs else bs)"

lemma take_payload_eq:
  assumes "fp_inv p" "fp_state p = READING_PAYLOAD" "n = min (fp_need p) (length bs)"
  shows "take_payload p bs =
    ((fp_set_array p (write_at (fp_payload_array p) (fp_payload_write_offset p) (fp_unmasked p (take n bs))))
       \<lparr>fp_payload_write_offset := fp_payload_write_offset p + n,
        fp_state := (if n = fp_need p then FRAME_READY else READING_PAYLOAD)\<rparr>, None, n)"
proof -
  have "unmask_loop (fp_mask_key p) (fp_payload_array p) (fp_payload_write_offset p) (take n bs)
      = (write_at (fp_payload_array p) (fp_payload_write_offset p) (fp_unmasked p (take n bs)), None)" if "fp_had_mask p"
    using that assms by (subst unmask_loop_write_at) (auto simp: fp_inv_def fp_need_def fp_unmasked_def)
  then show ?thesis using assms
    by (auto simp: take_payload_def Let_def fp_need_def fp_unmasked_def fp_inv_def fp_set_array_def split: option.splits)
qed


section \<open>One turn\<close>

text \<open>A turn looks at no more than the bytes it needs, and takes all it can of them.\<close>

lemma min_take: "min k (length (take k bs)) = min k (length bs)" "take (min k (length bs)) (take k bs) = take (min k (length bs)) bs"
  by simp_all

lemma feed_step_take:
  assumes "fp_inv p" "\<not> feed_done p"
  shows "feed_step p bs = feed_step p (take (fp_need p) bs)"
proof -
  have "take_payload p bs = take_payload p (take (fp_reported_length p - fp_payload_write_offset p) bs)"
    unfolding take_payload_def Let_def min_take ..
  moreover have "take_drain p bs = take_drain p (take (fp_drain_remaining p) bs)"
    unfolding take_drain_def Let_def min_take ..
  moreover have "take_field p bs = take_field p (take (HEADER_FIELD_SIZES (fp_state p) - fp_header_len p) bs)"
    unfolding take_field_def Let_def min_take ..
  ultimately show ?thesis
    using assms(2) by (cases "fp_state p") (simp_all add: feed_step_def fp_need_def feed_done_def)
qed

lemma take_drain_eq:
  "fp_state p = DRAINING_PAYLOAD \<Longrightarrow> n = min (fp_need p) (length bs) \<Longrightarrow> take_drain p bs =
    (p\<lparr>fp_drain_remaining := fp_drain_remaining p - n,
       fp_state := (if n = fp_need p then FRAME_READY else DRAINING_PAYLOAD)\<rparr>, None, n)"
  by (auto simp: take_drain_def Let_def fp_need_def)

lemma take_field_eq:
  assumes "n = min (HEADER_FIELD_SIZES (fp_state p) - fp_header_len p) (length bs)"
    and "q = p\<lparr>fp_header_scratch := write_at (fp_header_scratch p) (fp_header_len p) (take n bs), fp_header_len := fp_header_len p + n\<rparr>"
  shows "take_field p bs = (if fp_header_len p + n < HEADER_FIELD_SIZES (fp_state p) then (q, None, n)
     else (case dispatch_field q of (p2, e) \<Rightarrow> (p2, e, n)))"
  unfolding assms(2) by (simp only: take_field_def Let_def assms(1) [symmetric])

lemma header_field_sizes: "HEADER_FIELD_SIZES s \<le> 8"
  by (simp add: HEADER_FIELD_SIZES_def split: FrameParseState.splits)

text \<open>A turn given fewer bytes than it needs stores them and waits.\<close>

lemma feed_step_short:
  assumes inv: "fp_inv p" "\<not> feed_done p" and short: "length a < fp_need p"
  obtains p1 where "feed_step p a = (p1, None, length a)" "fp_inv p1" "\<not> feed_done p1"
    "fp_need p1 = fp_need p - length a"
    "\<And>b. feed_step p (a @ b) = (case feed_step p1 b of (p2, e, n) \<Rightarrow> (p2, e, length a + n))"
proof (cases "fp_state p = READING_PAYLOAD \<or> fp_state p = DRAINING_PAYLOAD")
  case False
  then have st: "fp_state p \<in> {READING_HEADER, READING_LEN16, READING_LEN64, READING_MASK}"
    using inv(2) by (cases "fp_state p") (auto simp: feed_done_def)
  let ?h = "fp_header_len p" and ?f = "HEADER_FIELD_SIZES (fp_state p)"
  define p1 where "p1 = p\<lparr>fp_header_scratch := write_at (fp_header_scratch p) ?h a, fp_header_len := ?h + length a\<rparr>"
  have step: "feed_step q bs = take_field q bs" if "fp_state q = fp_state p" for q bs
    using that st by (auto simp: feed_step_def)
  have need: "fp_need p = ?f - ?h" "?h < ?f" using st inv(1) by (auto simp: fp_need_def fp_inv_def HEADER_FIELD_SIZES_def)
  have scr: "length (fp_header_scratch p) = 8" using inv(1) by (simp add: fp_inv_def)
  have hl: "?h + length a < ?f" using short need by linarith
  have "take_field p (a @ b) = (case take_field p1 b of (p2, e, n) \<Rightarrow> (p2, e, length a + n))" for b
  proof -
    define m where "m = min (?f - (?h + length a)) (length b)"
    define q where "q = p\<lparr>fp_header_scratch := write_at (fp_header_scratch p) ?h (a @ take m b), fp_header_len := ?h + (length a + m)\<rparr>"
    have lm: "length a + m = min (?f - ?h) (length (a @ b))" using short need by (auto simp: m_def)
    have wr: "write_at (write_at (fp_header_scratch p) ?h a) (?h + length a) (take m b) = write_at (fp_header_scratch p) ?h (a @ take m b)"
      using short need scr header_field_sizes [of "fp_state p"] by (intro write_at_write_at) (auto simp: m_def)
    have "take_field p (a @ b) = (if ?h + (length a + m) < ?f then (q, None, length a + m)
        else (case dispatch_field q of (p2, e) \<Rightarrow> (p2, e, length a + m)))"
      by (intro take_field_eq lm) (simp add: q_def)
    moreover have "take_field p1 b = (if ?h + length a + m < ?f then (q, None, m)
        else (case dispatch_field q of (p2, e) \<Rightarrow> (p2, e, m)))"
      using take_field_eq [of m p1 b q] wr by (simp add: p1_def q_def m_def [symmetric] add.assoc)
    ultimately show ?thesis by (auto simp: add.assoc split: prod.split)
  qed
  moreover have "take_field p a = (p1, None, length a)"
    using take_field_eq [of "length a" p a p1] hl short need by (simp add: p1_def)
  moreover have "fp_inv p1" "\<not> feed_done p1" "fp_need p1 = fp_need p - length a"
    using st inv(1) short need scr by (auto simp: p1_def fp_simps fp_need_def feed_done_def)
  ultimately show ?thesis using that [of p1] step by (simp add: p1_def)
next
  case True
  then show ?thesis
  proof
    assume st: "fp_state p = DRAINING_PAYLOAD"
    define p1 where "p1 = p\<lparr>fp_drain_remaining := fp_drain_remaining p - length a\<rparr>"
    have need: "fp_need p = fp_drain_remaining p" using st by (simp add: fp_need_def)
    have 1: "feed_step p a = (p1, None, length a)" "fp_inv p1" "\<not> feed_done p1" "fp_need p1 = fp_need p - length a"
      using st inv short need take_drain_eq [OF st refl, of a]
      by (auto simp: p1_def feed_step_def fp_simps fp_need_def feed_done_def)
    have "feed_step p (a @ b) = (case feed_step p1 b of (p2, e, n) \<Rightarrow> (p2, e, length a + n))" for b
      using st short need take_drain_eq [OF st refl, of "a @ b"] take_drain_eq [of p1 _ b, OF _ refl] 1(4)
      by (auto simp: feed_step_def p1_def min_def)
    with 1 that show ?thesis by blast
  next
    assume st: "fp_state p = READING_PAYLOAD"
    let ?off = "fp_payload_write_offset p" and ?arr = "fp_payload_array p"
    define p1 where "p1 = (fp_set_array p (write_at ?arr ?off (fp_unmasked p a)))
      \<lparr>fp_payload_write_offset := ?off + length a\<rparr>"
    have need: "fp_need p = fp_reported_length p - ?off" using st by (simp add: fp_need_def)
    have len: "length (fp_unmasked p bs) = length bs" for bs by (simp add: fp_unmasked_def)
    have len1: "length (fp_unmasked p1 bs) = length bs" for bs by (simp add: fp_unmasked_def)
    have p1: "fp_state p1 = READING_PAYLOAD" "fp_need p1 = fp_need p - length a" "\<not> feed_done p1"
      using st need by (simp_all add: p1_def fp_need_def feed_done_def)
    have inv1: "fp_inv p1"
      using inv(1) st short need len [of a]
      by (auto simp: p1_def fp_inv_def fp_set_array_def fp_payload_array_def split: option.splits)
    have 1: "feed_step p a = (p1, None, length a)"
      using st short take_payload_eq [OF inv(1) st refl, of a]
      by (simp add: feed_step_def p1_def fp_set_array_def split: option.splits)
    have "feed_step p (a @ b) = (case feed_step p1 b of (p2, e, n) \<Rightarrow> (p2, e, length a + n))" for b
    proof -
      define m where "m = min (fp_need p1) (length b)"
      have n: "min (fp_need p) (length (a @ b)) = length a + m" "length a + m = fp_need p \<longleftrightarrow> m = fp_need p1"
        using short p1(2) by (auto simp: m_def)
      have um: "fp_unmasked p (a @ take m b) = fp_unmasked p a @ fp_unmasked p1 (take m b)"
        by (simp add: fp_unmasked_def p1_def mask_bytes_append)
      have "write_at (write_at ?arr ?off (fp_unmasked p a)) (?off + length a) (fp_unmasked p1 (take m b))
          = write_at ?arr ?off (fp_unmasked p (a @ take m b))"
      proof -
        have "m \<le> fp_reported_length p - ?off - length a" using need p1(2) by (simp add: m_def)
        then have "?off + length a + m \<le> length ?arr" using inv(1) st short need by (auto simp: fp_inv_def)
        then show ?thesis
          using write_at_write_at [of ?off "fp_unmasked p a" "fp_unmasked p1 (take m b)" ?arr] len [of a]
          by (simp add: um len1)
      qed
      note wr = this
      let ?X = "write_at ?arr ?off (fp_unmasked p (a @ take m b))"
      let ?q = "(fp_set_array p ?X)\<lparr>fp_payload_write_offset := ?off + (length a + m),
        fp_state := (if m = fp_need p1 then FRAME_READY else READING_PAYLOAD)\<rparr>"
      have "take_payload p (a @ b) = (?q, None, length a + m)"
        using take_payload_eq [OF inv(1) st n(1) [symmetric]] by (simp add: n(2))
      moreover have "take_payload p1 b = (?q, None, m)"
        using take_payload_eq [OF inv1 p1(1) m_def] wr
        by (simp add: p1_def set_array_twice add.assoc)
      ultimately show ?thesis using st p1(1) by (simp add: feed_step_def)
    qed
    with 1 inv1 p1 that show ?thesis by blast
  qed
qed


lemma feed_step_inv:
  assumes inv: "fp_inv p" "\<not> feed_done p" and step: "feed_step p bs = (p', e, n)"
  shows "fp_inv p' \<and> n = min (fp_need p) (length bs)
    \<and> (e = None \<or> (\<exists>m. e = Some (WebSocketProtocolError m)) \<and> fp_state p' = FRAME_ERROR)"
proof (cases "length bs < fp_need p")
  case True
  with feed_step_short [OF inv True] step show ?thesis by (metis min.absorb4 prod.inject)
next
  case False
  show ?thesis
  proof (cases "fp_state p = READING_PAYLOAD \<or> fp_state p = DRAINING_PAYLOAD")
    case True
    then show ?thesis
    proof
      assume "fp_state p = READING_PAYLOAD"
      with step take_payload_eq [OF inv(1) _ refl, of bs] False inv show ?thesis
        by (auto simp: feed_step_def fp_inv_def fp_need_def fp_unmasked_def fp_set_array_def fp_payload_array_def
            split: option.splits)
    next
      assume "fp_state p = DRAINING_PAYLOAD"
      with step take_drain_eq [of p _ bs, OF _ refl] False inv show ?thesis
        by (auto simp: feed_step_def fp_simps fp_need_def)
    qed
  next
    case st: False
    let ?f = "HEADER_FIELD_SIZES (fp_state p)" and ?h = "fp_header_len p"
    define q where "q = p\<lparr>fp_header_scratch := write_at (fp_header_scratch p) ?h (take (?f - ?h) bs), fp_header_len := ?h + (?f - ?h)\<rparr>"
    have st': "fp_state p \<in> {READING_HEADER, READING_LEN16, READING_LEN64, READING_MASK}"
      using st inv(2) by (cases "fp_state p") (auto simp: feed_done_def)
    then have need: "fp_need p = ?f - ?h" "?h < ?f" using inv(1) by (auto simp: fp_need_def fp_inv_def HEADER_FIELD_SIZES_def)
    have "take_field p bs = (case dispatch_field q of (p2, e) \<Rightarrow> (p2, e, ?f - ?h))"
      using take_field_eq [of "?f - ?h" p bs q] need False by (simp add: q_def)
    moreover have "feed_step p bs = take_field p bs" using st' by (auto simp: feed_step_def)
    ultimately have d: "dispatch_field q = (p', e)" "n = ?f - ?h" using step by (auto split: prod.splits)
    have fits: "length (write_at (fp_header_scratch p) ?h (take (?f - ?h) bs)) = 8"
      using need False inv(1) header_field_sizes [of "fp_state p"] by (subst length_write_at) (auto simp: fp_inv_def)
    have "fp_inv p' \<and> (e = None \<or> (\<exists>m. e = Some (WebSocketProtocolError m)) \<and> fp_state p' = FRAME_ERROR)"
      using st' inv(1) fits by (intro dispatch_field_inv [OF _ _ d(1)]) (auto simp: q_def fp_field_def fp_inv_def fp_fresh_def)
    with d(2) need False show ?thesis by simp
  qed
qed

section \<open>Feeding\<close>

lemma feed_loop_inv:
  "fp_inv p \<Longrightarrow> feed_loop p bs c = (p', r) \<Longrightarrow> fp_inv p' \<and>
   (case r of Inl e \<Rightarrow> (\<exists>m. e = WebSocketProtocolError m) \<and> fp_state p' = FRAME_ERROR
    | Inr k \<Rightarrow> c \<le> k \<and> k \<le> c + length bs \<and> (k < c + length bs \<longrightarrow> feed_done p'))"
proof (induction p bs c rule: feed_loop.induct)
  case (1 p bs c)
  show ?case
  proof (cases "bs = [] \<or> feed_done p")
    case True
    with 1(2,3) show ?thesis by (auto simp: feed_loop.simps [of p])
  next
    case False
    obtain q e n where st: "feed_step p bs = (q, e, n)" by (cases "feed_step p bs") auto
    have i: "fp_inv q" "n = min (fp_need p) (length bs)"
      "e = None \<or> (\<exists>m. e = Some (WebSocketProtocolError m)) \<and> fp_state q = FRAME_ERROR"
      using feed_step_inv [OF 1(2) _ st] False by auto
    show ?thesis
    proof (cases e)
      case None
      with 1(3) False st have "feed_loop q (drop n bs) (c + n) = (p', r)" by (simp add: feed_loop.simps [of p])
      from 1(1) [OF False st [symmetric] refl, unfolded None, OF refl i(1) this] i(2) show ?thesis
        by (auto split: sum.splits)
    next
      case (Some x)
      with 1(3) False st i show ?thesis by (auto simp: feed_loop.simps [of p])
    qed
  qed
qed

lemma parser_memory: "fp_inv p \<Longrightarrow> length (fp_payload_array p) \<le> max (fp_payload_capacity p) (fp_max_payload_bytes p)"
  by (auto simp: fp_inv_def fp_payload_array_def fp_fresh_def split: FrameParseState.splits option.splits if_splits)

lemma feed_loop_append:
  "fp_inv p \<Longrightarrow> feed_loop p (a @ b) c =
     (case feed_loop p a c of
        (p1, Inl e) \<Rightarrow> (p1, Inl e)
      | (p1, Inr k) \<Rightarrow> if feed_done p1 then (p1, Inr k) else feed_loop p1 b k)"
proof (induction p a c rule: feed_loop.induct)
  case (1 p a c)
  show ?case
  proof (cases "a = [] \<or> feed_done p")
    case True
    then show ?thesis by (cases "feed_done p") (simp_all add: feed_loop.simps [of p "a @ b"] feed_loop.simps [of p a] feed_loop.simps [of p "[]"])
  next
    case False
    then have nd: "\<not> feed_done p" by simp
    show ?thesis
    proof (cases "fp_need p \<le> length a")
      case True
      obtain q e n where st: "feed_step p a = (q, e, n)" by (cases "feed_step p a") auto
      have n: "n = fp_need p" "fp_inv q" using feed_step_inv [OF 1(2) nd st] True by auto
      have "feed_step p (a @ b) = (q, e, n)"
        using feed_step_take [OF 1(2) nd, of "a @ b"] feed_step_take [OF 1(2) nd, of a] st True by simp
      moreover have "feed_loop q (drop n a @ b) (c + n) =
          (case feed_loop q (drop n a) (c + n) of
            (p1, Inl e) \<Rightarrow> (p1, Inl e)
          | (p1, Inr k) \<Rightarrow> if feed_done p1 then (p1, Inr k) else feed_loop p1 b k)" if "e = None"
        using 1(1) [OF False st [symmetric] refl, unfolded that, OF refl n(2)] .
      ultimately show ?thesis using st False n True
        by (cases e) (simp_all add: feed_loop.simps [of p "a @ b"] feed_loop.simps [of p a])
    next
      case short: False
      then have "length a < fp_need p" by simp
      then obtain p1 where p1: "feed_step p a = (p1, None, length a)" "\<not> feed_done p1"
        "\<And>b. feed_step p (a @ b) = (case feed_step p1 b of (p2, e, n) \<Rightarrow> (p2, e, length a + n))"
        by (elim feed_step_short [OF 1(2) nd]) blast
      have fa: "feed_loop p a c = (p1, Inr (c + length a))"
        using False p1(1) by (simp add: feed_loop.simps [of p] feed_loop.simps [of p1])
      show ?thesis
      proof (cases "b = []")
        case True
        with fa p1(2) show ?thesis by (simp add: feed_loop.simps [of p1])
      next
        case nb: False
        obtain p2 e n where "feed_step p1 b = (p2, e, n)" by (cases "feed_step p1 b") auto
        with p1 fa nb False show ?thesis
          by (cases e) (simp_all add: feed_loop.simps [of p "a @ b"] feed_loop.simps [of p1 b] add.assoc)
      qed
    qed
  qed
qed


section \<open>Reading back an encoded frame\<close>

lemma feed_loop_field:
  assumes "fp_inv p" "\<not> feed_done p" "length x = fp_need p" "feed_step p x = (q, None, n)"
  shows "feed_loop p (x @ rest) c = feed_loop q rest (c + length x)"
proof -
  have "x \<noteq> []" using fp_need_pos [OF assms(1,2)] assms(3) by auto
  moreover have "feed_step p (x @ rest) = (q, None, length x)"
    using feed_step_take [OF assms(1,2), of "x @ rest"] feed_step_inv [OF assms(1,2,4)] assms(3,4) by simp
  ultimately show ?thesis using assms(2) by (simp add: feed_loop.simps [of p])
qed

lemma feed_loop_ready [simp]: "fp_state p = FRAME_READY \<Longrightarrow> feed_loop p bs c = (p, Inr c)"
  by (simp add: feed_loop.simps feed_done_def)

text \<open>What the parser knows of the frame once its header is read, and what it reports at the end.\<close>

definition same_frame :: "FrameParser \<Rightarrow> FrameParser \<Rightarrow> bool" where
  "same_frame p q \<longleftrightarrow> fp_fin q = fp_fin p \<and> fp_opcode q = fp_opcode p \<and> fp_had_mask q = fp_had_mask p
     \<and> fp_reported_length q = fp_reported_length p \<and> fp_max_payload_bytes q = fp_max_payload_bytes p"

definition frame_done :: "FrameParser \<Rightarrow> byte list \<Rightarrow> FrameParser \<Rightarrow> bool" where
  "frame_done p payload q \<longleftrightarrow> fp_inv q \<and> fp_state q = FRAME_READY \<and> same_frame p q
     \<and> fp_oversized q = (fp_max_payload_bytes p < length payload)
     \<and> (length payload \<le> fp_max_payload_bytes p \<longrightarrow> fp_payload q = payload)"

lemma feed_payload:
  assumes p: "fp_inv p" "fp_state p = READING_PAYLOAD" "fp_payload_write_offset p = 0"
    and len: "fp_reported_length p = length payload"
    and wire: "wire = (if fp_had_mask p then mask_bytes (fp_mask_key p) 0 payload else payload)"
  shows "\<exists>q. feed_loop p (wire @ rest) c = (q, Inr (c + length payload)) \<and> frame_done p payload q"
proof -
  have need: "fp_need p = length wire" "length wire = length payload" using p len wire by (auto simp: fp_need_def)
  have nd: "\<not> feed_done p" using p by (simp add: feed_done_def)
  define q where "q = (fp_set_array p (write_at (fp_payload_array p) 0 payload))
    \<lparr>fp_payload_write_offset := length payload, fp_state := FRAME_READY\<rparr>"
  have "fp_unmasked p wire = payload" using p(3) wire by (auto simp: fp_unmasked_def)
  then have st: "feed_step p wire = (q, None, length wire)"
    using take_payload_eq [OF p(1,2) refl, of wire] need p(2,3) by (simp add: feed_step_def q_def)
  from feed_loop_field [OF p(1) nd _ st] need
  have "feed_loop p (wire @ rest) c = (q, Inr (c + length payload))" by (simp add: q_def)
  moreover have "fp_inv q" using feed_step_inv [OF p(1) nd st] by simp
  moreover have "fp_payload q = payload"
    using take_write_at [of 0 "fp_payload_array p" payload] by (simp add: q_def fp_payload_def)
  ultimately show ?thesis using p len
    by (intro exI [of _ q]) (simp add: frame_done_def same_frame_def q_def fp_inv_def [of p] fp_set_array_def split: option.splits)
qed


lemma feed_drain:
  assumes p: "fp_inv p" "fp_state p = DRAINING_PAYLOAD" and len: "fp_drain_remaining p = length payload"
    "fp_reported_length p = length payload" "length wire = length payload"
  shows "\<exists>q. feed_loop p (wire @ rest) c = (q, Inr (c + length payload)) \<and> frame_done p payload q"
proof -
  have need: "fp_need p = length wire" using p len by (simp add: fp_need_def)
  have nd: "\<not> feed_done p" using p by (simp add: feed_done_def)
  define q where "q = p\<lparr>fp_drain_remaining := 0, fp_state := FRAME_READY\<rparr>"
  have st: "feed_step p wire = (q, None, length wire)"
    using take_drain_eq [OF p(2) refl, of wire] need p(2) len by (simp add: feed_step_def q_def)
  from feed_loop_field [OF p(1) nd _ st] need len
  have "feed_loop p (wire @ rest) c = (q, Inr (c + length payload))" by (simp add: q_def)
  moreover have "fp_inv q" using feed_step_inv [OF p(1) nd st] by simp
  ultimately show ?thesis using p len
    by (intro exI [of _ q]) (simp add: frame_done_def same_frame_def q_def fp_inv_def [of p])
qed

text \<open>From the end of the length and mask fields to the end of the frame.\<close>

lemma feed_after_mask:
  assumes p: "fp_field p" "fp_header_len p = 0" "fp_had_mask p \<longrightarrow> length (fp_mask_key p) = 4"
    and len: "fp_reported_length p = length payload"
    and over: "fp_oversized p = (fp_max_payload_bytes p < length payload)" "fp_oversized p \<longrightarrow> fp_drain_remaining p = length payload"
    and wire: "wire = (if fp_had_mask p then mask_bytes (fp_mask_key p) 0 payload else payload)"
  shows "\<exists>q. feed_loop (after_mask p) (wire @ rest) c = (q, Inr (c + length payload)) \<and> frame_done p payload q"
proof -
  have inv: "fp_inv (after_mask p)" using p len over by (intro after_mask_inv) auto
  have wl: "length wire = length payload" using wire by simp
  consider "fp_oversized p" | "\<not> fp_oversized p" "payload = []" | "\<not> fp_oversized p" "payload \<noteq> []" by blast
  then show ?thesis
  proof cases
    case 1
    then have "after_mask p = p\<lparr>fp_state := DRAINING_PAYLOAD\<rparr>" using over by (auto simp: after_mask_def)
    with inv feed_drain [of "after_mask p" payload wire rest c] 1 over len wl show ?thesis
      by (auto simp: frame_done_def same_frame_def)
  next
    case 2
    then have "after_mask p = p\<lparr>fp_state := FRAME_READY\<rparr>" using len by (simp add: after_mask_def)
    with inv 2 over wl p(1) len show ?thesis
      by (auto simp: frame_done_def same_frame_def fp_payload_def fp_field_def fp_fresh_def)
  next
    case 3
    then have "fp_state (after_mask p) = READING_PAYLOAD" "fp_payload_write_offset (after_mask p) = 0"
      "same_frame p (after_mask p)" "fp_mask_key (after_mask p) = fp_mask_key p"
      using len by (auto simp: after_mask_def same_frame_def)
    with inv feed_payload [of "after_mask p" payload wire rest c] 3 over len wire show ?thesis
      by (auto simp: frame_done_def same_frame_def)
  qed
qed

lemma feed_after_length:
  assumes p: "fp_field p" "fp_header_len p = 0" "\<not> fp_oversized p"
    and len: "fp_reported_length p = length payload" "fp_opcode p \<in> set CONTROL_OPCODES \<longrightarrow> length payload \<le> 125"
    and key: "fp_had_mask p = (key \<noteq> None)" "\<And>k. key = Some k \<Longrightarrow> length k = 4"
    and wire: "wire = (case key of Some k \<Rightarrow> k @ mask_bytes k 0 payload | None \<Rightarrow> payload)"
    and q: "after_length p = (q, e)"
  shows "e = None \<and> (\<exists>r. feed_loop q (wire @ rest) c = (r, Inr (c + length wire)) \<and> frame_done p payload r)"
proof -
  define p1 where "p1 = (if fp_max_payload_bytes p < length payload
    then p\<lparr>fp_oversized := True, fp_drain_remaining := length payload\<rparr> else p)"
  have p1: "fp_field p1" "fp_header_len p1 = 0" "fp_reported_length p1 = length payload"
    "fp_oversized p1 = (fp_max_payload_bytes p1 < length payload)" "fp_oversized p1 \<longrightarrow> fp_drain_remaining p1 = length payload"
    "fp_had_mask p1 = fp_had_mask p" "fp_max_payload_bytes p1 = fp_max_payload_bytes p"
    using p len by (auto simp: p1_def fp_field_def fp_fresh_def)
  have fin: "frame_done p payload r" if "frame_done p2 payload r" "same_frame p1 p2" for p2 r
    using that p1 by (auto simp: frame_done_def same_frame_def p1_def split: if_splits)
  have al: "after_length p = (if fp_had_mask p then p1\<lparr>fp_state := READING_MASK\<rparr> else after_mask p1, None)"
    using len by (auto simp: after_length_def p1_def Let_def MAX_CONTROL_PAYLOAD_BYTES_def)
  show ?thesis
  proof (cases key)
    case None
    with al q key have "q = after_mask p1" "e = None" by auto
    with feed_after_mask [OF p1(1,2) _ p1(3,4,5), of wire rest c] None key p1(6) wire show ?thesis
      using fin [of p1] by (auto simp: same_frame_def)
  next
    case (Some k)
    with al q key have qe: "q = p1\<lparr>fp_state := READING_MASK\<rparr>" "e = None" by auto
    have k: "length k = 4" "fp_had_mask p1" using key Some p1(6) by auto
    have inv: "fp_inv q" using p1 k qe by (auto simp: fp_inv_def fp_field_def fp_fresh_def HEADER_FIELD_SIZES_def)
    have nd: "\<not> feed_done q" "fp_need q = 4" using qe p1(2) by (auto simp: feed_done_def fp_need_def HEADER_FIELD_SIZES_def)
    define p2 where "p2 = p1\<lparr>fp_state := READING_MASK, fp_header_scratch := write_at (fp_header_scratch p1) 0 k, fp_mask_key := k, fp_header_len := 0\<rparr>"
    have "take 4 (write_at (fp_header_scratch p1) 0 k) = k" using take_write_at [of 0 "fp_header_scratch p1" k] k by simp
    then have st: "feed_step q k = (after_mask p2, None, 4)"
      using take_field_eq [of 4 q k, OF _ refl] qe k p1(2)
      by (simp add: feed_step_def HEADER_FIELD_SIZES_def dispatch_field_def p2_def)
    have f2: "fp_field p2" "fp_header_len p2 = 0" "fp_mask_key p2 = k" "fp_had_mask p2" "same_frame p1 p2"
      "fp_reported_length p2 = length payload" "fp_oversized p2 = (fp_max_payload_bytes p2 < length payload)"
      "fp_oversized p2 \<longrightarrow> fp_drain_remaining p2 = length payload"
      using p1 k by (auto simp: p2_def fp_field_def fp_fresh_def same_frame_def)
    have "feed_loop q (wire @ rest) c = feed_loop (after_mask p2) (mask_bytes k 0 payload @ rest) (c + 4)"
      using feed_loop_field [OF inv nd(1) _ st, of "mask_bytes k 0 payload @ rest" c] nd k wire Some by simp
    with feed_after_mask [OF f2(1,2) _ f2(6,7,8), of "mask_bytes k 0 payload" rest "c + 4"] f2 k wire Some fin [of p2] qe
    show ?thesis by (auto simp: add.assoc)
  qed
qed


definition valid_opcode :: "nat \<Rightarrow> bool" where
  "valid_opcode op \<longleftrightarrow> op \<in> set DATA_OPCODES \<or> op \<in> set CONTROL_OPCODES"

lemma first_byte_bits:
  assumes "valid_opcode op" and "fb = (if fin then 0x80 else 0x00) OR (op AND 0x0F)"
  shows "unat (B fb) AND 0x80 \<noteq> 0 \<longleftrightarrow> fin" "drop_bit 4 (unat (B fb)) AND 0x07 = 0" "unat (B fb) AND 0x0F = op"
proof -
  have "op \<in> {0, 1, 2, 8, 9, 10}"
    using assms(1) by (auto simp: valid_opcode_def DATA_OPCODES_def CONTROL_OPCODES_def opcode_consts)
  then show "unat (B fb) AND 0x80 \<noteq> 0 \<longleftrightarrow> fin" "drop_bit 4 (unat (B fb)) AND 0x07 = 0" "unat (B fb) AND 0x0F = op"
    using assms(2) by (cases fin; auto simp: drop_bit_eq_div)+
qed

lemma second_byte_bits:
  assumes "l < 128" and "sb = (if m then 0x80 else 0x00) OR l"
  shows "unat (B sb) AND 0x80 \<noteq> 0 \<longleftrightarrow> m" "unat (B sb) AND 0x7F = l"
proof -
  have sb: "sb = (if m then 128 + l else l)" using assms by (simp add: mask_simps)
  show "unat (B sb) AND 0x80 \<noteq> 0 \<longleftrightarrow> m" "unat (B sb) AND 0x7F = l"
    using assms(1) by (auto simp: sb and_128_eq_0 mask_simps)
qed

lemma feed_header:
  assumes p: "fp_inv p" "fp_state p = READING_HEADER" "fp_header_len p = 0"
    and op: "valid_opcode op" "op \<in> set CONTROL_OPCODES \<longrightarrow> fin" and l: "l < 128"
    and b: "b0 = B ((if fin then 0x80 else 0x00) OR (op AND 0x0F))" "b1 = B ((if m then 0x80 else 0x00) OR l)"
    and p2: "p2 = p\<lparr>fp_header_scratch := write_at (fp_header_scratch p) 0 [b0, b1],
      fp_fin := fin, fp_rsv := 0, fp_opcode := op, fp_had_mask := m, fp_header_len := 0\<rparr>"
  shows "feed_step p [b0, b1] = (case (if l < 126 then after_length (p2\<lparr>fp_reported_length := l\<rparr>)
      else if l = 126 then (p2\<lparr>fp_state := READING_LEN16\<rparr>, None) else (p2\<lparr>fp_state := READING_LEN64\<rparr>, None))
    of (q, e) \<Rightarrow> (q, e, 2))"
proof -
  let ?q = "p\<lparr>fp_header_scratch := write_at (fp_header_scratch p) 0 [b0, b1], fp_header_len := 2\<rparr>"
  have c: "(op \<in> set CONTROL_OPCODES \<and> \<not> fin) = False" "(op \<notin> set CONTROL_OPCODES \<and> op \<notin> set DATA_OPCODES) = False"
    using op by (auto simp: valid_opcode_def)
  have f: "unat b0 AND 0x80 \<noteq> 0 \<longleftrightarrow> fin" "drop_bit 4 (unat b0) AND 0x07 = 0" "unat b0 AND 0x0F = op"
    unfolding b(1) by (rule first_byte_bits [OF op(1) refl])+
  have d: "(op \<in> set CONTROL_OPCODES \<and> unat b0 AND 0x80 = 0) = False" using op(2) f(1) by blast
  have g: "unat b1 AND 0x80 \<noteq> 0 \<longleftrightarrow> m" "unat b1 AND 0x7F = l"
    unfolding b(2) by (rule second_byte_bits [OF l refl])+
  have scr: "write_at (fp_header_scratch p) 0 [b0, b1] ! 0 = b0" "write_at (fp_header_scratch p) 0 [b0, b1] ! 1 = b1"
    by (simp_all add: write_at_def)
  have "feed_step p [b0, b1] = (case dispatch_header ?q of (q, e) \<Rightarrow> (q, e, 2))"
    using take_field_eq [of 2 p "[b0, b1]" ?q] p by (simp add: feed_step_def HEADER_FIELD_SIZES_def dispatch_field_def)
  moreover have "dispatch_header ?q = (if l < 126 then after_length (p2\<lparr>fp_reported_length := l\<rparr>)
      else if l = 126 then (p2\<lparr>fp_state := READING_LEN16\<rparr>, None) else (p2\<lparr>fp_state := READING_LEN64\<rparr>, None))"
    using f g scr c d by (simp add: dispatch_header_def Let_def p2 del: byte_and_128 de_Morgan_conj cong: if_cong)
  ultimately show ?thesis by simp
qed


text \<open>A 16- or 64-bit length field.\<close>

lemma feed_length_field:
  assumes p: "fp_inv p" "fp_state p = (if w = 2 then READING_LEN16 else READING_LEN64)" "fp_header_len p = 0"
    and w: "w = 2 \<or> w = 8" and n: "n < 256 ^ w"
    and p2: "p2 = p\<lparr>fp_header_scratch := write_at (fp_header_scratch p) 0 (be_bytes w n), fp_reported_length := n, fp_header_len := 0\<rparr>"
  shows "feed_step p (be_bytes w n) = (case after_length p2 of (q, e) \<Rightarrow> (q, e, w))"
proof -
  let ?q = "p\<lparr>fp_header_scratch := write_at (fp_header_scratch p) 0 (be_bytes w n), fp_header_len := w\<rparr>"
  have f: "HEADER_FIELD_SIZES (fp_state p) = w" using p(2) w by (auto simp: HEADER_FIELD_SIZES_def)
  have 8: "length (fp_header_scratch p) = 8" using p(1) by (simp add: fp_inv_def)
  have "take w (write_at (fp_header_scratch p) 0 (be_bytes w n)) = be_bytes w n"
    using take_write_at [of 0 "fp_header_scratch p" "be_bytes w n"] by simp
  then have v: "be_nat (take w (write_at (fp_header_scratch p) 0 (be_bytes w n))) = n"
    using n by (simp add: be_nat_be_bytes)
  have "w = 8 \<Longrightarrow> write_at (fp_header_scratch p) 0 (be_bytes w n) = take w (write_at (fp_header_scratch p) 0 (be_bytes w n))"
    using 8 by (simp add: write_at_def)
  then have "dispatch_field ?q = after_length p2"
    using p(2) w v by (auto simp: dispatch_field_def p2)
  then show ?thesis
    using take_field_eq [of w p "be_bytes w n" ?q] p w f by (auto simp: feed_step_def)
qed

lemma encode_frameD:
  assumes "encode_frame op payload fin key = Inr bs"
  obtains l ext where "bs = [B ((if fin then 0x80 else 0x00) OR (op AND 0x0F)), B ((if key \<noteq> None then 0x80 else 0x00) OR l)]
      @ ext @ (case key of Some k \<Rightarrow> k @ mask_bytes k 0 payload | None \<Rightarrow> payload)"
    "l < 126 \<and> ext = [] \<and> l = length payload \<or> l = 126 \<and> ext = be_bytes 2 (length payload) \<and> length payload < 256 ^ 2
      \<or> l = 127 \<and> ext = be_bytes 8 (length payload) \<and> length payload < 256 ^ 8"
    "op \<in> set CONTROL_OPCODES \<longrightarrow> length payload \<le> 125" "\<forall>k. key = Some k \<longrightarrow> length k = 4"
proof -
  define tail where "tail = (case key of Some k \<Rightarrow> k @ mask_bytes k 0 payload | None \<Rightarrow> payload)"
  have "op \<in> set CONTROL_OPCODES \<longrightarrow> length payload \<le> 125" "\<forall>k. key = Some k \<longrightarrow> length k = 4"
    using assms by (auto simp: encode_frame_def MAX_CONTROL_PAYLOAD_BYTES_def split: if_splits)
  moreover obtain parts where "bs = parts @ tail" and parts:
    "(if length payload < 126 then Inr [B ((if fin then 0x80 else 0x00) OR (op AND 0x0F)), B ((if key \<noteq> None then 0x80 else 0x00) OR length payload)]
      else if length payload \<le> 0xFFFF
      then append_packed_be 2 [B ((if fin then 0x80 else 0x00) OR (op AND 0x0F)), B ((if key \<noteq> None then 0x80 else 0x00) OR 126)] (int (length payload))
      else append_packed_be 8 [B ((if fin then 0x80 else 0x00) OR (op AND 0x0F)), B ((if key \<noteq> None then 0x80 else 0x00) OR 127)] (int (length payload)))
      = Inr parts"
    using assms unfolding encode_frame_def Let_def tail_def [symmetric] by (auto simp: result_simps split: if_splits)
  ultimately show ?thesis
    using that [of "length payload" "[]"] that [of 126 "be_bytes 2 (length payload)"] that [of 127 "be_bytes 8 (length payload)"]
    unfolding tail_def [symmetric]
    by (auto simp: append_packed_be_def pack_uint_def result_simps split: if_splits)
qed


definition frame_result :: "FrameParser \<Rightarrow> nat \<Rightarrow> byte list \<Rightarrow> bool \<Rightarrow> bool \<Rightarrow> FrameParser \<Rightarrow> bool" where
  "frame_result p op payload fin masked q \<longleftrightarrow> fp_state q = FRAME_READY \<and> fp_opcode q = op \<and> fp_fin q = fin
     \<and> fp_had_mask q = masked \<and> fp_reported_length q = length payload
     \<and> (if length payload \<le> fp_max_payload_bytes p then \<not> fp_oversized q \<and> fp_payload q = payload else fp_oversized q)"

lemma frame_doneD:
  "frame_done p payload q \<Longrightarrow> fp_reported_length p = length payload \<Longrightarrow> fp_max_payload_bytes p = fp_max_payload_bytes p0 \<Longrightarrow>
   frame_result p0 (fp_opcode p) payload (fp_fin p) (fp_had_mask p) q"
  by (auto simp: frame_done_def frame_result_def same_frame_def)

lemma frame_feed:
  assumes p: "fp_inv p" "fp_state p = READING_HEADER" "fp_header_len p = 0"
    and op: "valid_opcode op" "op \<in> set CONTROL_OPCODES \<longrightarrow> fin"
    and enc: "encode_frame op payload fin key = Inr bs"
  shows "\<exists>q. feed_loop p (bs @ rest) c = (q, Inr (c + length bs)) \<and> fp_inv q \<and> frame_result p op payload fin (key \<noteq> None) q"
proof -
  obtain l ext where bs: "bs = [B ((if fin then 0x80 else 0x00) OR (op AND 0x0F)), B ((if key \<noteq> None then 0x80 else 0x00) OR l)]
      @ ext @ (case key of Some k \<Rightarrow> k @ mask_bytes k 0 payload | None \<Rightarrow> payload)"
    and l: "l < 126 \<and> ext = [] \<and> l = length payload \<or> l = 126 \<and> ext = be_bytes 2 (length payload) \<and> length payload < 256 ^ 2
      \<or> l = 127 \<and> ext = be_bytes 8 (length payload) \<and> length payload < 256 ^ 8"
    and len: "op \<in> set CONTROL_OPCODES \<longrightarrow> length payload \<le> 125" "\<forall>k. key = Some k \<longrightarrow> length k = 4"
    by (rule encode_frameD [OF enc])
  define b0 b1 where "b0 = B ((if fin then 0x80 else 0x00) OR (op AND 0x0F))" and "b1 = B ((if key \<noteq> None then 0x80 else 0x00) OR l)"
  define tail where "tail = (case key of Some k \<Rightarrow> k @ mask_bytes k 0 payload | None \<Rightarrow> payload)"
  define p2 where "p2 = p\<lparr>fp_header_scratch := write_at (fp_header_scratch p) 0 [b0, b1],
      fp_fin := fin, fp_rsv := 0, fp_opcode := op, fp_had_mask := (key \<noteq> None), fp_header_len := 0\<rparr>"
  note bs = bs [folded b0_def b1_def tail_def]
  have "l < 128" using l by auto
  note hdr = feed_header [OF p op this b0_def b1_def p2_def]
  have nd: "\<not> feed_done p" "length [b0, b1] = fp_need p" using p by (simp_all add: feed_done_def fp_need_def HEADER_FIELD_SIZES_def)
  have 8: "length (fp_header_scratch p) = 8" "length (fp_payload_buffer p) = fp_payload_capacity p" "fp_fresh p" "\<not> fp_oversized p"
    using p by (auto simp: fp_inv_def)
  have tail: "\<exists>q. feed_loop p3 (tail @ rest) k = (q, Inr (k + length tail)) \<and> fp_inv q \<and> frame_result p op payload fin (key \<noteq> None) q"
    and none: "e = None" if "after_length pl = (p3, e)"
    and "fp_field pl" "fp_header_len pl = 0" "\<not> fp_oversized pl" "fp_reported_length pl = length payload"
      "fp_opcode pl = op" "fp_fin pl = fin" "fp_had_mask pl = (key \<noteq> None)" "fp_max_payload_bytes pl = fp_max_payload_bytes p"
    for pl p3 e k
    using feed_after_length [OF that(2,3,4,5) _ that(8) len(2) [rule_format] tail_def that(1), of rest k] that len(1)
      frame_doneD [of pl payload _ p] by (auto simp: frame_done_def)
  show ?thesis
  proof (cases "l < 126")
    case True
    with l have l': "l = length payload" "ext = []" by auto
    obtain p3 e where al: "after_length (p2\<lparr>fp_reported_length := l\<rparr>) = (p3, e)" by fastforce
    have f: "fp_field (p2\<lparr>fp_reported_length := l\<rparr>)" using 8 by (simp add: fp_field_def p2_def fp_fresh_def)
    have "e = None" using none [OF al f] l' 8 by (simp add: p2_def)
    then have st: "feed_step p [b0, b1] = (p3, None, 2)" using hdr True al by simp
    from feed_loop_field [OF p(1) nd st, of "tail @ rest" c] tail [OF al f, of "c + 2"] l' 8 bs show ?thesis
      by (simp add: p2_def)
  next
    case False
    define w where "w = (if l = 126 then 2 else 8 :: nat)"
    define p3 where "p3 = p2\<lparr>fp_state := (if w = 2 then READING_LEN16 else READING_LEN64)\<rparr>"
    have l': "ext = be_bytes w (length payload)" "length payload < 256 ^ w" "w = 2 \<or> w = 8" using l False by (auto simp: w_def)
    have st: "feed_step p [b0, b1] = (p3, None, 2)" using hdr False l by (auto simp: w_def p3_def)
    have inv3: "fp_inv p3" using feed_step_inv [OF p(1) nd(1) st] by simp
    define p4 where "p4 = p3\<lparr>fp_header_scratch := write_at (fp_header_scratch p3) 0 ext, fp_reported_length := length payload, fp_header_len := 0\<rparr>"
    obtain p5 e where al: "after_length p4 = (p5, e)" by fastforce
    have p3s: "fp_state p3 = (if w = 2 then READING_LEN16 else READING_LEN64)" "fp_header_len p3 = 0"
      by (simp_all add: p3_def p2_def)
    have len3: "length (fp_header_scratch p3) = 8" using inv3 by (simp add: fp_inv_def)
    have f: "fp_field p4" using 8 len3 l' by (auto simp: fp_field_def p4_def p3_def p2_def fp_fresh_def)
    have "e = None" using none [OF al f] 8 by (simp add: p4_def p3_def p2_def)
    then have st2: "feed_step p3 ext = (p5, None, w)"
      using feed_length_field [OF inv3 p3s l'(3,2) p4_def [unfolded l'(1)]] al l'(1) by simp
    have nd3: "\<not> feed_done p3" "length ext = fp_need p3"
      using p3s l' by (auto simp: feed_done_def fp_need_def HEADER_FIELD_SIZES_def)
    from feed_loop_field [OF p(1) nd st, of "ext @ tail @ rest" c] feed_loop_field [OF inv3 nd3 st2, of "tail @ rest" "c + 2"]
      tail [OF al f, of "c + 2 + w"] 8 bs l'(1)
    show ?thesis by (simp add: p4_def p3_def p2_def add.assoc)
  qed
qed


lemma feed_loop_count: "feed_loop p bs (d + c) = map_prod id (map_sum id ((+) d)) (feed_loop p bs c)"
proof (induction p bs c rule: feed_loop.induct)
  case (1 p bs c)
  show ?case
  proof (cases "bs = [] \<or> feed_done p")
    case True
    then show ?thesis by (auto simp: feed_loop.simps [of p])
  next
    case False
    obtain q e n where st: "feed_step p bs = (q, e, n)" by (cases "feed_step p bs") auto
    show ?thesis
    proof (cases e)
      case None
      with False st 1(1) [OF False st [symmetric] refl, unfolded None, OF refl] show ?thesis
        by (simp add: feed_loop.simps [of p bs] add.assoc)
    next
      case (Some x)
      with False st show ?thesis by (simp add: feed_loop.simps [of p])
    qed
  qed
qed

lemma feed_loop_from: "feed_loop p bs c = map_prod id (map_sum id ((+) c)) (feed_loop p bs 0)"
  using feed_loop_count [of p bs c 0] by simp

section \<open>Close payloads\<close>

lemma nat_in_int_image: "0 \<le> x \<Longrightarrow> nat x \<in> S \<Longrightarrow> x \<in> int ` S"
  by (metis image_eqI int_nat_eq)

lemma close_payload_rt:
  assumes "encode_close_payload code reason = Inr body"
  shows "parse_close_payload body = Inr (map_option nat code, reason)"
  using assms
  by (auto simp: encode_close_payload_def parse_close_payload_def append_packed_be_def pack_uint_def result_simps
      unpack_uint_from_def pslice_def be_nat_be_bytes utf8_decode_encode
      split: option.splits if_splits dest: nat_in_int_image)


section \<open>Properties\<close>

text \<open>
  C11. Chunk independence of the streaming parser: feeding two chunks one after the other gives
  the same parser, count or exception as feeding them joined, wherever the cut falls
  (inside the header, the length, the mask, the payload or a drained payload).
\<close>

theorem ws_feed_split:
  assumes "fp_inv p"
  shows "feed p (a @ b) 0 =
    (case feed p a 0 of
       (p1, Inl e) \<Rightarrow> (p1, Inl e)
     | (p1, Inr k) \<Rightarrow> if feed_done p1 then (p1, Inr k)
         else (case feed p1 b 0 of (p2, Inl e) \<Rightarrow> (p2, Inl e) | (p2, Inr j) \<Rightarrow> (p2, Inr (k + j))))"
proof -
  have "feed_loop q b k = (case feed_loop q b 0 of (p2, Inl e) \<Rightarrow> (p2, Inl e) | (p2, Inr j) \<Rightarrow> (p2, Inr (k + j)))" for q k
    by (subst feed_loop_from) (auto split: prod.splits sum.splits)
  note from0 = this
  obtain p1 r where r: "feed_loop p a 0 = (p1, r)" by fastforce
  show ?thesis
    unfolding feed_def drop_0 feed_loop_append [OF assms, of a b 0] r
    by (cases r) (auto intro!: from0)
qed

theorem ws_feed_split_witness:
  "fp_inv (FrameParser_init 100 16)
   \<and> fst (feed (FrameParser_init 100 16) (map B [0x81, 0x82, 1] @ map B [2, 3, 4, 105, 107]) 0)
     = fst (feed (fst (feed (FrameParser_init 100 16) (map B [0x81, 0x82, 1]) 0)) (map B [2, 3, 4, 105, 107]) 0)
   \<and> fp_payload (fst (feed (FrameParser_init 100 16) (map B [0x81, 0x82, 1, 2, 3, 4, 105, 107]) 0)) = map B [104, 105]"
proof -
  let ?p = "FrameParser_init 100 16" and ?a = "map B [0x81, 0x82, 1]"
  have p: "fp_payload (fst (feed ?p (map B [0x81, 0x82, 1, 2, 3, 4, 105, 107]) 0)) = map B [104, 105]"
    by code_simp
  have a: "snd (feed ?p ?a 0) = Inr 3 \<and> \<not> feed_done (fst (feed ?p ?a 0))" by code_simp
  show ?thesis
    using ws_feed_split [OF fp_inv_init, of 100 16 ?a "map B [2, 3, 4, 105, 107]"] a p
    by (cases "feed ?p ?a 0") (auto split: prod.splits sum.splits)
qed

text \<open>
  C13. Round trip: a frame written by \<open>encode_frame\<close> (any opcode of the protocol, masked or not,
  with 7-, 16- or 64-bit length), followed by anything, read by a parser at the start of a frame,
  is reported with the same opcode, FIN and payload, and exactly its bytes are consumed; a frame
  over the parser's cap is skipped to its last byte and reported as oversized.
\<close>

theorem ws_frame_roundtrip:
  assumes "fp_inv p" and "fp_state p = READING_HEADER" and "fp_header_len p = 0"
    and "op \<in> set DATA_OPCODES \<or> op \<in> set CONTROL_OPCODES" and "op \<in> set CONTROL_OPCODES \<longrightarrow> fin"
    and "encode_frame op payload fin key = Inr bs"
  shows "\<exists>q. feed p (bs @ rest) 0 = (q, Inr (length bs)) \<and> fp_state q = FRAME_READY
    \<and> fp_opcode q = op \<and> fp_fin q = fin \<and> fp_had_mask q = (key \<noteq> None) \<and> fp_reported_length q = length payload
    \<and> (if length payload \<le> fp_max_payload_bytes p then \<not> fp_oversized q \<and> fp_payload q = payload else fp_oversized q)"
  using frame_feed [OF assms(1-3) _ assms(5,6), of rest 0] assms(4)
  by (auto simp: feed_def valid_opcode_def frame_result_def)

theorem ws_frame_roundtrip_witness:
  "encode_frame OPCODE_TEXT (map B [104, 105]) True (Some (map B [1, 2, 3, 4])) = Inr (map B [0x81, 0x82, 1, 2, 3, 4, 105, 107])
   \<and> (\<exists>q. feed (FrameParser_init 100 16) (map B [0x81, 0x82, 1, 2, 3, 4, 105, 107] @ [B 9]) 0 = (q, Inr 8)
     \<and> fp_payload q = map B [104, 105])"
proof -
  have e: "encode_frame OPCODE_TEXT (map B [104, 105]) True (Some (map B [1, 2, 3, 4])) = Inr (map B [0x81, 0x82, 1, 2, 3, 4, 105, 107])"
    by code_simp
  have s: "fp_state (FrameParser_init 100 16) = READING_HEADER" "fp_header_len (FrameParser_init 100 16) = 0"
    "fp_max_payload_bytes (FrameParser_init 100 16) = 100" by (simp_all add: FrameParser_init_def)
  have o: "OPCODE_TEXT \<in> set DATA_OPCODES" "OPCODE_TEXT \<in> set CONTROL_OPCODES \<longrightarrow> True" by (simp_all add: DATA_OPCODES_def)
  from ws_frame_roundtrip [OF fp_inv_init s(1,2) disjI1 [OF o(1)] o(2) e, of "[B 9]"] e s show ?thesis by auto
qed

text \<open>
  C33. Safety and memory bound on arbitrary input: feeding any bytes to a parser in a reachable state
  keeps its invariant, never holds a payload array larger than the larger of the steady buffer and
  the configured cap, and either consumes bytes of the chunk (all of them unless a frame is
  complete) or raises \<open>WebSocketProtocolError\<close> in the error state: no index error.
\<close>

theorem ws_feed_safe:
  assumes "fp_inv p" and "feed p chunk start = (p', r)"
  shows "fp_inv p' \<and> length (fp_payload_array p') \<le> max (fp_payload_capacity p') (fp_max_payload_bytes p')
    \<and> (case r of
         Inl e \<Rightarrow> (\<exists>m. e = WebSocketProtocolError m) \<and> fp_state p' = FRAME_ERROR
       | Inr k \<Rightarrow> k \<le> length chunk - start \<and> (k < length chunk - start \<longrightarrow> feed_done p'))"
proof -
  show ?thesis using feed_loop_inv [OF assms(1), of "drop start chunk" 0] assms(2) parser_memory
    by (auto simp: feed_def split: sum.splits)
qed

theorem ws_feed_safe_witness:
  "\<exists>p'. feed (FrameParser_init 4 2) (map B [0x83, 0x00]) 0 = (p', Inl (WebSocketProtocolError ''reserved opcode''))
     \<and> fp_inv p' \<and> fp_state p' = FRAME_ERROR"
proof -
  obtain p' r where f: "feed (FrameParser_init 4 2) (map B [0x83, 0x00]) 0 = (p', r)" by fastforce
  have "snd (feed (FrameParser_init 4 2) (map B [0x83, 0x00]) 0) = Inl (WebSocketProtocolError ''reserved opcode'')" by code_simp
  with ws_feed_safe [OF fp_inv_init f] f show ?thesis by auto
qed

text \<open>
  Close payloads: whatever \<open>encode_close_payload\<close> accepts, \<open>parse_close_payload\<close> reads back as the same
  code and reason; it fits a control frame, and a reserved code is refused in both directions.
\<close>

lemma close_payload_roundtrip:
  assumes "encode_close_payload code reason = Inr body"
  shows "parse_close_payload body = Inr (map_option nat code, reason) \<and> length body \<le> MAX_CONTROL_PAYLOAD_BYTES
    \<and> (\<forall>c. code = Some c \<longrightarrow> nat c \<notin> set RESERVED_CLOSE_CODES \<and> 0 \<le> c \<and> c < 65536)"
  using close_payload_rt [OF assms] assms
  by (auto simp: encode_close_payload_def append_packed_be_def pack_uint_def result_simps MAX_CONTROL_PAYLOAD_BYTES_def
      split: option.splits if_splits dest: nat_in_int_image)

lemma close_payload_roundtrip_witness:
  "encode_close_payload (Some 1000) [98, 121, 101] = Inr (map B [3, 232, 98, 121, 101])
   \<and> parse_close_payload (map B [3, 232, 98, 121, 101]) = Inr (Some 1000, [98, 121, 101])"
proof -
  have e: "encode_close_payload (Some 1000) [98, 121, 101] = Inr (map B [3, 232, 98, 121, 101])"
    by (simp add: encode_close_payload_def RESERVED_CLOSE_CODES_def CLOSE_NO_STATUS_RCVD_def CLOSE_ABNORMAL_def
        CLOSE_TLS_HANDSHAKE_def append_packed_be_def pack_uint_def MAX_CONTROL_PAYLOAD_BYTES_def scalar_value_def
        utf8_char_def be_bytes_2)
  with close_payload_roundtrip [OF e] show ?thesis by simp
qed

end
