(* ===== verification/Ws_Session.thy ===== *)
theory Ws_Session
  imports Ws_Frame Ws_Handshake Timing
begin

text \<open>
  The WebSocket sessions of \<^verbatim>\<open>libraries/websockets/src/chumicro_websockets/\<close>: the base class of
  \<^verbatim>\<open>_session.py\<close>, the client of \<^verbatim>\<open>client.py\<close> and the server side \<open>Connection\<close> of \<^verbatim>\<open>server.py\<close>.
  A session is one record with the fields of the base class and of both subclasses; \<open>ws_side\<close>
  says which subclass it is and selects the overridden methods. Sockets, connectors, the clock,
  \<^verbatim>\<open>os.urandom\<close>, the text of an exception and the user's callbacks are functions of an
  environment over an abstract world; a callback gets the session and may change it.
\<close>

section \<open>Constants\<close>

definition CLOSE_NORMAL :: int where "CLOSE_NORMAL = 1000"
definition CLOSE_PROTOCOL_ERROR :: int where "CLOSE_PROTOCOL_ERROR = 1002"
definition CLOSE_BAD_DATA :: int where "CLOSE_BAD_DATA = 1007"
definition CLOSE_TOO_BIG :: int where "CLOSE_TOO_BIG = 1009"
definition CLOSE_INTERNAL_ERROR :: int where "CLOSE_INTERNAL_ERROR = 1011"
definition MAX_EMPTY_FRAGMENT_RUN :: nat where "MAX_EMPTY_FRAGMENT_RUN = 64"
definition TX_QUEUE_HEADROOM :: nat where "TX_QUEUE_HEADROOM = 8"
definition WS_IO_READ :: int where "WS_IO_READ = 1"
definition WS_IO_WRITE :: int where "WS_IO_WRITE = 2"
definition WS_DROP_SILENT :: string where "WS_DROP_SILENT = ''drop_silent''"
definition WS_DROP_WITH_EVENT :: string where "WS_DROP_WITH_EVENT = ''drop_with_event''"
definition WS_OVERSIZED_DISCONNECT :: string where "WS_OVERSIZED_DISCONNECT = ''disconnect''"

datatype WebSocketState = CONNECTING | OPEN | CLOSING | CLOSED

datatype ConnectingPhase = AWAITING_TRANSPORT | SENDING_HANDSHAKE | RECEIVING_HANDSHAKE

datatype ServerHandshakePhase = READING_REQUEST | SENDING_RESPONSE

section \<open>The session\<close>

datatype session_side = ClientSide | ServerSide

datatype InboundMessage = InboundText pystr | InboundData "byte list"

datatype ws_callback = OnText pystr | OnBinary "byte list" | OnPing "byte list" | OnPong "byte list"
  | OnClose int pystr | OnOversized nat | OnOpen | OnConnection

record WsConfig =
  wf_max_message_bytes :: nat
  wf_recv_budget_per_tick :: nat
  wf_send_budget_per_tick :: nat
  wf_max_tx_queue_size :: nat
  wf_when_oversized :: string
  wf_ping_interval_ms :: "int option"
  wf_pong_timeout_ms :: "int option"
  wf_handshake_timeout_ms :: int
  wf_close_timeout_ms :: int
  wf_max_inbound_queue_size :: nat
  wf_accept_path :: "pystr option"

record 'w WsSession =
  ws_side :: session_side
  ws_cfg :: WsConfig
  ws_socket :: "nat option"
  ws_state :: WebSocketState
  ws_frame_parser :: FrameParser
  ws_post_handshake_carry :: "byte list"
  ws_tx_queue :: "byte list list"
  ws_tx_partial :: "(byte list \<times> nat) option"
  ws_inbound_message_buffer :: "byte list"
  ws_inbound_message_opcode :: "nat option"
  ws_inbound_oversized :: bool
  ws_inbound_queue :: "InboundMessage list option"
  ws_inbound_reported_length :: nat
  ws_inbound_empty_fragment_run :: nat
  ws_handshake_send_buffer :: "byte list option"
  ws_handshake_send_offset :: nat
  ws_handshake_deadline_ticks :: "int option"
  ws_close_deadline_ticks :: "int option"
  ws_pending_ping_deadline_ticks :: "int option"
  ws_next_auto_ping_ticks :: "int option"
  ws_last_close_code :: "int option"
  ws_last_close_reason :: pystr
  ws_last_error :: "exn option"
  ws_connector :: "nat option"
  ws_connect_called :: bool
  ws_connecting_phase :: "ConnectingPhase option"
  ws_url :: pystr
  ws_pending_handshake :: "(pystr \<times> int \<times> pystr \<times> (pystr \<times> pystr) list) option"
  ws_handshake_response_parser :: "HandshakeParser option"
  ws_handshake_phase :: "ServerHandshakePhase option"
  ws_handshake_request_parser :: "HandshakeParser option"
  ws_request_path :: pystr
  ws_request_headers :: "CaseInsensitiveDict option"
  ws_world :: 'w

text \<open>
  A send returns \<open>None\<close> or a count; a receive returns \<open>None\<close> or the bytes it wrote to the scratch
  buffer. \<open>we_text\<close> is \<^verbatim>\<open>str(error)\<close> and \<open>we_repr\<close> is \<^verbatim>\<open>repr\<close> of a string.
\<close>

record 'w ws_env =
  we_ticks :: ticks_source
  we_ticks_ms :: "'w \<Rightarrow> int \<times> 'w"
  we_urandom :: "nat \<Rightarrow> 'w \<Rightarrow> byte list \<times> 'w"
  we_text :: "exn \<Rightarrow> pystr"
  we_repr :: "pystr \<Rightarrow> pystr"
  we_factory :: "pystr \<Rightarrow> int \<Rightarrow> bool \<Rightarrow> 'w \<Rightarrow> nat result \<times> 'w"
  we_set_non_blocking :: "nat \<Rightarrow> 'w \<Rightarrow> exn option \<times> 'w"
  we_send :: "nat \<Rightarrow> byte list \<Rightarrow> 'w \<Rightarrow> nat option result \<times> 'w"
  we_recv_into :: "nat \<Rightarrow> nat \<Rightarrow> 'w \<Rightarrow> byte list option result \<times> 'w"
  we_close :: "nat \<Rightarrow> 'w \<Rightarrow> exn option \<times> 'w"
  we_connector_tick :: "nat \<Rightarrow> int \<Rightarrow> 'w \<Rightarrow> exn option \<times> 'w"
  we_connector_state :: "nat \<Rightarrow> 'w \<Rightarrow> string"
  we_connector_socket :: "nat \<Rightarrow> 'w \<Rightarrow> nat"
  we_connector_io_socket :: "nat \<Rightarrow> 'w \<Rightarrow> nat option"
  we_connector_io_interest :: "nat \<Rightarrow> int \<Rightarrow> 'w \<Rightarrow> int"
  we_connector_cancel :: "nat \<Rightarrow> 'w \<Rightarrow> exn option \<times> 'w"
  we_call :: "ws_callback \<Rightarrow> 'w WsSession \<Rightarrow> unit result \<times> 'w WsSession"

type_synonym ('w, 'a) ws = "('w WsSession, 'a) prog"

definition outside :: "('w \<Rightarrow> 'a \<times> 'w) \<Rightarrow> ('w, 'a) ws" where
  "outside f s = (case f (ws_world s) of (x, w) \<Rightarrow> (Inr x, s\<lparr>ws_world := w\<rparr>))"

definition outside_result :: "('w \<Rightarrow> 'a result \<times> 'w) \<Rightarrow> ('w, 'a) ws" where
  "outside_result f = mbind (outside f) lift"

definition outside_do :: "('w \<Rightarrow> exn option \<times> 'w) \<Rightarrow> ('w, unit) ws" where
  "outside_do f = mbind (outside f) (\<lambda>r. case r of None \<Rightarrow> ret () | Some e \<Rightarrow> throw e)"

definition user :: "'w ws_env \<Rightarrow> ws_callback \<Rightarrow> ('w, unit) ws" where
  "user env = we_call env"

definition ws_force_non_blocking :: "'w ws_env \<Rightarrow> nat \<Rightarrow> ('w, unit) ws" where
  "ws_force_non_blocking env sock =
     swallow (\<lambda>e. is_OSError e \<or> e = AttributeError) (outside_do (we_set_non_blocking env sock))"

definition ws_tx_queue_hard_cap :: "'w WsSession \<Rightarrow> nat" where
  "ws_tx_queue_hard_cap s = wf_max_tx_queue_size (ws_cfg s) + TX_QUEUE_HEADROOM"

definition recv_scratch_size :: "'w WsSession \<Rightarrow> nat" where
  "recv_scratch_size s = min (wf_recv_budget_per_tick (ws_cfg s)) 512"

definition init_session_state :: "session_side \<Rightarrow> WsConfig \<Rightarrow> nat option \<Rightarrow> 'w \<Rightarrow> 'w WsSession" where
  "init_session_state side cfg sock w =
     \<lparr>ws_side = side, ws_cfg = cfg, ws_socket = sock, ws_state = CONNECTING,
      ws_frame_parser = FrameParser_init (wf_max_message_bytes cfg) DEFAULT_PAYLOAD_BUFFER_SIZE,
      ws_post_handshake_carry = [], ws_tx_queue = [], ws_tx_partial = None,
      ws_inbound_message_buffer = [], ws_inbound_message_opcode = None, ws_inbound_oversized = False,
      ws_inbound_queue = None, ws_inbound_reported_length = 0, ws_inbound_empty_fragment_run = 0,
      ws_handshake_send_buffer = None, ws_handshake_send_offset = 0, ws_handshake_deadline_ticks = None,
      ws_close_deadline_ticks = None, ws_pending_ping_deadline_ticks = None, ws_next_auto_ping_ticks = None,
      ws_last_close_code = None, ws_last_close_reason = [], ws_last_error = None, ws_connector = None,
      ws_connect_called = False, ws_connecting_phase = None, ws_url = [], ws_pending_handshake = None,
      ws_handshake_response_parser = None, ws_handshake_phase = None, ws_handshake_request_parser = None,
      ws_request_path = [], ws_request_headers = None, ws_world = w\<rparr>"

section \<open>Runner hooks\<close>

definition connecting_wants :: "'w ws_env \<Rightarrow> int \<Rightarrow> int \<Rightarrow> 'w WsSession \<Rightarrow> bool" where
  "connecting_wants env flag now_ms s =
     (case ws_side s of
        ClientSide \<Rightarrow>
          if ws_connecting_phase s = Some AWAITING_TRANSPORT then
            (case ws_connector s of None \<Rightarrow> False
             | Some k \<Rightarrow> we_connector_io_interest env k now_ms (ws_world s) AND flag \<noteq> 0)
          else ws_connecting_phase s = Some (if flag = WS_IO_READ then RECEIVING_HANDSHAKE else SENDING_HANDSHAKE)
      | ServerSide \<Rightarrow> ws_handshake_phase s = Some (if flag = WS_IO_READ then READING_REQUEST else SENDING_RESPONSE))"

definition ws_io_interest :: "'w ws_env \<Rightarrow> int \<Rightarrow> 'w WsSession \<Rightarrow> int" where
  "ws_io_interest env now_ms s =
     (if ws_state s = OPEN \<or> ws_state s = CLOSING then
        (if ws_tx_queue s \<noteq> [] \<or> ws_tx_partial s \<noteq> None then WS_IO_READ OR WS_IO_WRITE else WS_IO_READ)
      else if ws_state s = CONNECTING then
        (if connecting_wants env WS_IO_READ now_ms s then WS_IO_READ else 0)
        OR (if connecting_wants env WS_IO_WRITE now_ms s then WS_IO_WRITE else 0)
      else 0)"

definition ws_io_socket :: "'w ws_env \<Rightarrow> 'w WsSession \<Rightarrow> nat option" where
  "ws_io_socket env s =
     (if ws_side s = ClientSide \<and> ws_connecting_phase s = Some AWAITING_TRANSPORT then
        (case ws_connector s of None \<Rightarrow> None | Some k \<Rightarrow> we_connector_io_socket env k (ws_world s))
      else if ws_state s = CLOSED then None
      else ws_socket s)"

definition sooner :: "ticks_source \<Rightarrow> int option \<Rightarrow> int option \<Rightarrow> int option" where
  "sooner tk nearest candidate =
     (case candidate of None \<Rightarrow> nearest
      | Some c \<Rightarrow> (case nearest of None \<Rightarrow> Some c | Some n \<Rightarrow> if src_diff tk c n < 0 then Some c else Some n))"

definition base_next_deadline :: "'w ws_env \<Rightarrow> 'w WsSession \<Rightarrow> int option" where
  "base_next_deadline env s = (let tk = we_ticks env in
     sooner tk (sooner tk (sooner tk (ws_handshake_deadline_ticks s) (ws_close_deadline_ticks s))
       (ws_pending_ping_deadline_ticks s)) (ws_next_auto_ping_ticks s))"

definition ws_next_deadline :: "'w ws_env \<Rightarrow> int \<Rightarrow> 'w WsSession \<Rightarrow> int option" where
  "ws_next_deadline env now_ms s =
     (if ws_side s = ClientSide \<and> ws_connecting_phase s = Some AWAITING_TRANSPORT \<and> ws_io_socket env s = None
      then Some now_ms else base_next_deadline env s)"

definition ws_check :: "'w WsSession \<Rightarrow> bool" where
  "ws_check s = (case ws_side s of ClientSide \<Rightarrow> ws_connect_called s \<and> ws_state s \<noteq> CLOSED | ServerSide \<Rightarrow> ws_state s \<noteq> CLOSED)"

section \<open>Queues\<close>

text \<open>Clients mask what they send with \<^verbatim>\<open>make_mask_key()\<close>, servers do not.\<close>

definition outbound_mask :: "'w ws_env \<Rightarrow> ('w, byte list option) ws" where
  "outbound_mask env = reading (\<lambda>s. case ws_side s of
     ClientSide \<Rightarrow> mbind (outside (we_urandom env 4)) (\<lambda>k. ret (Some k))
   | ServerSide \<Rightarrow> ret None)"

definition append_frame :: "'w ws_env \<Rightarrow> nat \<Rightarrow> byte list \<Rightarrow> ('w, unit) ws" where
  "append_frame env opcode payload =
     mbind (outbound_mask env) (\<lambda>m.
     mbind (lift (encode_frame opcode payload True m)) (\<lambda>encoded.
     modify (\<lambda>s. s\<lparr>ws_tx_queue := deque_append (ws_tx_queue_hard_cap s) (ws_tx_queue s) encoded\<rparr>)))"

definition enqueue_user_frame :: "'w ws_env \<Rightarrow> nat \<Rightarrow> byte list \<Rightarrow> ('w, unit) ws" where
  "enqueue_user_frame env opcode payload = reading (\<lambda>s.
     if length (ws_tx_queue s) \<ge> wf_max_tx_queue_size (ws_cfg s) then throw (WebSocketBackpressureError ''TX queue is full'')
     else append_frame env opcode payload)"

definition enqueue_internal_frame :: "'w ws_env \<Rightarrow> nat \<Rightarrow> byte list \<Rightarrow> ('w, unit) ws" where
  "enqueue_internal_frame env opcode payload = reading (\<lambda>s.
     let limit = (if opcode \<noteq> OPCODE_CLOSE then ws_tx_queue_hard_cap s - 1 else ws_tx_queue_hard_cap s) in
     if length (ws_tx_queue s) \<ge> limit then ret () else append_frame env opcode payload)"

section \<open>Closing\<close>

definition ws_deadline :: "'w ws_env \<Rightarrow> int option \<Rightarrow> int \<Rightarrow> ('w, int) ws" where
  "ws_deadline env now_ms offset =
     mbind (case now_ms of Some n \<Rightarrow> ret n | None \<Rightarrow> outside (we_ticks_ms env)) (\<lambda>now. lift (src_add (we_ticks env) now offset))"

definition is_WebSocketProtocolError :: "exn \<Rightarrow> bool" where
  "is_WebSocketProtocolError e = (case e of WebSocketProtocolError _ \<Rightarrow> True | _ \<Rightarrow> False)"

definition send_close :: "'w ws_env \<Rightarrow> int \<Rightarrow> pystr \<Rightarrow> int option \<Rightarrow> ('w, unit) ws" where
  "send_close env code reason now_ms = reading (\<lambda>s.
     if ws_state s = CLOSING \<or> ws_state s = CLOSED then ret ()
     else
       mbind (lift (case encode_close_payload (Some code) reason of
           Inl e \<Rightarrow> if is_WebSocketProtocolError e then Inr [] else Inl e
         | Inr payload \<Rightarrow> Inr payload)) (\<lambda>payload.
       andThen (enqueue_internal_frame env OPCODE_CLOSE payload)
      (andThen (modify (\<lambda>s. if ws_last_close_code s = None
           then s\<lparr>ws_last_close_code := Some code, ws_last_close_reason := reason\<rparr> else s))
      (andThen (modify (\<lambda>s. s\<lparr>ws_state := CLOSING\<rparr>))
      (mbind (ws_deadline env now_ms (wf_close_timeout_ms (ws_cfg s))) (\<lambda>d.
       modify (\<lambda>s. s\<lparr>ws_close_deadline_ticks := Some d\<rparr>)))))))"

definition ws_close_socket :: "'w ws_env \<Rightarrow> ('w, unit) ws" where
  "ws_close_socket env = reading (\<lambda>s. case ws_socket s of None \<Rightarrow> ret () | Some k \<Rightarrow> outside_do (we_close env k))"

definition drop_transport :: "'w ws_env \<Rightarrow> ('w, unit) ws" where
  "drop_transport env = andThen (swallow is_Exception (ws_close_socket env))
     (modify (\<lambda>s. s\<lparr>ws_state := CLOSED, ws_handshake_deadline_ticks := None, ws_close_deadline_ticks := None,
        ws_pending_ping_deadline_ticks := None\<rparr>))"

definition on_finalized :: "'w ws_env \<Rightarrow> ('w, unit) ws" where
  "on_finalized env = reading (\<lambda>s. case ws_side s of
     ServerSide \<Rightarrow> modify (\<lambda>s. s\<lparr>ws_handshake_deadline_ticks := None\<rparr>)
   | ClientSide \<Rightarrow>
       andThen (modify (\<lambda>s. s\<lparr>ws_handshake_deadline_ticks := None, ws_next_auto_ping_ticks := None\<rparr>))
      (andThen (case ws_connector s of
           None \<Rightarrow> ret ()
         | Some k \<Rightarrow> andThen (swallow is_Exception (outside_do (we_connector_cancel env k)))
             (modify (\<lambda>s. s\<lparr>ws_connector := None\<rparr>)))
        (modify (\<lambda>s. s\<lparr>ws_connecting_phase := None\<rparr>))))"

definition call_on_close :: "'w ws_env \<Rightarrow> int \<Rightarrow> ('w, unit) ws" where
  "call_on_close env dflt = reading (\<lambda>s.
     user env (OnClose (case ws_last_close_code s of None \<Rightarrow> dflt | Some c \<Rightarrow> c) (ws_last_close_reason s)))"

definition fail_with_error :: "'w ws_env \<Rightarrow> exn \<Rightarrow> ('w, unit) ws" where
  "fail_with_error env error =
     andThen (modify (\<lambda>s. if ws_last_error s = None then s\<lparr>ws_last_error := Some error\<rparr> else s))
    (andThen (modify (\<lambda>s. if ws_last_close_code s = None
         then s\<lparr>ws_last_close_code := Some CLOSE_INTERNAL_ERROR, ws_last_close_reason := we_text env error\<rparr> else s))
    (andThen (drop_transport env)
    (andThen (on_finalized env) (call_on_close env CLOSE_INTERNAL_ERROR))))"

section \<open>The socket\<close>

definition ws_send_raw :: "'w ws_env \<Rightarrow> byte list \<Rightarrow> ('w, nat option) ws" where
  "ws_send_raw env chunk = reading (\<lambda>s. case ws_socket s of None \<Rightarrow> throw AttributeError
     | Some k \<Rightarrow> outside_result (we_send env k chunk))"

text \<open>
  The \<^verbatim>\<open>try\<close> around a send: would-block, \<open>None\<close> and \<open>0\<close> all mean that nothing was sent; another
  \<^verbatim>\<open>OSError\<close> fails the session with \<open>failure\<close> of it.
\<close>

definition try_send :: "'w ws_env \<Rightarrow> byte list \<Rightarrow> (exn \<Rightarrow> exn) \<Rightarrow> ('w, nat) ws" where
  "try_send env chunk failure = catch
     (mbind (ws_send_raw env chunk) (\<lambda>sent. ret (case sent of None \<Rightarrow> 0 | Some n \<Rightarrow> n)))
     (\<lambda>e. if is_OSError e
        then if e = OSError EAGAIN then ret 0 else andThen (fail_with_error env (failure e)) (ret 0)
        else throw e)"

fun drain_outbound_loop :: "'w ws_env \<Rightarrow> nat \<Rightarrow> nat \<Rightarrow> ('w, unit) ws" where
  "drain_outbound_loop env fuel budget =
     (if budget = 0 then ret ()
      else case fuel of
        0 \<Rightarrow> throw (RuntimeError ''out of fuel'')
      | Suc fuel \<Rightarrow> reading (\<lambda>s.
          case (case ws_tx_partial s of
              Some p \<Rightarrow> Some (p, ws_tx_queue s)
            | None \<Rightarrow> (case ws_tx_queue s of [] \<Rightarrow> None | f # fs \<Rightarrow> Some ((f, 0), fs))) of
            None \<Rightarrow> ret ()
          | Some ((buffer, offset), rest) \<Rightarrow>
              andThen (modify (\<lambda>s. s\<lparr>ws_tx_queue := rest, ws_tx_partial := Some (buffer, offset)\<rparr>))
             (mbind (try_send env (take budget (drop offset buffer))
                 (\<lambda>e. WebSocketProtocolError ''socket error during send'')) (\<lambda>sent.
              if sent = 0 then ret ()
              else andThen (modify (\<lambda>s. s\<lparr>ws_tx_partial := (if offset + sent \<ge> length buffer then None else Some (buffer, offset + sent))\<rparr>))
                (drain_outbound_loop env fuel (budget - sent))))))"

declare drain_outbound_loop.simps [simp del]

definition drain_outbound :: "'w ws_env \<Rightarrow> ('w, unit) ws" where
  "drain_outbound env = reading (\<lambda>s. drain_outbound_loop env (wf_send_budget_per_tick (ws_cfg s)) (wf_send_budget_per_tick (ws_cfg s)))"

definition finalize_closed :: "'w ws_env \<Rightarrow> ('w, unit) ws" where
  "finalize_closed env =
     andThen (reading (\<lambda>s. whenever (ws_tx_queue s \<noteq> [] \<or> ws_tx_partial s \<noteq> None) (drain_outbound env)))
    (andThen (drop_transport env) (andThen (on_finalized env) (call_on_close env CLOSE_NORMAL)))"

definition recv_chunk :: "'w ws_env \<Rightarrow> nat \<Rightarrow> ('w, byte list option) ws" where
  "recv_chunk env max_bytes = reading (\<lambda>s. catch
     (case ws_socket s of None \<Rightarrow> throw AttributeError
      | Some k \<Rightarrow> outside_result (we_recv_into env k (min max_bytes (recv_scratch_size s))))
     (\<lambda>e. if is_OSError e
        then if e = OSError EAGAIN then ret None
          else andThen (fail_with_error env (WebSocketProtocolError ''socket error during recv'')) (ret None)
        else throw e))"

section \<open>Inbound frames\<close>

definition reset_inbound_state :: "'w WsSession \<Rightarrow> 'w WsSession" where
  "reset_inbound_state s = s\<lparr>ws_inbound_message_buffer := [], ws_inbound_message_opcode := None, ws_inbound_oversized := False,
     ws_inbound_reported_length := 0, ws_inbound_empty_fragment_run := 0\<rparr>"

definition push_inbound :: "InboundMessage \<Rightarrow> 'w WsSession \<Rightarrow> 'w WsSession" where
  "push_inbound m s = s\<lparr>ws_inbound_queue :=
     map_option (\<lambda>q. deque_append (wf_max_inbound_queue_size (ws_cfg s)) q m) (ws_inbound_queue s)\<rparr>"

definition deliver_message :: "'w ws_env \<Rightarrow> nat option \<Rightarrow> byte list \<Rightarrow> int \<Rightarrow> ('w, unit) ws" where
  "deliver_message env message_opcode message_payload now_ms = reading (\<lambda>s.
     if message_opcode = Some OPCODE_TEXT then
       (case validate_text_payload message_payload of
          Inl e \<Rightarrow>
            if is_WebSocketProtocolError e
            then andThen (send_close env CLOSE_BAD_DATA (we_text env e) (Some now_ms)) (modify (\<lambda>s. s\<lparr>ws_last_error := Some e\<rparr>))
            else throw e
        | Inr text \<Rightarrow> if ws_inbound_queue s \<noteq> None then modify (push_inbound (InboundText text)) else user env (OnText text))
     else if ws_inbound_queue s \<noteq> None then modify (push_inbound (InboundData message_payload))
     else user env (OnBinary message_payload))"

definition extend_inbound_buffer :: "byte list \<Rightarrow> 'w WsSession \<Rightarrow> 'w WsSession" where
  "extend_inbound_buffer payload s =
     (if ws_inbound_oversized s then s
      else if length (ws_inbound_message_buffer s) + length payload > wf_max_message_bytes (ws_cfg s)
      then s\<lparr>ws_inbound_oversized := True\<rparr>
      else s\<lparr>ws_inbound_message_buffer := ws_inbound_message_buffer s @ payload\<rparr>)"

definition finish_oversized_message :: "'w ws_env \<Rightarrow> int \<Rightarrow> ('w, unit) ws" where
  "finish_oversized_message env now_ms = reading (\<lambda>s.
     andThen (modify reset_inbound_state)
       (if wf_when_oversized (ws_cfg s) = WS_DROP_SILENT then ret ()
        else if wf_when_oversized (ws_cfg s) = WS_DROP_WITH_EVENT then user env (OnOversized (ws_inbound_reported_length s))
        else whenever (wf_when_oversized (ws_cfg s) = WS_OVERSIZED_DISCONNECT)
          (send_close env CLOSE_TOO_BIG
            (ustr ''message exceeded max_message_bytes='' @ py_str (int (wf_max_message_bytes (ws_cfg s)))) (Some now_ms))))"

text \<open>The part of \<^verbatim>\<open>_handle_data_frame\<close> after the fragment checks.\<close>

definition take_fragment :: "'w ws_env \<Rightarrow> bool \<Rightarrow> byte list \<Rightarrow> int \<Rightarrow> ('w, unit) ws" where
  "take_fragment env fin payload now_ms = reading (\<lambda>s.
     if \<not> fp_oversized (ws_frame_parser s) \<and> fin \<and> ws_inbound_message_buffer s = []
        \<and> length payload \<le> wf_max_message_bytes (ws_cfg s)
     then andThen (modify reset_inbound_state) (deliver_message env (ws_inbound_message_opcode s) payload now_ms)
     else
       andThen (modify (\<lambda>s.
           if fp_oversized (ws_frame_parser s) \<or> fin \<and> ws_inbound_message_buffer s = [] then s\<lparr>ws_inbound_oversized := True\<rparr>
           else extend_inbound_buffer payload s))
      (whenever fin (reading (\<lambda>s.
         if ws_inbound_oversized s then finish_oversized_message env now_ms
         else andThen (modify reset_inbound_state)
           (deliver_message env (ws_inbound_message_opcode s) (ws_inbound_message_buffer s) now_ms)))))"

definition count_fragment :: "bool \<Rightarrow> 'w WsSession \<Rightarrow> 'w WsSession" where
  "count_fragment fin s = (let n = fp_reported_length (ws_frame_parser s) in
     s\<lparr>ws_inbound_reported_length := ws_inbound_reported_length s + n,
       ws_inbound_empty_fragment_run := (if n > 0 then 0 else if \<not> fin then ws_inbound_empty_fragment_run s + 1
         else ws_inbound_empty_fragment_run s)\<rparr>)"

definition handle_data_frame :: "'w ws_env \<Rightarrow> nat \<Rightarrow> bool \<Rightarrow> byte list \<Rightarrow> int \<Rightarrow> ('w, unit) ws" where
  "handle_data_frame env opcode fin payload now_ms = reading (\<lambda>s.
     if opcode = OPCODE_CONTINUATION \<and> ws_inbound_message_opcode s = None
     then send_close env CLOSE_PROTOCOL_ERROR (ustr ''CONTINUATION frame with no in-progress message'') (Some now_ms)
     else if opcode \<noteq> OPCODE_CONTINUATION \<and> ws_inbound_message_opcode s \<noteq> None
     then send_close env CLOSE_PROTOCOL_ERROR
       (ustr ''new 0x'' @ py_str (int opcode) @ ustr '' frame in the middle of a fragmented message'') (Some now_ms)
     else
       andThen (modify (\<lambda>s. if opcode = OPCODE_CONTINUATION then s else s\<lparr>ws_inbound_message_opcode := Some opcode\<rparr>))
      (andThen (modify (count_fragment fin)) (reading (\<lambda>s.
         if fp_reported_length (ws_frame_parser s) = 0 \<and> \<not> fin \<and> ws_inbound_empty_fragment_run s > MAX_EMPTY_FRAGMENT_RUN
         then send_close env CLOSE_PROTOCOL_ERROR (ustr ''too many zero-length continuation frames'') (Some now_ms)
         else take_fragment env fin payload now_ms))))"

definition handle_close_frame :: "'w ws_env \<Rightarrow> byte list \<Rightarrow> int \<Rightarrow> ('w, unit) ws" where
  "handle_close_frame env payload now_ms =
     (case parse_close_payload payload of
        Inl e \<Rightarrow>
          if is_WebSocketProtocolError e
          then andThen (send_close env CLOSE_PROTOCOL_ERROR (we_text env e) (Some now_ms)) (modify (\<lambda>s. s\<lparr>ws_last_error := Some e\<rparr>))
          else throw e
      | Inr (code, reason) \<Rightarrow> reading (\<lambda>s.
          if ws_state s = CLOSING then
            andThen (modify (\<lambda>s. if ws_last_close_code s = None
              then s\<lparr>ws_last_close_code := map_option int code, ws_last_close_reason := reason\<rparr> else s)) (finalize_closed env)
          else
            andThen (modify (\<lambda>s. s\<lparr>ws_last_close_code := map_option int code, ws_last_close_reason := reason\<rparr>))
           (andThen (send_close env (case code of None \<Rightarrow> CLOSE_NORMAL | Some c \<Rightarrow> int c) [] (Some now_ms))
             (finalize_closed env))))"

definition handle_ping_frame :: "'w ws_env \<Rightarrow> byte list \<Rightarrow> ('w, unit) ws" where
  "handle_ping_frame env payload = andThen (enqueue_internal_frame env OPCODE_PONG payload) (user env (OnPing payload))"

definition handle_pong_frame :: "'w ws_env \<Rightarrow> byte list \<Rightarrow> ('w, unit) ws" where
  "handle_pong_frame env payload =
     andThen (modify (\<lambda>s. s\<lparr>ws_pending_ping_deadline_ticks := None\<rparr>)) (user env (OnPong payload))"

definition inbound_mask_required :: "session_side \<Rightarrow> bool" where
  "inbound_mask_required side = (side = ServerSide)"

definition peer_label :: "session_side \<Rightarrow> pystr" where
  "peer_label side = (case side of ClientSide \<Rightarrow> ustr ''server'' | ServerSide \<Rightarrow> ustr ''client'')"

definition dispatch_frame :: "'w ws_env \<Rightarrow> int \<Rightarrow> ('w, unit) ws" where
  "dispatch_frame env now_ms = reading (\<lambda>s.
     let p = ws_frame_parser s; opcode = fp_opcode p; payload = fp_payload p in
     if fp_had_mask p \<noteq> inbound_mask_required (ws_side s) then
       send_close env CLOSE_PROTOCOL_ERROR
         (peer_label (ws_side s) @ (if inbound_mask_required (ws_side s) then ustr '' frame must be masked'' else ustr '' frame must not be masked''))
         (Some now_ms)
     else if opcode = OPCODE_CLOSE then handle_close_frame env payload now_ms
     else if opcode = OPCODE_PING then handle_ping_frame env payload
     else if opcode = OPCODE_PONG then handle_pong_frame env payload
     else handle_data_frame env opcode (fp_fin p) payload now_ms)"

text \<open>The \<^verbatim>\<open>while offset < chunk_length\<close> loop; every turn but the last takes a byte.\<close>

fun feed_frames :: "'w ws_env \<Rightarrow> int \<Rightarrow> nat \<Rightarrow> byte list \<Rightarrow> nat \<Rightarrow> ('w, unit) ws" where
  "feed_frames env now_ms fuel chunk offset =
     (if offset \<ge> length chunk then ret ()
      else case fuel of
        0 \<Rightarrow> throw (RuntimeError ''out of fuel'')
      | Suc fuel \<Rightarrow> reading (\<lambda>s.
          case feed (ws_frame_parser s) chunk offset of
            (p, Inl e) \<Rightarrow> andThen (modify (\<lambda>s. s\<lparr>ws_frame_parser := p\<rparr>))
              (if is_WebSocketProtocolError e
               then andThen (send_close env CLOSE_PROTOCOL_ERROR (we_text env e) (Some now_ms)) (modify (\<lambda>s. s\<lparr>ws_last_error := Some e\<rparr>))
               else throw e)
          | (p, Inr consumed) \<Rightarrow> andThen (modify (\<lambda>s. s\<lparr>ws_frame_parser := p\<rparr>))
              (if consumed = 0 then ret ()
               else if fp_state p = FRAME_READY then
                 andThen (ensuring (dispatch_frame env now_ms) (reading (\<lambda>s. whenever (ws_state s \<noteq> CLOSED)
                     (modify (\<lambda>s. s\<lparr>ws_frame_parser := fp_reset (ws_frame_parser s)\<rparr>)))))
                   (reading (\<lambda>s. if ws_state s = CLOSED then ret () else feed_frames env now_ms fuel chunk (offset + consumed)))
               else feed_frames env now_ms fuel chunk (offset + consumed))))"

declare feed_frames.simps [simp del]

definition feed_frame_bytes :: "'w ws_env \<Rightarrow> byte list \<Rightarrow> int \<Rightarrow> ('w, unit) ws" where
  "feed_frame_bytes env chunk now_ms = reading (\<lambda>s.
     if fp_state (ws_frame_parser s) = FRAME_ERROR then ret () else feed_frames env now_ms (length chunk) chunk 0)"

fun drain_inbound_loop :: "'w ws_env \<Rightarrow> int \<Rightarrow> nat \<Rightarrow> nat \<Rightarrow> ('w, unit) ws" where
  "drain_inbound_loop env now_ms fuel remaining =
     (if remaining = 0 then ret ()
      else case fuel of
        0 \<Rightarrow> throw (RuntimeError ''out of fuel'')
      | Suc fuel \<Rightarrow> mbind (recv_chunk env remaining) (\<lambda>chunk.
          case chunk of
            None \<Rightarrow> ret ()
          | Some bs \<Rightarrow>
              if bs = [] then fail_with_error env (WebSocketProtocolError ''peer closed TCP without sending a CLOSE frame'')
              else andThen (feed_frame_bytes env bs now_ms)
                (reading (\<lambda>s. if ws_state s = CLOSED then ret () else drain_inbound_loop env now_ms fuel (remaining - length bs)))))"

declare drain_inbound_loop.simps [simp del]

definition drain_inbound :: "'w ws_env \<Rightarrow> int \<Rightarrow> ('w, unit) ws" where
  "drain_inbound env now_ms = reading (\<lambda>s.
     drain_inbound_loop env now_ms (wf_recv_budget_per_tick (ws_cfg s)) (wf_recv_budget_per_tick (ws_cfg s)))"

section \<open>Timers\<close>

definition due :: "'w ws_env \<Rightarrow> int \<Rightarrow> int option \<Rightarrow> bool" where
  "due env now_ms t = (case t of None \<Rightarrow> False | Some d \<Rightarrow> src_diff (we_ticks env) d now_ms \<le> 0)"

definition check_timeouts :: "'w ws_env \<Rightarrow> int \<Rightarrow> ('w, bool) ws" where
  "check_timeouts env now_ms = reading (\<lambda>s.
     if due env now_ms (ws_handshake_deadline_ticks s)
     then andThen (fail_with_error env (WebSocketTimeoutError ''handshake timeout'')) (ret True)
     else if due env now_ms (ws_close_deadline_ticks s)
     then andThen (modify (\<lambda>s. s\<lparr>ws_last_error := Some (WebSocketTimeoutError ''peer did not send CLOSE in time'')\<rparr>))
       (andThen (finalize_closed env) (ret True))
     else if due env now_ms (ws_pending_ping_deadline_ticks s)
     then andThen (fail_with_error env (WebSocketTimeoutError ''no PONG in time'')) (ret True)
     else ret False)"

definition arm_pong_deadline :: "'w ws_env \<Rightarrow> int option \<Rightarrow> ('w, unit) ws" where
  "arm_pong_deadline env now_ms = reading (\<lambda>s. case wf_pong_timeout_ms (ws_cfg s) of
     None \<Rightarrow> ret ()
   | Some t \<Rightarrow> if ws_pending_ping_deadline_ticks s \<noteq> None then ret ()
       else mbind (ws_deadline env now_ms t) (\<lambda>d. modify (\<lambda>s. s\<lparr>ws_pending_ping_deadline_ticks := Some d\<rparr>)))"

section \<open>The public interface\<close>

definition require_open :: "string \<Rightarrow> ('w, unit) ws \<Rightarrow> ('w, unit) ws" where
  "require_open msg m = reading (\<lambda>s. if ws_state s \<noteq> OPEN then throw (WebSocketStateError msg) else m)"

definition send_text :: "'w ws_env \<Rightarrow> pystr \<Rightarrow> ('w, unit) ws" where
  "send_text env text = require_open ''send_text() requires OPEN state''
     (mbind (lift (utf8_encode text)) (\<lambda>bs. enqueue_user_frame env OPCODE_TEXT bs))"

definition send_binary :: "'w ws_env \<Rightarrow> byte list \<Rightarrow> ('w, unit) ws" where
  "send_binary env data = require_open ''send_binary() requires OPEN state'' (enqueue_user_frame env OPCODE_BINARY data)"

definition send_ping :: "'w ws_env \<Rightarrow> byte list \<Rightarrow> ('w, unit) ws" where
  "send_ping env payload = require_open ''send_ping() requires OPEN state''
     (andThen (enqueue_user_frame env OPCODE_PING payload) (arm_pong_deadline env None))"

definition ws_close :: "'w ws_env \<Rightarrow> int \<Rightarrow> pystr \<Rightarrow> ('w, unit) ws" where
  "ws_close env code reason = reading (\<lambda>s.
     if ws_state s = CLOSING \<or> ws_state s = CLOSED then throw (WebSocketStateError ''close() not allowed'')
     else if ws_side s = ClientSide \<and> ws_state s = CONNECTING then
       andThen (modify (\<lambda>s. if ws_last_close_code s = None
         then s\<lparr>ws_last_close_code := Some code, ws_last_close_reason := reason\<rparr> else s))
      (andThen (drop_transport env) (andThen (on_finalized env) (call_on_close env code)))
     else send_close env code reason None)"

datatype ws_next_message_step = WsYields | WsReturns "InboundMessage option"

text \<open>\<open>next_message\<close> is a generator: its first run makes the queue, every resume runs the loop body.\<close>

definition ws_next_message_resume :: "('w, ws_next_message_step) ws" where
  "ws_next_message_resume = reading (\<lambda>s. case ws_inbound_queue s of
     Some (m # rest) \<Rightarrow> andThen (modify (\<lambda>s. s\<lparr>ws_inbound_queue := Some rest\<rparr>)) (ret (WsReturns (Some m)))
   | _ \<Rightarrow> if ws_state s = CLOSED then ret (WsReturns None) else ret WsYields)"

definition ws_next_message :: "('w, ws_next_message_step) ws" where
  "ws_next_message = andThen (modify (\<lambda>s. if ws_inbound_queue s = None then s\<lparr>ws_inbound_queue := Some []\<rparr> else s))
     ws_next_message_resume"

section \<open>The client\<close>

definition WebSocketClient_init :: "WsConfig \<Rightarrow> 'w \<Rightarrow> 'w WsSession" where
  "WebSocketClient_init cfg w = init_session_state ClientSide cfg None w"

definition ws_connect :: "'w ws_env \<Rightarrow> pystr \<Rightarrow> int option \<Rightarrow> (pystr \<times> pystr) list \<Rightarrow> ('w, unit) ws" where
  "ws_connect env url timeout_ms extra_headers = reading (\<lambda>s.
     if ws_connect_called s then throw (WebSocketStateError ''connect() may only be called once per WebSocketClient'')
     else
       andThen (modify (\<lambda>s. s\<lparr>ws_connect_called := True, ws_url := url\<rparr>))
      (mbind (lift (parse_ws_url url)) (\<lambda>(scheme, host, port, path).
       mbind (outside_result (we_factory env host port (scheme = ustr ''wss''))) (\<lambda>k.
       andThen (modify (\<lambda>s. s\<lparr>ws_connector := Some k, ws_pending_handshake := Some (host, port, path, extra_headers)\<rparr>))
      (mbind (ws_deadline env None (case timeout_ms of None \<Rightarrow> wf_handshake_timeout_ms (ws_cfg s) | Some t \<Rightarrow> t)) (\<lambda>d.
       modify (\<lambda>s. s\<lparr>ws_handshake_deadline_ticks := Some d, ws_state := CONNECTING,
         ws_connecting_phase := Some AWAITING_TRANSPORT\<rparr>)))))))"

definition on_transport_ready :: "'w ws_env \<Rightarrow> nat \<Rightarrow> ('w, unit) ws" where
  "on_transport_ready env k = reading (\<lambda>s.
     let sock = we_connector_socket env k (ws_world s) in
     andThen (modify (\<lambda>s. s\<lparr>ws_socket := Some sock, ws_connector := None\<rparr>))
    (andThen (ws_force_non_blocking env sock)
    (mbind (outside (we_urandom env 16)) (\<lambda>nonce.
     mbind (lift (make_websocket_key nonce)) (\<lambda>key.
     mbind (case ws_pending_handshake s of None \<Rightarrow> throw (TypeError ''no pending handshake'')
         | Some (host, port, path, extra_headers) \<Rightarrow> lift (encode_client_handshake host port path key extra_headers)) (\<lambda>request.
     andThen (modify (\<lambda>s. s\<lparr>ws_handshake_send_buffer := Some request, ws_handshake_send_offset := 0\<rparr>))
    (mbind (lift (derive_accept_key key)) (\<lambda>accept.
     modify (\<lambda>s. s\<lparr>ws_handshake_response_parser := Some (HandshakeParser_init (ResponseParser accept) DEFAULT_MAX_HEADER_BYTES),
       ws_pending_handshake := None, ws_connecting_phase := Some SENDING_HANDSHAKE\<rparr>)))))))))"

definition ws_advance_connector :: "'w ws_env \<Rightarrow> int \<Rightarrow> ('w, unit) ws" where
  "ws_advance_connector env now_ms = reading (\<lambda>s. case ws_connector s of
     None \<Rightarrow> throw AttributeError
   | Some k \<Rightarrow> andThen (outside_do (we_connector_tick env k now_ms)) (reading (\<lambda>s.
       if we_connector_state env k (ws_world s) = ''ready'' then on_transport_ready env k
       else if we_connector_state env k (ws_world s) = ''failed''
       then andThen (modify (\<lambda>s. s\<lparr>ws_connector := None\<rparr>)) (fail_with_error env (WebSocketStateError ''connector failed''))
       else ret ())))"

definition arm_auto_ping :: "'w ws_env \<Rightarrow> int \<Rightarrow> ('w, unit) ws" where
  "arm_auto_ping env now_ms = reading (\<lambda>s. case wf_ping_interval_ms (ws_cfg s) of
     None \<Rightarrow> ret ()
   | Some t \<Rightarrow> mbind (ws_deadline env (Some now_ms) t) (\<lambda>d. modify (\<lambda>s. s\<lparr>ws_next_auto_ping_ticks := Some d\<rparr>)))"

definition maybe_emit_auto_ping :: "'w ws_env \<Rightarrow> int \<Rightarrow> ('w, unit) ws" where
  "maybe_emit_auto_ping env now_ms = reading (\<lambda>s.
     if \<not> due env now_ms (ws_next_auto_ping_ticks s) then ret ()
     else
       andThen (enqueue_internal_frame env OPCODE_PING [])
      (andThen (arm_pong_deadline env (Some now_ms))
        (case wf_ping_interval_ms (ws_cfg s) of
           None \<Rightarrow> throw (TypeError ''unsupported operand'')
         | Some t \<Rightarrow> mbind (ws_deadline env (Some now_ms) t) (\<lambda>d. modify (\<lambda>s. s\<lparr>ws_next_auto_ping_ticks := Some d\<rparr>)))))"

text \<open>\<^verbatim>\<open>feed\<close> of a handshake parser that a field holds; a raise leaves the parser as it is then.\<close>

definition feed_response :: "byte list \<Rightarrow> ('w, unit) ws" where
  "feed_response chunk s = (case ws_handshake_response_parser s of
     None \<Rightarrow> (Inl AttributeError, s)
   | Some p \<Rightarrow> (case hs_feed chunk p of (r, p1) \<Rightarrow> (r, s\<lparr>ws_handshake_response_parser := Some p1\<rparr>)))"

definition is_WebSocketHandshakeError :: "exn \<Rightarrow> bool" where
  "is_WebSocketHandshakeError e = (case e of WebSocketHandshakeError _ \<Rightarrow> True | _ \<Rightarrow> False)"

definition drain_carry :: "'w ws_env \<Rightarrow> int \<Rightarrow> ('w, unit) ws" where
  "drain_carry env now_ms = reading (\<lambda>s. whenever (ws_post_handshake_carry s \<noteq> [])
     (andThen (feed_frame_bytes env (ws_post_handshake_carry s) now_ms) (modify (\<lambda>s. s\<lparr>ws_post_handshake_carry := []\<rparr>))))"

definition client_opened :: "'w ws_env \<Rightarrow> HandshakeParser \<Rightarrow> int \<Rightarrow> ('w, unit) ws" where
  "client_opened env p now_ms =
     andThen (modify (\<lambda>s. s\<lparr>ws_post_handshake_carry := hp_leftover p, ws_handshake_send_buffer := None,
         ws_handshake_response_parser := None, ws_connecting_phase := None, ws_handshake_deadline_ticks := None, ws_state := OPEN\<rparr>))
    (andThen (arm_auto_ping env now_ms) (andThen (user env OnOpen) (drain_carry env now_ms)))"

definition client_receive_handshake_chunk :: "'w ws_env \<Rightarrow> int \<Rightarrow> ('w, unit) ws" where
  "client_receive_handshake_chunk env now_ms = reading (\<lambda>s.
     mbind (recv_chunk env (wf_recv_budget_per_tick (ws_cfg s))) (\<lambda>chunk.
     case chunk of
       None \<Rightarrow> ret ()
     | Some bs \<Rightarrow>
         if bs = [] then fail_with_error env (WebSocketHandshakeError ''peer closed connection mid-handshake'')
         else mbind (catch (andThen (feed_response bs) (ret True))
             (\<lambda>e. if is_WebSocketHandshakeError e then andThen (fail_with_error env e) (ret False) else throw e)) (\<lambda>fed.
           whenever fed (reading (\<lambda>s. case ws_handshake_response_parser s of
               None \<Rightarrow> throw AttributeError
             | Some p \<Rightarrow> whenever (hp_state p = DONE) (client_opened env p now_ms))))))"

section \<open>The server side\<close>

definition Connection_init :: "'w ws_env \<Rightarrow> WsConfig \<Rightarrow> nat \<Rightarrow> int \<Rightarrow> 'w \<Rightarrow> 'w WsSession result" where
  "Connection_init env cfg sock now_ms w =
     (let s = init_session_state ServerSide cfg (Some sock) w in
      case ws_force_non_blocking env sock s of
        (Inl e, _) \<Rightarrow> Inl e
      | (Inr _, s1) \<Rightarrow> rbind (src_add (we_ticks env) now_ms (wf_handshake_timeout_ms cfg)) (\<lambda>d.
          Inr (s1\<lparr>ws_handshake_phase := Some READING_REQUEST,
            ws_handshake_request_parser := Some (HandshakeParser_init RequestParser DEFAULT_MAX_HEADER_BYTES),
            ws_handshake_deadline_ticks := Some d\<rparr>)))"

definition feed_request :: "byte list \<Rightarrow> ('w, unit) ws" where
  "feed_request chunk s = (case ws_handshake_request_parser s of
     None \<Rightarrow> (Inl AttributeError, s)
   | Some p \<Rightarrow> (case hs_feed chunk p of (r, p1) \<Rightarrow> (r, s\<lparr>ws_handshake_request_parser := Some p1\<rparr>)))"

definition enter_open :: "'w ws_env \<Rightarrow> int \<Rightarrow> ('w, unit) ws" where
  "enter_open env now_ms =
     andThen (modify (\<lambda>s. s\<lparr>ws_handshake_request_parser := None, ws_handshake_send_buffer := None, ws_handshake_phase := None,
         ws_handshake_deadline_ticks := None, ws_state := OPEN\<rparr>))
    (mbind (catch (andThen (user env OnConnection) (ret True))
         (\<lambda>e. if is_Exception e
           then andThen (fail_with_error env (WebSocketError ''on_connection callback raised'')) (ret False) else throw e)) (\<lambda>ok.
       whenever ok (drain_carry env now_ms)))"

definition send_rejection_response :: "'w ws_env \<Rightarrow> int \<Rightarrow> pystr \<Rightarrow> byte list \<Rightarrow> ('w, unit) ws" where
  "send_rejection_response env status_code reason_phrase body =
     mbind (lift (encode_server_rejection status_code reason_phrase (Some body) (ustr ''text/plain; charset=utf-8''))) (\<lambda>response.
     andThen (swallow is_Exception (mbind (ws_send_raw env response) (\<lambda>_. ret ()))) (drop_transport env))"

definition reject :: "'w ws_env \<Rightarrow> int \<Rightarrow> pystr \<Rightarrow> pystr \<Rightarrow> ('w, unit) ws" where
  "reject env status_code reason_phrase message =
     mbind (lift (utf8_encode message)) (\<lambda>body.
     andThen (send_rejection_response env status_code reason_phrase body)
       (modify (\<lambda>s. s\<lparr>ws_last_error := Some (WebSocketHandshakeError ''rejected'')\<rparr>)))"

definition server_accept :: "'w ws_env \<Rightarrow> HandshakeParser \<Rightarrow> ('w, unit) ws" where
  "server_accept env p =
     mbind (lift (encode_server_handshake_response (client_key p) [])) (\<lambda>response.
     modify (\<lambda>s. s\<lparr>ws_handshake_send_buffer := Some response, ws_handshake_send_offset := 0, ws_request_path := hp_path p,
       ws_request_headers := Some (hp_headers p), ws_post_handshake_carry := hp_leftover p, ws_handshake_phase := Some SENDING_RESPONSE\<rparr>))"

definition server_receive_handshake_chunk :: "'w ws_env \<Rightarrow> ('w, unit) ws" where
  "server_receive_handshake_chunk env = reading (\<lambda>s.
     mbind (recv_chunk env (wf_recv_budget_per_tick (ws_cfg s))) (\<lambda>chunk.
     case chunk of
       None \<Rightarrow> ret ()
     | Some bs \<Rightarrow>
         if bs = [] then fail_with_error env (WebSocketHandshakeError ''client closed connection mid-handshake'')
         else mbind (catch (andThen (feed_request bs) (ret True))
             (\<lambda>e. if is_WebSocketHandshakeError e
               then andThen (reject env 400 (ustr ''Bad Request'') (we_text env e)) (ret False) else throw e)) (\<lambda>fed.
           whenever fed (reading (\<lambda>s. case ws_handshake_request_parser s of
               None \<Rightarrow> throw AttributeError
             | Some p \<Rightarrow>
                 if hp_state p \<noteq> DONE then ret ()
                 else if wf_accept_path (ws_cfg s) \<noteq> None \<and> wf_accept_path (ws_cfg s) \<noteq> Some (hp_path p)
                 then reject env 404 (ustr ''Not Found'') (ustr ''path '' @ we_repr env (hp_path p) @ ustr '' not handled'')
                 else server_accept env p)))))"

section \<open>A tick\<close>

definition on_handshake_send_complete :: "'w ws_env \<Rightarrow> int \<Rightarrow> ('w, unit) ws" where
  "on_handshake_send_complete env now_ms = reading (\<lambda>s. case ws_side s of
     ClientSide \<Rightarrow> modify (\<lambda>s. s\<lparr>ws_connecting_phase := Some RECEIVING_HANDSHAKE\<rparr>)
   | ServerSide \<Rightarrow> enter_open env now_ms)"

definition send_handshake_chunk :: "'w ws_env \<Rightarrow> int \<Rightarrow> ('w, unit) ws" where
  "send_handshake_chunk env now_ms = reading (\<lambda>s. case ws_handshake_send_buffer s of
     None \<Rightarrow> throw (TypeError ''NoneType object is not subscriptable'')
   | Some buffer \<Rightarrow>
       let remaining = drop (ws_handshake_send_offset s) buffer in
       if remaining = [] then on_handshake_send_complete env now_ms
       else mbind (try_send env (take (wf_send_budget_per_tick (ws_cfg s)) remaining)
           (\<lambda>e. WebSocketHandshakeError ''socket error during handshake send'')) (\<lambda>sent.
         if sent = 0 then ret ()
         else andThen (modify (\<lambda>s. s\<lparr>ws_handshake_send_offset := ws_handshake_send_offset s + sent\<rparr>))
           (whenever (ws_handshake_send_offset s + sent \<ge> length buffer) (on_handshake_send_complete env now_ms))))"

definition client_connecting :: "'w ws_env \<Rightarrow> int \<Rightarrow> ConnectingPhase option \<Rightarrow> ('w, unit) ws" where
  "client_connecting env now_ms phase = (case phase of
     None \<Rightarrow> ret ()
   | Some AWAITING_TRANSPORT \<Rightarrow> ws_advance_connector env now_ms
   | Some SENDING_HANDSHAKE \<Rightarrow> send_handshake_chunk env now_ms
   | Some RECEIVING_HANDSHAKE \<Rightarrow> client_receive_handshake_chunk env now_ms)"

definition WebSocketClient_handle :: "'w ws_env \<Rightarrow> int \<Rightarrow> ('w, unit) ws" where
  "WebSocketClient_handle env now_ms = reading (\<lambda>s.
     if ws_state s = CLOSED \<or> \<not> ws_connect_called s then ret ()
     else mbind (check_timeouts env now_ms) (\<lambda>timed_out. whenever (\<not> timed_out)
       (if ws_state s = CONNECTING then client_connecting env now_ms (ws_connecting_phase s)
        else andThen (drain_inbound env now_ms)
            (andThen (drain_outbound env)
            (reading (\<lambda>s. whenever (ws_state s = OPEN) (maybe_emit_auto_ping env now_ms)))))))"

definition Connection_handle :: "'w ws_env \<Rightarrow> int \<Rightarrow> ('w, unit) ws" where
  "Connection_handle env now_ms = reading (\<lambda>s.
     if ws_state s = CLOSED then ret ()
     else mbind (check_timeouts env now_ms) (\<lambda>timed_out. whenever (\<not> timed_out)
       (if ws_state s = CONNECTING then
          (case ws_handshake_phase s of
             None \<Rightarrow> ret ()
           | Some READING_REQUEST \<Rightarrow> server_receive_handshake_chunk env
           | Some SENDING_RESPONSE \<Rightarrow> send_handshake_chunk env now_ms)
        else andThen (drain_inbound env now_ms) (drain_outbound env))))"

end
