(* ===== verification/Ws_Session_Inv.thy ===== *)
theory Ws_Session_Inv
  imports Ws_Session
begin

text \<open>
  The invariant of a WebSocket session: its queues hold well-formed frames, masked as the side
  requires, within their caps; inbound memory is bounded by the message cap; every state that waits
  for the peer has its timer armed, and a closed session has none. Every method keeps it, whether it
  returns or raises, with callbacks that call any method of the session again.
\<close>

section \<open>The invariant\<close>

definition frame_ok :: "session_side \<Rightarrow> byte list \<Rightarrow> bool" where
  "frame_ok sd f \<longleftrightarrow> (\<exists>op payload m. encode_frame op payload True m = Inr f \<and> (m \<noteq> None \<longleftrightarrow> sd = ClientSide))"

definition queues_ok :: "WsConfig \<Rightarrow> session_side \<Rightarrow> byte list list \<Rightarrow> (byte list \<times> nat) option \<Rightarrow> bool" where
  "queues_ok cf sd q part \<longleftrightarrow> length q \<le> wf_max_tx_queue_size cf + TX_QUEUE_HEADROOM \<and> (\<forall>f \<in> set q. frame_ok sd f)
     \<and> (case part of None \<Rightarrow> True | Some (b, off) \<Rightarrow> frame_ok sd b \<and> off < length b)"

definition inbound_ok :: "WsConfig \<Rightarrow> 'w WsSession \<Rightarrow> bool" where
  "inbound_ok cf s \<longleftrightarrow> fp_inv (ws_frame_parser s) \<and> fp_max_payload_bytes (ws_frame_parser s) = wf_max_message_bytes cf
     \<and> length (ws_inbound_message_buffer s) \<le> wf_max_message_bytes cf
     \<and> (\<forall>q. ws_inbound_queue s = Some q \<longrightarrow> length q \<le> wf_max_inbound_queue_size cf)
     \<and> (ws_inbound_message_opcode s = None \<longrightarrow> ws_inbound_message_buffer s = [] \<and> \<not> ws_inbound_oversized s
          \<and> ws_inbound_reported_length s = 0 \<and> ws_inbound_empty_fragment_run s = 0)"

definition timers_ok :: "session_side \<Rightarrow> 'w WsSession \<Rightarrow> bool" where
  "timers_ok sd s \<longleftrightarrow>
     (ws_state s = CLOSED \<longrightarrow> ws_handshake_deadline_ticks s = None \<and> ws_close_deadline_ticks s = None
        \<and> ws_pending_ping_deadline_ticks s = None \<and> ws_next_auto_ping_ticks s = None)
     \<and> (ws_state s = CLOSING \<longrightarrow> ws_close_deadline_ticks s \<noteq> None)
     \<and> (ws_state s = CONNECTING \<and> (sd = ServerSide \<or> ws_connecting_phase s \<noteq> None) \<longrightarrow> ws_handshake_deadline_ticks s \<noteq> None)
     \<and> (sd = ServerSide \<longrightarrow> ws_next_auto_ping_ticks s = None)"

definition ws_inv :: "WsConfig \<Rightarrow> session_side \<Rightarrow> 'w WsSession \<Rightarrow> bool" where
  "ws_inv cf sd s \<longleftrightarrow> ws_cfg s = cf \<and> ws_side s = sd \<and> queues_ok cf sd (ws_tx_queue s) (ws_tx_partial s)
     \<and> inbound_ok cf s \<and> timers_ok sd s"

lemma ws_inv_frame [simp]:
  "ws_inv cf sd (s\<lparr>ws_world := w\<rparr>) = ws_inv cf sd s" "ws_inv cf sd (s\<lparr>ws_socket := so\<rparr>) = ws_inv cf sd s"
  "ws_inv cf sd (s\<lparr>ws_post_handshake_carry := bs\<rparr>) = ws_inv cf sd s" "ws_inv cf sd (s\<lparr>ws_handshake_send_buffer := hb\<rparr>) = ws_inv cf sd s"
  "ws_inv cf sd (s\<lparr>ws_handshake_send_offset := n\<rparr>) = ws_inv cf sd s" "ws_inv cf sd (s\<lparr>ws_last_close_code := c\<rparr>) = ws_inv cf sd s"
  "ws_inv cf sd (s\<lparr>ws_last_close_reason := r\<rparr>) = ws_inv cf sd s" "ws_inv cf sd (s\<lparr>ws_last_error := e\<rparr>) = ws_inv cf sd s"
  "ws_inv cf sd (s\<lparr>ws_connector := k\<rparr>) = ws_inv cf sd s" "ws_inv cf sd (s\<lparr>ws_connect_called := b\<rparr>) = ws_inv cf sd s"
  "ws_inv cf sd (s\<lparr>ws_url := u\<rparr>) = ws_inv cf sd s" "ws_inv cf sd (s\<lparr>ws_pending_handshake := ph\<rparr>) = ws_inv cf sd s"
  "ws_inv cf sd (s\<lparr>ws_handshake_response_parser := rp\<rparr>) = ws_inv cf sd s" "ws_inv cf sd (s\<lparr>ws_handshake_phase := hp\<rparr>) = ws_inv cf sd s"
  "ws_inv cf sd (s\<lparr>ws_handshake_request_parser := rp\<rparr>) = ws_inv cf sd s" "ws_inv cf sd (s\<lparr>ws_request_path := p\<rparr>) = ws_inv cf sd s"
  "ws_inv cf sd (s\<lparr>ws_request_headers := h\<rparr>) = ws_inv cf sd s"
  by (simp_all add: ws_inv_def inbound_ok_def timers_ok_def)

lemma ws_inv_side: "ws_inv cf sd s \<Longrightarrow> ws_side s = sd" "ws_inv cf sd s \<Longrightarrow> ws_cfg s = cf"
  by (simp_all add: ws_inv_def)

lemma ws_inv_phase_None: "ws_inv cf sd s \<Longrightarrow> ws_inv cf sd (s\<lparr>ws_connecting_phase := None\<rparr>)"
  by (auto simp: ws_inv_def inbound_ok_def timers_ok_def)

lemma ws_inv_init: "ws_inv cf ClientSide (WebSocketClient_init cf w)"
  by (simp add: ws_inv_def WebSocketClient_init_def init_session_state_def queues_ok_def inbound_ok_def timers_ok_def
      fp_inv_init) (simp add: FrameParser_init_def)

section \<open>Calls outside and the transmit queue\<close>

lemma keeps_outside [keeps_intros]: "keeps (ws_inv cf sd) (outside f)"
  by (auto simp: keeps_def outside_def split: prod.split)

lemma keeps_outside_result [keeps_intros]: "keeps (ws_inv cf sd) (outside_result g)" "keeps (ws_inv cf sd) (outside_do h)"
  unfolding outside_result_def outside_do_def by (intro keeps_intros)+

lemma keeps_ws_frame: "(\<And>s. ws_inv cf sd (f s) = ws_inv cf sd s) \<Longrightarrow> keeps (ws_inv cf sd) (modify f)"
  by (simp add: keeps_def)

lemma keeps_ws_deadline [keeps_intros]: "keeps (ws_inv cf sd) (ws_deadline env now off)"
  unfolding ws_deadline_def by (intro keeps_intros)

lemma keeps_ws_force [keeps_intros]: "keeps (ws_inv cf sd) (ws_force_non_blocking env k)"
  unfolding ws_force_non_blocking_def by (intro keeps_intros)

lemma outbound_mask_side:
  "valid (ws_inv cf sd) (outbound_mask env) (\<lambda>m s. ws_inv cf sd s \<and> (m \<noteq> None \<longleftrightarrow> sd = ClientSide)) (\<lambda>_. ws_inv cf sd)"
  by (rule validI) (auto simp: outbound_mask_def reading_def outside_def prog_simps dest: ws_inv_side split: session_side.splits prod.splits)

lemma queues_append:
  assumes "ws_inv cf sd s" "length (ws_tx_queue s) < ws_tx_queue_hard_cap s" "frame_ok sd f"
  shows "ws_inv cf sd (s\<lparr>ws_tx_queue := deque_append (ws_tx_queue_hard_cap s) (ws_tx_queue s) f\<rparr>)"
  using assms by (auto simp: ws_inv_def queues_ok_def ws_tx_queue_hard_cap_def deque_append_room inbound_ok_def timers_ok_def)

lemma append_frame_inv:
  assumes "ws_inv cf sd s" "length (ws_tx_queue s) < ws_tx_queue_hard_cap s"
  shows "ws_inv cf sd (snd (append_frame env op payload s))"
proof (cases "outbound_mask env s")
  case (Pair r s1)
  have s1: "ws_inv cf sd s1" "r = Inr m \<Longrightarrow> (m \<noteq> None) = (sd = ClientSide)" for m
    using validD_Inr [OF outbound_mask_side assms(1)] validD_Inl [OF outbound_mask_side assms(1)] Pair by (cases r; fastforce)+
  have q: "length (ws_tx_queue s1) < ws_tx_queue_hard_cap s1"
    using assms(2) Pair by (auto simp: outbound_mask_def reading_def outside_def prog_simps ws_tx_queue_hard_cap_def
        split: session_side.splits prod.splits)
  show ?thesis
  proof (cases "\<exists>m f. r = Inr m \<and> encode_frame op payload True m = Inr f")
    case True
    then obtain m f where "r = Inr m" "encode_frame op payload True m = Inr f" by blast
    then show ?thesis using Pair s1 queues_append [OF s1(1) q, of f] by (auto simp: append_frame_def prog_simps frame_ok_def)
  next
    case False
    then show ?thesis using Pair s1 by (auto simp: append_frame_def prog_simps split: sum.splits)
  qed
qed

lemma keeps_enqueue_user_frame [keeps_intros]: "keeps (ws_inv cf sd) (enqueue_user_frame env op payload)"
  unfolding enqueue_user_frame_def
  by (rule keeps_reading) (auto intro!: append_frame_inv simp: ws_tx_queue_hard_cap_def TX_QUEUE_HEADROOM_def)

lemma keeps_enqueue_internal_frame [keeps_intros]: "keeps (ws_inv cf sd) (enqueue_internal_frame env op payload)"
  unfolding enqueue_internal_frame_def Let_def
  by (rule keeps_reading) (auto intro!: append_frame_inv simp: ws_tx_queue_hard_cap_def TX_QUEUE_HEADROOM_def)

section \<open>Closing\<close>

text \<open>The clock can add the close timeout to any time.\<close>

definition close_timer_ok :: "WsConfig \<Rightarrow> 'w ws_env \<Rightarrow> bool" where
  "close_timer_ok cf env \<longleftrightarrow> (\<forall>t. \<exists>d. src_add (we_ticks env) t (wf_close_timeout_ms cf) = Inr d)"

lemma ws_deadline_total:
  assumes "close_timer_ok cf env"
  shows "\<exists>d w. ws_deadline env now (wf_close_timeout_ms cf) s = (Inr d, s\<lparr>ws_world := w\<rparr>)"
  using assms
  by (auto simp: ws_deadline_def prog_simps outside_def close_timer_ok_def split: option.split prod.split)
    (metis WsSession.surjective WsSession.update_convs(34))+

lemma keeps_send_close [keeps_intros]:
  assumes "close_timer_ok cf env"
  shows "keeps (ws_inv cf sd) (send_close env code reason now)"
proof -
  let ?tail = "\<lambda>cf'. andThen (modify (\<lambda>s. s\<lparr>ws_state := CLOSING\<rparr>))
      (mbind (ws_deadline env now (wf_close_timeout_ms cf')) (\<lambda>d. modify (\<lambda>s. s\<lparr>ws_close_deadline_ticks := Some d\<rparr>)))"
  have tail: "keeps (ws_inv cf sd) (?tail cf)"
  proof (rule keepsI)
    fix s :: "'a WsSession"
    assume inv: "ws_inv cf sd s"
    obtain d w where "ws_deadline env now (wf_close_timeout_ms cf) (s\<lparr>ws_state := CLOSING\<rparr>)
        = (Inr d, s\<lparr>ws_state := CLOSING\<rparr>\<lparr>ws_world := w\<rparr>)"
      using ws_deadline_total [OF assms] by blast
    then show "ws_inv cf sd (snd (?tail cf s))"
      using inv by (simp add: prog_simps) (simp add: ws_inv_def inbound_ok_def timers_ok_def)
  qed
  have "keeps (ws_inv cf sd) (?tail (ws_cfg s))" if "ws_inv cf sd s" for s :: "'a WsSession"
    using that tail by (simp add: ws_inv_def)
  then show ?thesis unfolding send_close_def
    by (intro keeps_reading_inv keeps_if keeps_basic keeps_lift keeps_andThen [OF _ keeps_andThen [OF keeps_ws_frame]]
        keeps_enqueue_internal_frame) simp_all
qed

lemma keeps_ws_close_socket [keeps_intros]: "keeps (ws_inv cf sd) (ws_close_socket env)"
  unfolding ws_close_socket_def by (intro keeps_intros)

text \<open>A transport is dropped and the side's own state cleared; only then does user code run.\<close>

lemma swallowed_close: "\<exists>r w. swallow is_Exception (ws_close_socket env) s = (r, s\<lparr>ws_world := w\<rparr>)"
  by (auto simp: swallow_def ws_close_socket_def reading_def prog_simps outside_do_def outside_def intro: exI [of _ "ws_world s"]
      split: option.splits prod.splits)

abbreviation closed_state :: "'w WsSession \<Rightarrow> 'w WsSession" where
  "closed_state s \<equiv> s\<lparr>ws_state := CLOSED, ws_handshake_deadline_ticks := None, ws_close_deadline_ticks := None,
     ws_pending_ping_deadline_ticks := None\<rparr>"

lemma drop_transport_run:
  "\<exists>(r :: unit result) w. drop_transport env s
     = (case r of Inl e \<Rightarrow> (Inl e, s\<lparr>ws_world := w\<rparr>) | Inr _ \<Rightarrow> (Inr (), closed_state (s\<lparr>ws_world := w\<rparr>)))"
proof -
  obtain r w where "swallow is_Exception (ws_close_socket env) s = (r, s\<lparr>ws_world := w\<rparr>)"
    using swallowed_close [of env s] by blast
  then show ?thesis
    by (intro exI [of _ r] exI [of _ w]) (cases r; simp add: drop_transport_def run_andThen)
qed

lemma keeps_drop_server: "keeps (ws_inv cf ServerSide) (drop_transport env)"
proof (rule keepsI)
  fix s :: "'a WsSession"
  assume inv: "ws_inv cf ServerSide s"
  obtain r :: "unit result" and w where d: "drop_transport env s
     = (case r of Inl e \<Rightarrow> (Inl e, s\<lparr>ws_world := w\<rparr>) | Inr _ \<Rightarrow> (Inr (), closed_state (s\<lparr>ws_world := w\<rparr>)))"
    using drop_transport_run [of env s] by blast
  have "ws_inv cf ServerSide (closed_state s)" using inv by (auto simp: ws_inv_def inbound_ok_def timers_ok_def)
  with d inv show "ws_inv cf ServerSide (snd (drop_transport env s))"
    by (cases r) (simp_all add: ws_inv_def inbound_ok_def timers_ok_def)
qed

lemma closed_finalized:
  assumes "ws_inv cf sd s"
  shows "ws_inv cf sd (snd (on_finalized env (closed_state s)))"
proof (cases sd)
  case ServerSide
  then show ?thesis using assms
    by (auto simp: on_finalized_def reading_def ws_inv_def inbound_ok_def timers_ok_def)
next
  case ClientSide
  let ?s = "(closed_state s)\<lparr>ws_handshake_deadline_ticks := None, ws_next_auto_ping_ticks := None\<rparr>"
  have inv: "ws_inv cf sd ?s" using assms by (auto simp: ws_inv_def inbound_ok_def timers_ok_def)
  have "keeps (ws_inv cf sd) (andThen (case ws_connector s of
           None \<Rightarrow> ret ()
         | Some k \<Rightarrow> andThen (swallow is_Exception (outside_do (we_connector_cancel env k)))
             (modify (\<lambda>s. s\<lparr>ws_connector := None\<rparr>)))
        (modify (\<lambda>s. s\<lparr>ws_connecting_phase := None\<rparr>)))"
    by (intro keeps_intros keeps_modify) (auto intro: ws_inv_phase_None)
  from keeps_snd [OF this inv] ClientSide ws_inv_side(1) [OF assms] show ?thesis
    by (simp add: on_finalized_def reading_def run_andThen [of "modify _"])
qed

lemma keeps_drop_then:
  assumes "keeps (ws_inv cf sd) m"
  shows "keeps (ws_inv cf sd) (andThen (drop_transport env) (andThen (on_finalized env) m))"
proof (rule keepsI)
  fix s :: "'a WsSession"
  assume inv: "ws_inv cf sd s"
  obtain r :: "unit result" and w where d: "drop_transport env s = (case r of Inl e \<Rightarrow> (Inl e, s\<lparr>ws_world := w\<rparr>) | Inr _ \<Rightarrow> (Inr (), closed_state (s\<lparr>ws_world := w\<rparr>)))"
    using drop_transport_run [of env s] by blast
  have "ws_inv cf sd (snd (on_finalized env (closed_state (s\<lparr>ws_world := w\<rparr>))))"
    using closed_finalized [of cf sd "s\<lparr>ws_world := w\<rparr>"] inv by simp
  then show "ws_inv cf sd (snd (andThen (drop_transport env) (andThen (on_finalized env) m) s))"
    using d inv assms by (cases r) (auto simp: run_andThen keeps_def split: prod.splits sum.splits)
qed

definition callbacks_keep :: "WsConfig \<Rightarrow> 'w ws_env \<Rightarrow> bool" where
  "callbacks_keep cf env \<longleftrightarrow> (\<forall>sd cb. keeps (ws_inv cf sd) (we_call env cb))"

lemma keeps_user [keeps_intros]: "callbacks_keep cf env \<Longrightarrow> keeps (ws_inv cf sd) (user env cb)"
  by (simp add: callbacks_keep_def user_def)

lemma keeps_call_on_close [keeps_intros]: "callbacks_keep cf env \<Longrightarrow> keeps (ws_inv cf sd) (call_on_close env c)"
  unfolding call_on_close_def by (intro keeps_intros)

lemma keeps_fail_with_error [keeps_intros]: "callbacks_keep cf env \<Longrightarrow> keeps (ws_inv cf sd) (fail_with_error env e)"
  unfolding fail_with_error_def
  by (intro keeps_drop_then keeps_andThen [OF keeps_ws_frame] keeps_call_on_close) simp_all

section \<open>The socket\<close>

lemma keeps_ws_send_raw [keeps_intros]: "keeps (ws_inv cf sd) (ws_send_raw env chunk)"
  unfolding ws_send_raw_def by (intro keeps_intros)

lemma keeps_try_send [keeps_intros]: "callbacks_keep cf env \<Longrightarrow> keeps (ws_inv cf sd) (try_send env chunk f)"
  unfolding try_send_def by (intro keeps_intros)

lemma keeps_recv_chunk [keeps_intros]: "callbacks_keep cf env \<Longrightarrow> keeps (ws_inv cf sd) (recv_chunk env n)"
  unfolding recv_chunk_def by (intro keeps_intros)

lemma encode_frame_nonempty: "encode_frame op payload fin m = Inr f \<Longrightarrow> 0 < length f"
  by (elim encode_frameD) simp

lemma frame_ok_nonempty: "frame_ok sd f \<Longrightarrow> 0 < length f"
  unfolding frame_ok_def using encode_frame_nonempty by blast

lemma ws_inv_partial:
  assumes "ws_inv cf sd s"
  shows "queues_ok cf sd q part \<Longrightarrow> ws_inv cf sd (s\<lparr>ws_tx_queue := q, ws_tx_partial := part\<rparr>)"
    "(case part of None \<Rightarrow> True | Some (b, off) \<Rightarrow> frame_ok sd b \<and> off < length b) \<Longrightarrow> ws_inv cf sd (s\<lparr>ws_tx_partial := part\<rparr>)"
  using assms by (auto simp: ws_inv_def queues_ok_def inbound_ok_def timers_ok_def)

lemma keeps_drain_outbound_loop:
  assumes "callbacks_keep cf env"
  shows "keeps (ws_inv cf sd) (drain_outbound_loop env fuel budget)"
proof (induction fuel arbitrary: budget)
  case 0
  then show ?case by (subst drain_outbound_loop.simps) (intro keeps_intros, simp)
next
  case (Suc fuel)
  have step: "keeps (ws_inv cf sd) (andThen (modify (\<lambda>s. s\<lparr>ws_tx_queue := rest, ws_tx_partial := Some (b, off)\<rparr>))
      (mbind (try_send env chunk f) (\<lambda>sent. if sent = 0 then ret ()
        else andThen (modify (\<lambda>s. s\<lparr>ws_tx_partial := (if off + sent \<ge> length b then None else Some (b, off + sent))\<rparr>))
          (drain_outbound_loop env fuel (budget - sent)))))"
    if "queues_ok cf sd rest (Some (b, off))" for rest b off chunk f
    using that assms
    by (intro keeps_andThen keeps_mbind keeps_if keeps_basic keeps_modify ws_inv_partial Suc.IH keeps_try_send)
       (auto simp: queues_ok_def)
  show ?case
  proof (cases "budget = 0")
    case False
    show ?thesis
      unfolding drain_outbound_loop.simps [of env "Suc fuel" budget] if_not_P [OF False] nat.case
    proof (rule keeps_reading_inv)
      fix s :: "'a WsSession"
      assume "ws_inv cf sd s"
      then have q: "queues_ok cf sd (ws_tx_queue s) (ws_tx_partial s)" by (simp add: ws_inv_def)
      show "keeps (ws_inv cf sd) (case case ws_tx_partial s of
              Some p \<Rightarrow> Some (p, ws_tx_queue s)
            | None \<Rightarrow> (case ws_tx_queue s of [] \<Rightarrow> None | f # fs \<Rightarrow> Some ((f, 0), fs)) of
            None \<Rightarrow> ret ()
          | Some ((buffer, offset), rest) \<Rightarrow>
              andThen (modify (\<lambda>s. s\<lparr>ws_tx_queue := rest, ws_tx_partial := Some (buffer, offset)\<rparr>))
             (mbind (try_send env (take budget (drop offset buffer))
                 (\<lambda>e. WebSocketProtocolError ''socket error during send'')) (\<lambda>sent.
              if sent = 0 then ret ()
              else andThen (modify (\<lambda>s. s\<lparr>ws_tx_partial := (if offset + sent \<ge> length buffer then None else Some (buffer, offset + sent))\<rparr>))
                (drain_outbound_loop env fuel (budget - sent)))))"
      proof (cases "ws_tx_partial s")
        case None
        then show ?thesis using q
          by (cases "ws_tx_queue s") (auto intro!: step simp: queues_ok_def dest: frame_ok_nonempty)
      next
        case (Some p)
        then show ?thesis using q by (cases p) (auto intro!: step simp: queues_ok_def)
      qed
    qed
  qed (simp add: drain_outbound_loop.simps del: run_simps)
qed

lemma keeps_drain_outbound [keeps_intros]: "callbacks_keep cf env \<Longrightarrow> keeps (ws_inv cf sd) (drain_outbound env)"
  unfolding drain_outbound_def by (intro keeps_reading_inv keeps_drain_outbound_loop)

lemma keeps_finalize_closed [keeps_intros]: "callbacks_keep cf env \<Longrightarrow> keeps (ws_inv cf sd) (finalize_closed env)"
  unfolding finalize_closed_def by (intro keeps_andThen [OF keeps_reading_inv] keeps_drop_then keeps_intros)

section \<open>Inbound frames\<close>

lemma after_mask_max [simp]: "fp_max_payload_bytes (after_mask p) = fp_max_payload_bytes p"
  by (simp add: after_mask_def)

lemma after_length_max: "after_length p = (q, e) \<Longrightarrow> fp_max_payload_bytes q = fp_max_payload_bytes p"
  by (auto simp: after_length_def Let_def fp_fail_def split: if_splits)

lemma dispatch_field_max: "dispatch_field p = (q, e) \<Longrightarrow> fp_max_payload_bytes q = fp_max_payload_bytes p"
  by (auto simp: dispatch_field_def dispatch_header_def Let_def fp_fail_def
      split: FrameParseState.splits if_splits dest!: after_length_max)

lemma feed_step_max: "feed_step p bs = (q, e, n) \<Longrightarrow> fp_max_payload_bytes q = fp_max_payload_bytes p"
  by (auto simp: feed_step_def take_payload_def take_drain_def take_field_def Let_def
      split: FrameParseState.splits if_splits prod.splits option.splits dest!: dispatch_field_max)

lemma feed_loop_max: "feed_loop p bs c = (q, r) \<Longrightarrow> fp_max_payload_bytes q = fp_max_payload_bytes p"
proof (induction p bs c rule: feed_loop.induct)
  case (1 p bs c)
  show ?case
  proof (cases "bs = [] \<or> feed_done p")
    case True
    then show ?thesis using 1(2) by (auto simp: feed_loop.simps [of p])
  next
    case False
    obtain p1 e n where s: "feed_step p bs = (p1, e, n)" by (metis surj_pair)
    show ?thesis
    proof (cases e)
      case None
      then show ?thesis using 1(1) [OF False s [symmetric] refl None] 1(2) False s feed_step_max [OF s]
        by (simp add: feed_loop.simps [of p])
    next
      case (Some x)
      then show ?thesis using 1(2) False s feed_step_max [OF s] by (simp add: feed_loop.simps [of p])
    qed
  qed
qed

lemma feed_keeps_parser:
  assumes "ws_inv cf sd s" "feed (ws_frame_parser s) chunk off = (p, r)"
  shows "ws_inv cf sd (s\<lparr>ws_frame_parser := p\<rparr>)"
  using assms feed_loop_inv [of "ws_frame_parser s" "drop off chunk" 0 p r] feed_loop_max [of "ws_frame_parser s" "drop off chunk" 0 p r]
  by (auto simp: ws_inv_def inbound_ok_def timers_ok_def feed_def)

lemma fp_reset_sel [simp]: "fp_max_payload_bytes (fp_reset p) = fp_max_payload_bytes p" "fp_state (fp_reset p) = READING_HEADER"
    "fp_header_len (fp_reset p) = 0"
  by (simp_all add: fp_reset_def)

lemma reset_keeps_parser: "ws_inv cf sd s \<Longrightarrow> ws_inv cf sd (s\<lparr>ws_frame_parser := fp_reset (ws_frame_parser s)\<rparr>)"
  by (simp add: ws_inv_def inbound_ok_def timers_ok_def fp_inv_reset)

lemma inbound_steps:
  assumes "ws_inv cf sd s"
  shows "ws_inv cf sd (reset_inbound_state s)" "ws_inv cf sd (push_inbound m s)"
    "ws_inv cf sd (s\<lparr>ws_pending_ping_deadline_ticks := None\<rparr>)"
  using assms by (auto simp: ws_inv_def inbound_ok_def timers_ok_def reset_inbound_state_def push_inbound_def deque_append_bound)

lemma fragment_steps:
  assumes "ws_inv cf sd s" "ws_inbound_message_opcode s \<noteq> None"
  shows "ws_inv cf sd (count_fragment fin s)" "ws_inv cf sd (s\<lparr>ws_inbound_oversized := True\<rparr>)"
    "ws_inv cf sd (extend_inbound_buffer payload s)"
  using assms by (auto simp: ws_inv_def inbound_ok_def timers_ok_def count_fragment_def extend_inbound_buffer_def Let_def)

text \<open>What a session relies on: user code that keeps the invariant, and a clock that can be set.\<close>

definition ws_env_ok :: "WsConfig \<Rightarrow> 'w ws_env \<Rightarrow> bool" where
  "ws_env_ok cf env \<longleftrightarrow> callbacks_keep cf env \<and> close_timer_ok cf env"

lemma ws_env_okD: "ws_env_ok cf env \<Longrightarrow> callbacks_keep cf env" "ws_env_ok cf env \<Longrightarrow> close_timer_ok cf env"
  by (simp_all add: ws_env_ok_def)

lemma keeps_deliver_message [keeps_intros]: "ws_env_ok cf env \<Longrightarrow> keeps (ws_inv cf sd) (deliver_message env op payload now)"
  unfolding deliver_message_def
  by (cases "validate_text_payload payload")
     (auto intro!: keeps_reading_any keeps_andThen keeps_send_close keeps_user keeps_ws_frame keeps_modify inbound_steps dest: ws_env_okD)

lemma keeps_finish_oversized [keeps_intros]: "ws_env_ok cf env \<Longrightarrow> keeps (ws_inv cf sd) (finish_oversized_message env now)"
  unfolding finish_oversized_message_def
  by (intro keeps_reading_any keeps_andThen keeps_modify inbound_steps keeps_if keeps_basic keeps_user keeps_whenever keeps_send_close)
     (auto dest: ws_env_okD)

lemma take_fragment_inv:
  assumes env: "ws_env_ok cf env" and s: "ws_inv cf sd s" "ws_inbound_message_opcode s \<noteq> None"
  shows "ws_inv cf sd (snd (take_fragment env fin payload now s))"
proof -
  let ?f = "\<lambda>s. if fp_oversized (ws_frame_parser s) \<or> fin \<and> ws_inbound_message_buffer s = [] then s\<lparr>ws_inbound_oversized := True\<rparr>
           else extend_inbound_buffer payload s"
  have f: "ws_inv cf sd (?f s)" using fragment_steps [OF s] by simp
  have rest: "keeps (ws_inv cf sd) (whenever fin (reading (\<lambda>s.
         if ws_inbound_oversized s then finish_oversized_message env now
         else andThen (modify reset_inbound_state)
           (deliver_message env (ws_inbound_message_opcode s) (ws_inbound_message_buffer s) now))))"
    using env by (intro keeps_whenever keeps_reading_any keeps_if keeps_finish_oversized keeps_andThen keeps_modify inbound_steps keeps_deliver_message)
  have fast: "keeps (ws_inv cf sd) (andThen (modify reset_inbound_state) (deliver_message env op payload now))" for op
    using env by (intro keeps_andThen keeps_modify inbound_steps keeps_deliver_message)
  show ?thesis
    using keeps_snd [OF fast s(1)] keeps_snd [OF rest f]
    by (simp add: take_fragment_def reading_def [of "\<lambda>s. if \<not> fp_oversized (ws_frame_parser s) \<and> _ s then _ s else _ s"] run_andThen [of "modify ?f"])
qed

definition begin_fragment :: "nat \<Rightarrow> bool \<Rightarrow> 'w WsSession \<Rightarrow> 'w WsSession" where
  "begin_fragment op fin s = count_fragment fin (if op = OPCODE_CONTINUATION then s else s\<lparr>ws_inbound_message_opcode := Some op\<rparr>)"

lemma data_frame_run:
  assumes "op = OPCODE_CONTINUATION \<longleftrightarrow> ws_inbound_message_opcode s \<noteq> None"
  shows "handle_data_frame env op fin payload now s =
    (if fp_reported_length (ws_frame_parser s) = 0 \<and> \<not> fin \<and> ws_inbound_empty_fragment_run (begin_fragment op fin s) > MAX_EMPTY_FRAGMENT_RUN
     then send_close env CLOSE_PROTOCOL_ERROR (ustr ''too many zero-length continuation frames'') (Some now) (begin_fragment op fin s)
     else take_fragment env fin payload now (begin_fragment op fin s))"
proof -
  have n: "\<not> (op = OPCODE_CONTINUATION \<and> ws_inbound_message_opcode s = None)"
    "\<not> (op \<noteq> OPCODE_CONTINUATION \<and> ws_inbound_message_opcode s \<noteq> None)" using assms by auto
  have "fp_reported_length (ws_frame_parser (begin_fragment op fin s)) = fp_reported_length (ws_frame_parser s)"
    by (simp add: begin_fragment_def count_fragment_def Let_def)
  then show ?thesis
    unfolding handle_data_frame_def reading_def if_not_P [OF n(1)] if_not_P [OF n(2)] run_andThen run_simps prod.case sum.case
      begin_fragment_def [symmetric] by (cases fin) (simp_all del: list.map)
qed

lemma keeps_handle_data_frame [keeps_intros]:
  assumes env: "ws_env_ok cf env"
  shows "keeps (ws_inv cf sd) (handle_data_frame env op fin payload now)"
proof (rule keepsI)
  fix s :: "'a WsSession"
  assume inv: "ws_inv cf sd s"
  have close: "ws_inv cf sd (snd (send_close env code reason t r))" if "ws_inv cf sd r" for code reason t and r :: "'a WsSession"
    using keeps_snd [OF keeps_send_close [OF ws_env_okD(2) [OF env]] that] .
  show "ws_inv cf sd (snd (handle_data_frame env op fin payload now s))"
  proof (cases "op = OPCODE_CONTINUATION \<longleftrightarrow> ws_inbound_message_opcode s \<noteq> None")
    case True
    let ?r = "if op = OPCODE_CONTINUATION then s else s\<lparr>ws_inbound_message_opcode := Some op\<rparr>"
    have r: "ws_inv cf sd ?r" using inv by (auto simp: ws_inv_def inbound_ok_def timers_ok_def)
    have op: "ws_inbound_message_opcode ?r \<noteq> None" using True by auto
    have "ws_inbound_message_opcode (begin_fragment op fin s) \<noteq> None" "ws_inv cf sd (begin_fragment op fin s)"
      using op fragment_steps(1) [OF r op] by (auto simp: begin_fragment_def count_fragment_def Let_def)
    then show ?thesis using close take_fragment_inv [OF env] by (cases fin) (simp_all add: data_frame_run [OF True] del: list.map)
  next
    case False
    then show ?thesis using close [OF inv] by (auto simp: handle_data_frame_def reading_def simp del: list.map)
  qed
qed

lemma keeps_handle_close_frame [keeps_intros]:
  assumes "ws_env_ok cf env"
  shows "keeps (ws_inv cf sd) (handle_close_frame env payload now)"
  unfolding handle_close_frame_def using ws_env_okD [OF assms]
  by (cases "parse_close_payload payload")
     (auto intro!: keeps_reading_any keeps_andThen keeps_send_close keeps_finalize_closed keeps_modify split: if_splits)

lemma keeps_control_frames [keeps_intros]:
  assumes "ws_env_ok cf env"
  shows "keeps (ws_inv cf sd) (handle_ping_frame env payload)" "keeps (ws_inv cf sd) (handle_pong_frame env payload)"
  unfolding handle_ping_frame_def handle_pong_frame_def using ws_env_okD [OF assms]
  by (intro keeps_andThen keeps_modify inbound_steps keeps_enqueue_internal_frame keeps_user; simp)+

lemma keeps_dispatch_frame [keeps_intros]: "ws_env_ok cf env \<Longrightarrow> keeps (ws_inv cf sd) (dispatch_frame env now)"
  unfolding dispatch_frame_def
  by (intro keeps_reading_any keeps_Let keeps_if keeps_send_close keeps_intros) (auto dest: ws_env_okD)

definition after_frame :: "'w ws_env \<Rightarrow> int \<Rightarrow> ('w, unit) ws \<Rightarrow> ('w, unit) ws" where
  "after_frame env now rest =
     andThen (ensuring (dispatch_frame env now) (reading (\<lambda>s. whenever (ws_state s \<noteq> CLOSED)
         (modify (\<lambda>s. s\<lparr>ws_frame_parser := fp_reset (ws_frame_parser s)\<rparr>)))))
       (reading (\<lambda>s. if ws_state s = CLOSED then ret () else rest))"

definition after_parse_error :: "'w ws_env \<Rightarrow> int \<Rightarrow> exn \<Rightarrow> ('w, unit) ws" where
  "after_parse_error env now e =
     (if is_WebSocketProtocolError e
      then andThen (send_close env CLOSE_PROTOCOL_ERROR (we_text env e) (Some now)) (modify (\<lambda>s. s\<lparr>ws_last_error := Some e\<rparr>))
      else throw e)"

lemma feed_frames_run:
  assumes "off < length chunk" "feed (ws_frame_parser s) chunk off = (p, r)"
  shows "feed_frames env now (Suc fuel) chunk off s =
    (case r of Inl e \<Rightarrow> after_parse_error env now e (s\<lparr>ws_frame_parser := p\<rparr>)
     | Inr n \<Rightarrow> (if n = 0 then ret () else if fp_state p = FRAME_READY then after_frame env now (feed_frames env now fuel chunk (off + n))
         else feed_frames env now fuel chunk (off + n)) (s\<lparr>ws_frame_parser := p\<rparr>))"
  using assms unfolding after_frame_def after_parse_error_def feed_frames.simps [of env now "Suc fuel"]
  by (simp add: reading_def run_andThen [of "modify _"] split: sum.split)

lemma keeps_feed_frames:
  assumes env: "ws_env_ok cf env"
  shows "keeps (ws_inv cf sd) (feed_frames env now fuel chunk off)"
proof (induction fuel arbitrary: off)
  case 0
  then show ?case by (subst feed_frames.simps) (intro keeps_intros, simp)
next
  case (Suc fuel)
  have err: "keeps (ws_inv cf sd) (after_parse_error env now e)" for e
    unfolding after_parse_error_def using ws_env_okD [OF env] by (intro keeps_if keeps_andThen keeps_send_close keeps_ws_frame keeps_basic) simp_all
  have disp: "keeps (ws_inv cf sd) (after_frame env now (feed_frames env now fuel chunk o1))" for o1
    unfolding after_frame_def using env
    by (intro keeps_andThen keeps_ensuring keeps_dispatch_frame keeps_reading_any keeps_whenever keeps_modify reset_keeps_parser
        keeps_if keeps_basic Suc.IH)
  show ?case
  proof (rule keepsI)
    fix s :: "'a WsSession"
    assume inv: "ws_inv cf sd s"
    obtain p r where f: "feed (ws_frame_parser s) chunk off = (p, r)" by fastforce
    note p = feed_keeps_parser [OF inv f]
    show "ws_inv cf sd (snd (feed_frames env now (Suc fuel) chunk off s))"
    proof (cases "off < length chunk")
      case True
      then show ?thesis unfolding feed_frames_run [OF True f]
        using p keeps_snd [OF err p] keeps_snd [OF disp p] keeps_snd [OF Suc.IH p] by (auto split: sum.split)
    qed (use inv in \<open>simp add: feed_frames.simps\<close>)
  qed
qed

lemma keeps_feed_frame_bytes [keeps_intros]: "ws_env_ok cf env \<Longrightarrow> keeps (ws_inv cf sd) (feed_frame_bytes env chunk now)"
  unfolding feed_frame_bytes_def by (intro keeps_reading_any keeps_if keeps_basic keeps_feed_frames)

lemma keeps_drain_inbound_loop:
  assumes env: "ws_env_ok cf env"
  shows "keeps (ws_inv cf sd) (drain_inbound_loop env now fuel remaining)"
proof (induction fuel arbitrary: remaining)
  case 0
  then show ?case by (subst drain_inbound_loop.simps) (intro keeps_intros, simp)
next
  case (Suc fuel)
  show ?case using ws_env_okD [OF env] env
    by (subst drain_inbound_loop.simps, unfold nat.case)
       (intro keeps_if keeps_basic keeps_mbind keeps_recv_chunk keeps_option keeps_fail_with_error keeps_andThen keeps_feed_frame_bytes
         keeps_reading_any Suc.IH)
qed

lemma keeps_drain_inbound [keeps_intros]: "ws_env_ok cf env \<Longrightarrow> keeps (ws_inv cf sd) (drain_inbound env now)"
  unfolding drain_inbound_def by (intro keeps_reading_any keeps_drain_inbound_loop)

lemma keeps_check_timeouts [keeps_intros]: "ws_env_ok cf env \<Longrightarrow> keeps (ws_inv cf sd) (check_timeouts env now)"
  unfolding check_timeouts_def
  by (intro keeps_reading_any keeps_if keeps_andThen keeps_fail_with_error keeps_basic keeps_ws_frame keeps_finalize_closed)
     (auto dest: ws_env_okD)

section \<open>Steps that need a state\<close>

lemma keeps_conj: "keeps I m \<Longrightarrow> keeps K m \<Longrightarrow> keeps (\<lambda>s. I s \<and> K s) m"
  by (simp add: keeps_def)

definition ignores_world :: "('w WsSession \<Rightarrow> bool) \<Rightarrow> bool" where
  "ignores_world K \<longleftrightarrow> (\<forall>s w. K (s\<lparr>ws_world := w\<rparr>) = K s)"

lemma keeps_outside_K: "ignores_world K \<Longrightarrow> keeps K (outside f)"
  by (auto simp: keeps_def outside_def ignores_world_def split: prod.split)

lemma keeps_outside_do_K: "ignores_world K \<Longrightarrow> keeps K (outside_do f)" "ignores_world K \<Longrightarrow> keeps K (outside_result g)"
  unfolding outside_do_def outside_result_def by (intro keeps_mbind keeps_outside_K keeps_option keeps_basic; simp)+

lemma keeps_ws_deadline_K: "ignores_world K \<Longrightarrow> keeps K (ws_deadline env now off)"
  unfolding ws_deadline_def by (intro keeps_mbind keeps_option keeps_basic keeps_outside_K)

abbreviation is_open :: "'w WsSession \<Rightarrow> bool" where
  "is_open s \<equiv> ws_state s = OPEN"

abbreviation in_handshake :: "'w WsSession \<Rightarrow> bool" where
  "in_handshake s \<equiv> ws_state s = CONNECTING \<and> ws_handshake_deadline_ticks s \<noteq> None"

lemma ignores_world_states [simp]: "ignores_world is_open" "ignores_world in_handshake"
  by (simp_all add: ignores_world_def)

lemma keeps_append_frame_open: "keeps is_open (append_frame env op payload)"
  unfolding append_frame_def outbound_mask_def
  by (intro keeps_mbind keeps_reading_any keeps_outside_K keeps_basic keeps_modify)
     (auto simp: keeps_def outside_def run_mbind split: session_side.split prod.split)

lemma keeps_enqueue_open: "keeps is_open (enqueue_user_frame env op payload)" "keeps is_open (enqueue_internal_frame env op payload)"
  unfolding enqueue_user_frame_def enqueue_internal_frame_def
  by (intro keeps_reading_any keeps_Let keeps_if keeps_basic keeps_append_frame_open)+

lemma open_timers:
  assumes "ws_inv cf sd s \<and> is_open s"
  shows "ws_inv cf sd (s\<lparr>ws_pending_ping_deadline_ticks := d\<rparr>) \<and> is_open (s\<lparr>ws_pending_ping_deadline_ticks := d\<rparr>)"
    "sd = ClientSide \<Longrightarrow> ws_inv cf sd (s\<lparr>ws_next_auto_ping_ticks := d\<rparr>) \<and> is_open (s\<lparr>ws_next_auto_ping_ticks := d\<rparr>)"
  using assms by (auto simp: ws_inv_def inbound_ok_def timers_ok_def)

lemma keeps_arm_pong: "keeps (\<lambda>s. ws_inv cf sd s \<and> is_open s) (arm_pong_deadline env now)"
  unfolding arm_pong_deadline_def
  by (intro keeps_reading_any keeps_option keeps_if keeps_basic keeps_mbind keeps_conj [OF keeps_ws_deadline keeps_ws_deadline_K]
      keeps_modify open_timers) simp_all

lemma keeps_arm_auto_ping: "keeps (\<lambda>s. ws_inv cf ClientSide s \<and> is_open s) (arm_auto_ping env now)"
  unfolding arm_auto_ping_def
  by (intro keeps_reading_any keeps_option keeps_basic keeps_mbind keeps_conj [OF keeps_ws_deadline keeps_ws_deadline_K]
      keeps_modify open_timers) simp_all

lemma keeps_emit_auto_ping: "keeps (\<lambda>s. ws_inv cf ClientSide s \<and> is_open s) (maybe_emit_auto_ping env now)"
  unfolding maybe_emit_auto_ping_def
  by (intro keeps_reading_any keeps_option keeps_if keeps_basic keeps_andThen keeps_mbind keeps_conj [OF keeps_ws_deadline keeps_ws_deadline_K]
      keeps_conj [OF keeps_enqueue_internal_frame keeps_enqueue_open(2)] keeps_arm_pong keeps_modify open_timers) simp_all

section \<open>The public interface\<close>

lemma keeps_require_open:
  assumes "keeps (\<lambda>s. ws_inv cf sd s \<and> is_open s) m"
  shows "keeps (ws_inv cf sd) (require_open msg m)"
  using assms by (auto simp: keeps_def require_open_def reading_def)

lemma keeps_send: "keeps (ws_inv cf sd) (send_text env t)" "keeps (ws_inv cf sd) (send_binary env bs)" "keeps (ws_inv cf sd) (send_ping env bs)"
  unfolding send_text_def send_binary_def send_ping_def
  by (intro keeps_require_open keeps_lift keeps_andThen keeps_arm_pong keeps_conj [OF keeps_enqueue_user_frame keeps_enqueue_open(1)])+

lemma keeps_ws_close: "ws_env_ok cf env \<Longrightarrow> keeps (ws_inv cf sd) (ws_close env code reason)"
  unfolding ws_close_def
  by (intro keeps_reading_any keeps_if keeps_basic keeps_andThen [OF keeps_ws_frame keeps_drop_then] keeps_call_on_close keeps_send_close)
     (auto dest: ws_env_okD)

lemma queue_set:
  "ws_inv cf sd s \<Longrightarrow> length q \<le> wf_max_inbound_queue_size cf \<Longrightarrow> ws_inv cf sd (s\<lparr>ws_inbound_queue := Some q\<rparr>)"
  by (auto simp: ws_inv_def inbound_ok_def timers_ok_def)

lemma keeps_ws_next_message_resume: "keeps (ws_inv cf sd) ws_next_message_resume"
proof (rule keepsI)
  fix s :: "'a WsSession"
  assume inv: "ws_inv cf sd s"
  then have "ws_inv cf sd (s\<lparr>ws_inbound_queue := Some rest\<rparr>)" if "ws_inbound_queue s = Some (m # rest)" for m rest
    using that by (intro queue_set) (auto simp: ws_inv_def inbound_ok_def)
  with inv show "ws_inv cf sd (snd (ws_next_message_resume s))"
    by (auto simp: ws_next_message_resume_def reading_def prog_simps split: option.splits list.splits)
qed

lemma keeps_ws_next_message: "keeps (ws_inv cf sd) ws_next_message"
  unfolding ws_next_message_def by (intro keeps_andThen keeps_ws_next_message_resume keeps_modify) (auto intro: queue_set)

section \<open>The handshake\<close>

lemma connecting_steps:
  "ws_inv cf sd s \<Longrightarrow> ws_inv cf sd (s\<lparr>ws_handshake_deadline_ticks := Some d, ws_state := CONNECTING, ws_connecting_phase := ph\<rparr>)"
  "ws_inv cf sd s \<and> in_handshake s \<Longrightarrow> ws_inv cf sd (s\<lparr>ws_connecting_phase := ph\<rparr>)"
  "ws_inv cf sd s \<and> in_handshake s \<Longrightarrow>
     ws_inv cf sd (s\<lparr>ws_handshake_response_parser := rp, ws_pending_handshake := hs, ws_connecting_phase := ph\<rparr>)"
  by (auto simp: ws_inv_def inbound_ok_def timers_ok_def)

lemma keeps_ws_connect: "keeps (ws_inv cf sd) (ws_connect env url t hs)"
  unfolding ws_connect_def
  by (intro keeps_reading_any keeps_if keeps_basic keeps_andThen keeps_lift keeps_prod keeps_mbind keeps_outside_result keeps_ws_deadline
      keeps_modify connecting_steps(1)) simp_all

lemma keeps_transport_ready: "keeps (\<lambda>s. ws_inv cf sd s \<and> in_handshake s) (on_transport_ready env k)"
  unfolding on_transport_ready_def ws_force_non_blocking_def
  by (intro keeps_reading_any keeps_Let keeps_andThen keeps_mbind keeps_basic keeps_option keeps_prod keeps_swallow
      keeps_conj [OF keeps_outside keeps_outside_K] keeps_conj [OF keeps_outside_result(2) keeps_outside_do_K(1)] keeps_modify)
     (auto simp: ignores_world_def intro: connecting_steps(3))

lemma keeps_weaken: "keeps (\<lambda>s. I s \<and> K s) m \<Longrightarrow> I s \<Longrightarrow> K s \<Longrightarrow> I (snd (m s))"
  by (auto simp: keeps_def)

lemma advance_connector_inv:
  assumes env: "ws_env_ok cf env" and s: "ws_inv cf sd s" "in_handshake s"
  shows "ws_inv cf sd (snd (ws_advance_connector env now s))"
proof (cases "ws_connector s")
  case None
  then show ?thesis using s by (simp add: ws_advance_connector_def reading_def)
next
  case (Some k)
  obtain r s1 where t: "outside_do (we_connector_tick env k now) s = (r, s1)" by fastforce
  have s1: "ws_inv cf sd s1" "in_handshake s1"
    using keepsD [OF keeps_outside_result(2) s(1) t] keepsD [OF keeps_outside_do_K(1) [OF ignores_world_states(2)] s(2) t] by simp_all
  have fail: "keeps (ws_inv cf sd) (andThen (modify (\<lambda>s. s\<lparr>ws_connector := None\<rparr>)) (fail_with_error env e))" for e
    using ws_env_okD(1) [OF env] by (intro keeps_andThen keeps_ws_frame keeps_fail_with_error) simp_all
  show ?thesis
    using Some t s1 keeps_weaken [OF keeps_transport_ready s1] keeps_snd [OF fail s1(1)]
    by (auto simp: ws_advance_connector_def reading_def run_andThen [of "outside_do _"] split: sum.split)
qed

lemma try_send_handshake:
  assumes env: "ws_env_ok cf env" and s: "ws_inv cf sd s" "in_handshake s" and t: "try_send env chunk f s = (Inr n, s1)" "n \<noteq> 0"
  shows "in_handshake s1"
proof -
  obtain r s2 where r: "ws_send_raw env chunk s = (r, s2)" by fastforce
  have "keeps in_handshake (ws_send_raw env chunk)"
    unfolding ws_send_raw_def by (intro keeps_reading_any keeps_option keeps_basic keeps_outside_do_K(2) ignores_world_states)
  then have "in_handshake s2" using r s(2) by (metis (mono_tags, lifting) keepsD)
  then show ?thesis using t r
    by (auto simp: try_send_def run_catch run_mbind run_andThen split: sum.splits if_splits prod.splits)
qed

lemma open_steps:
  assumes "ws_inv cf sd s"
  shows "ws_inv cf sd (s\<lparr>ws_post_handshake_carry := bs, ws_handshake_send_buffer := None,
         ws_handshake_response_parser := None, ws_connecting_phase := None, ws_handshake_deadline_ticks := None, ws_state := OPEN\<rparr>)"
    "ws_inv cf sd (s\<lparr>ws_handshake_request_parser := None, ws_handshake_send_buffer := None, ws_handshake_phase := None,
         ws_handshake_deadline_ticks := None, ws_state := OPEN\<rparr>)"
  using assms by (auto simp: ws_inv_def inbound_ok_def timers_ok_def)

lemma keeps_drain_carry [keeps_intros]: "ws_env_ok cf env \<Longrightarrow> keeps (ws_inv cf sd) (drain_carry env now)"
  unfolding drain_carry_def by (intro keeps_reading_any keeps_whenever keeps_andThen keeps_feed_frame_bytes keeps_ws_frame) simp_all

lemma keeps_client_opened: "ws_env_ok cf env \<Longrightarrow> keeps (ws_inv cf ClientSide) (client_opened env p now)"
proof (rule keepsI)
  fix s :: "'a WsSession"
  assume env: "ws_env_ok cf env" and inv: "ws_inv cf ClientSide s"
  let ?s = "s\<lparr>ws_post_handshake_carry := hp_leftover p, ws_handshake_send_buffer := None,
         ws_handshake_response_parser := None, ws_connecting_phase := None, ws_handshake_deadline_ticks := None, ws_state := OPEN\<rparr>"
  obtain r s1 where a: "arm_auto_ping env now ?s = (r, s1)" by fastforce
  have s1: "ws_inv cf ClientSide s1" using keepsD [OF keeps_arm_auto_ping conjI [OF open_steps(1) [OF inv]] a] by simp
  have "keeps (ws_inv cf ClientSide) (andThen (user env OnOpen) (drain_carry env now))"
    using env ws_env_okD(1) [OF env] by (intro keeps_andThen keeps_user keeps_drain_carry)
  from keeps_snd [OF this s1] s1 a show "ws_inv cf ClientSide (snd (client_opened env p now s))"
    by (auto simp: client_opened_def run_andThen [of "modify _"] run_andThen [of "arm_auto_ping _ _"] split: sum.split)
qed

lemma keeps_enter_open: "ws_env_ok cf env \<Longrightarrow> keeps (ws_inv cf sd) (enter_open env now)"
  unfolding enter_open_def
  by (intro keeps_andThen [OF keeps_modify keeps_mbind] keeps_catch keeps_andThen [OF keeps_user] keeps_andThen [OF keeps_fail_with_error]
      keeps_if keeps_basic keeps_whenever keeps_drain_carry open_steps(2)) (auto dest: ws_env_okD)

lemma keeps_feed_handshake [keeps_intros]: "keeps (ws_inv cf sd) (feed_response bs)" "keeps (ws_inv cf sd) (feed_request bs)"
  by (auto simp: keeps_def feed_response_def feed_request_def split: option.split prod.split)

lemma keeps_client_receive: "ws_env_ok cf env \<Longrightarrow> keeps (ws_inv cf ClientSide) (client_receive_handshake_chunk env now)"
  unfolding client_receive_handshake_chunk_def
  by (intro keeps_reading_any keeps_mbind keeps_recv_chunk keeps_option keeps_if keeps_basic keeps_fail_with_error keeps_catch keeps_andThen
      keeps_feed_handshake keeps_whenever keeps_client_opened) (auto dest: ws_env_okD)

lemma keeps_reject [keeps_intros]: "keeps (ws_inv cf ServerSide) (reject env code phrase msg)"
  unfolding reject_def send_rejection_response_def
  by (intro keeps_lift keeps_andThen keeps_swallow keeps_mbind keeps_ws_send_raw keeps_basic keeps_drop_server keeps_ws_frame) simp_all

lemma keeps_server_receive: "ws_env_ok cf env \<Longrightarrow> keeps (ws_inv cf ServerSide) (server_receive_handshake_chunk env)"
  unfolding server_receive_handshake_chunk_def server_accept_def
  by (intro keeps_reading_any keeps_mbind keeps_recv_chunk keeps_option keeps_if keeps_basic keeps_fail_with_error keeps_catch keeps_andThen
      keeps_feed_handshake keeps_whenever keeps_reject keeps_ws_frame) (auto dest: ws_env_okD)

lemma handshake_sent_inv:
  assumes env: "ws_env_ok cf env" and s: "ws_inv cf sd s" "sd = ClientSide \<longrightarrow> in_handshake s"
  shows "ws_inv cf sd (snd (on_handshake_send_complete env now s))"
  using s connecting_steps(2) [of cf sd s] keeps_snd [OF keeps_enter_open [OF env] s(1)] ws_inv_side(1) [OF s(1)]
  by (cases sd) (auto simp: on_handshake_send_complete_def reading_def)

lemma send_handshake_inv:
  assumes env: "ws_env_ok cf env" and s: "ws_inv cf sd s" "in_handshake s"
  shows "ws_inv cf sd (snd (send_handshake_chunk env now s))"
proof (cases "ws_handshake_send_buffer s")
  case (Some buf)
  let ?rem = "drop (ws_handshake_send_offset s) buf"
  obtain r s1 where t: "try_send env (take (wf_send_budget_per_tick (ws_cfg s)) ?rem)
      (\<lambda>e. WebSocketHandshakeError ''socket error during handshake send'') s = (r, s1)" by fastforce
  have s1: "ws_inv cf sd s1" using keepsD [OF keeps_try_send [OF ws_env_okD(1) [OF env]] s(1) t] .
  have "ws_inv cf sd (snd (on_handshake_send_complete env now (s1\<lparr>ws_handshake_send_offset := m\<rparr>)))" if "r = Inr n" "n \<noteq> 0" for n m
    using handshake_sent_inv [OF env, of sd "s1\<lparr>ws_handshake_send_offset := m\<rparr>"] s1 try_send_handshake [OF env s t [unfolded that(1)] that(2)]
    by simp
  with Some t s s1 handshake_sent_inv [OF env s(1)] show ?thesis
    by (auto simp: send_handshake_chunk_def reading_def run_mbind [of "try_send _ _ _"] run_andThen [of "modify _"] run_whenever Let_def
        split: sum.split)
qed (use s in \<open>simp add: send_handshake_chunk_def reading_def\<close>)

section \<open>Ticks\<close>

lemma check_timeouts_False: "check_timeouts env now s = (Inr False, s1) \<Longrightarrow> s1 = s"
  by (auto simp: check_timeouts_def reading_def run_andThen split: if_splits prod.splits sum.splits)

lemma client_handle_inv:
  assumes env: "ws_env_ok cf env" and s: "ws_inv cf ClientSide s"
  shows "ws_inv cf ClientSide (snd (WebSocketClient_handle env now s))"
proof -
  have conn: "ws_inv cf ClientSide (snd (client_connecting env now (ws_connecting_phase s) s))" if "ws_state s = CONNECTING"
  proof (cases "ws_connecting_phase s")
    case (Some ph)
    then have "in_handshake s" using s that by (auto simp: ws_inv_def timers_ok_def)
    then show ?thesis using Some advance_connector_inv [OF env s] send_handshake_inv [OF env s] keeps_snd [OF keeps_client_receive [OF env] s]
      by (cases ph) (simp_all add: client_connecting_def)
  qed (use s in \<open>simp add: client_connecting_def\<close>)
  have emit: "keeps (ws_inv cf ClientSide) (reading (\<lambda>s. whenever (ws_state s = OPEN) (maybe_emit_auto_ping env now)))"
    using keeps_emit_auto_ping [of cf env now] by (auto simp: keeps_def reading_def whenever_def)
  have run: "keeps (ws_inv cf ClientSide) (andThen (drain_inbound env now) (andThen (drain_outbound env)
            (reading (\<lambda>s. whenever (ws_state s = OPEN) (maybe_emit_auto_ping env now)))))"
    using env ws_env_okD(1) [OF env] by (intro keeps_andThen keeps_drain_inbound keeps_drain_outbound emit)
  obtain r s1 where t: "check_timeouts env now s = (r, s1)" by fastforce
  have s1: "ws_inv cf ClientSide s1" "r = Inr False \<Longrightarrow> s1 = s"
    using keepsD [OF keeps_check_timeouts [OF env] s t] check_timeouts_False [of env now s s1] t by simp_all
  show ?thesis
  proof (cases "r = Inr False")
    case True
    then show ?thesis using t s1 s conn keeps_snd [OF run s]
      by (auto simp: WebSocketClient_handle_def reading_def run_mbind [of "check_timeouts _ _"] whenever_def)
  next
    case False
    then show ?thesis using t s1 s
      by (auto simp: WebSocketClient_handle_def reading_def run_mbind [of "check_timeouts _ _"] whenever_def split: sum.split)
  qed
qed

lemma connection_handle_inv:
  assumes env: "ws_env_ok cf env" and s: "ws_inv cf ServerSide s"
  shows "ws_inv cf ServerSide (snd (Connection_handle env now s))"
proof -
  have hs: "ws_state s = CONNECTING \<Longrightarrow> in_handshake s" using s by (auto simp: ws_inv_def timers_ok_def)
  have run: "keeps (ws_inv cf ServerSide) (andThen (drain_inbound env now) (drain_outbound env))"
    using env ws_env_okD(1) [OF env] by (intro keeps_andThen keeps_drain_inbound keeps_drain_outbound)
  obtain r s1 where t: "check_timeouts env now s = (r, s1)" by fastforce
  have s1: "ws_inv cf ServerSide s1" "r = Inr False \<Longrightarrow> s1 = s"
    using keepsD [OF keeps_check_timeouts [OF env] s t] check_timeouts_False [of env now s s1] t by simp_all
  show ?thesis
  proof (cases "r = Inr False")
    case True
    then show ?thesis using t s1 s hs keeps_snd [OF run s] send_handshake_inv [OF env s] keeps_snd [OF keeps_server_receive [OF env] s]
      by (auto simp: Connection_handle_def reading_def run_mbind [of "check_timeouts _ _"] whenever_def split: option.split ServerHandshakePhase.split)
  next
    case False
    then show ?thesis using t s1 s
      by (auto simp: Connection_handle_def reading_def run_mbind [of "check_timeouts _ _"] whenever_def split: sum.split)
  qed
qed

lemma force_run: "\<exists>r w. ws_force_non_blocking env k s = (r, s\<lparr>ws_world := w\<rparr>)"
  by (auto simp: ws_force_non_blocking_def swallow_def outside_do_def outside_def prog_simps split: option.splits prod.splits)

lemma connection_init_inv:
  assumes "Connection_init env cf sock now w = Inr s"
  shows "ws_inv cf ServerSide s"
proof -
  define s0 where "s0 = (init_session_state ServerSide cf (Some sock) w)\<lparr>ws_handshake_deadline_ticks := Some 0\<rparr>"
  have "ws_inv cf ServerSide s0"
    by (simp add: s0_def ws_inv_def init_session_state_def queues_ok_def inbound_ok_def timers_ok_def fp_inv_init)
      (simp add: FrameParser_init_def)
  moreover obtain r w1 where "ws_force_non_blocking env sock (init_session_state ServerSide cf (Some sock) w)
      = (r, (init_session_state ServerSide cf (Some sock) w)\<lparr>ws_world := w1\<rparr>)"
    using force_run [of env sock "init_session_state ServerSide cf (Some sock) w"] by blast
  ultimately show ?thesis using assms
    by (auto simp: Connection_init_def Let_def result_simps s0_def ws_inv_def inbound_ok_def timers_ok_def split: sum.splits)
qed

section \<open>Reachable sessions\<close>

datatype 'w session_call = CallSendText pystr | CallSendBinary "byte list" | CallSendPing "byte list" | CallClose int pystr
  | CallNextMessage | CallResumeMessage | CallConnect pystr "int option" "(pystr \<times> pystr) list" | ChangeWorld "'w \<Rightarrow> 'w"

fun perform :: "'w ws_env \<Rightarrow> 'w session_call \<Rightarrow> 'w WsSession \<Rightarrow> 'w WsSession" where
  "perform env (CallSendText t) s = snd (send_text env t s)"
| "perform env (CallSendBinary bs) s = snd (send_binary env bs s)"
| "perform env (CallSendPing bs) s = snd (send_ping env bs s)"
| "perform env (CallClose code reason) s = snd (ws_close env code reason s)"
| "perform env CallNextMessage s = snd (ws_next_message s)"
| "perform env CallResumeMessage s = snd (ws_next_message_resume s)"
| "perform env (CallConnect url t hs) s = (if ws_side s = ClientSide then snd (ws_connect env url t hs s) else s)"
| "perform env (ChangeWorld f) s = s\<lparr>ws_world := f (ws_world s)\<rparr>"

text \<open>A callback runs a sequence of such calls, whose callbacks are of the same kind one level down.\<close>

inductive ws_well_behaved :: "WsConfig \<Rightarrow> 'w ws_env \<Rightarrow> bool" for cf where
  "close_timer_ok cf env \<Longrightarrow>
   (\<And>cb s. \<exists>calls. (\<forall>(env', ca) \<in> set calls. ws_well_behaved cf env')
       \<and> snd (we_call env cb s) = fold (\<lambda>(env', ca). perform env' ca) calls s)
   \<Longrightarrow> ws_well_behaved cf env"

lemma session_call_inv: "ws_env_ok cf env \<Longrightarrow> ws_inv cf sd s \<Longrightarrow> ws_inv cf sd (perform env ca s)"
  by (cases ca) (auto intro!: keeps_send keeps_ws_close keeps_ws_next_message keeps_ws_next_message_resume keeps_ws_connect intro: keeps_snd)

lemma ws_well_behaved_ok: "ws_well_behaved cf env \<Longrightarrow> ws_env_ok cf env"
proof (induction rule: ws_well_behaved.induct)
  case (1 env)
  have "ws_inv cf sd (snd (we_call env cb s))" if inv: "ws_inv cf sd s" for sd cb s
  proof -
    obtain calls where calls: "\<forall>(env', ca) \<in> set calls. ws_well_behaved cf env' \<and> ws_env_ok cf env'"
      "snd (we_call env cb s) = fold (\<lambda>(env', ca). perform env' ca) calls s"
      using 1(2) [of cb s] by blast
    have "ws_inv cf sd (fold (\<lambda>(env', ca). perform env' ca) calls s)"
      using calls(1) inv by (induction calls arbitrary: s) (auto intro: session_call_inv)
    with calls(2) show ?thesis by simp
  qed
  then show ?case using 1(1) by (simp add: ws_env_ok_def callbacks_keep_def keeps_def)
qed

definition session_handle :: "'w ws_env \<Rightarrow> int \<Rightarrow> ('w, unit) ws" where
  "session_handle env now = reading (\<lambda>s. case ws_side s of ClientSide \<Rightarrow> WebSocketClient_handle env now | ServerSide \<Rightarrow> Connection_handle env now)"

inductive ws_reachable :: "'w ws_env \<Rightarrow> WsConfig \<Rightarrow> 'w WsSession \<Rightarrow> bool" for env cf where
  client: "ws_reachable env cf (WebSocketClient_init cf w)"
| server: "Connection_init env cf sock now w = Inr s \<Longrightarrow> ws_reachable env cf s"
| user: "ws_reachable env cf s \<Longrightarrow> ws_reachable env cf (perform env ca s)"
| tick: "ws_reachable env cf s \<Longrightarrow> ws_reachable env cf (snd (session_handle env now s))"

lemma ws_reachable_inv:
  assumes "ws_reachable env cf s" "ws_well_behaved cf env"
  shows "ws_inv cf (ws_side s) s"
  using assms(1)
proof (induction rule: ws_reachable.induct)
  case (client w)
  then show ?case using ws_inv_init [of cf w] by (simp add: WebSocketClient_init_def init_session_state_def)
next
  case (server sock now w s)
  then show ?case using connection_init_inv ws_inv_side(1) by metis
next
  case (user s ca)
  then show ?case using session_call_inv [OF ws_well_behaved_ok [OF assms(2)]] ws_inv_side(1) by metis
next
  case (tick s now)
  have "ws_inv cf (ws_side s) (snd (session_handle env now s))"
    using tick client_handle_inv [OF ws_well_behaved_ok [OF assms(2)], of s now] connection_handle_inv [OF ws_well_behaved_ok [OF assms(2)], of s now]
    by (cases "ws_side s") (simp_all add: session_handle_def reading_def)
  then show ?case using ws_inv_side(1) by metis
qed

end
