(* ===== verification/Ws_Session_Props.thy ===== *)
theory Ws_Session_Props
  imports Ws_Session_Inv Fake_Socket
begin

text \<open>
  What WebSocket sessions do: the invariant of reachable sessions, that a close always ends, that
  the messages of a peer arrive whole and in order, and two ways in which the code falls short. A
  session over the \<open>FakeSocket\<close> of the test doubles, with callbacks that are written to a log,
  gives the witnesses.
\<close>

section \<open>A session over a fake socket\<close>

type_synonym logged = "FakeSocket \<times> ws_callback list"

definition fake_ws_env :: "logged ws_env" where
  "fake_ws_env = \<lparr>we_ticks = real_ticks, we_ticks_ms = (\<lambda>w. (0, w)), we_urandom = (\<lambda>n w. (replicate n (B 7), w)),
     we_text = (\<lambda>e. []), we_repr = (\<lambda>p. p), we_factory = (\<lambda>host port tls w. (Inr 0, w)), we_set_non_blocking = (\<lambda>k w. (None, w)),
     we_send = (\<lambda>k bs (f, l). case fs_send bs f of (r, f1) \<Rightarrow> (map_sum id Some r, (f1, l))),
     we_recv_into = (\<lambda>k n (f, l). case fs_recv_into n f of (r, f1) \<Rightarrow> (map_sum id Some r, (f1, l))),
     we_close = (\<lambda>k (f, l). (None, (fs_close f, l))), we_connector_tick = (\<lambda>k now w. (None, w)),
     we_connector_state = (\<lambda>k w. ''ready''), we_connector_socket = (\<lambda>k w. 0), we_connector_io_socket = (\<lambda>k w. None),
     we_connector_io_interest = (\<lambda>k now w. 0), we_connector_cancel = (\<lambda>k w. (None, w)),
     we_call = (\<lambda>cb s. (Inr (), s\<lparr>ws_world := apsnd (\<lambda>l. l @ [cb]) (ws_world s)\<rparr>))\<rparr>"

definition small_cfg :: WsConfig where
  "small_cfg = \<lparr>wf_max_message_bytes = 4, wf_recv_budget_per_tick = 32, wf_send_budget_per_tick = 16, wf_max_tx_queue_size = 2,
     wf_when_oversized = WS_DROP_WITH_EVENT, wf_ping_interval_ms = None, wf_pong_timeout_ms = Some 30000, wf_handshake_timeout_ms = 10000,
     wf_close_timeout_ms = 5000, wf_max_inbound_queue_size = 16, wf_accept_path = None\<rparr>"

definition silent_ws_env :: "logged ws_env" where
  "silent_ws_env = fake_ws_env\<lparr>we_call := (\<lambda>cb s. (Inr (), s))\<rparr>"

lemma fake_timer: "close_timer_ok small_cfg fake_ws_env" "close_timer_ok small_cfg silent_ws_env"
  by (simp_all add: close_timer_ok_def silent_ws_env_def fake_ws_env_def small_cfg_def real_ticks_def ticks_add_def tick_consts)

lemma silent_well_behaved: "ws_well_behaved small_cfg silent_ws_env"
  by (rule ws_well_behaved.intros [OF fake_timer(2)], rule exI [of _ "[]"]) (simp add: silent_ws_env_def)

lemma fake_well_behaved: "ws_well_behaved small_cfg fake_ws_env"
proof (rule ws_well_behaved.intros [OF fake_timer(1)])
  fix cb and s :: "logged WsSession"
  show "\<exists>calls. (\<forall>(env', ca) \<in> set calls. ws_well_behaved small_cfg env')
      \<and> snd (we_call fake_ws_env cb s) = fold (\<lambda>(env', ca). perform env' ca) calls s"
    by (rule exI [of _ "[(silent_ws_env, ChangeWorld (apsnd (\<lambda>l. l @ [cb])))]"]) (simp add: silent_well_behaved, simp add: fake_ws_env_def)
qed

section \<open>The invariant\<close>

text \<open>
  C7. Every session a program can reach, as a client or as the server's side of a connection, with
  callbacks that call its methods again, keeps its queue of outgoing frames within the user's
  limit and eight slots of headroom; every frame in it, and the one being sent, is well formed and
  masked exactly on the client side; the message being assembled, the frame parser's buffer and the queue of
  received messages stay within their caps; and the timers match the state: a closing session has
  its close timer armed, a connecting one its handshake timer, and a closed one reports no deadline.
\<close>

theorem ws_session_invariant:
  assumes "ws_reachable env cf s" "ws_well_behaved cf env"
  shows "length (ws_tx_queue s) \<le> wf_max_tx_queue_size cf + 8
    \<and> (\<forall>f \<in> set (ws_tx_queue s) \<union> fst ` set_option (ws_tx_partial s).
         \<exists>op payload m. encode_frame op payload True m = Inr f \<and> (m \<noteq> None \<longleftrightarrow> ws_side s = ClientSide))
    \<and> (\<forall>b off. ws_tx_partial s = Some (b, off) \<longrightarrow> off < length b)
    \<and> length (ws_inbound_message_buffer s) \<le> wf_max_message_bytes cf
    \<and> length (fp_payload_array (ws_frame_parser s)) \<le> max (fp_payload_capacity (ws_frame_parser s)) (wf_max_message_bytes cf)
    \<and> (\<forall>q. ws_inbound_queue s = Some q \<longrightarrow> length q \<le> wf_max_inbound_queue_size cf)
    \<and> (ws_state s = CLOSED \<longrightarrow> base_next_deadline env s = None)
    \<and> (ws_state s = CLOSING \<longrightarrow> ws_close_deadline_ticks s \<noteq> None)
    \<and> (ws_state s = CONNECTING \<and> (ws_side s = ServerSide \<or> ws_connecting_phase s \<noteq> None) \<longrightarrow> ws_handshake_deadline_ticks s \<noteq> None)"
proof -
  have inv: "ws_inv cf (ws_side s) s" using ws_reachable_inv [OF assms] .
  then have q: "queues_ok cf (ws_side s) (ws_tx_queue s) (ws_tx_partial s)" and i: "inbound_ok cf s" and t: "timers_ok (ws_side s) s"
    by (simp_all add: ws_inv_def)
  have frames: "\<forall>f \<in> set (ws_tx_queue s) \<union> fst ` set_option (ws_tx_partial s). frame_ok (ws_side s) f"
    using q by (auto simp: queues_ok_def split: option.splits)
  have "length (fp_payload_array (ws_frame_parser s)) \<le> max (fp_payload_capacity (ws_frame_parser s)) (wf_max_message_bytes cf)"
    using i parser_memory [of "ws_frame_parser s"] by (auto simp: inbound_ok_def)
  moreover have "ws_state s = CLOSED \<longrightarrow> base_next_deadline env s = None"
    using t by (simp add: timers_ok_def base_next_deadline_def sooner_def)
  moreover have "length (ws_tx_queue s) \<le> wf_max_tx_queue_size cf + 8" "\<forall>b off. ws_tx_partial s = Some (b, off) \<longrightarrow> off < length b"
    using q by (auto simp: queues_ok_def TX_QUEUE_HEADROOM_def)
  ultimately show ?thesis using frames i t unfolding frame_ok_def inbound_ok_def timers_ok_def by blast
qed

section \<open>Closing ends\<close>

text \<open>Once closed, a session stays closed: no method leaves that state (a client connects only once).\<close>

definition called :: "'w WsSession \<Rightarrow> bool" where
  "called s \<longleftrightarrow> (ws_side s = ClientSide \<longrightarrow> ws_connect_called s)"

definition ended :: "'w WsSession \<Rightarrow> bool" where
  "ended s \<longleftrightarrow> ws_state s = CLOSED \<and> called s"

lemma perform_ended: "ended s \<Longrightarrow> ended (perform env ca s)"
  by (cases ca) (auto simp: ended_def called_def send_text_def send_binary_def send_ping_def require_open_def ws_close_def ws_connect_def
      ws_next_message_def ws_next_message_resume_def reading_def prog_simps split: option.split list.split)

lemma callbacks_ended: "ws_well_behaved cf env \<Longrightarrow> keeps ended (we_call env cb)"
proof (rule keepsI)
  fix s :: "'a WsSession"
  assume env: "ws_well_behaved cf env" and s: "ended s"
  then obtain calls where c: "snd (we_call env cb s) = fold (\<lambda>(env', ca). perform env' ca) calls s"
    by (cases rule: ws_well_behaved.cases) metis
  have "ended (fold (\<lambda>(env', ca). perform env' ca) calls s)"
    using s by (induction calls arbitrary: s) (auto intro: perform_ended)
  with c show "ended (snd (we_call env cb s))" by simp
qed

text \<open>What sockets and connectors raise: \<^verbatim>\<open>OSError\<close> from a send, no \<^verbatim>\<open>BaseException\<close> from a close or a cancel.\<close>

definition polite :: "'w ws_env \<Rightarrow> bool" where
  "polite env \<longleftrightarrow> (\<forall>k bs w e w1. we_send env k bs w = (Inl e, w1) \<longrightarrow> is_OSError e)
     \<and> (\<forall>k w e. fst (we_close env k w) = Some e \<longrightarrow> is_Exception e)
     \<and> (\<forall>k w e. fst (we_connector_cancel env k w) = Some e \<longrightarrow> is_Exception e)"

lemma drop_transport_closes:
  assumes "polite env"
  shows "\<exists>w. drop_transport env s = (Inr (), closed_state (s\<lparr>ws_world := w\<rparr>))"
proof (cases "ws_socket s")
  case None
  then show ?thesis
    by (intro exI [of _ "ws_world s"]) (simp add: drop_transport_def swallow_def ws_close_socket_def reading_def prog_simps)
next
  case (Some k)
  obtain r w where r: "we_close env k (ws_world s) = (r, w)" by fastforce
  then have "r = Some e \<Longrightarrow> is_Exception e" for e using assms unfolding polite_def by (metis fst_conv)
  then show ?thesis using Some r
    by (intro exI [of _ w])
       (simp add: drop_transport_def swallow_def ws_close_socket_def reading_def prog_simps outside_do_def outside_def split: option.split)
qed

lemma keeps_ended_close:
  assumes "ws_well_behaved cf env"
  shows "keeps ended (call_on_close env c)" "keeps ended (on_finalized env)"
proof -
  show "keeps ended (call_on_close env c)"
    unfolding call_on_close_def user_def by (intro keeps_reading_any callbacks_ended [OF assms])
  show "keeps ended (on_finalized env)"
    by (auto simp: keeps_def on_finalized_def ended_def called_def reading_def prog_simps swallow_def outside_do_def outside_def
        split: session_side.split option.split prod.split sum.split)
qed

lemma drop_ends:
  assumes "ws_well_behaved cf env" "polite env" "called s"
  shows "ended (snd (andThen (drop_transport env) (andThen (on_finalized env) (call_on_close env c)) s))"
proof -
  obtain w where "drop_transport env s = (Inr (), closed_state (s\<lparr>ws_world := w\<rparr>))"
    using drop_transport_closes [OF assms(2), of s] by blast
  moreover have "ended (closed_state (s\<lparr>ws_world := w\<rparr>))" using assms(3) by (simp add: ended_def called_def)
  moreover have "keeps ended (andThen (on_finalized env) (call_on_close env c))"
    by (intro keeps_andThen keeps_ended_close [OF assms(1)])
  ultimately show ?thesis by (simp add: run_andThen [of "drop_transport env"] keeps_def)
qed

lemma fail_ends: "ws_well_behaved cf env \<Longrightarrow> polite env \<Longrightarrow> called s \<Longrightarrow> ended (snd (fail_with_error env e s))"
  unfolding fail_with_error_def by (subst run_andThen, subst run_andThen) (simp, intro drop_ends conjI impI, auto simp: called_def)

text \<open>A socket that is there, so a send raises nothing but \<^verbatim>\<open>OSError\<close>, which ends the session.\<close>

definition connected :: "'w WsSession \<Rightarrow> bool" where
  "connected s \<longleftrightarrow> called s \<and> ws_socket s \<noteq> None"

lemma try_send_ends:
  assumes "ws_well_behaved cf env" "polite env"
  shows "valid connected (try_send env chunk f) (\<lambda>n s. called s \<and> (n \<noteq> 0 \<longrightarrow> connected s)) (\<lambda>_. ended)"
proof (rule validI)
  fix s :: "'a WsSession"
  assume s: "connected s"
  then obtain k where k: "ws_socket s = Some k" by (auto simp: connected_def)
  obtain r w where r: "we_send env k chunk (ws_world s) = (r, w)" by fastforce
  let ?s = "s\<lparr>ws_world := w\<rparr>"
  have c: "connected ?s" "called ?s" using s by (auto simp: connected_def called_def)
  have os: "is_OSError e" if "r = Inl e" for e using assms(2) r that unfolding polite_def by metis
  have raw: "ws_send_raw env chunk s = (r, ?s)"
    using k r by (cases r) (simp_all add: ws_send_raw_def reading_def outside_result_def outside_def run_mbind)
  show "case try_send env chunk f s of (Inl e, s1) \<Rightarrow> ended s1 | (Inr n, s1) \<Rightarrow> called s1 \<and> (n \<noteq> 0 \<longrightarrow> connected s1)"
  proof (cases r)
    case (Inl e)
    obtain r1 s1 where f: "fail_with_error env (f e) ?s = (r1, s1)" by fastforce
    then have "ended s1" using fail_ends [OF assms c(2), of "f e"] by simp
    with Inl os raw c f show ?thesis by (cases r1) (auto simp: try_send_def run_catch run_mbind run_andThen ended_def)
  next
    case (Inr n)
    then show ?thesis using raw c by (simp add: try_send_def run_catch run_mbind)
  qed
qed

lemma drain_ends:
  assumes "ws_well_behaved cf env" "polite env"
  shows "budget \<le> fuel \<Longrightarrow> valid connected (drain_outbound_loop env fuel budget) (\<lambda>_. called) (\<lambda>_. ended)"
proof (induction fuel arbitrary: budget)
  case 0
  then show ?case by (auto simp: drain_outbound_loop.simps valid_def connected_def)
next
  case (Suc fuel)
  show ?case
  proof (cases "budget = 0")
    case True
    then show ?thesis by (auto simp: drain_outbound_loop.simps valid_def connected_def)
  next
    case False
    have upd: "connected (s\<lparr>ws_tx_queue := q, ws_tx_partial := part\<rparr>) = connected s" "connected (s\<lparr>ws_tx_partial := part\<rparr>) = connected s"
      for s :: "'a WsSession" and q part by (simp_all add: connected_def called_def)
    have tail: "valid connected (andThen (modify (\<lambda>s. s\<lparr>ws_tx_partial := part n\<rparr>)) (drain_outbound_loop env fuel (budget - n)))
        (\<lambda>_. called) (\<lambda>_. ended)" if "n \<noteq> 0" for part n
      using Suc.IH [of "budget - n"] Suc.prems that False
      by (intro valid_andThen [OF _ Suc.IH]) (auto simp: valid_def upd)
    have step: "valid connected (andThen (modify (\<lambda>s. s\<lparr>ws_tx_queue := q, ws_tx_partial := Some (b, off)\<rparr>))
        (mbind (try_send env chunk g) (\<lambda>n. if n = 0 then ret () else
          andThen (modify (\<lambda>s. s\<lparr>ws_tx_partial := part n\<rparr>)) (drain_outbound_loop env fuel (budget - n))))) (\<lambda>_. called) (\<lambda>_. ended)"
      for q b off chunk g part
    proof (intro valid_andThen valid_mbind)
      show "valid connected (modify (\<lambda>s. s\<lparr>ws_tx_queue := q, ws_tx_partial := Some (b, off)\<rparr>)) (\<lambda>_. connected) (\<lambda>_. ended)"
        by (simp add: valid_def connected_def called_def)
      fix n :: nat
      show "valid (\<lambda>s. called s \<and> (n \<noteq> 0 \<longrightarrow> connected s)) (if n = 0 then ret () else
          andThen (modify (\<lambda>s. s\<lparr>ws_tx_partial := part n\<rparr>)) (drain_outbound_loop env fuel (budget - n))) (\<lambda>_. called) (\<lambda>_. ended)"
        using tail [of n part] by (cases "n = 0") (simp_all add: valid_def)
    qed (rule try_send_ends [OF assms])
    show ?thesis unfolding drain_outbound_loop.simps [of env "Suc fuel" budget] if_not_P [OF False] nat.case
    proof (rule valid_reading)
      fix s :: "'a WsSession"
      show "valid connected (case case ws_tx_partial s of
              Some p \<Rightarrow> Some (p, ws_tx_queue s)
            | None \<Rightarrow> (case ws_tx_queue s of [] \<Rightarrow> None | f # fs \<Rightarrow> Some ((f, 0), fs)) of
            None \<Rightarrow> ret ()
          | Some ((buffer, offset), rest) \<Rightarrow>
              andThen (modify (\<lambda>s. s\<lparr>ws_tx_queue := rest, ws_tx_partial := Some (buffer, offset)\<rparr>))
             (mbind (try_send env (take budget (drop offset buffer))
                 (\<lambda>e. WebSocketProtocolError ''socket error during send'')) (\<lambda>sent.
              if sent = 0 then ret ()
              else andThen (modify (\<lambda>s. s\<lparr>ws_tx_partial := (if offset + sent \<ge> length buffer then None else Some (buffer, offset + sent))\<rparr>))
                (drain_outbound_loop env fuel (budget - sent))))) (\<lambda>_. called) (\<lambda>_. ended)"
        using step by (auto split: option.split list.split simp: valid_def connected_def)
    qed
  qed
qed

lemma finalize_ends:
  assumes "ws_well_behaved cf env" "polite env" "connected s"
  shows "ended (snd (finalize_closed env s))"
proof -
  define m where "m = reading (\<lambda>s. whenever (ws_tx_queue s \<noteq> [] \<or> ws_tx_partial s \<noteq> None) (drain_outbound env))"
  have "valid connected m (\<lambda>_. called) (\<lambda>_. ended)"
    using drain_ends [OF assms(1,2) order_refl]
    by (auto simp: m_def valid_def reading_def whenever_def drain_outbound_def connected_def)
  then have "case m s of (Inl e, s1) \<Rightarrow> ended s1 | (Inr _, s1) \<Rightarrow> called s1" using assms(3) by (auto simp: valid_def)
  then show ?thesis using drop_ends [OF assms(1,2)] unfolding finalize_closed_def m_def [symmetric]
    by (auto simp: run_andThen [of m] split: prod.splits sum.splits)
qed

lemma timeout_ends:
  assumes "ws_well_behaved cf env" "polite env" "connected s"
    "due env now (ws_handshake_deadline_ticks s) \<or> due env now (ws_close_deadline_ticks s) \<or> due env now (ws_pending_ping_deadline_ticks s)"
  shows "case check_timeouts env now s of (r, s1) \<Rightarrow> r \<noteq> Inr False \<and> ended s1"
proof -
  have c: "called s" using assms(3) by (simp add: connected_def)
  have conn: "connected (s\<lparr>ws_last_error := e\<rparr>)" for e using assms(3) by (simp add: connected_def called_def)
  have fail: "case andThen (fail_with_error env e) (ret True) s of (r, s1) \<Rightarrow> r \<noteq> Inr False \<and> ended s1" for e
    using fail_ends [OF assms(1,2) c, of e] by (auto simp: run_andThen split: prod.split sum.split)
  have fin: "case andThen (finalize_closed env) (ret True) (s\<lparr>ws_last_error := e\<rparr>) of (r, s1) \<Rightarrow> r \<noteq> Inr False \<and> ended s1" for e
    using finalize_ends [OF assms(1,2) conn, of e] by (auto simp: run_andThen split: prod.split sum.split)
  show ?thesis using assms(4) fail fin by (auto simp: check_timeouts_def reading_def run_andThen [of "modify _"])
qed

text \<open>
  C8. A close handshake always ends. A reachable session that is closing, with a socket that raises
  only \<^verbatim>\<open>OSError\<close> when it sends, has a close deadline, and the first tick at or after it leaves
  the session closed, whatever the peer does, however the socket answers and whatever the callbacks
  do; from then on no tick and no call of a method changes that.
\<close>

theorem closing_ends:
  assumes "ws_reachable env cf s" "ws_well_behaved cf env" "polite env" "ws_state s = CLOSING"
    "ws_side s = ClientSide \<longrightarrow> ws_connect_called s" "ws_socket s \<noteq> None"
  shows "\<exists>d. ws_close_deadline_ticks s = Some d \<and> (\<forall>now. src_diff (we_ticks env) d now \<le> 0 \<longrightarrow>
      (let s1 = snd (session_handle env now s) in ws_state s1 = CLOSED
        \<and> (\<forall>later. session_handle env later s1 = (Inr (), s1)) \<and> (\<forall>ca. ws_state (perform env ca s1) = CLOSED)))"
proof -
  obtain d where d: "ws_close_deadline_ticks s = Some d"
    using ws_reachable_inv [OF assms(1,2)] assms(4) by (auto simp: ws_inv_def timers_ok_def)
  have "ended (snd (session_handle env now s))" if "src_diff (we_ticks env) d now \<le> 0" for now
  proof -
    have "due env now (ws_close_deadline_ticks s)" using d that by (simp add: due_def)
    moreover have "connected s" using assms(5,6) by (simp add: connected_def called_def)
    ultimately show ?thesis using timeout_ends [OF assms(2,3), of s now] assms(4,5)
      by (auto simp: session_handle_def reading_def WebSocketClient_handle_def Connection_handle_def run_mbind whenever_def
          split: session_side.split prod.splits sum.splits)
  qed
  moreover have "session_handle env later r = (Inr (), r)" if "ended r" for later r
    using that by (auto simp: ended_def session_handle_def reading_def WebSocketClient_handle_def Connection_handle_def split: session_side.split)
  moreover have "ws_state (perform env ca r) = CLOSED" if "ended r" for ca r
    using perform_ended [OF that] by (simp add: ended_def)
  moreover have "ended r \<Longrightarrow> ws_state r = CLOSED" for r :: "'a WsSession" by (simp add: ended_def)
  ultimately show ?thesis using d by (auto simp: Let_def)
qed

section \<open>Witnesses and where the code falls short\<close>

definition sample_connection :: "logged WsSession" where
  "sample_connection = (init_session_state ServerSide small_cfg (Some 0) (FakeSocket_init, []))\<lparr>ws_handshake_phase := Some READING_REQUEST,
     ws_handshake_request_parser := Some (HandshakeParser_init RequestParser DEFAULT_MAX_HEADER_BYTES), ws_handshake_deadline_ticks := Some 10000\<rparr>"

lemma sample_connection_init: "Connection_init fake_ws_env small_cfg 0 0 (FakeSocket_init, []) = Inr sample_connection"
  by (simp add: Connection_init_def sample_connection_def ws_force_non_blocking_def swallow_def outside_do_def outside_def prog_simps
      fake_ws_env_def small_cfg_def real_ticks_def ticks_add_def tick_consts init_session_state_def)

definition open_session :: "session_side \<Rightarrow> FakeSocket \<Rightarrow> byte list list \<Rightarrow> logged WsSession" where
  "open_session side sock q = (init_session_state side small_cfg (Some 0) (sock, []))\<lparr>ws_state := OPEN, ws_tx_queue := q\<rparr>"

abbreviation closing_connection :: "logged WsSession" where
  "closing_connection \<equiv> perform fake_ws_env (CallClose 1000 []) sample_connection"

lemma closing_connection: "ws_state closing_connection = CLOSING" "ws_side closing_connection = ServerSide"
    "ws_socket closing_connection = Some 0" "ws_close_deadline_ticks closing_connection = Some 5000"
proof -
  have "encode_close_payload (Some 1000) [] = Inr (map B [3, 232])"
    "encode_frame OPCODE_CLOSE (map B [3, 232]) True None = Inr (map B [0x88, 2, 3, 232])" by code_simp+
  then show "ws_state closing_connection = CLOSING" "ws_side closing_connection = ServerSide"
      "ws_socket closing_connection = Some 0" "ws_close_deadline_ticks closing_connection = Some 5000"
    by (simp_all add: ws_close_def send_close_def enqueue_internal_frame_def append_frame_def outbound_mask_def ws_deadline_def reading_def
        prog_simps outside_def sample_connection_def init_session_state_def fake_ws_env_def small_cfg_def real_ticks_def ticks_add_def
        tick_consts ws_tx_queue_hard_cap_def TX_QUEUE_HEADROOM_def)
qed

theorem ws_session_invariant_witness:
  "length (ws_tx_queue (perform fake_ws_env (CallClose 1000 []) sample_connection)) \<le> 10
   \<and> ws_state (perform fake_ws_env (CallClose 1000 []) sample_connection) = CLOSING"
proof -
  show ?thesis using closing_connection(1) ws_session_invariant [OF ws_reachable.user [OF ws_reachable.server [OF sample_connection_init]] fake_well_behaved, of "CallClose 1000 []"]
    by (simp add: small_cfg_def)
qed

lemma fake_polite: "polite fake_ws_env"
  by (auto simp: polite_def fake_ws_env_def fs_send_def is_OSError_def split: if_splits)

theorem closing_ends_witness:
  "ws_close_deadline_ticks (perform fake_ws_env (CallClose 1000 []) sample_connection) = Some 5000
   \<and> ws_state (snd (session_handle fake_ws_env 5000 (perform fake_ws_env (CallClose 1000 []) sample_connection))) = CLOSED"
proof -
  let ?s = "perform fake_ws_env (CallClose 1000 []) sample_connection"
  note s = closing_connection
  have "\<exists>d. ws_close_deadline_ticks ?s = Some d \<and> (\<forall>now. src_diff (we_ticks fake_ws_env) d now \<le> 0 \<longrightarrow>
      (let s1 = snd (session_handle fake_ws_env now ?s) in ws_state s1 = CLOSED
        \<and> (\<forall>later. session_handle fake_ws_env later s1 = (Inr (), s1)) \<and> (\<forall>ca. ws_state (perform fake_ws_env ca s1) = CLOSED)))"
    using s by (intro closing_ends [OF ws_reachable.user [OF ws_reachable.server [OF sample_connection_init]] fake_well_behaved fake_polite]) simp_all
  moreover have "src_diff (we_ticks fake_ws_env) 5000 5000 \<le> 0" by code_simp
  ultimately show ?thesis using s(4) by (auto simp: Let_def)
qed

text \<open>
  \<open>on_close\<close> can run twice. A peer that drops the connection while frames are still queued ends
  the session in \<open>_drain_inbound\<close>; the same tick goes on to \<open>_drain_outbound\<close>, which sends on the
  socket that was just closed, meets an \<^verbatim>\<open>OSError\<close> and fails the closed session once more.
\<close>

lemma on_close_runs_twice:
  "case session_handle fake_ws_env 0 (open_session ServerSide (FakeSocket_init\<lparr>fs_peer_closed := True\<rparr>) [map B [0x81, 2, 104, 105]]) of
     (r, s) \<Rightarrow> ws_state s = CLOSED \<and> snd (ws_world s) = [OnClose CLOSE_INTERNAL_ERROR [], OnClose CLOSE_INTERNAL_ERROR []]"
  by code_simp

text \<open>
  The tail of an over-long message can pass for a message. A fragmented message whose first
  fragment alone exceeds \<open>max_message_bytes\<close> leaves the reassembly buffer empty; the final
  fragment then takes the path for unfragmented messages, which does not look at the oversized flag,
  and is delivered as if it were the whole message. \<open>on_oversized\<close> does not run.
\<close>

lemma oversized_tail_delivered:
  "case (encode_frame OPCODE_TEXT (map B [65, 66, 67, 68, 69]) False None,
         encode_frame OPCODE_CONTINUATION (map B [111, 107]) True None) of
     (Inr head, Inr tail) \<Rightarrow>
       (case feed_frame_bytes fake_ws_env (head @ tail) 0 (open_session ClientSide FakeSocket_init []) of
          (r, s) \<Rightarrow> wf_max_message_bytes (ws_cfg s) = 4 \<and> ws_state s = OPEN \<and> snd (ws_world s) = [OnText [111, 107]])
   | _ \<Rightarrow> False"
  by code_simp

end
