(* ===== verification/Ws_Messages.thy ===== *)
theory Ws_Messages
  imports Ws_Session_Props
begin

text \<open>
  How a session turns the bytes of its peer into messages: the loop that feeds the frame parser does
  not depend on how the bytes are cut into reads, and a peer's fragmented messages, with control
  frames between the fragments, reach the callbacks whole and in order.
\<close>

section \<open>The feeding loop over the bytes left\<close>

definition run_frames :: "'w ws_env \<Rightarrow> int \<Rightarrow> byte list \<Rightarrow> ('w, unit) ws" where
  "run_frames env now bs = feed_frames env now (length bs) bs 0"

lemma feed_drop: "feed p chunk off = feed p (drop off chunk) 0"
  by (simp add: feed_def)

lemma feed_frames_suffix: "length chunk - off \<le> fuel \<Longrightarrow> feed_frames env now fuel chunk off = run_frames env now (drop off chunk)"
proof (induction "length chunk - off" arbitrary: chunk off fuel rule: less_induct)
  case less
  show ?case
  proof (cases "off < length chunk")
    case False
    then show ?thesis by (simp add: run_frames_def feed_frames.simps)
  next
    case True
    then obtain f where f: "fuel = Suc f" using less.prems by (cases fuel) auto
    obtain m where m: "length (drop off chunk) = Suc m" using True by (cases "length (drop off chunk)") auto
    have cont: "feed_frames env now f chunk (off + n) = feed_frames env now m (drop off chunk) (0 + n)" if "n \<noteq> 0" for n
    proof -
      have "feed_frames env now f chunk (off + n) = run_frames env now (drop (off + n) chunk)"
        using that True less.prems f by (intro less.hyps) auto
      moreover have "feed_frames env now m (drop off chunk) (0 + n) = run_frames env now (drop (0 + n) (drop off chunk))"
        using that True m by (intro less.hyps) auto
      ultimately show ?thesis by (simp add: add.commute)
    qed
    show ?thesis
    proof
      fix s :: "'a WsSession"
      obtain p r where p: "feed (ws_frame_parser s) chunk off = (p, r)" by fastforce
      then have p': "feed (ws_frame_parser s) (drop off chunk) 0 = (p, r)" using feed_drop by metis
      have l: "0 < length (drop off chunk)" using True by simp
      show "feed_frames env now fuel chunk off s = run_frames env now (drop off chunk) s"
        unfolding run_frames_def m f feed_frames_run [OF True p] feed_frames_run [OF l p'] using cont by (auto split: sum.split)
    qed
  qed
qed

lemma run_frames_Nil [simp]: "run_frames env now [] = ret ()"
  by (simp add: run_frames_def feed_frames.simps)

lemma run_frames_step:
  assumes "bs \<noteq> []" "feed (ws_frame_parser s) bs 0 = (p, r)"
  shows "run_frames env now bs s =
    (case r of Inl e \<Rightarrow> after_parse_error env now e (s\<lparr>ws_frame_parser := p\<rparr>)
     | Inr n \<Rightarrow> (if n = 0 then ret () else if fp_state p = FRAME_READY then after_frame env now (run_frames env now (drop n bs))
         else run_frames env now (drop n bs)) (s\<lparr>ws_frame_parser := p\<rparr>))"
proof -
  obtain m where m: "length bs = Suc m" using assms(1) by (cases bs) auto
  have "feed_frames env now m bs n = run_frames env now (drop n bs)" if "n \<noteq> 0" for n
    using that m by (intro feed_frames_suffix) simp
  then show ?thesis using feed_frames_run [of 0 bs s p r env now m] assms m by (auto simp: run_frames_def split: sum.split)
qed

lemma feed_frame_bytes_run:
  "feed_frame_bytes env bs now s = (if fp_state (ws_frame_parser s) = FRAME_ERROR then (Inr (), s) else run_frames env now bs s)"
  by (simp add: feed_frame_bytes_def reading_def run_frames_def)

section \<open>User code leaves the parser alone\<close>

abbreviation parsing :: "FrameParser \<Rightarrow> 'w WsSession \<Rightarrow> bool" where
  "parsing p s \<equiv> ws_frame_parser s = p"

lemma ignores_world_parsing [simp]: "ignores_world (parsing p)"
  by (simp add: ignores_world_def)

lemma keeps_append_parsing: "keeps (parsing p) (append_frame env op payload)"
  unfolding append_frame_def outbound_mask_def
  by (intro keeps_mbind keeps_reading_any keeps_basic keeps_modify)
     (auto simp: keeps_def outside_def run_mbind split: session_side.split prod.split)

lemma keeps_enqueue_parsing: "keeps (parsing p) (enqueue_user_frame env op payload)" "keeps (parsing p) (enqueue_internal_frame env op payload)"
  unfolding enqueue_user_frame_def enqueue_internal_frame_def
  by (intro keeps_reading_any keeps_Let keeps_if keeps_basic keeps_append_parsing)+

lemma keeps_send_close_parsing: "keeps (parsing p) (send_close env code reason now)"
  unfolding send_close_def
  by (intro keeps_reading_any keeps_if keeps_basic keeps_lift keeps_andThen keeps_mbind keeps_enqueue_parsing keeps_ws_deadline_K keeps_modify) auto

lemma keeps_drop_parsing: "keeps (parsing p) (drop_transport env)" "keeps (parsing p) (on_finalized env)"
  unfolding drop_transport_def ws_close_socket_def on_finalized_def
  by (auto intro!: keeps_andThen keeps_swallow keeps_reading_any keeps_option keeps_basic keeps_outside_do_K keeps_modify
      split: session_side.split)

lemma perform_parsing:
  assumes "\<And>cb. keeps (parsing p) (we_call env cb)" "parsing p s"
  shows "parsing p (perform env ca s)"
proof -
  have close: "keeps (parsing p) (ws_close env code reason)" for code reason
    unfolding ws_close_def call_on_close_def user_def
    by (intro keeps_reading_any keeps_if keeps_basic keeps_andThen keeps_modify keeps_drop_parsing keeps_send_close_parsing assms(1)) auto
  have pong: "keeps (parsing p) (arm_pong_deadline env now)" for now
    unfolding arm_pong_deadline_def
    by (intro keeps_reading_any keeps_option keeps_if keeps_basic keeps_mbind keeps_ws_deadline_K keeps_modify) auto
  have send: "keeps (parsing p) (send_text env t)" "keeps (parsing p) (send_binary env bs)" "keeps (parsing p) (send_ping env bs)" for t bs
    unfolding send_text_def send_binary_def send_ping_def require_open_def
    by (intro keeps_reading_any keeps_if keeps_basic keeps_lift keeps_andThen keeps_enqueue_parsing pong)+
  have conn: "keeps (parsing p) (ws_connect env url t hs)" for url t hs
    unfolding ws_connect_def
    by (intro keeps_reading_any keeps_if keeps_basic keeps_andThen keeps_lift keeps_prod keeps_mbind keeps_outside_do_K keeps_ws_deadline_K
        keeps_modify) auto
  have msg: "keeps (parsing p) ws_next_message_resume" "keeps (parsing p) ws_next_message"
    by (auto simp: keeps_def ws_next_message_def ws_next_message_resume_def reading_def prog_simps split: option.split list.split)
  show ?thesis using assms(2) keeps_snd [OF close assms(2)] keeps_snd [OF send(1) assms(2)] keeps_snd [OF send(2) assms(2)]
      keeps_snd [OF send(3) assms(2)] keeps_snd [OF conn assms(2)] keeps_snd [OF msg(1) assms(2)] keeps_snd [OF msg(2) assms(2)]
    by (cases ca) auto
qed

lemma callbacks_parsing: "ws_well_behaved cf env \<Longrightarrow> keeps (parsing p) (we_call env cb)"
proof (induction arbitrary: cb rule: ws_well_behaved.induct)
  case (1 env)
  show ?case
  proof (rule keepsI)
    fix s :: "'a WsSession"
    assume s: "parsing p s"
    obtain calls where calls: "\<forall>(env', ca) \<in> set calls. \<forall>cb. keeps (parsing p) (we_call env' cb)"
      "snd (we_call env cb s) = fold (\<lambda>(env', ca). perform env' ca) calls s"
      using 1(2) [of cb s] by blast
    have "parsing p (fold (\<lambda>(env', ca). perform env' ca) calls s)"
      using calls(1) s by (induction calls arbitrary: s) (auto simp: perform_parsing)
    with calls(2) show "parsing p (snd (we_call env cb s))" by simp
  qed
qed

lemma keeps_user_parsing: "ws_well_behaved cf env \<Longrightarrow> keeps (parsing p) (user env cb)"
  unfolding user_def by (rule callbacks_parsing)

lemma keeps_fail_parsing: "ws_well_behaved cf env \<Longrightarrow> keeps (parsing p) (fail_with_error env e)"
  unfolding fail_with_error_def call_on_close_def
  by (intro keeps_andThen keeps_reading_any keeps_drop_parsing keeps_modify keeps_user_parsing) auto

lemma keeps_drain_parsing:
  assumes "ws_well_behaved cf env"
  shows "keeps (parsing p) (drain_outbound_loop env fuel budget)"
proof (induction fuel arbitrary: budget)
  case 0
  then show ?case by (subst drain_outbound_loop.simps) (intro keeps_if keeps_basic, simp)
next
  case (Suc fuel)
  have send: "keeps (parsing p) (try_send env chunk f)" for chunk f
    unfolding try_send_def ws_send_raw_def using assms
    by (intro keeps_catch keeps_mbind keeps_reading_any keeps_option keeps_basic keeps_outside_do_K keeps_if keeps_andThen keeps_fail_parsing) simp
  show ?case
    by (subst drain_outbound_loop.simps, unfold nat.case)
       (intro keeps_if keeps_basic keeps_reading_any keeps_option keeps_prod keeps_andThen keeps_modify keeps_mbind send Suc.IH, auto)
qed

lemma keeps_finalize_parsing: "ws_well_behaved cf env \<Longrightarrow> keeps (parsing p) (finalize_closed env)"
  unfolding finalize_closed_def drain_outbound_def call_on_close_def
  by (intro keeps_andThen keeps_reading_any keeps_whenever keeps_drain_parsing keeps_drop_parsing keeps_user_parsing)

lemma keeps_deliver_parsing: "ws_well_behaved cf env \<Longrightarrow> keeps (parsing p) (deliver_message env op payload now)"
  unfolding deliver_message_def
  by (cases "validate_text_payload payload")
     (auto intro!: keeps_reading_any keeps_andThen keeps_send_close_parsing keeps_user_parsing keeps_modify simp: push_inbound_def)

lemma keeps_fragment_parsing:
  assumes "ws_well_behaved cf env"
  shows "keeps (parsing p) (take_fragment env fin payload now)"
proof -
  have reset: "parsing p s \<Longrightarrow> parsing p (reset_inbound_state s)" "parsing p s \<Longrightarrow> parsing p (extend_inbound_buffer payload s)"
    for s :: "'a WsSession" by (simp_all add: reset_inbound_state_def extend_inbound_buffer_def)
  show ?thesis unfolding take_fragment_def finish_oversized_message_def using assms
    by (intro keeps_reading_any keeps_if keeps_basic keeps_andThen keeps_modify keeps_deliver_parsing keeps_whenever keeps_user_parsing
        keeps_send_close_parsing) (auto simp: reset)
qed

lemma keeps_dispatch_parsing:
  assumes "ws_well_behaved cf env"
  shows "keeps (parsing p) (dispatch_frame env now)"
proof -
  have close: "keeps (parsing p) (handle_close_frame env payload now)" for payload
    unfolding handle_close_frame_def using assms
    by (cases "parse_close_payload payload")
       (auto intro!: keeps_reading_any keeps_andThen keeps_send_close_parsing keeps_finalize_parsing keeps_modify)
  have data: "keeps (parsing p) (handle_data_frame env op fin payload now)" for op fin payload
    unfolding handle_data_frame_def using assms
    by (intro keeps_reading_any keeps_if keeps_andThen keeps_modify keeps_send_close_parsing keeps_fragment_parsing)
       (auto simp: count_fragment_def Let_def)
  have control: "keeps (parsing p) (handle_ping_frame env payload)" "keeps (parsing p) (handle_pong_frame env payload)" for payload
    unfolding handle_ping_frame_def handle_pong_frame_def using assms
    by (intro keeps_andThen keeps_modify keeps_enqueue_parsing keeps_user_parsing; simp)+
  show ?thesis unfolding dispatch_frame_def
    by (intro keeps_reading_any keeps_Let keeps_if keeps_send_close_parsing close data control)
qed

section \<open>Reads do not matter\<close>

text \<open>What a frame leaves behind: an idle parser, or a closed session that keeps the last frame.\<close>

lemma after_frame_parser:
  assumes "ws_well_behaved cf env" "fp_state (ws_frame_parser s) = FRAME_READY"
    and "ensuring (dispatch_frame env now) (reading (\<lambda>s. whenever (ws_state s \<noteq> CLOSED)
         (modify (\<lambda>s. s\<lparr>ws_frame_parser := fp_reset (ws_frame_parser s)\<rparr>)))) s = (r, s1)"
  shows "ws_frame_parser s1 = (if ws_state s1 = CLOSED then ws_frame_parser s else fp_reset (ws_frame_parser s))"
proof -
  obtain r2 s2 where d: "dispatch_frame env now s = (r2, s2)" by fastforce
  have "ws_frame_parser s2 = ws_frame_parser s"
    using keepsD [OF keeps_dispatch_parsing [OF assms(1)] refl d] .
  then show ?thesis using assms(3) d by (auto simp: ensuring_def reading_def whenever_def split: if_splits)
qed

lemma andThen_assoc: "andThen (andThen a b) c = andThen a (andThen b c)"
  by (rule ext) (simp add: run_andThen split: prod.split sum.split)

lemma after_frame_seq:
  assumes env: "ws_well_behaved cf env" and s: "fp_state (ws_frame_parser s) = FRAME_READY" "fp_inv (ws_frame_parser s)"
    and cont: "\<And>t. fp_inv (ws_frame_parser t) \<Longrightarrow> fp_state (ws_frame_parser t) = READING_HEADER \<Longrightarrow> m t = andThen m1 m2 t"
    and closed: "\<And>t. fp_state (ws_frame_parser t) = FRAME_READY \<Longrightarrow> m2 t = (Inr (), t)"
  shows "after_frame env now m s = andThen (after_frame env now m1) m2 s"
proof -
  define d where "d = ensuring (dispatch_frame env now) (reading (\<lambda>s. whenever (ws_state s \<noteq> CLOSED)
         (modify (\<lambda>s. s\<lparr>ws_frame_parser := fp_reset (ws_frame_parser s)\<rparr>))))"
  obtain r s1 where r: "d s = (r, s1)" by fastforce
  have p: "ws_frame_parser s1 = (if ws_state s1 = CLOSED then ws_frame_parser s else fp_reset (ws_frame_parser s))"
    using after_frame_parser [OF env s(1) r [unfolded d_def]] .
  show ?thesis
  proof (cases r)
    case (Inl e)
    then show ?thesis using r by (simp add: after_frame_def d_def [symmetric] run_andThen)
  next
    case (Inr u)
    have "ws_state s1 = CLOSED \<Longrightarrow> m2 s1 = (Inr (), s1)" using p s(1) by (intro closed) simp
    moreover have "ws_state s1 \<noteq> CLOSED \<Longrightarrow> m s1 = andThen m1 m2 s1" using p s(2) by (intro cont) (simp_all add: fp_inv_reset)
    ultimately show ?thesis using r Inr by (simp add: after_frame_def d_def [symmetric] run_andThen reading_def)
  qed
qed

lemma feed_progress:
  assumes "fp_inv p" "\<not> feed_done p" "bs \<noteq> []" "feed p bs 0 = (q, Inr k)"
  shows "0 < k"
proof -
  obtain p1 e n where st: "feed_step p bs = (p1, e, n)" by (metis surj_pair)
  have n: "0 < n" "fp_inv p1" using feed_step_inv [OF assms(1,2) st] fp_need_pos [OF assms(1,2)] assms(3) by auto
  have "feed_loop p1 (drop n bs) n = (q, Inr k)" using assms(2,3,4) st by (cases e) (simp_all add: feed_def feed_loop.simps [of p])
  then show ?thesis using feed_loop_inv [OF n(2), of "drop n bs" n q "Inr k"] n(1) by simp
qed

lemma after_mask_state: "fp_state (after_mask p) \<noteq> FRAME_ERROR"
  by (simp add: after_mask_def)

lemma after_length_state: "after_length p = (q, None) \<Longrightarrow> fp_state q \<noteq> FRAME_ERROR"
  using after_mask_state by (auto simp: after_length_def fp_fail_def Let_def split: if_splits)

lemma dispatch_header_state: "dispatch_header p = (q, None) \<Longrightarrow> fp_state q \<noteq> FRAME_ERROR"
  by (auto simp: dispatch_header_def Let_def fp_fail_def simp del: set_simps split: if_splits dest: after_length_state)

lemma dispatch_field_state: "dispatch_field p = (q, None) \<Longrightarrow> fp_state q \<noteq> FRAME_ERROR"
  using after_mask_state
  by (auto simp: dispatch_field_def split: FrameParseState.splits dest: after_length_state dispatch_header_state)

lemma step_no_error:
  assumes "feed_step p bs = (q, None, n)" "fp_state p \<noteq> FRAME_ERROR"
  shows "fp_state q \<noteq> FRAME_ERROR"
proof (cases "fp_state p = READING_PAYLOAD \<or> fp_state p = DRAINING_PAYLOAD")
  case True
  then show ?thesis using assms
    by (auto simp: feed_step_def take_payload_def take_drain_def fp_set_array_def Let_def split: if_splits prod.splits option.splits)
next
  case False
  then have "take_field p bs = (q, None, n)" using assms(1) by (cases "fp_state p") (simp_all add: feed_step_def)
  then show ?thesis using assms(2) by (auto simp: take_field_def Let_def split: if_splits prod.splits dest: dispatch_field_state)
qed

lemma feed_no_error: "feed_loop p bs c = (q, Inr k) \<Longrightarrow> fp_state p \<noteq> FRAME_ERROR \<Longrightarrow> fp_state q \<noteq> FRAME_ERROR"
proof (induction p bs c rule: feed_loop.induct)
  case (1 p bs c)
  show ?case
  proof (cases "bs = [] \<or> feed_done p")
    case True
    then show ?thesis using 1(2,3) by (auto simp: feed_loop.simps [of p])
  next
    case False
    obtain p1 e n where s: "feed_step p bs = (p1, e, n)" by (metis surj_pair)
    then have e: "e = None" "feed_loop p1 (drop n bs) (c + n) = (q, Inr k)"
      using 1(2) False by (cases e; simp add: feed_loop.simps [of p])+
    show ?thesis using 1(1) [OF False s [symmetric] refl e(1)] e(2) step_no_error [OF s [unfolded e(1)] 1(3)] by simp
  qed
qed

lemma feed_ready_frames: "fp_state (ws_frame_parser t) = FRAME_READY \<Longrightarrow> feed_frame_bytes env b now t = (Inr (), t)"
proof -
  assume t: "fp_state (ws_frame_parser t) = FRAME_READY"
  then have "feed (ws_frame_parser t) b 0 = (ws_frame_parser t, Inr 0)" by (simp add: feed_def)
  then show ?thesis using t by (cases "b = []") (simp_all add: feed_frame_bytes_run run_frames_step)
qed

lemma parse_error_stays:
  assumes "fp_state (ws_frame_parser s) = FRAME_ERROR" "after_parse_error env now e s = (r, s1)"
  shows "fp_state (ws_frame_parser s1) = FRAME_ERROR"
proof -
  have "keeps (parsing (ws_frame_parser s)) (after_parse_error env now e)"
    unfolding after_parse_error_def by (intro keeps_if keeps_andThen keeps_send_close_parsing keeps_modify keeps_basic) simp
  from keepsD [OF this refl assms(2)] assms(1) show ?thesis by simp
qed

lemma run_frames_append:
  assumes env: "ws_well_behaved cf env"
  shows "fp_inv (ws_frame_parser s) \<Longrightarrow> \<not> feed_done (ws_frame_parser s) \<Longrightarrow>
    run_frames env now (a @ b) s = andThen (run_frames env now a) (feed_frame_bytes env b now) s"
proof (induction "length a" arbitrary: a s rule: less_induct)
  case less
  let ?p = "ws_frame_parser s"
  have ne: "fp_state ?p \<noteq> FRAME_ERROR" using less.prems(2) by (auto simp: feed_done_def)
  show ?case
  proof (cases "a = []")
    case True
    then show ?thesis using ne by (simp add: run_andThen feed_frame_bytes_run)
  next
    case False
    obtain p1 r where f: "feed ?p a 0 = (p1, r)" by fastforce
    note inv = feed_loop_inv [OF less.prems(1) f [unfolded feed_def drop_0]]
    have app: "feed ?p (a @ b) 0 = (case r of Inl e \<Rightarrow> (p1, Inl e) | Inr k \<Rightarrow> if feed_done p1 then (p1, Inr k) else feed_loop p1 b k)"
      using feed_loop_append [OF less.prems(1), of a b 0] f by (simp add: feed_def split: sum.split)
    note run_a = run_frames_step [OF False f]
    show ?thesis
    proof (cases r)
      case (Inl e)
      obtain r1 s1 where e: "after_parse_error env now e (s\<lparr>ws_frame_parser := p1\<rparr>) = (r1, s1)" by fastforce
      have "fp_state (ws_frame_parser s1) = FRAME_ERROR" using inv Inl by (intro parse_error_stays [OF _ e]) simp
      then have "feed_frame_bytes env b now s1 = (Inr (), s1)" by (simp add: feed_frame_bytes_run)
      then show ?thesis using e Inl app False run_frames_step [of "a @ b" s p1 r env now] by (cases r1) (simp_all add: run_andThen run_a)
    next
      case (Inr k)
      have k: "0 < k" "k \<le> length a" "k < length a \<longrightarrow> feed_done p1"
        using feed_progress [OF less.prems False f [unfolded Inr]] inv Inr by auto
      have ok: "fp_state p1 \<noteq> FRAME_ERROR" using feed_no_error [OF f [unfolded feed_def drop_0 Inr] ne] .
      show ?thesis
      proof (cases "feed_done p1")
        case True
        then have ready: "fp_state p1 = FRAME_READY" using ok by (simp add: feed_done_def)
        have "after_frame env now (run_frames env now (drop k (a @ b))) (s\<lparr>ws_frame_parser := p1\<rparr>)
            = andThen (after_frame env now (run_frames env now (drop k a))) (feed_frame_bytes env b now) (s\<lparr>ws_frame_parser := p1\<rparr>)"
          using ready inv k False
          by (intro after_frame_seq [OF env]) (auto simp: feed_ready_frames feed_done_def intro: less.hyps)
        moreover have "run_frames env now (a @ b) s = after_frame env now (run_frames env now (drop k (a @ b))) (s\<lparr>ws_frame_parser := p1\<rparr>)"
          using app Inr True k(1) ready False by (subst run_frames_step [of _ _ p1 "Inr k"]) simp_all
        moreover have "run_frames env now a s = after_frame env now (run_frames env now (drop k a)) (s\<lparr>ws_frame_parser := p1\<rparr>)"
          using run_a Inr k(1) ready by simp
        ultimately show ?thesis by (simp only: run_andThen)
      next
        case nd: False
        then have ka: "k = length a" and nr: "fp_state p1 \<noteq> FRAME_READY" using k by (auto simp: feed_done_def)
        have "run_frames env now a s = (Inr (), s\<lparr>ws_frame_parser := p1\<rparr>)" using run_a Inr k nr ka by simp
        then have rhs: "andThen (run_frames env now a) (feed_frame_bytes env b now) s = run_frames env now b (s\<lparr>ws_frame_parser := p1\<rparr>)"
          using ok by (simp add: run_andThen feed_frame_bytes_run)
        show ?thesis
        proof (cases "b = []")
          case True
          then show ?thesis using rhs \<open>run_frames env now a s = (Inr (), s\<lparr>ws_frame_parser := p1\<rparr>)\<close> by simp
        next
          case b: False
          obtain p2 r2 where f2: "feed p1 b 0 = (p2, r2)" by fastforce
          have f2': "feed ?p (a @ b) 0 = (p2, map_sum id ((+) k) r2)"
            using app Inr nd feed_loop_from [of p1 b k] f2 by (simp add: feed_def)
          have "j \<noteq> 0" if "r2 = Inr j" for j using feed_progress [OF _ nd b f2 [unfolded that]] inv by simp
          moreover have "drop (k + j) (a @ b) = drop j b" for j using ka by simp
          moreover note run_frames_step [of "a @ b" s p2 "map_sum id ((+) k) r2" env now, OF _ f2']
            run_frames_step [OF b, of "s\<lparr>ws_frame_parser := p1\<rparr>" p2 r2 env now]
          ultimately show ?thesis unfolding rhs using f2 False k(1) by (cases r2) (simp_all del: drop_append)
        qed
      qed
    qed
  qed
qed

lemma feed_frame_bytes_append:
  assumes "ws_well_behaved cf env" "fp_inv (ws_frame_parser s)"
  shows "feed_frame_bytes env (a @ b) now s = andThen (feed_frame_bytes env a now) (feed_frame_bytes env b now) s"
proof (cases "feed_done (ws_frame_parser s)")
  case False
  then show ?thesis using run_frames_append [OF assms False] by (auto simp: feed_frame_bytes_run run_andThen feed_done_def)
next
  case True
  then consider "fp_state (ws_frame_parser s) = FRAME_READY" | "fp_state (ws_frame_parser s) = FRAME_ERROR" by (auto simp: feed_done_def)
  then show ?thesis by cases (simp_all add: run_andThen feed_ready_frames, simp add: feed_frame_bytes_run)
qed

lemma feed_frame_bytes_concat:
  assumes "ws_well_behaved cf env"
  shows "ws_inv cf sd s \<Longrightarrow> foldr (\<lambda>c. andThen (feed_frame_bytes env c now)) cs (ret ()) s = feed_frame_bytes env (concat cs) now s"
proof (induction cs arbitrary: s)
  case Nil
  then show ?case by (simp add: feed_frame_bytes_run)
next
  case (Cons c cs)
  have "fp_inv (ws_frame_parser s)" using Cons.prems by (simp add: ws_inv_def inbound_ok_def)
  note app = feed_frame_bytes_append [OF assms this, of c "concat cs" now]
  obtain r s1 where c: "feed_frame_bytes env c now s = (r, s1)" by fastforce
  then have "ws_inv cf sd s1" using keepsD [OF keeps_feed_frame_bytes [OF ws_well_behaved_ok [OF assms]] Cons.prems] by simp
  then show ?case using app c Cons.IH by (simp add: run_andThen split: sum.split)
qed

text \<open>
  C12. What a session makes of its peer's bytes does not depend on how they arrive. In every reachable
  session, passing the bytes to \<open>_feed_frame_bytes\<close> in reads of any sizes within a tick gives the same
  result as one read of them all: the same messages, replies, closes and errors, the same callbacks
  and the same session after, whether or not a frame, a fragmented message or a protocol error falls
  across the border of two reads, and whatever the callbacks do to the session in between.
\<close>

theorem ws_session_chunking:
  assumes "ws_reachable env cf s" "ws_well_behaved cf env"
  shows "foldr (\<lambda>c. andThen (feed_frame_bytes env c now)) cs (ret ()) s = feed_frame_bytes env (concat cs) now s"
  using ws_reachable_inv [OF assms] by (rule feed_frame_bytes_concat [OF assms(2)])

theorem ws_session_chunking_witness:
  "let s = perform fake_ws_env (CallClose 1000 []) sample_connection in
   ws_state s = CLOSING \<and> foldr (\<lambda>c. andThen (feed_frame_bytes fake_ws_env c 0)) [map B [0x89], [], map B [0, 0x8A, 0]] (ret ()) s
   = feed_frame_bytes fake_ws_env (map B [0x89, 0, 0x8A, 0]) 0 s"
  using closing_connection(1) ws_session_chunking [OF ws_reachable.user [OF ws_reachable.server [OF sample_connection_init]] fake_well_behaved,
    of 0 "[map B [0x89], [], map B [0, 0x8A, 0]]" "CallClose 1000 []"] by (simp add: Let_def)

end
