(* ===== verification/Ws_Delivery.thy ===== *)
theory Ws_Delivery
  imports Ws_Messages
begin

text \<open>
  What a peer sends is what the callbacks get. \<open>assemble\<close> is the contract of reassembly: from the
  frames of a peer to the events of the application, with no parser, buffers or queues. The
  session refines it, frame by frame, and a peer's messages, cut into fragments with control
  frames between them, come out of it whole and in order.
\<close>

section \<open>The contract\<close>

type_synonym wsframe = "nat \<times> byte list \<times> bool"
type_synonym assembly = "nat option \<times> byte list \<times> nat"

definition message_event :: "nat \<Rightarrow> byte list \<Rightarrow> ws_callback option" where
  "message_event kind bs =
     (if kind = OPCODE_TEXT then (case validate_text_payload bs of Inl _ \<Rightarrow> None | Inr t \<Rightarrow> Some (OnText t)) else Some (OnBinary bs))"

fun assemble :: "nat \<Rightarrow> wsframe \<Rightarrow> assembly \<Rightarrow> (assembly \<times> ws_callback list) option" where
  "assemble cap (op, payload, fin) (kind, buffer, run) =
     (if length payload > cap then None
      else if op = OPCODE_PING then (if fin then Some ((kind, buffer, run), [OnPing payload]) else None)
      else if op = OPCODE_PONG then (if fin then Some ((kind, buffer, run), [OnPong payload]) else None)
      else if op \<notin> set DATA_OPCODES \<or> (op = OPCODE_CONTINUATION) \<noteq> (kind \<noteq> None) \<or> length (buffer @ payload) > cap then None
      else
        let k = (case kind of None \<Rightarrow> op | Some k \<Rightarrow> k) in
        if fin then map_option (\<lambda>e. ((None, [], 0), [e])) (message_event k (buffer @ payload))
        else if payload = [] \<and> run \<ge> MAX_EMPTY_FRAGMENT_RUN then None
        else Some ((Some k, buffer @ payload, if payload = [] then run + 1 else 0), []))"

fun assemble_all :: "nat \<Rightarrow> wsframe list \<Rightarrow> assembly \<Rightarrow> (assembly \<times> ws_callback list) option" where
  "assemble_all cap [] a = Some (a, [])"
| "assemble_all cap (f # fs) a = (case assemble cap f a of None \<Rightarrow> None
     | Some (a1, evs) \<Rightarrow> map_option (apsnd ((@) evs)) (assemble_all cap fs a1))"

text \<open>The bytes a peer puts on the wire for a frame: masked with a key of its choice when the session is the server's.\<close>

definition on_wire :: "session_side \<Rightarrow> wsframe \<Rightarrow> byte list \<Rightarrow> bool" where
  "on_wire sd f bs \<longleftrightarrow> (case f of (op, payload, fin) \<Rightarrow>
     \<exists>key. encode_frame op payload fin key = Inr bs \<and> (key \<noteq> None \<longleftrightarrow> sd = ServerSide))"

lemmas ws_opcodes = OPCODE_CONTINUATION_def OPCODE_TEXT_def OPCODE_BINARY_def OPCODE_CLOSE_def OPCODE_PING_def OPCODE_PONG_def

lemma fed_frame:
  assumes "fp_inv p" "fp_state p = READING_HEADER" "fp_header_len p = 0" "valid_opcode op" "op \<in> set CONTROL_OPCODES \<longrightarrow> fin"
    "encode_frame op payload fin key = Inr bs"
  obtains q where "fp_inv q" "frame_result p op payload fin (key \<noteq> None) q" "\<And>rest. feed_loop p (bs @ rest) 0 = (q, Inr (length bs))"
proof -
  obtain q where q: "feed_loop p bs 0 = (q, Inr (length bs))" "fp_inv q" "frame_result p op payload fin (key \<noteq> None) q"
    using frame_feed [OF assms, of "[]" 0] by auto
  then have "feed_loop p (bs @ rest) 0 = (q, Inr (length bs))" for rest
    using feed_loop_append [OF assms(1), of bs rest 0] by (simp add: feed_done_def frame_result_def)
  with q(2,3) that show ?thesis by blast
qed

lemma pong_frame: "length payload \<le> 125 \<Longrightarrow> \<forall>k. m = Some k \<longrightarrow> length k = 4 \<Longrightarrow> \<exists>f. encode_frame OPCODE_PONG payload True m = Inr f"
  by (cases m) (auto simp: encode_frame_def MAX_CONTROL_PAYLOAD_BYTES_def result_simps)

section \<open>The session refines it\<close>

text \<open>An open session between two frames, in callback mode, with the fragments so far.\<close>

definition assembling :: "WsConfig \<Rightarrow> session_side \<Rightarrow> assembly \<Rightarrow> 'w WsSession \<Rightarrow> bool" where
  "assembling cf sd a s \<longleftrightarrow> (case a of (kind, buffer, run) \<Rightarrow>
     ws_state s = OPEN \<and> ws_cfg s = cf \<and> ws_side s = sd \<and> ws_inbound_queue s = None
     \<and> ws_inbound_message_opcode s = kind \<and> ws_inbound_message_buffer s = buffer \<and> ws_inbound_empty_fragment_run s = run
     \<and> \<not> ws_inbound_oversized s \<and> fp_inv (ws_frame_parser s) \<and> fp_max_payload_bytes (ws_frame_parser s) = wf_max_message_bytes cf)"

definition between_frames :: "'w WsSession \<Rightarrow> bool" where
  "between_frames s \<longleftrightarrow> fp_state (ws_frame_parser s) = READING_HEADER \<and> fp_header_len (ws_frame_parser s) = 0"

text \<open>Callbacks that write what they are called with to a log and leave the session alone.\<close>

locale ws_observer =
  fixes env :: "'w ws_env" and note_call :: "ws_callback \<Rightarrow> 'w \<Rightarrow> 'w" and log :: "'w \<Rightarrow> ws_callback list"
  assumes calls: "we_call env cb s = (Inr (), s\<lparr>ws_world := note_call cb (ws_world s)\<rparr>)"
    and log_call: "log (note_call cb w) = log w @ [cb]"
    and random: "we_urandom env n w = (k, w1) \<Longrightarrow> length k = n \<and> log w1 = log w"
begin

lemma pong_queued:
  assumes "length payload \<le> 125"
  shows "\<exists>q w. enqueue_internal_frame env OPCODE_PONG payload s = (Inr (), s\<lparr>ws_tx_queue := q, ws_world := w\<rparr>) \<and> log w = log (ws_world s)"
proof (cases "length (ws_tx_queue s) \<ge> ws_tx_queue_hard_cap s - 1")
  case True
  then show ?thesis
    by (intro exI [of _ "ws_tx_queue s"] exI [of _ "ws_world s"]) (simp add: enqueue_internal_frame_def reading_def Let_def ws_opcodes)
next
  case False
  obtain k w where k: "we_urandom env 4 (ws_world s) = (k, w)" by fastforce
  define m where "m = (if ws_side s = ClientSide then Some k else None)"
  have "\<forall>k. m = Some k \<longrightarrow> length k = 4" using random [OF k] by (simp add: m_def)
  then obtain f where f: "encode_frame OPCODE_PONG payload True m = Inr f" using pong_frame [OF assms] by blast
  show ?thesis using False k f random [OF k]
    by (intro exI [of _ "deque_append (ws_tx_queue_hard_cap s) (ws_tx_queue s) f"] exI [of _ "if ws_side s = ClientSide then w else ws_world s"])
       (cases "ws_side s"; simp add: m_def enqueue_internal_frame_def append_frame_def outbound_mask_def outside_def reading_def run_mbind
         ws_opcodes ws_tx_queue_hard_cap_def)
qed

lemma control_frame:
  assumes "assembling cf sd a s" "op = OPCODE_PING \<or> op = OPCODE_PONG" "length payload \<le> 125"
  shows "\<exists>s1. (if op = OPCODE_PING then handle_ping_frame env payload else handle_pong_frame env payload) s = (Inr (), s1)
    \<and> assembling cf sd a s1 \<and> log (ws_world s1) = log (ws_world s) @ [if op = OPCODE_PING then OnPing payload else OnPong payload]"
proof -
  obtain q w where pong: "enqueue_internal_frame env OPCODE_PONG payload s = (Inr (), s\<lparr>ws_tx_queue := q, ws_world := w\<rparr>)"
    "log w = log (ws_world s)" using pong_queued [OF assms(3)] by blast
  then show ?thesis using assms(1,2)
    by (auto simp: handle_ping_frame_def handle_pong_frame_def run_andThen user_def calls log_call assembling_def)
qed

lemma delivered:
  assumes "message_event k bs = Some ev" "ws_inbound_queue s = None"
  shows "deliver_message env (Some k) bs now s = (Inr (), s\<lparr>ws_world := note_call ev (ws_world s)\<rparr>)"
  using assms by (auto simp: message_event_def deliver_message_def reading_def user_def calls split: if_splits sum.splits)

lemma fragment_taken:
  assumes s: "ws_inbound_message_opcode s = Some k" "ws_inbound_queue s = None" "\<not> ws_inbound_oversized s"
      "\<not> fp_oversized (ws_frame_parser s)"
    and len: "length (ws_inbound_message_buffer s @ payload) \<le> wf_max_message_bytes (ws_cfg s)"
    and ev: "fin \<longrightarrow> message_event k (ws_inbound_message_buffer s @ payload) = Some ev"
  shows "take_fragment env fin payload now s = (Inr (),
    if fin then (let r = reset_inbound_state s in r\<lparr>ws_world := note_call ev (ws_world r)\<rparr>)
    else s\<lparr>ws_inbound_message_buffer := ws_inbound_message_buffer s @ payload\<rparr>)"
proof -
  have q: "ws_inbound_queue (reset_inbound_state r) = ws_inbound_queue r" for r :: "'w WsSession" by (simp add: reset_inbound_state_def)
  have r: "reset_inbound_state (s\<lparr>ws_inbound_message_buffer := b\<rparr>) = reset_inbound_state s" for b by (simp add: reset_inbound_state_def)
  show ?thesis
  proof (cases "fin \<and> ws_inbound_message_buffer s = []")
    case True
    then show ?thesis using s len ev by (simp add: take_fragment_def reading_def run_andThen delivered q Let_def)
  next
    case False
    have "extend_inbound_buffer payload s = s\<lparr>ws_inbound_message_buffer := ws_inbound_message_buffer s @ payload\<rparr>"
      using s len by (simp add: extend_inbound_buffer_def)
    then show ?thesis using False s ev
      by (cases fin) (auto simp: take_fragment_def reading_def run_andThen whenever_def delivered q r Let_def)
  qed
qed

lemma data_frame:
  assumes s: "assembling cf sd a s" "op \<in> set DATA_OPCODES" "\<not> fp_oversized (ws_frame_parser s)"
      "fp_reported_length (ws_frame_parser s) = length payload"
    and a: "assemble (wf_max_message_bytes cf) (op, payload, fin) a = Some (a1, evs)"
  shows "\<exists>s1. handle_data_frame env op fin payload now s = (Inr (), s1)
    \<and> assembling cf sd a1 s1 \<and> log (ws_world s1) = log (ws_world s) @ evs"
proof -
  obtain kind buffer run where a0: "a = (kind, buffer, run)" by (cases a)
  have n: "op \<noteq> OPCODE_PING" "op \<noteq> OPCODE_PONG" using s(2) by (auto simp: DATA_OPCODES_def ws_opcodes)
  define k where "k = (case kind of None \<Rightarrow> op | Some k \<Rightarrow> k)"
  have c: "op = OPCODE_CONTINUATION \<longleftrightarrow> kind \<noteq> None" "length (buffer @ payload) \<le> wf_max_message_bytes cf"
    using a n s(2) unfolding a0 by (auto split: if_splits)
  let ?s = "begin_fragment op fin s"
  have st: "ws_inbound_message_opcode ?s = Some k" "ws_inbound_queue ?s = None" "\<not> ws_inbound_oversized ?s" "ws_cfg ?s = cf"
      "ws_inbound_message_buffer ?s = buffer" "ws_frame_parser ?s = ws_frame_parser s" "ws_world ?s = ws_world s"
      "ws_state ?s = OPEN" "ws_side ?s = sd"
      "ws_inbound_empty_fragment_run ?s = (if payload \<noteq> [] then 0 else if \<not> fin then run + 1 else run)"
    using s(1,4) c(1) by (auto simp: a0 k_def assembling_def begin_fragment_def count_fragment_def Let_def)
  have run: "handle_data_frame env op fin payload now s = take_fragment env fin payload now ?s"
    using s(1) c a n s(2,4) st(10) unfolding a0
    by (subst data_frame_run) (auto simp: assembling_def split: if_splits)
  show ?thesis
  proof (cases fin)
    case True
    then obtain ev where ev: "message_event k (buffer @ payload) = Some ev" "a1 = (None, [], 0)" "evs = [ev]"
      using a c n s(2) unfolding a0 by (auto simp: Let_def k_def split: if_splits)
    have "take_fragment env fin payload now ?s = (Inr (), (let r = reset_inbound_state ?s in r\<lparr>ws_world := note_call ev (ws_world r)\<rparr>))"
      using st s(3) c(2) ev(1) True by (subst fragment_taken [of _ k _ _ ev]) auto
    then show ?thesis using run ev(2,3) st s(1) by (auto simp: Let_def reset_inbound_state_def assembling_def log_call a0)
  next
    case False
    then have "a1 = (Some k, buffer @ payload, if payload = [] then run + 1 else 0)" "evs = []"
      using a c n s(2) unfolding a0 by (auto simp: Let_def k_def split: if_splits)
    moreover have "take_fragment env fin payload now ?s = (Inr (), ?s\<lparr>ws_inbound_message_buffer := buffer @ payload\<rparr>)"
      using st s(3) c(2) False by (subst fragment_taken [of _ k]) auto
    ultimately show ?thesis using run st s(1) False by (auto simp: assembling_def a0)
  qed
qed

lemma frame_refines:
  assumes s: "assembling cf sd a s" "between_frames s" and a: "assemble (wf_max_message_bytes cf) f a = Some (a1, evs)"
    and bs: "on_wire sd f bs"
  shows "\<exists>s1. (\<forall>rest. run_frames env now (bs @ rest) s = run_frames env now rest s1) \<and> assembling cf sd a1 s1 \<and> between_frames s1
    \<and> log (ws_world s1) = log (ws_world s) @ evs"
proof -
  obtain op payload fin where f: "f = (op, payload, fin)" by (cases f)
  obtain key where key: "encode_frame op payload fin key = Inr bs" "key \<noteq> None \<longleftrightarrow> sd = ServerSide"
    using bs unfolding f on_wire_def by auto
  obtain kind buffer n where a0: "a = (kind, buffer, n)" by (cases a)
  have op: "valid_opcode op" "op \<in> set CONTROL_OPCODES \<longrightarrow> fin \<and> (op = OPCODE_PING \<or> op = OPCODE_PONG) \<and> a1 = a
      \<and> evs = [if op = OPCODE_PING then OnPing payload else OnPong payload]" and len: "length payload \<le> wf_max_message_bytes cf"
    using a unfolding f a0 by (auto simp: valid_opcode_def CONTROL_OPCODES_def DATA_OPCODES_def ws_opcodes split: if_splits)
  have idle: "fp_inv (ws_frame_parser s)" "fp_state (ws_frame_parser s) = READING_HEADER" "fp_header_len (ws_frame_parser s) = 0"
      "fp_max_payload_bytes (ws_frame_parser s) = wf_max_message_bytes cf"
    using s by (auto simp: assembling_def between_frames_def)
  obtain q where q: "fp_inv q" "frame_result (ws_frame_parser s) op payload fin (key \<noteq> None) q"
      "feed_loop (ws_frame_parser s) (bs @ rest) 0 = (q, Inr (length bs))" for rest
    using fed_frame [OF idle(1-3) op(1) _ key(1)] op(2) by blast
  let ?s = "s\<lparr>ws_frame_parser := q\<rparr>"
  have fq: "fp_state q = FRAME_READY" "fp_opcode q = op" "fp_fin q = fin" "fp_had_mask q = (sd = ServerSide)"
      "fp_reported_length q = length payload" "\<not> fp_oversized q" "fp_payload q = payload"
    using q(2) len idle(4) key(2) by (auto simp: frame_result_def)
  have as: "assembling cf sd a ?s" using s(1) q(1) feed_loop_max [OF q(3) [of "[]"]] idle(4) by (simp add: assembling_def a0)
  have side: "ws_side ?s = sd" using s(1) by (auto simp: assembling_def)
  have "\<exists>s1. dispatch_frame env now ?s = (Inr (), s1) \<and> assembling cf sd a1 s1 \<and> log (ws_world s1) = log (ws_world s) @ evs"
  proof (cases "op \<in> set CONTROL_OPCODES")
    case True
    have "length payload \<le> 125" using key(1) True by (auto elim: encode_frameD)
    from control_frame [OF as _ this, of op] True op(2) fq side show ?thesis
      by (auto simp: dispatch_frame_def reading_def Let_def inbound_mask_required_def ws_opcodes)
  next
    case False
    then have d: "op \<in> set DATA_OPCODES" using op(1) by (simp add: valid_opcode_def)
    from data_frame [OF as d _ _ a [unfolded f], of now] False fq side show ?thesis
      by (auto simp: dispatch_frame_def reading_def Let_def inbound_mask_required_def CONTROL_OPCODES_def)
  qed
  then obtain s1 where s1: "dispatch_frame env now ?s = (Inr (), s1)" "assembling cf sd a1 s1" "log (ws_world s1) = log (ws_world s) @ evs"
    by blast
  let ?t = "s1\<lparr>ws_frame_parser := fp_reset (ws_frame_parser s1)\<rparr>"
  have o1: "ws_state s1 = OPEN" using s1(2) by (auto simp: assembling_def)
  have "run_frames env now (bs @ rest) s = run_frames env now rest ?t" for rest
  proof -
    have "bs \<noteq> []" using encode_frame_nonempty [OF key(1)] by auto
    then have "run_frames env now (bs @ rest) s = after_frame env now (run_frames env now rest) ?s"
      using q(3) [of rest] fq(1) by (subst run_frames_step [of _ _ q "Inr (length bs)"]) (simp_all add: feed_def)
    also have "\<dots> = run_frames env now rest ?t"
      using s1(1) o1 by (simp add: after_frame_def run_andThen ensuring_def reading_def whenever_def)
    finally show ?thesis .
  qed
  moreover have "assembling cf sd a1 ?t" "between_frames ?t"
    using s1(2) by (auto simp: assembling_def between_frames_def fp_inv_reset)
  ultimately show ?thesis using s1(3) by auto
qed

lemma frames_refine:
  "assembling cf sd a s \<Longrightarrow> between_frames s \<Longrightarrow> assemble_all (wf_max_message_bytes cf) fs a = Some (a1, evs) \<Longrightarrow>
   list_all2 (on_wire sd) fs bss \<Longrightarrow>
   \<exists>s1. run_frames env now (concat bss) s = (Inr (), s1) \<and> assembling cf sd a1 s1 \<and> between_frames s1
    \<and> log (ws_world s1) = log (ws_world s) @ evs"
proof (induction fs arbitrary: a s bss evs)
  case Nil
  then show ?case by auto
next
  case (Cons f fs)
  obtain a2 e1 e2 where step: "assemble (wf_max_message_bytes cf) f a = Some (a2, e1)"
      "assemble_all (wf_max_message_bytes cf) fs a2 = Some (a1, e2)" "evs = e1 @ e2"
    using Cons.prems(3) by (auto split: option.splits prod.splits)
  obtain bs rest where bss: "bss = bs # rest" "on_wire sd f bs" "list_all2 (on_wire sd) fs rest"
    using Cons.prems(4) by (auto simp: list_all2_Cons1)
  obtain s2 where s2: "\<forall>r. run_frames env now (bs @ r) s = run_frames env now r s2" "assembling cf sd a2 s2" "between_frames s2"
      "log (ws_world s2) = log (ws_world s) @ e1"
    using frame_refines [OF Cons.prems(1,2) step(1) bss(2), of now] by auto
  from Cons.IH [OF s2(2,3) step(2) bss(3)] s2(1,4) bss(1) step(3) show ?case by auto
qed

end

section \<open>Messages\<close>

text \<open>
  A peer's message: its kind and its fragments, each with the control frames (pings, or pongs) sent
  before it.
\<close>

type_synonym fragment = "(bool \<times> byte list) list \<times> byte list"
type_synonym message = "nat \<times> fragment list"

definition control_wsframe :: "bool \<times> byte list \<Rightarrow> wsframe" where
  "control_wsframe c = (if fst c then OPCODE_PING else OPCODE_PONG, snd c, True)"

definition control_event :: "bool \<times> byte list \<Rightarrow> ws_callback" where
  "control_event c = (if fst c then OnPing (snd c) else OnPong (snd c))"

fun fragment_frames :: "nat \<Rightarrow> fragment list \<Rightarrow> wsframe list" where
  "fragment_frames op [] = []"
| "fragment_frames op ((cs, p) # rest) = map control_wsframe cs @ (op, p, rest = []) # fragment_frames OPCODE_CONTINUATION rest"

definition message_frames :: "message \<Rightarrow> wsframe list" where
  "message_frames m = fragment_frames (fst m) (snd m)"

definition message_payload :: "message \<Rightarrow> byte list" where
  "message_payload m = concat (map snd (snd m))"

definition message_events :: "message \<Rightarrow> ws_callback list" where
  "message_events m = concat (map (\<lambda>f. map control_event (fst f)) (snd m)) @ (case message_event (fst m) (message_payload m) of
     None \<Rightarrow> [] | Some e \<Rightarrow> [e])"

text \<open>Empty fragments before the last one: no more than \<open>MAX_EMPTY_FRAGMENT_RUN\<close> in a row.\<close>

fun runs_ok :: "nat \<Rightarrow> byte list list \<Rightarrow> bool" where
  "runs_ok n [] = True"
| "runs_ok n (p # ps) = (if p = [] then n < MAX_EMPTY_FRAGMENT_RUN \<and> runs_ok (n + 1) ps else runs_ok 0 ps)"

definition message_ok :: "nat \<Rightarrow> message \<Rightarrow> bool" where
  "message_ok cap m \<longleftrightarrow> (fst m = OPCODE_TEXT \<or> fst m = OPCODE_BINARY) \<and> snd m \<noteq> [] \<and> length (message_payload m) \<le> cap
     \<and> list_all (\<lambda>f. list_all (\<lambda>c. length (snd c) \<le> cap) (fst f)) (snd m) \<and> message_event (fst m) (message_payload m) \<noteq> None
     \<and> runs_ok 0 (map snd (butlast (snd m)))"

lemma assemble_all_append:
  "assemble_all cap (fs @ gs) a = Option.bind (assemble_all cap fs a) (\<lambda>(a1, e1). map_option (apsnd ((@) e1)) (assemble_all cap gs a1))"
proof (induction fs arbitrary: a)
  case Nil
  show ?case by (cases "assemble_all cap gs a") auto
next
  case (Cons f fs)
  then show ?case by (cases "assemble cap f a") (auto simp: option.map_comp simp del: assemble.simps split: Option.bind_split intro!: option.map_cong0)
qed

lemma assemble_controls:
  "list_all (\<lambda>c. length (snd c) \<le> cap) cs \<Longrightarrow> assemble_all cap (map control_wsframe cs) a = Some (a, map control_event cs)"
proof (induction cs)
  case (Cons c cs)
  then show ?case by (cases a) (auto simp: control_wsframe_def control_event_def ws_opcodes)
qed simp

lemma assemble_fragments:
  "frs \<noteq> [] \<Longrightarrow> op \<in> set DATA_OPCODES \<Longrightarrow> (op = OPCODE_CONTINUATION) = (kind \<noteq> None) \<Longrightarrow> k = (case kind of None \<Rightarrow> op | Some k \<Rightarrow> k) \<Longrightarrow>
   length (buffer @ concat (map snd frs)) \<le> cap \<Longrightarrow> list_all (\<lambda>f. list_all (\<lambda>c. length (snd c) \<le> cap) (fst f)) frs \<Longrightarrow>
   runs_ok n (map snd (butlast frs)) \<Longrightarrow> message_event k (buffer @ concat (map snd frs)) = Some ev \<Longrightarrow>
   assemble_all cap (fragment_frames op frs) (kind, buffer, n)
     = Some ((None, [], 0), concat (map (\<lambda>f. map control_event (fst f)) frs) @ [ev])"
proof (induction frs arbitrary: op kind buffer n)
  case (Cons f rest)
  obtain cs p where f: "f = (cs, p)" by fastforce
  have ctl: "assemble_all cap (map control_wsframe cs) (kind, buffer, n) = Some ((kind, buffer, n), map control_event cs)"
    using Cons.prems(6) f by (intro assemble_controls) simp
  have o: "op \<noteq> OPCODE_PING" "op \<noteq> OPCODE_PONG" using Cons.prems(2) by (auto simp: DATA_OPCODES_def ws_opcodes)
  show ?case
  proof (cases "rest = []")
    case True
    then have "assemble cap (op, p, True) (kind, buffer, n) = Some ((None, [], 0), [ev])"
      using Cons.prems o f by (auto simp: Let_def)
    then show ?thesis using True f ctl by (simp add: assemble_all_append)
  next
    case False
    let ?n = "if p = [] then n + 1 else 0"
    have "assemble cap (op, p, False) (kind, buffer, n) = Some ((Some k, buffer @ p, ?n), [])"
      using Cons.prems o f False by (auto simp: Let_def)
    moreover have "assemble_all cap (fragment_frames OPCODE_CONTINUATION rest) (Some k, buffer @ p, ?n)
        = Some ((None, [], 0), concat (map (\<lambda>f. map control_event (fst f)) rest) @ [ev])"
      using Cons.prems False f by (intro Cons.IH) (auto simp: DATA_OPCODES_def split: if_splits)
    ultimately show ?thesis using False f ctl by (simp add: assemble_all_append del: assemble.simps)
  qed
qed simp

lemma assemble_messages:
  "list_all (message_ok cap) ms \<Longrightarrow>
   assemble_all cap (concat (map message_frames ms)) (None, [], 0) = Some ((None, [], 0), concat (map message_events ms))"
proof (induction ms)
  case (Cons m ms)
  obtain kind frs where m: "m = (kind, frs)" by fastforce
  obtain ev where ev: "message_event kind (message_payload m) = Some ev" using Cons.prems m by (auto simp: message_ok_def)
  have "assemble_all cap (message_frames m) (None, [], 0) = Some ((None, [], 0), message_events m)"
    using Cons.prems m ev unfolding message_frames_def message_events_def ev
    by (auto simp: message_ok_def message_payload_def DATA_OPCODES_def ws_opcodes intro!: assemble_fragments)
  then show ?case using Cons by (simp add: assemble_all_append)
qed simp

text \<open>
  C6. Messages arrive whole and in order. Take an open session with the invariant of the reachable
  ones that waits for a new message in callback mode, and any messages of its peer, text or binary, each cut into any number of fragments, with pings and
  pongs before and between the fragments, masked with any keys if the peer is a client. Once their
  bytes have been read, in reads of any sizes, the callbacks have run for exactly these pings, pongs
  and messages in the order they were sent, each message with the concatenation of its fragments,
  decoded if it is text; nothing was raised and the session is open and waits for the next message.
  The messages fit \<open>max_message_bytes\<close>, text is valid UTF-8, and no more than the permitted number of
  empty fragments follow one another.
\<close>

theorem ws_messages_delivered:
  assumes "ws_observer env note_call log" "ws_well_behaved cf env" "ws_inv cf (ws_side s) s"
    and "ws_state s = OPEN" "ws_inbound_queue s = None" "ws_inbound_message_opcode s = None"
    and "fp_state (ws_frame_parser s) = READING_HEADER" "fp_header_len (ws_frame_parser s) = 0"
    and "list_all (message_ok (wf_max_message_bytes cf)) ms"
    and "list_all2 (on_wire (ws_side s)) (concat (map message_frames ms)) bss" "concat reads = concat bss"
  shows "\<exists>s1. foldr (\<lambda>c. andThen (feed_frame_bytes env c now)) reads (ret ()) s = (Inr (), s1)
    \<and> log (ws_world s1) = log (ws_world s) @ concat (map message_events ms)
    \<and> ws_state s1 = OPEN \<and> ws_inbound_message_opcode s1 = None
    \<and> fp_state (ws_frame_parser s1) = READING_HEADER \<and> fp_header_len (ws_frame_parser s1) = 0"
proof -
  have as: "assembling cf (ws_side s) (None, [], 0) s" "between_frames s"
    using assms(3-8) by (auto simp: assembling_def between_frames_def ws_inv_def inbound_ok_def)
  from ws_observer.frames_refine [OF assms(1) as assemble_messages [OF assms(9)] assms(10), of now]
  obtain s1 where s1: "run_frames env now (concat bss) s = (Inr (), s1)" "assembling cf (ws_side s) (None, [], 0) s1" "between_frames s1"
    "log (ws_world s1) = log (ws_world s) @ concat (map message_events ms)" by blast
  have "foldr (\<lambda>c. andThen (feed_frame_bytes env c now)) reads (ret ()) s = (Inr (), s1)"
    using feed_frame_bytes_concat [OF assms(2,3), of now reads] s1(1) assms(7,11) by (simp add: feed_frame_bytes_run)
  with s1(2-4) show ?thesis by (auto simp: assembling_def between_frames_def)
qed

interpretation fake_observer: ws_observer fake_ws_env "\<lambda>cb. apsnd (\<lambda>l. l @ [cb])" snd
  by unfold_locales (auto simp: fake_ws_env_def)

lemma open_session_inv: "ws_inv small_cfg sd (open_session sd sock [])"
  by (simp add: ws_inv_def open_session_def init_session_state_def queues_ok_def inbound_ok_def timers_ok_def fp_inv_init)
     (simp add: FrameParser_init_def)

theorem ws_messages_delivered_witness:
  "let m = (OPCODE_TEXT, [([(True, [B 1])], [B 104]), ([], [B 105])]);
       s = open_session ClientSide FakeSocket_init [] in
   message_frames m = [(OPCODE_PING, [B 1], True), (OPCODE_TEXT, [B 104], False), (OPCODE_CONTINUATION, [B 105], True)]
   \<and> (\<exists>s1. foldr (\<lambda>c. andThen (feed_frame_bytes fake_ws_env c 0)) [map B [0x89, 1, 1, 1], map B [1, 104, 0x80], map B [1, 105]] (ret ()) s
         = (Inr (), s1) \<and> snd (ws_world s1) = [OnPing [B 1], OnText [104, 105]] \<and> ws_state s1 = OPEN)"
proof -
  let ?m = "(OPCODE_TEXT, [([(True, [B 1])], [B 104]), ([], [B 105])])"
  let ?s = "open_session ClientSide FakeSocket_init []"
  let ?b = "[map B [0x89, 1, 1], map B [1, 1, 104], map B [0x80, 1, 105]]"
  let ?r = "[map B [0x89, 1, 1, 1], map B [1, 104, 0x80], map B [1, 105]]"
  have s: "ws_state ?s = OPEN" "ws_inbound_queue ?s = None" "ws_inbound_message_opcode ?s = None" "ws_side ?s = ClientSide"
      "fp_state (ws_frame_parser ?s) = READING_HEADER" "fp_header_len (ws_frame_parser ?s) = 0" "snd (ws_world ?s) = []"
    by (simp_all add: open_session_def init_session_state_def FrameParser_init_def)
  have m: "message_frames ?m = [(OPCODE_PING, [B 1], True), (OPCODE_TEXT, [B 104], False), (OPCODE_CONTINUATION, [B 105], True)]"
      "message_events ?m = [OnPing [B 1], OnText [104, 105]]" "message_ok 4 ?m" by code_simp+
  have enc: "encode_frame OPCODE_PING [B 1] True None = Inr (map B [0x89, 1, 1])"
      "encode_frame OPCODE_TEXT [B 104] False None = Inr (map B [1, 1, 104])"
      "encode_frame OPCODE_CONTINUATION [B 105] True None = Inr (map B [0x80, 1, 105])" by code_simp+
  have w: "list_all2 (on_wire (ws_side ?s)) (concat (map message_frames [?m])) ?b"
    unfolding list.map concat.simps m(1) s(4) append_Nil2 using enc by (simp only: list_all2_Cons on_wire_def prod.case) auto
  have "list_all (message_ok (wf_max_message_bytes small_cfg)) [?m]" using m(3) by (simp add: small_cfg_def)
  from ws_messages_delivered [OF fake_observer.ws_observer_axioms fake_well_behaved _ s(1-3) s(5,6) this w, of ?r 0]
  show ?thesis using open_session_inv [of ClientSide FakeSocket_init] m(1,2) s(4,7) by (auto simp: Let_def)
qed

end
