(* ===== verification/Kvstore.thy ===== *)
theory Kvstore
  imports Msgpack Chu_Program
begin

text \<open>
  \<^verbatim>\<open>libraries/kvstore/src/chumicro_kvstore/\<close>: \<open>core.py\<close>, the persisted dict, and its backends: RAM
  (\<open>memory.py\<close>), a slab of CircuitPython NVM with a checksummed header (\<open>cp_nvm.py\<close>), a blob in ESP32
  NVS (\<open>mp_nvs.py\<close>) and a file replaced by a rename (\<open>mp_littlefs.py\<close>). The store sees a backend only
  through load, save and capacity, so its lemmas are proved once in the locale \<open>kv_storage\<close> and
  every backend is an interpretation of it. Values are plain: a list or dict that a program stores and then
  changes in place is not modelled. File systems and the NVS module are outside the
  repository: they are arguments, with what they promise as the assumptions of a locale.
\<close>

section \<open>Backends\<close>

record 'b backend =
  bk_capacity :: "'b \<Rightarrow> int"
  bk_load :: "('b, byte list) prog"
  bk_save :: "byte list \<Rightarrow> ('b, unit) prog"

definition check_capacity :: "int \<Rightarrow> byte list \<Rightarrow> unit result" where
  "check_capacity capacity payload =
     (if 0 < capacity \<and> capacity < int (length payload) then Inl (KVStoreFull ''payload size exceeds capacity'') else Inr ())"

subsection \<open>RAM\<close>

record MemoryBackend =
  mb_capacity :: int
  mb_payload :: "byte list"
  mb_corrupt :: bool

definition MemoryBackend_init :: "int \<Rightarrow> byte list option \<Rightarrow> int option \<Rightarrow> MemoryBackend" where
  "MemoryBackend_init maxsize initial capacity =
     \<lparr>mb_capacity = (case capacity of Some c \<Rightarrow> c | None \<Rightarrow> maxsize),
      mb_payload = (case initial of Some p \<Rightarrow> p | None \<Rightarrow> []), mb_corrupt = False\<rparr>"

definition memory_load :: "(MemoryBackend, byte list) prog" where
  "memory_load = reading (\<lambda>b. if mb_corrupt b then throw (KVStoreCorrupt ''memory backend marked corrupt'') else ret (mb_payload b))"

definition memory_save :: "byte list \<Rightarrow> (MemoryBackend, unit) prog" where
  "memory_save payload = reading (\<lambda>b. mbind (lift (check_capacity (mb_capacity b) payload)) (\<lambda>_.
     modify (\<lambda>b. b\<lparr>mb_payload := payload, mb_corrupt := False\<rparr>)))"

definition force_corrupt :: "MemoryBackend \<Rightarrow> MemoryBackend" where
  "force_corrupt b = b\<lparr>mb_corrupt := True\<rparr>"

definition reset_corrupt :: "MemoryBackend \<Rightarrow> MemoryBackend" where
  "reset_corrupt b = b\<lparr>mb_corrupt := False\<rparr>"

definition memory :: "MemoryBackend backend" where
  "memory = \<lparr>bk_capacity = mb_capacity, bk_load = memory_load, bk_save = memory_save\<rparr>"

subsection \<open>CircuitPython NVM\<close>

text \<open>\<^verbatim>\<open>binascii.crc32\<close>, bit by bit: the reflected polynomial \<open>0xEDB88320\<close>.\<close>

fun crc_bits :: "nat \<Rightarrow> 32 word \<Rightarrow> 32 word" where
  "crc_bits 0 c = c"
| "crc_bits (Suc n) c = crc_bits n (if bit c 0 then drop_bit 1 c XOR 0xEDB88320 else drop_bit 1 c)"

definition crc32 :: "byte list \<Rightarrow> 32 word" where
  "crc32 bs = NOT (foldl (\<lambda>c b. crc_bits 8 (c XOR ucast b)) (NOT 0) bs)"

definition HEADER_MAGIC :: "byte list" where "HEADER_MAGIC = map B [0x43, 0x4B, 0x56, 0x53]"
definition HEADER_SIZE :: nat where "HEADER_SIZE = 10"

record CpNvmBackend =
  nv_nvm :: "byte list"
  nv_capacity :: int

definition CpNvmBackend_init :: "byte list \<Rightarrow> CpNvmBackend result" where
  "CpNvmBackend_init nvm =
     (if length nvm \<le> HEADER_SIZE then Inl (ValueError ''NVM is too small for the header'')
      else Inr \<lparr>nv_nvm = nvm, nv_capacity = int (length nvm) - int HEADER_SIZE\<rparr>)"

definition nvm_read :: "CpNvmBackend \<Rightarrow> byte list result" where
  "nvm_read b =
     (let nvm = nv_nvm b; magic = pslice nvm 0 4 in
      if magic = replicate 4 (B 0xFF) \<or> magic = replicate 4 (B 0) then Inr []
      else if magic \<noteq> HEADER_MAGIC then Inl (KVStoreCorrupt ''NVM magic mismatch'')
      else
        let len = be_nat (rev (pslice nvm 4 6)) in
        if int len > nv_capacity b then Inl (KVStoreCorrupt ''NVM length field exceeds capacity'')
        else
          let stored_crc = be_nat (rev (pslice nvm 6 10)); payload = pslice nvm HEADER_SIZE (HEADER_SIZE + len) in
          if unat (crc32 payload) \<noteq> stored_crc then Inl (KVStoreCorrupt ''NVM CRC mismatch'') else Inr payload)"

definition nvm_load :: "(CpNvmBackend, byte list) prog" where
  "nvm_load = reading (\<lambda>b. lift (nvm_read b))"

definition nvm_save :: "byte list \<Rightarrow> (CpNvmBackend, unit) prog" where
  "nvm_save payload = reading (\<lambda>b. mbind (lift (check_capacity (nv_capacity b) payload)) (\<lambda>_.
     if length payload \<ge> 2 ^ 16 then throw (OverflowError ''int too big to convert'')
     else
       let header = HEADER_MAGIC @ rev (be_bytes 2 (length payload)) @ rev (be_bytes 4 (unat (crc32 payload))) in
       modify (\<lambda>b. b\<lparr>nv_nvm := header @ payload @ drop (HEADER_SIZE + length payload) (nv_nvm b)\<rparr>)))"

definition cp_nvm :: "CpNvmBackend backend" where
  "cp_nvm = \<lparr>bk_capacity = nv_capacity, bk_load = nvm_load, bk_save = nvm_save\<rparr>"

subsection \<open>A file\<close>

text \<open>\<^verbatim>\<open>open\<close> with a mode, methods of the handle it returns, and \<^verbatim>\<open>os.rename\<close>, \<^verbatim>\<open>remove\<close> and \<^verbatim>\<open>sync\<close>.\<close>

record 'w fs =
  fs_open :: "string \<Rightarrow> string \<Rightarrow> ('w, nat) prog"
  fs_read :: "nat \<Rightarrow> ('w, byte list) prog"
  fs_write :: "nat \<Rightarrow> byte list \<Rightarrow> ('w, unit) prog"
  fs_close :: "nat \<Rightarrow> ('w, unit) prog"
  fs_rename :: "string \<Rightarrow> string \<Rightarrow> ('w, unit) prog"
  fs_remove :: "string \<Rightarrow> ('w, unit) prog"
  fs_sync :: "('w, unit) prog"

record 'w MpLittlefsBackend =
  lf_path :: string
  lf_tmp_path :: string
  lf_capacity :: int
  lf_world :: 'w

definition DEFAULT_PATH :: string where "DEFAULT_PATH = ''/_chu_kv.msgpack''"
definition DEFAULT_CAPACITY :: int where "DEFAULT_CAPACITY = 16384"
definition TMP_SUFFIX :: string where "TMP_SUFFIX = ''.tmp''"

definition MpLittlefsBackend_init :: "string option \<Rightarrow> int option \<Rightarrow> 'w \<Rightarrow> 'w MpLittlefsBackend" where
  "MpLittlefsBackend_init path capacity w =
     (let p = (case path of Some p \<Rightarrow> p | None \<Rightarrow> DEFAULT_PATH) in
      \<lparr>lf_path = p, lf_tmp_path = p @ TMP_SUFFIX, lf_capacity = (case capacity of Some c \<Rightarrow> c | None \<Rightarrow> DEFAULT_CAPACITY),
       lf_world = w\<rparr>)"

definition in_fs :: "('w, 'a) prog \<Rightarrow> ('w MpLittlefsBackend, 'a) prog" where
  "in_fs m b = (case m (lf_world b) of (r, w) \<Rightarrow> (r, b\<lparr>lf_world := w\<rparr>))"

definition littlefs_load :: "'w fs \<Rightarrow> ('w MpLittlefsBackend, byte list) prog" where
  "littlefs_load f = reading (\<lambda>b.
     mbind (catch (mbind (in_fs (fs_open f (lf_path b) ''rb'')) (\<lambda>h. ret (Some h)))
         (\<lambda>e. if is_OSError e then ret None else throw e)) (\<lambda>h.
     case h of None \<Rightarrow> ret [] | Some h \<Rightarrow> ensuring (in_fs (fs_read f h)) (in_fs (fs_close f h))))"

definition littlefs_save :: "'w fs \<Rightarrow> byte list \<Rightarrow> ('w MpLittlefsBackend, unit) prog" where
  "littlefs_save f payload = reading (\<lambda>b.
     mbind (lift (check_capacity (lf_capacity b) payload)) (\<lambda>_.
     mbind (in_fs (fs_open f (lf_tmp_path b) ''wb'')) (\<lambda>h.
     andThen (catch (ensuring (in_fs (fs_write f h payload)) (in_fs (fs_close f h)))
         (\<lambda>e. if is_OSError e then andThen (swallow is_OSError (in_fs (fs_remove f (lf_tmp_path b)))) (throw e) else throw e))
    (andThen (in_fs (fs_sync f)) (in_fs (fs_rename f (lf_tmp_path b) (lf_path b)))))))"

definition littlefs :: "'w fs \<Rightarrow> 'w MpLittlefsBackend backend" where
  "littlefs f = \<lparr>bk_capacity = lf_capacity, bk_load = littlefs_load f, bk_save = littlefs_save f\<rparr>"

subsection \<open>ESP32 NVS\<close>

definition ENOENT :: int where "ENOENT = 2"
definition ESP_ERR_NVS_NOT_FOUND :: int where "ESP_ERR_NVS_NOT_FOUND = 0x1102"
definition PAYLOAD_KEY :: string where "PAYLOAD_KEY = ''payload''"
definition NVS_DEFAULT_CAPACITY :: int where "NVS_DEFAULT_CAPACITY = 512"

text \<open>\<^verbatim>\<open>get_blob(key, buffer)\<close> fills the buffer and returns the length of the blob.\<close>

record 'w nvs =
  ns_get_blob :: "string \<Rightarrow> byte list \<Rightarrow> ('w, nat \<times> byte list) prog"
  ns_set_blob :: "string \<Rightarrow> byte list \<Rightarrow> ('w, unit) prog"
  ns_commit :: "('w, unit) prog"

record 'w MpNvsBackend =
  ne_capacity :: int
  ne_world :: 'w

definition MpNvsBackend_init :: "int option \<Rightarrow> 'w \<Rightarrow> 'w MpNvsBackend" where
  "MpNvsBackend_init capacity w = \<lparr>ne_capacity = (case capacity of Some c \<Rightarrow> c | None \<Rightarrow> NVS_DEFAULT_CAPACITY), ne_world = w\<rparr>"

definition in_nvs :: "('w, 'a) prog \<Rightarrow> ('w MpNvsBackend, 'a) prog" where
  "in_nvs m b = (case m (ne_world b) of (r, w) \<Rightarrow> (r, b\<lparr>ne_world := w\<rparr>))"

definition nvs_load :: "'w nvs \<Rightarrow> ('w MpNvsBackend, byte list) prog" where
  "nvs_load n = reading (\<lambda>b.
     if ne_capacity b < 0 then throw (ValueError ''negative count'')
     else
       catch (mbind (in_nvs (ns_get_blob n PAYLOAD_KEY (replicate (nat (ne_capacity b)) (B 0)))) (\<lambda>(len, buffer). ret (take len buffer)))
         (\<lambda>e. case e of OSError code \<Rightarrow> if code = ENOENT \<or> code = ESP_ERR_NVS_NOT_FOUND then ret [] else throw (KVStoreCorrupt ''NVS read failed'')
            | _ \<Rightarrow> throw e))"

definition nvs_save :: "'w nvs \<Rightarrow> byte list \<Rightarrow> ('w MpNvsBackend, unit) prog" where
  "nvs_save n payload = reading (\<lambda>b. mbind (lift (check_capacity (ne_capacity b) payload)) (\<lambda>_.
     andThen (in_nvs (ns_set_blob n PAYLOAD_KEY payload)) (in_nvs (ns_commit n))))"

definition mp_nvs :: "'w nvs \<Rightarrow> 'w MpNvsBackend backend" where
  "mp_nvs n = \<lparr>bk_capacity = ne_capacity, bk_load = nvs_load n, bk_save = nvs_save n\<rparr>"

section \<open>The store\<close>

type_synonym pydict = "(pyval \<times> pyval) list"

record 'b KVStore =
  kv_backend :: 'b
  kv_capacity :: int
  kv_data :: pydict
  kv_last_payload :: "byte list"
  kv_is_corrupt :: bool
  kv_dirty :: bool

type_synonym ('b, 'a) kv = "('b KVStore, 'a) prog"

definition on_backend :: "('b, 'a) prog \<Rightarrow> ('b, 'a) kv" where
  "on_backend m s = (case m (kv_backend s) of (r, b) \<Rightarrow> (r, s\<lparr>kv_backend := b\<rparr>))"

definition is_KVStoreCorrupt :: "exn \<Rightarrow> bool" where
  "is_KVStoreCorrupt e = (case e of KVStoreCorrupt _ \<Rightarrow> True | _ \<Rightarrow> False)"

definition reload :: "'b backend \<Rightarrow> ('b, unit) kv" where
  "reload K =
     andThen (modify (\<lambda>s. s\<lparr>kv_dirty := False\<rparr>))
    (mbind (on_backend (bk_load K)) (\<lambda>payload.
     if payload = [] then modify (\<lambda>s. s\<lparr>kv_data := [], kv_last_payload := [], kv_is_corrupt := False\<rparr>)
     else mbind (lift (case unpackb payload of
         Inl e \<Rightarrow> if is_ValueError e then Inl (KVStoreCorrupt ''payload is not valid msgpack'') else Inl e
       | Inr loaded \<Rightarrow> Inr loaded)) (\<lambda>loaded.
       case loaded of
         PDict d \<Rightarrow> modify (\<lambda>s. s\<lparr>kv_data := d, kv_last_payload := payload, kv_is_corrupt := False\<rparr>)
       | _ \<Rightarrow> throw (KVStoreCorrupt ''payload is not a dict''))))"

definition KVStore_init :: "'b backend \<Rightarrow> 'b \<Rightarrow> unit result \<times> 'b KVStore" where
  "KVStore_init K b =
     catch (reload K) (\<lambda>e. if is_KVStoreCorrupt e
         then modify (\<lambda>s. s\<lparr>kv_data := [], kv_last_payload := [], kv_is_corrupt := True\<rparr>) else throw e)
       \<lparr>kv_backend = b, kv_capacity = bk_capacity K b, kv_data = [], kv_last_payload = [], kv_is_corrupt = False, kv_dirty = False\<rparr>"

definition persist :: "'b backend \<Rightarrow> byte list \<Rightarrow> ('b, unit) kv" where
  "persist K payload = reading (\<lambda>s.
     if 0 < kv_capacity s \<and> kv_capacity s < int (length payload) then throw (KVStoreFull ''payload size exceeds capacity'')
     else andThen (on_backend (bk_save K payload))
       (modify (\<lambda>s. s\<lparr>kv_last_payload := payload, kv_is_corrupt := False, kv_dirty := False\<rparr>)))"

definition commit :: "'b backend \<Rightarrow> ('b, unit) kv" where
  "commit K = reading (\<lambda>s. mbind (lift (packb (PDict (kv_data s)))) (persist K))"

definition commit_if_changed :: "'b backend \<Rightarrow> ('b, bool) kv" where
  "commit_if_changed K = reading (\<lambda>s.
     if \<not> kv_dirty s then ret False
     else mbind (lift (packb (PDict (kv_data s)))) (\<lambda>payload.
       if payload = kv_last_payload s then andThen (modify (\<lambda>s. s\<lparr>kv_dirty := False\<rparr>)) (ret False)
       else andThen (persist K payload) (ret True)))"

text \<open>The dict underneath: lookup and removal compare keys as Python does.\<close>

definition dict_lookup :: "pydict \<Rightarrow> pyval \<Rightarrow> pyval option" where
  "dict_lookup d k = map_option snd (find (\<lambda>kv. key_eq (fst kv) k) d)"

definition dict_remove :: "pydict \<Rightarrow> pyval \<Rightarrow> pydict" where
  "dict_remove d k = filter (\<lambda>kv. \<not> key_eq (fst kv) k) d"

definition kv_getitem :: "pystr \<Rightarrow> ('b, pyval) kv" where
  "kv_getitem key = reading (\<lambda>s. case dict_lookup (kv_data s) (PStr key) of None \<Rightarrow> throw KeyError | Some v \<Rightarrow> ret v)"

definition kv_setitem :: "pystr \<Rightarrow> pyval \<Rightarrow> ('b, unit) kv" where
  "kv_setitem key v = modify (\<lambda>s. s\<lparr>kv_data := dict_set (kv_data s) (PStr key) v, kv_dirty := True\<rparr>)"

definition kv_delitem :: "pystr \<Rightarrow> ('b, unit) kv" where
  "kv_delitem key = reading (\<lambda>s. case dict_lookup (kv_data s) (PStr key) of
     None \<Rightarrow> throw KeyError
   | Some _ \<Rightarrow> modify (\<lambda>s. s\<lparr>kv_data := dict_remove (kv_data s) (PStr key), kv_dirty := True\<rparr>))"

definition kv_contains :: "pyval \<Rightarrow> 'b KVStore \<Rightarrow> bool" where
  "kv_contains key s = (dict_lookup (kv_data s) key \<noteq> None)"

definition kv_len :: "'b KVStore \<Rightarrow> nat" where "kv_len s = length (kv_data s)"
definition kv_keys :: "'b KVStore \<Rightarrow> pyval list" where "kv_keys s = map fst (kv_data s)"
definition kv_values :: "'b KVStore \<Rightarrow> pyval list" where "kv_values s = map snd (kv_data s)"

definition kv_get :: "pystr \<Rightarrow> pyval \<Rightarrow> 'b KVStore \<Rightarrow> pyval" where
  "kv_get key dflt s = (case dict_lookup (kv_data s) (PStr key) of None \<Rightarrow> dflt | Some v \<Rightarrow> v)"

definition kv_pop :: "pystr \<Rightarrow> pyval option \<Rightarrow> ('b, pyval) kv" where
  "kv_pop key dflt = reading (\<lambda>s. case (dict_lookup (kv_data s) (PStr key), dflt) of
     (None, None) \<Rightarrow> throw KeyError
   | (None, Some d) \<Rightarrow> andThen (modify (\<lambda>s. s\<lparr>kv_dirty := True\<rparr>)) (ret d)
   | (Some v, _) \<Rightarrow> andThen (modify (\<lambda>s. s\<lparr>kv_data := dict_remove (kv_data s) (PStr key), kv_dirty := True\<rparr>)) (ret v))"

definition kv_clear :: "('b, unit) kv" where
  "kv_clear = modify (\<lambda>s. s\<lparr>kv_data := [], kv_dirty := True\<rparr>)"

definition kv_update :: "(pystr \<times> pyval) list \<Rightarrow> ('b, unit) kv" where
  "kv_update other = modify (\<lambda>s. s\<lparr>kv_data := foldl (\<lambda>d (k, v). dict_set d (PStr k) v) (kv_data s) other, kv_dirty := True\<rparr>)"

definition bytes_used :: "'b KVStore \<Rightarrow> nat result" where
  "bytes_used s = rbind (packb (PDict (kv_data s))) (\<lambda>p. Inr (length p))"

section \<open>What a store relies on\<close>

text \<open>
  The contract of a backend: what it holds is what the last save that returned wrote; a save that
  raises, and a load, change nothing.
\<close>

locale kv_storage =
  fixes K :: "'b backend" and ok :: "'b \<Rightarrow> bool" and stored :: "'b \<Rightarrow> byte list result"
  assumes load: "ok b \<Longrightarrow> \<exists>b1. bk_load K b = (stored b, b1) \<and> ok b1 \<and> stored b1 = stored b \<and> bk_capacity K b1 = bk_capacity K b"
    and save: "ok b \<Longrightarrow> bk_save K p b = (r, b1) \<Longrightarrow> ok b1 \<and> bk_capacity K b1 = bk_capacity K b
      \<and> stored b1 = (case r of Inl _ \<Rightarrow> stored b | Inr _ \<Rightarrow> Inr p)"

text \<open>The stores a program can make of a backend.\<close>

inductive kv_reachable :: "'b backend \<Rightarrow> 'b \<Rightarrow> 'b KVStore \<Rightarrow> bool" for K b where
  new: "KVStore_init K b = (Inr u, s) \<Longrightarrow> kv_reachable K b s"
| set: "kv_reachable K b s \<Longrightarrow> kv_reachable K b (snd (kv_setitem k v s))"
| del: "kv_reachable K b s \<Longrightarrow> kv_reachable K b (snd (kv_delitem k s))"
| pop: "kv_reachable K b s \<Longrightarrow> kv_reachable K b (snd (kv_pop k d s))"
| clear: "kv_reachable K b s \<Longrightarrow> kv_reachable K b (snd (kv_clear s))"
| update: "kv_reachable K b s \<Longrightarrow> kv_reachable K b (snd (kv_update other s))"
| commit: "kv_reachable K b s \<Longrightarrow> kv_reachable K b (snd (commit K s))"
| commit_if_changed: "kv_reachable K b s \<Longrightarrow> kv_reachable K b (snd (commit_if_changed K s))"
| reload: "kv_reachable K b s \<Longrightarrow> kv_reachable K b (snd (reload K s))"

text \<open>The dict of a store: distinct keys, each one that is read back as it is. Its values are any.\<close>

definition kv_dict :: "pydict \<Rightarrow> bool" where
  "kv_dict d \<longleftrightarrow> keys_distinct d \<and> (\<forall>kv \<in> set d. \<not> is_container (fst kv) \<and> decoded_form (fst kv) = fst kv)"

lemma dict_set_ok: "kv_dict d \<Longrightarrow> kv_dict (dict_set d (PStr k) v)"
  using dict_set_distinct [of d "PStr k" v] by (fastforce simp: kv_dict_def is_container_def dest: dict_set_mem)

lemma dict_remove_ok: "kv_dict d \<Longrightarrow> kv_dict (dict_remove d k)"
  by (auto simp: kv_dict_def dict_remove_def sorted_wrt_filter)

lemma dict_update_ok: "kv_dict d \<Longrightarrow> kv_dict (foldl (\<lambda>d (k, v). dict_set d (PStr k) v) d other)"
  by (induction other arbitrary: d) (auto simp: dict_set_ok)

text \<open>What a payload holds as a dict: nothing stored is the empty one.\<close>

definition loaded :: "byte list \<Rightarrow> pydict result" where
  "loaded payload = (if payload = [] then Inr [] else case unpackb payload of
     Inl _ \<Rightarrow> Inl (KVStoreCorrupt ''payload is not valid msgpack'')
   | Inr (PDict d) \<Rightarrow> Inr d
   | Inr _ \<Rightarrow> Inl (KVStoreCorrupt ''payload is not a dict''))"

definition plain :: "pydict \<Rightarrow> pydict" where
  "plain d = map (map_prod decoded_form decoded_form) d"

lemma packb_nonempty: "packb v = Inr bs \<Longrightarrow> bs \<noteq> []"
  using encode_length [of v 0 bs] by (auto simp: packb_def)

text \<open>What a store opened on the encoding of a dict finds.\<close>

definition reopen :: "pydict \<Rightarrow> pydict result" where
  "reopen d = (if keys_hashable (PDict d) then Inr (plain d) else Inl (KVStoreCorrupt ''payload is not valid msgpack''))"

lemma decoded_kv_dict:
  assumes "kv_dict d"
  shows "decoded_form (PDict d) = PDict (plain d)"
proof -
  have "sorted_wrt (\<lambda>a b. \<not> key_eq (decoded_form (fst a)) (decoded_form (fst b))) d"
  proof (rule sorted_wrt_mono_rel)
    show "keys_distinct d" using assms by (simp add: kv_dict_def)
    show "\<not> key_eq (decoded_form (fst a)) (decoded_form (fst b))" if "a \<in> set d" "b \<in> set d" "\<not> key_eq (fst a) (fst b)" for a b
      using assms that by (simp add: kv_dict_def)
  qed
  then show ?thesis by (simp add: plain_def decoded_dict sorted_wrt_map del: decoded_form.simps)
qed

lemma loaded_packb: "packb (PDict d) = Inr bs \<Longrightarrow> kv_dict d \<Longrightarrow> loaded bs = reopen d"
  using unpackb_packb [of "PDict d" bs] packb_nonempty [of "PDict d" bs] decoded_kv_dict [of d]
  by (auto simp: loaded_def reopen_def reread_def simp del: keys_hashable.simps decoded_form.simps)

lemma loaded_ok: "loaded payload = Inr d \<Longrightarrow> kv_dict d \<and> plain d = d \<and> keys_hashable (PDict d)"
proof (cases "payload = []")
  case True
  then show "loaded payload = Inr d \<Longrightarrow> ?thesis" by (simp add: loaded_def kv_dict_def plain_def)
next
  case False
  assume "loaded payload = Inr d"
  with False have u: "unpackb payload = Inr (PDict d)" by (auto simp: loaded_def split: sum.splits pyval.splits)
  have d: "dicts_ok (PDict d)" "decoded_form (PDict d) = PDict d" using unpackb_dicts_ok [OF u] by blast+
  then have k: "kv_dict d" by (auto simp: kv_dict_def list_all_iff)
  then show ?thesis using d decoded_kv_dict [OF k] dicts_ok_hashable [OF d(1)] by (simp del: decoded_form.simps)
qed

lemma loaded_error: "loaded payload = Inl e \<Longrightarrow> is_KVStoreCorrupt e"
  by (auto simp: loaded_def is_KVStoreCorrupt_def split: if_splits sum.splits pyval.splits)

context kv_storage
begin

definition store_inv :: "'b KVStore \<Rightarrow> bool" where
  "store_inv s \<longleftrightarrow> ok (kv_backend s) \<and> kv_capacity s = bk_capacity K (kv_backend s) \<and> kv_dict (kv_data s)
     \<and> (\<not> kv_is_corrupt s \<longrightarrow> stored (kv_backend s) = Inr (kv_last_payload s)
         \<and> (\<forall>d. \<not> kv_dirty s \<and> loaded (kv_last_payload s) = Inr d \<longrightarrow> d = plain (kv_data s) \<and> keys_hashable (PDict (kv_data s))))
     \<and> (kv_is_corrupt s \<longrightarrow> kv_last_payload s = [])"

definition current :: "'b KVStore \<Rightarrow> pydict result" where
  "current s = rbind (stored (kv_backend s)) loaded"

lemma reload_run:
  assumes "ok (kv_backend s)"
  shows "\<exists>b1. ok b1 \<and> stored b1 = stored (kv_backend s) \<and> bk_capacity K b1 = bk_capacity K (kv_backend s)
    \<and> reload K s = (case current s of
       Inl e \<Rightarrow> (Inl e, s\<lparr>kv_dirty := False, kv_backend := b1\<rparr>)
     | Inr d \<Rightarrow> (Inr (), s\<lparr>kv_dirty := False, kv_backend := b1, kv_data := d,
           kv_last_payload := projr (stored b1), kv_is_corrupt := False\<rparr>))"
proof -
  obtain b1 where b1: "bk_load K (kv_backend s) = (stored (kv_backend s), b1)" "ok b1" "stored b1 = stored (kv_backend s)"
    "bk_capacity K b1 = bk_capacity K (kv_backend s)" using load [OF assms] by blast
  show ?thesis
  proof (intro exI [of _ b1] conjI b1(2-4))
    show "reload K s = (case current s of
       Inl e \<Rightarrow> (Inl e, s\<lparr>kv_dirty := False, kv_backend := b1\<rparr>)
     | Inr d \<Rightarrow> (Inr (), s\<lparr>kv_dirty := False, kv_backend := b1, kv_data := d,
           kv_last_payload := projr (stored b1), kv_is_corrupt := False\<rparr>))"
      using b1(1,3) unpackb_error
      by (cases "stored (kv_backend s)")
         (auto simp: reload_def current_def loaded_def on_backend_def prog_simps result_simps split: sum.split pyval.split)
  qed
qed

lemma reload_inv:
  assumes "store_inv s"
  shows "store_inv (snd (reload K s))"
proof -
  obtain b1 where b1: "ok b1" "stored b1 = stored (kv_backend s)" "bk_capacity K b1 = bk_capacity K (kv_backend s)"
    "reload K s = (case current s of
       Inl e \<Rightarrow> (Inl e, s\<lparr>kv_dirty := False, kv_backend := b1\<rparr>)
     | Inr d \<Rightarrow> (Inr (), s\<lparr>kv_dirty := False, kv_backend := b1, kv_data := d,
           kv_last_payload := projr (stored b1), kv_is_corrupt := False\<rparr>))"
    using reload_run [of s] assms by (auto simp: store_inv_def)
  show ?thesis
  proof (cases "current s")
    case (Inl e)
    then show ?thesis using assms b1 by (auto simp: store_inv_def current_def result_simps simp del: keys_hashable.simps)
  next
    case (Inr d)
    then obtain p where p: "stored (kv_backend s) = Inr p" "loaded p = Inr d" by (auto simp: current_def result_simps split: sum.splits)
    then show ?thesis using assms b1 Inr loaded_ok [of p d] by (simp add: store_inv_def del: keys_hashable.simps)
  qed
qed

lemma init_inv: "ok b \<Longrightarrow> KVStore_init K b = (Inr u, s) \<Longrightarrow> store_inv s"
proof -
  assume b: "ok b" and init: "KVStore_init K b = (Inr u, s)"
  let ?s = "\<lparr>kv_backend = b, kv_capacity = bk_capacity K b, kv_data = [], kv_last_payload = [], kv_is_corrupt = False, kv_dirty = False\<rparr>"
  obtain b1 where b1: "ok b1" "stored b1 = stored b" "bk_capacity K b1 = bk_capacity K b"
    "reload K ?s = (case current ?s of
       Inl e \<Rightarrow> (Inl e, ?s\<lparr>kv_dirty := False, kv_backend := b1\<rparr>)
     | Inr d \<Rightarrow> (Inr (), ?s\<lparr>kv_dirty := False, kv_backend := b1, kv_data := d,
           kv_last_payload := projr (stored b1), kv_is_corrupt := False\<rparr>))"
    using reload_run [of ?s] b by auto
  show "store_inv s"
  proof (cases "current ?s")
    case (Inl e)
    then show ?thesis using init b1 by (auto simp: KVStore_init_def run_catch store_inv_def kv_dict_def split: if_splits)
  next
    case (Inr d)
    then obtain p where p: "stored b = Inr p" "loaded p = Inr d" by (auto simp: current_def result_simps split: sum.splits)
    then show ?thesis using init b1 Inr loaded_ok [of p d]
      by (auto simp: KVStore_init_def run_catch store_inv_def simp del: keys_hashable.simps)
  qed
qed

text \<open>A write that returns stores the payload, one that raises changes nothing but the device.\<close>

lemma persist_run:
  assumes "store_inv s" "persist K p s = (r, s1)"
  shows "\<exists>b1. ok b1 \<and> bk_capacity K b1 = bk_capacity K (kv_backend s) \<and> (case r of
      Inl _ \<Rightarrow> s1 = s\<lparr>kv_backend := b1\<rparr> \<and> stored b1 = stored (kv_backend s)
    | Inr _ \<Rightarrow> s1 = s\<lparr>kv_backend := b1, kv_last_payload := p, kv_is_corrupt := False, kv_dirty := False\<rparr> \<and> stored b1 = Inr p)"
proof (cases "0 < kv_capacity s \<and> kv_capacity s < int (length p)")
  case True
  then show ?thesis using assms by (intro exI [of _ "kv_backend s"]) (auto simp: persist_def reading_def store_inv_def)
next
  case False
  obtain r1 b1 where b1: "bk_save K p (kv_backend s) = (r1, b1)" by fastforce
  have "ok (kv_backend s)" using assms(1) by (simp add: store_inv_def)
  from save [OF this b1] show ?thesis using assms(2) b1 False
    by (intro exI [of _ b1]) (auto simp: persist_def reading_def on_backend_def prog_simps split: sum.splits)
qed

lemma persist_inv:
  assumes "store_inv s" "packb (PDict (kv_data s)) = Inr p" "persist K p s = (r, s1)"
  shows "store_inv s1"
proof -
  have d: "kv_dict (kv_data s)" using assms(1) by (simp add: store_inv_def)
  note l = loaded_packb [OF assms(2) d]
  from persist_run [OF assms(1,3)] show ?thesis
    using assms(1) d l by (cases r) (auto simp: store_inv_def reopen_def simp del: keys_hashable.simps split: if_splits)
qed

lemma persisted:
  assumes "store_inv s" "packb (PDict (kv_data s)) = Inr p"
  shows "store_inv (snd (persist K p s))"
  using persist_inv [OF assms] by (metis prod.collapse)

lemma commit_inv: "store_inv s \<Longrightarrow> store_inv (snd (commit K s))"
  using persisted [of s] by (cases "packb (PDict (kv_data s))") (simp_all add: commit_def reading_def run_mbind)

lemma commit_if_changed_inv:
  assumes "store_inv s"
  shows "store_inv (snd (commit_if_changed K s))"
proof (cases "packb (PDict (kv_data s))")
  case (Inl e)
  then show ?thesis using assms by (simp add: commit_if_changed_def reading_def run_mbind)
next
  case (Inr p)
  obtain r s1 where s1: "persist K p s = (r, s1)" by fastforce
  have "store_inv (s\<lparr>kv_dirty := False\<rparr>)" if "p = kv_last_payload s"
    using that assms packb_nonempty [OF Inr] loaded_packb [OF Inr] by (auto simp: store_inv_def reopen_def simp del: keys_hashable.simps split: if_splits)
  moreover have "store_inv s1" using persist_inv [OF assms Inr s1] .
  ultimately show ?thesis using assms Inr s1
    by (cases r) (simp_all add: commit_if_changed_def reading_def run_mbind run_andThen)
qed

lemma edit_inv:
  assumes "store_inv s"
  shows "store_inv (snd (kv_setitem k v s))" "store_inv (snd (kv_delitem k s))" "store_inv (snd (kv_pop k d s))" "store_inv (snd (kv_clear s))"
    "store_inv (snd (kv_update other s))"
proof -
  have dirty: "store_inv (s\<lparr>kv_data := d, kv_dirty := True\<rparr>)" if "kv_dict d" for d
    using assms that by (auto simp: store_inv_def)
  have ok: "kv_dict (kv_data s)" using assms by (simp add: store_inv_def)
  have same: "store_inv (s\<lparr>kv_dirty := True\<rparr>)" using assms by (auto simp: store_inv_def)
  show "store_inv (snd (kv_setitem k v s))" using dirty dict_set_ok [OF ok] by (simp add: kv_setitem_def)
  show "store_inv (snd (kv_delitem k s))"
    using assms dirty dict_remove_ok [OF ok] by (simp add: kv_delitem_def reading_def split: option.split)
  show "store_inv (snd (kv_pop k d s))"
    using assms dirty same dict_remove_ok [OF ok] by (auto simp: kv_pop_def reading_def run_andThen split: option.split)
  show "store_inv (snd (kv_clear s))" using dirty by (simp add: kv_clear_def kv_dict_def)
  show "store_inv (snd (kv_update other s))"
    using dirty dict_update_ok [OF ok] by (simp add: kv_update_def)
qed

lemma kv_store_inv: "ok b \<Longrightarrow> kv_reachable K b s \<Longrightarrow> store_inv s"
  by (rotate_tac, induction rule: kv_reachable.induct) (auto intro: init_inv edit_inv commit_inv commit_if_changed_inv reload_inv)

text \<open>A new store on the device reads what it holds.\<close>

lemma reopened:
  assumes "ok b" "stored b = Inr p"
  shows "\<exists>s. KVStore_init K b = (Inr (), s) \<and> \<not> kv_dirty s
    \<and> (case loaded p of Inr d \<Rightarrow> kv_data s = d \<and> \<not> kv_is_corrupt s | Inl _ \<Rightarrow> kv_data s = [] \<and> kv_is_corrupt s)"
proof -
  let ?s = "\<lparr>kv_backend = b, kv_capacity = bk_capacity K b, kv_data = [], kv_last_payload = [], kv_is_corrupt = False, kv_dirty = False\<rparr>"
  have "current ?s = loaded p" using assms by (simp add: current_def result_simps)
  then show ?thesis using reload_run [of ?s] assms(1) loaded_error [of p]
    by (cases "loaded p") (auto simp: KVStore_init_def run_catch)
qed

end

section \<open>The backends keep it\<close>

lemma check_capacity_cases: "check_capacity c p = Inr u \<longleftrightarrow> \<not> (0 < c \<and> c < int (length p))"
  by (simp add: check_capacity_def)

definition memory_stored :: "MemoryBackend \<Rightarrow> byte list result" where
  "memory_stored b = (if mb_corrupt b then Inl (KVStoreCorrupt ''memory backend marked corrupt'') else Inr (mb_payload b))"

interpretation memory: kv_storage memory "\<lambda>_. True" memory_stored
  by unfold_locales
     (auto simp: memory_def memory_load_def memory_save_def memory_stored_def check_capacity_def reading_def prog_simps
      split: if_splits)

text \<open>A slab longer than the header whose capacity is the rest of it.\<close>

definition nvm_ok :: "CpNvmBackend \<Rightarrow> bool" where
  "nvm_ok b \<longleftrightarrow> length (nv_nvm b) > HEADER_SIZE \<and> nv_capacity b = int (length (nv_nvm b)) - int HEADER_SIZE"

lemma nvm_init_ok: "CpNvmBackend_init nvm = Inr b \<Longrightarrow> nvm_ok b"
  by (auto simp: CpNvmBackend_init_def nvm_ok_def split: if_splits)

lemma nvm_read_written:
  assumes "length p < 2 ^ 16" "int (length p) \<le> nv_capacity b"
  shows "nvm_read (b\<lparr>nv_nvm := (HEADER_MAGIC @ rev (be_bytes 2 (length p)) @ rev (be_bytes 4 (unat (crc32 p)))) @ p @ rest\<rparr>) = Inr p"
proof -
  have m: "length HEADER_MAGIC = 4" "HEADER_MAGIC \<noteq> replicate 4 (B 0xFF)" "HEADER_MAGIC \<noteq> replicate 4 (B 0)" by code_simp+
  have c: "unat (crc32 p) < 256 ^ 4" using unsigned_less [of "crc32 p"] by simp
  have l: "be_nat (be_bytes 2 (length p)) = length p" using assms(1) by (simp add: be_nat_be_bytes)
  have cr: "be_nat (be_bytes 4 (unat (crc32 p))) = unat (crc32 p)" using c by (simp add: be_nat_be_bytes)
  show ?thesis using assms(2) m l cr by (simp add: nvm_read_def pslice_def Let_def HEADER_SIZE_def)
qed

interpretation cp_nvm: kv_storage cp_nvm nvm_ok nvm_read
proof
  fix b p r b1
  assume b: "nvm_ok b"
  show "\<exists>b1. bk_load cp_nvm b = (nvm_read b, b1) \<and> nvm_ok b1 \<and> nvm_read b1 = nvm_read b \<and> bk_capacity cp_nvm b1 = bk_capacity cp_nvm b"
    using b by (simp add: cp_nvm_def nvm_load_def reading_def)
  assume s: "bk_save cp_nvm p b = (r, b1)"
  show "nvm_ok b1 \<and> bk_capacity cp_nvm b1 = bk_capacity cp_nvm b \<and> nvm_read b1 = (case r of Inl _ \<Rightarrow> nvm_read b | Inr _ \<Rightarrow> Inr p)"
  proof (cases "check_capacity (nv_capacity b) p = Inr () \<and> length p < 2 ^ 16")
    case False
    then show ?thesis using b s
      by (auto simp: cp_nvm_def nvm_save_def reading_def prog_simps check_capacity_def split: if_splits)
  next
    case True
    then have fits: "int (length p) \<le> nv_capacity b" using b by (auto simp: check_capacity_cases nvm_ok_def)
    have m: "length HEADER_MAGIC = 4" by code_simp
    have "length (HEADER_MAGIC @ rev (be_bytes 2 (length p)) @ rev (be_bytes 4 (unat (crc32 p)))) = HEADER_SIZE"
      using m by (simp add: HEADER_SIZE_def)
    then show ?thesis using True b s fits nvm_read_written [of p b]
      by (cases r) (auto simp: cp_nvm_def nvm_save_def reading_def prog_simps Let_def nvm_ok_def)
  qed
qed

subsection \<open>Files\<close>

text \<open>
  What a file system promises of the bytes under a name: a file that is there can be read; opening,
  writing, closing and removing one file leave the others alone; what was written and closed
  without an error is there; a rename moves the bytes or changes nothing.
\<close>

locale filesystem =
  fixes f :: "'w fs" and content :: "string \<Rightarrow> 'w \<Rightarrow> byte list option"
  assumes missing: "content p w = None \<Longrightarrow> \<exists>e w1. fs_open f p ''rb'' w = (Inl (OSError e), w1) \<and> (\<forall>q. content q w1 = content q w)"
    and present: "content p w = Some bs \<Longrightarrow> \<exists>h w1 w2 w3. fs_open f p ''rb'' w = (Inr h, w1) \<and> fs_read f h w1 = (Inr bs, w2)
      \<and> fs_close f h w2 = (Inr (), w3) \<and> (\<forall>q. content q w3 = content q w)"
    and open_other: "fs_open f p ''wb'' w = (ro, w1) \<Longrightarrow> q \<noteq> p \<Longrightarrow> content q w1 = content q w"
    and write_other: "fs_open f p ''wb'' w = (Inr h, w1) \<Longrightarrow> fs_write f h bs w1 = (r, w2) \<Longrightarrow> fs_close f h w2 = (r1, w3) \<Longrightarrow> q \<noteq> p \<Longrightarrow>
      content q w3 = content q w1"
    and written: "fs_open f p ''wb'' w = (Inr h, w1) \<Longrightarrow> fs_write f h bs w1 = (Inr (), w2) \<Longrightarrow> fs_close f h w2 = (Inr (), w3) \<Longrightarrow>
      content p w3 = Some bs"
    and remove_other: "fs_remove f p w = (r, w1) \<Longrightarrow> q \<noteq> p \<Longrightarrow> content q w1 = content q w"
    and synced: "fs_sync f w = (r, w1) \<Longrightarrow> content q w1 = content q w"
    and renamed: "fs_rename f p q w = (r, w1) \<Longrightarrow> content q w1 = (case r of Inl _ \<Rightarrow> content q w | Inr _ \<Rightarrow> content p w)"
begin

definition file_ok :: "'w MpLittlefsBackend \<Rightarrow> bool" where
  "file_ok b \<longleftrightarrow> lf_tmp_path b = lf_path b @ TMP_SUFFIX"

definition file_stored :: "'w MpLittlefsBackend \<Rightarrow> byte list result" where
  "file_stored b = Inr (case content (lf_path b) (lf_world b) of None \<Rightarrow> [] | Some bs \<Rightarrow> bs)"

lemma load_file: "\<exists>w. littlefs_load f b = (file_stored b, b\<lparr>lf_world := w\<rparr>) \<and> (\<forall>q. content q w = content q (lf_world b))"
proof (cases "content (lf_path b) (lf_world b)")
  case None
  with missing [OF this] show ?thesis
    by (force simp: littlefs_load_def reading_def prog_simps in_fs_def file_stored_def is_OSError_def)
next
  case (Some bs)
  with present [OF this] show ?thesis
    by (force simp: littlefs_load_def reading_def prog_simps in_fs_def file_stored_def ensuring_def)
qed

text \<open>The new bytes go to the temporary name; only the rename, which comes last, touches the file.\<close>

lemma written_aside:
  assumes "fs_open f tmp ''wb'' w = (Inr h, w1)" "tmp = lf_tmp_path b" "path \<noteq> tmp"
    "catch (ensuring (in_fs (fs_write f h p)) (in_fs (fs_close f h)))
       (\<lambda>e. if is_OSError e then andThen (swallow is_OSError (in_fs (fs_remove f tmp))) (throw e) else throw e) (b\<lparr>lf_world := w1\<rparr>) = (r, b2)"
  shows "\<exists>w2. b2 = b\<lparr>lf_world := w2\<rparr> \<and> content path w2 = content path w1 \<and> (r = Inr () \<longrightarrow> content tmp w2 = Some p)"
proof -
  obtain r2 w2 where wr: "fs_write f h p w1 = (r2, w2)" by fastforce
  obtain r3 w3 where cl: "fs_close f h w2 = (r3, w3)" by fastforce
  obtain r4 w4 where rm: "fs_remove f tmp w3 = (r4, w4)" by fastforce
  note other = write_other [OF assms(1) wr cl assms(3)] remove_other [OF rm assms(3)]
  have "r2 = Inr () \<Longrightarrow> r3 = Inr () \<Longrightarrow> content tmp w3 = Some p" using written [OF assms(1)] wr cl by simp
  then show ?thesis using assms(4) wr cl rm other
    by (cases r2; cases r3; cases r4)
       (auto simp: run_catch ensuring_def in_fs_def swallow_def run_andThen split: if_splits)
qed

lemma save_file:
  assumes "file_ok b" "littlefs_save f p b = (r, b1)"
  shows "\<exists>w. b1 = b\<lparr>lf_world := w\<rparr> \<and> file_stored b1 = (case r of Inl _ \<Rightarrow> file_stored b | Inr _ \<Rightarrow> Inr p)"
proof -
  let ?tmp = "lf_tmp_path b" and ?path = "lf_path b"
  have ne: "?path \<noteq> ?tmp" using assms(1) by (simp add: file_ok_def TMP_SUFFIX_def)
  obtain r1 w1 where op: "fs_open f ?tmp ''wb'' (lf_world b) = (r1, w1)" by fastforce
  have same1: "content ?path w1 = content ?path (lf_world b)" using open_other [OF op ne] .
  show ?thesis
  proof (cases "check_capacity (lf_capacity b) p")
    case (Inl e)
    then show ?thesis using assms(2) by (intro exI [of _ "lf_world b"]; cases r) (auto simp: littlefs_save_def reading_def run_mbind)
  next
    case cap: (Inr u)
    show ?thesis
    proof (cases r1)
      case (Inl e)
      then show ?thesis using assms(2) cap op same1
        by (intro exI [of _ w1]) (auto simp: littlefs_save_def reading_def run_mbind in_fs_def file_stored_def)
    next
      case (Inr h)
      define m where "m = catch (ensuring (in_fs (fs_write f h p)) (in_fs (fs_close f h)))
        (\<lambda>e. if is_OSError e then andThen (swallow is_OSError (in_fs (fs_remove f ?tmp))) (throw e) else throw e)"
      obtain r2 b2 where m: "m (b\<lparr>lf_world := w1\<rparr>) = (r2, b2)" by fastforce
      obtain w2 where w2: "b2 = b\<lparr>lf_world := w2\<rparr>" "content ?path w2 = content ?path w1" "r2 = Inr () \<Longrightarrow> content ?tmp w2 = Some p"
        using written_aside [OF op [unfolded Inr] refl ne m [unfolded m_def]] by blast
      obtain r3 w3 where sy: "fs_sync f w2 = (r3, w3)" by fastforce
      obtain r4 w4 where rn: "fs_rename f ?tmp ?path w3 = (r4, w4)" by fastforce
      have run: "littlefs_save f p b = andThen m (andThen (in_fs (fs_sync f)) (in_fs (fs_rename f ?tmp ?path))) (b\<lparr>lf_world := w1\<rparr>)"
        using cap op Inr by (simp add: littlefs_save_def reading_def run_mbind in_fs_def m_def)
      show ?thesis
        using assms(2) run m w2 sy rn synced [OF sy, of ?path] synced [OF sy, of ?tmp] renamed [OF rn] same1
        by (cases r2; cases r3; cases r4) (auto simp: run_andThen in_fs_def file_stored_def)
    qed
  qed
qed

end

sublocale filesystem \<subseteq> littlefs: kv_storage "littlefs f" file_ok file_stored
proof
  fix b p r b1
  assume b: "file_ok b"
  show "\<exists>b1. bk_load (littlefs f) b = (file_stored b, b1) \<and> file_ok b1 \<and> file_stored b1 = file_stored b
      \<and> bk_capacity (littlefs f) b1 = bk_capacity (littlefs f) b"
    using load_file [of b] b by (auto simp: littlefs_def file_ok_def file_stored_def)
  assume "bk_save (littlefs f) p b = (r, b1)"
  then show "file_ok b1 \<and> bk_capacity (littlefs f) b1 = bk_capacity (littlefs f) b
      \<and> file_stored b1 = (case r of Inl _ \<Rightarrow> file_stored b | Inr _ \<Rightarrow> Inr p)"
    using save_file [OF b, of p r b1] b by (auto simp: littlefs_def file_ok_def)
qed

text \<open>The file system double of the backend's tests: files in a dict, written on close.\<close>

record FakeFile =
  ff_path :: string
  ff_mode :: string
  ff_buffer :: "byte list"
  ff_closed :: bool

record FakeFs =
  ft_store :: "string \<rightharpoonup> byte list"
  ft_files :: "FakeFile list"
  ft_sync_count :: nat
  ft_rename_count :: nat

definition FakeFs_init :: FakeFs where
  "FakeFs_init = \<lparr>ft_store = Map.empty, ft_files = [], ft_sync_count = 0, ft_rename_count = 0\<rparr>"

definition fake_open :: "string \<Rightarrow> string \<Rightarrow> (FakeFs, nat) prog" where
  "fake_open path mode = reading (\<lambda>w.
     let new = (\<lambda>buffer. andThen (modify (\<lambda>w. w\<lparr>ft_files := ft_files w @ [\<lparr>ff_path = path, ff_mode = mode, ff_buffer = buffer, ff_closed = False\<rparr>]\<rparr>))
           (ret (length (ft_files w)))) in
     if CHR ''r'' \<in> set mode then (case ft_store w path of None \<Rightarrow> throw (OSError ENOENT) | Some bs \<Rightarrow> new bs) else new [])"

definition fake_read :: "nat \<Rightarrow> (FakeFs, byte list) prog" where
  "fake_read h = gets (\<lambda>w. ff_buffer (ft_files w ! h))"

definition fake_write :: "nat \<Rightarrow> byte list \<Rightarrow> (FakeFs, unit) prog" where
  "fake_write h bs = modify (\<lambda>w. w\<lparr>ft_files := (ft_files w)[h := (ft_files w ! h)\<lparr>ff_buffer := ff_buffer (ft_files w ! h) @ bs\<rparr>]\<rparr>)"

definition fake_close :: "nat \<Rightarrow> (FakeFs, unit) prog" where
  "fake_close h = reading (\<lambda>w. let file = ft_files w ! h in
     if ff_closed file then ret ()
     else modify (\<lambda>w. w\<lparr>ft_files := (ft_files w)[h := file\<lparr>ff_closed := True\<rparr>],
       ft_store := (if CHR ''w'' \<in> set (ff_mode file) then (ft_store w)(ff_path file \<mapsto> ff_buffer file) else ft_store w)\<rparr>))"

definition fake_rename :: "string \<Rightarrow> string \<Rightarrow> (FakeFs, unit) prog" where
  "fake_rename source destination = reading (\<lambda>w. case ft_store w source of
     None \<Rightarrow> throw (OSError ENOENT)
   | Some bs \<Rightarrow> modify (\<lambda>w. w\<lparr>ft_store := (ft_store w)(source := None, destination := Some bs), ft_rename_count := ft_rename_count w + 1\<rparr>))"

definition fake_remove :: "string \<Rightarrow> (FakeFs, unit) prog" where
  "fake_remove path = reading (\<lambda>w. case ft_store w path of
     None \<Rightarrow> throw (OSError ENOENT) | Some _ \<Rightarrow> modify (\<lambda>w. w\<lparr>ft_store := (ft_store w)(path := None)\<rparr>))"

definition fake_sync :: "(FakeFs, unit) prog" where
  "fake_sync = modify (\<lambda>w. w\<lparr>ft_sync_count := ft_sync_count w + 1\<rparr>)"

definition fake_fs :: "FakeFs fs" where
  "fake_fs = \<lparr>fs_open = fake_open, fs_read = fake_read, fs_write = fake_write, fs_close = fake_close, fs_rename = fake_rename,
     fs_remove = fake_remove, fs_sync = fake_sync\<rparr>"

lemmas fake_fs_defs = fake_fs_def fake_open_def fake_read_def fake_write_def fake_close_def fake_rename_def fake_remove_def fake_sync_def

interpretation fake_fs: filesystem fake_fs "\<lambda>p w. ft_store w p"
  by unfold_locales
     (auto simp: fake_fs_defs reading_def prog_simps Let_def nth_append list_update_append split: option.splits)

subsection \<open>NVS\<close>

text \<open>What the NVS module promises of the blob under a key; committing what was set does not fail.\<close>

locale nvs_module =
  fixes n :: "'w nvs" and blob :: "string \<Rightarrow> 'w \<Rightarrow> byte list option"
  assumes get_missing: "blob k w = None \<Longrightarrow> \<exists>c w1. ns_get_blob n k buf w = (Inl (OSError c), w1) \<and> (c = ENOENT \<or> c = ESP_ERR_NVS_NOT_FOUND)
      \<and> (\<forall>q. blob q w1 = blob q w)"
    and get_present: "blob k w = Some bs \<Longrightarrow> length bs \<le> length buf \<Longrightarrow>
      \<exists>w1. ns_get_blob n k buf w = (Inr (length bs, bs @ drop (length bs) buf), w1) \<and> (\<forall>q. blob q w1 = blob q w)"
    and set_blob: "ns_set_blob n k v w = (r, w1) \<Longrightarrow> blob k w1 = (case r of Inl _ \<Rightarrow> blob k w | Inr _ \<Rightarrow> Some v)"
    and committed: "\<exists>w1. ns_commit n w = (Inr (), w1) \<and> (\<forall>q. blob q w1 = blob q w)"
begin

definition nvs_ok :: "'w MpNvsBackend \<Rightarrow> bool" where
  "nvs_ok b \<longleftrightarrow> 0 < ne_capacity b \<and> (\<forall>bs. blob PAYLOAD_KEY (ne_world b) = Some bs \<longrightarrow> int (length bs) \<le> ne_capacity b)"

definition nvs_stored :: "'w MpNvsBackend \<Rightarrow> byte list result" where
  "nvs_stored b = Inr (case blob PAYLOAD_KEY (ne_world b) of None \<Rightarrow> [] | Some bs \<Rightarrow> bs)"

lemma load_blob:
  assumes "nvs_ok b"
  shows "\<exists>w. nvs_load n b = (nvs_stored b, b\<lparr>ne_world := w\<rparr>) \<and> (\<forall>q. blob q w = blob q (ne_world b))"
proof (cases "blob PAYLOAD_KEY (ne_world b)")
  case None
  with get_missing [OF this, of "replicate (nat (ne_capacity b)) (B 0)"] assms show ?thesis
    by (force simp: nvs_load_def reading_def prog_simps in_nvs_def nvs_stored_def nvs_ok_def)
next
  case (Some bs)
  with get_present [OF this, of "replicate (nat (ne_capacity b)) (B 0)"] assms show ?thesis
    by (force simp: nvs_load_def reading_def prog_simps in_nvs_def nvs_stored_def nvs_ok_def)
qed

lemma save_blob:
  assumes "nvs_ok b" "nvs_save n p b = (r, b1)"
  shows "nvs_ok b1 \<and> ne_capacity b1 = ne_capacity b \<and> nvs_stored b1 = (case r of Inl _ \<Rightarrow> nvs_stored b | Inr _ \<Rightarrow> Inr p)"
proof (cases "check_capacity (ne_capacity b) p")
  case (Inl e)
  then show ?thesis using assms by (cases r) (auto simp: nvs_save_def reading_def prog_simps)
next
  case (Inr u)
  obtain r1 w1 where st: "ns_set_blob n PAYLOAD_KEY p (ne_world b) = (r1, w1)" by fastforce
  obtain w2 where cm: "ns_commit n w1 = (Inr (), w2)" "\<forall>q. blob q w2 = blob q w1" using committed [of w1] by blast
  have fits: "\<not> (0 < ne_capacity b \<and> ne_capacity b < int (length p))" using Inr by (simp add: check_capacity_cases)
  have "nvs_save n p b = andThen (in_nvs (ns_set_blob n PAYLOAD_KEY p)) (in_nvs (ns_commit n)) b"
    using Inr by (simp add: nvs_save_def reading_def run_mbind)
  then show ?thesis using assms st cm set_blob [OF st] fits
    by (cases r1) (auto simp: prog_simps in_nvs_def nvs_ok_def nvs_stored_def)
qed

end

sublocale nvs_module \<subseteq> mp_nvs: kv_storage "mp_nvs n" nvs_ok nvs_stored
proof
  fix b p r b1
  assume b: "nvs_ok b"
  show "\<exists>b1. bk_load (mp_nvs n) b = (nvs_stored b, b1) \<and> nvs_ok b1 \<and> nvs_stored b1 = nvs_stored b \<and> bk_capacity (mp_nvs n) b1 = bk_capacity (mp_nvs n) b"
    using load_blob [OF b] b by (auto simp: mp_nvs_def nvs_ok_def nvs_stored_def)
  assume "bk_save (mp_nvs n) p b = (r, b1)"
  then show "nvs_ok b1 \<and> bk_capacity (mp_nvs n) b1 = bk_capacity (mp_nvs n) b \<and> nvs_stored b1 = (case r of Inl _ \<Rightarrow> nvs_stored b | Inr _ \<Rightarrow> Inr p)"
    using save_blob [OF b] by (simp add: mp_nvs_def)
qed

text \<open>The double of the backend's tests.\<close>

record FakeNvs =
  fn_values :: "string \<rightharpoonup> byte list"
  fn_commit_count :: nat

definition fake_get_blob :: "string \<Rightarrow> byte list \<Rightarrow> (FakeNvs, nat \<times> byte list) prog" where
  "fake_get_blob k buf = reading (\<lambda>w. case fn_values w k of
     None \<Rightarrow> throw (OSError ENOENT) | Some v \<Rightarrow> ret (length v, v @ drop (length v) buf))"

definition fake_set_blob :: "string \<Rightarrow> byte list \<Rightarrow> (FakeNvs, unit) prog" where
  "fake_set_blob k v = modify (\<lambda>w. w\<lparr>fn_values := (fn_values w)(k \<mapsto> v)\<rparr>)"

definition fake_commit :: "(FakeNvs, unit) prog" where
  "fake_commit = modify (\<lambda>w. w\<lparr>fn_commit_count := fn_commit_count w + 1\<rparr>)"

definition fake_nvs :: "FakeNvs nvs" where
  "fake_nvs = \<lparr>ns_get_blob = fake_get_blob, ns_set_blob = fake_set_blob, ns_commit = fake_commit\<rparr>"

interpretation fake_nvs: nvs_module fake_nvs "\<lambda>k w. fn_values w k"
  by unfold_locales
     (auto simp: fake_nvs_def fake_get_blob_def fake_set_blob_def fake_commit_def reading_def split: option.splits)

section \<open>Properties\<close>


text \<open>An erased slab with room for \<open>n\<close> bytes of payload, and a store on it with one key.\<close>

definition slab :: "nat \<Rightarrow> CpNvmBackend" where
  "slab n = \<lparr>nv_nvm = replicate (n + 10) (B 0), nv_capacity = int n\<rparr>"

definition sample_store :: "nat \<Rightarrow> CpNvmBackend KVStore" where
  "sample_store n = snd (kv_setitem (ustr ''k'') (PTuple [PInt 1]) (snd (KVStore_init cp_nvm (slab n))))"

lemma slab_ok: "0 < n \<Longrightarrow> nvm_ok (slab n)"
  by (simp add: slab_def nvm_ok_def HEADER_SIZE_def)

lemma slab_init: "KVStore_init cp_nvm (slab n) = (Inr (),
    \<lparr>kv_backend = slab n, kv_capacity = int n, kv_data = [], kv_last_payload = [], kv_is_corrupt = False, kv_dirty = False\<rparr>)"
  by (simp add: KVStore_init_def reload_def on_backend_def cp_nvm_def nvm_load_def nvm_read_def slab_def reading_def prog_simps pslice_def
      numeral_eq_Suc)

lemma sample_store: "sample_store n = \<lparr>kv_backend = slab n, kv_capacity = int n, kv_data = [(PStr (ustr ''k''), PTuple [PInt 1])],
    kv_last_payload = [], kv_is_corrupt = False, kv_dirty = True\<rparr>"
  by (simp add: sample_store_def slab_init kv_setitem_def)

lemma sample_store_reachable: "kv_reachable cp_nvm (slab n) (sample_store n)"
  unfolding sample_store_def using slab_init [of n] by (intro kv_reachable.set kv_reachable.new [of _ _ "()"]) simp_all

lemma sample_packb: "packb (PDict [(PStr (ustr ''k''), PTuple [PInt 1])]) = Inr (map B [0x81, 0xA1, 107, 0x91, 1])"
  by (simp add: packb_def encode.simps encode_map_header_def encode_array_header_def encode_str_def encode_int_def utf8_char_def
      scalar_value_def MAX_DEPTH_def Let_def result_simps)

lemma sample_commit:
  "fst (commit cp_nvm (sample_store n)) = (if 0 < n \<and> n < 5 then Inl (KVStoreFull ''payload size exceeds capacity'') else Inr ())"
  by (simp add: commit_def sample_store sample_packb persist_def on_backend_def cp_nvm_def nvm_save_def check_capacity_def slab_def
      reading_def prog_simps Let_def del: list.map)


text \<open>
  C21. A commit that raises (the dict cannot be encoded, it does not fit, the device fails) loses
  nothing: the dict in memory, its dirty mark and the payload remembered are as before, and so is
  what the backend holds.
\<close>

theorem kv_failed_commit:
  assumes "kv_storage K ok stored" "ok b" "kv_reachable K b s"
    and "commit K s = (Inl e, s1) \<or> commit_if_changed K s = (Inl e, s1)"
  shows "kv_data s1 = kv_data s \<and> kv_dirty s1 = kv_dirty s \<and> kv_last_payload s1 = kv_last_payload s
    \<and> kv_is_corrupt s1 = kv_is_corrupt s \<and> stored (kv_backend s1) = stored (kv_backend s)"
proof -
  have inv: "kv_storage.store_inv K ok stored s" using kv_storage.kv_store_inv [OF assms(1,2,3)] .
  show ?thesis
  proof (cases "packb (PDict (kv_data s))")
    case (Inl e1)
    then show ?thesis using assms(4) by (auto simp: commit_def commit_if_changed_def reading_def run_mbind split: if_splits)
  next
    case (Inr p)
    obtain r s2 where s2: "persist K p s = (r, s2)" by fastforce
    then have "r = Inl e" "s1 = s2" using assms(4) Inr
      by (auto simp: commit_def commit_if_changed_def reading_def run_mbind run_andThen split: if_splits sum.splits)
    then show ?thesis using kv_storage.persist_run [OF assms(1) inv s2] by auto
  qed
qed

theorem kv_failed_commit_witness:
  "fst (commit cp_nvm (sample_store 4)) = Inl (KVStoreFull ''payload size exceeds capacity'')
   \<and> kv_dirty (snd (commit cp_nvm (sample_store 4)))"
proof -
  have c: "fst (commit cp_nvm (sample_store 4)) = Inl (KVStoreFull ''payload size exceeds capacity'')" by (simp add: sample_commit)
  have d: "kv_dirty (sample_store 4)" by (simp add: sample_store)
  from c have "commit cp_nvm (sample_store 4) = (Inl (KVStoreFull ''payload size exceeds capacity''), snd (commit cp_nvm (sample_store 4)))"
    by (simp add: prod_eq_iff)
  from kv_failed_commit [OF cp_nvm.kv_storage_axioms slab_ok sample_store_reachable disjI1 [OF this]] c d show ?thesis by simp
qed

text \<open>
  A reload that finds the backend corrupt forgets that there are changes to save: \<open>reload\<close> clears the
  dirty mark first and raises with the dict still in place, and the next \<open>commit_if_changed\<close> skips it.
\<close>

lemma kv_failed_reload_forgets:
  "case KVStore_init memory (force_corrupt (MemoryBackend_init 4096 None None)) of
     (Inr _, s) \<Rightarrow> (case reload memory (snd (kv_setitem (ustr ''k'') (PInt 1) s)) of
       (r, s1) \<Rightarrow> r = Inl (KVStoreCorrupt ''memory backend marked corrupt'') \<and> kv_contains (PStr (ustr ''k'')) s1
         \<and> fst (commit_if_changed memory s1) = Inr False \<and> mb_payload (kv_backend (snd (commit_if_changed memory s1))) = [])
   | _ \<Rightarrow> False"
  by code_simp

end
