(* ===== verification/Button_Source.thy ===== *)
theory Button_Source
  imports Timing
begin

text \<open>
  \<^verbatim>\<open>libraries/buttons/src/chumicro_buttons/_adapters/mp.py\<close>: the MicroPython edge sources. A pin
  interrupt writes raw edges to a ring (\<open>_capture_edge\<close>); the tick drains them through
  \<open>next_event\<close>, which publishes a level once the signal has stayed on it for \<open>settle_ms\<close>. The key
  matrix samples levels instead and is not modelled. The pins are arguments: the level each reads
  when it is asked. Interrupts arrive between drains, not inside \<open>next_event\<close>. An array holds the bools 0 and 1 as \<^verbatim>\<open>bool\<close> values.
\<close>

section \<open>State\<close>

record MpButtonSource =
  bs_settle_ms :: int
  bs_pressed_level :: nat
  bs_key_count :: nat
  bs_ring_depth :: nat
  bs_edge_codes :: "nat list"
  bs_edge_times :: "int list"
  bs_write_index :: nat
  bs_read_index :: nat
  bs_overflowed :: bool
  bs_dropped_edges :: bool
  bs_believed :: "bool list"
  bs_pending :: "bool list"
  bs_change_ms :: "int list"
  bs_sweep_key :: nat
  bs_now_ms :: int
  bs_event_key :: nat
  bs_event_pressed :: bool
  bs_event_ms :: int

definition DEFAULT_RING_DEPTH :: nat where "DEFAULT_RING_DEPTH = 32"

text \<open>\<open>levels k\<close> is what pin \<open>k\<close> reads while the source is built.\<close>

definition MpButtonSource_init :: "nat \<Rightarrow> bool \<Rightarrow> int \<Rightarrow> nat \<Rightarrow> (nat \<Rightarrow> nat) \<Rightarrow> int \<Rightarrow> MpButtonSource" where
  "MpButtonSource_init pin_count active_low settle_ms ring_depth levels started_ms =
     (let pressed_level = (if active_low then 0 else 1) in
      \<lparr>bs_settle_ms = settle_ms, bs_pressed_level = pressed_level, bs_key_count = pin_count, bs_ring_depth = ring_depth,
       bs_edge_codes = replicate ring_depth 0, bs_edge_times = replicate ring_depth 0, bs_write_index = 0, bs_read_index = 0,
       bs_overflowed = False, bs_dropped_edges = False, bs_believed = replicate pin_count False,
       bs_pending = map (\<lambda>k. levels k = pressed_level) [0..<pin_count], bs_change_ms = replicate pin_count started_ms,
       bs_sweep_key = 0, bs_now_ms = started_ms, bs_event_key = 0, bs_event_pressed = False, bs_event_ms = 0\<rparr>)"

section \<open>The interrupt\<close>

text \<open>\<open>level\<close> is what the pin read and \<open>at_ms\<close> what the clock read in the handler.\<close>

definition capture_edge :: "nat \<Rightarrow> nat \<Rightarrow> int \<Rightarrow> MpButtonSource \<Rightarrow> MpButtonSource" where
  "capture_edge key_index level at_ms s =
     (let write_index = bs_write_index s;
          next_write = (if write_index + 1 \<ge> bs_ring_depth s then 0 else write_index + 1) in
      if next_write = bs_read_index s then s\<lparr>bs_overflowed := True, bs_dropped_edges := True\<rparr>
      else s\<lparr>bs_edge_codes := (bs_edge_codes s)[write_index := (2 * key_index) OR level],
             bs_edge_times := (bs_edge_times s)[write_index := at_ms], bs_write_index := next_write\<rparr>)"

section \<open>The drain\<close>

definition mb_poll :: "int \<Rightarrow> MpButtonSource \<Rightarrow> MpButtonSource" where
  "mb_poll now_ms s = s\<lparr>bs_now_ms := now_ms\<rparr>"

definition publish_edge :: "nat \<Rightarrow> bool \<Rightarrow> int \<Rightarrow> MpButtonSource \<Rightarrow> MpButtonSource" where
  "publish_edge key_index pressed at_ms s = s\<lparr>bs_event_key := key_index, bs_event_pressed := pressed, bs_event_ms := at_ms\<rparr>"

text \<open>One turn of the loop over the ring: whether an edge was published.\<close>

definition ring_step :: "ticks_source \<Rightarrow> MpButtonSource \<Rightarrow> bool result \<times> MpButtonSource" where
  "ring_step tk s =
     (let i = bs_read_index s in
      if \<not> (i < length (bs_edge_codes s) \<and> i < length (bs_edge_times s)) then (Inl IndexError, s)
      else
        let code = bs_edge_codes s ! i; at_ms = bs_edge_times s ! i;
            s = s\<lparr>bs_read_index := (if i + 1 \<ge> bs_ring_depth s then 0 else i + 1)\<rparr>;
            key_index = code div 2; sample = (code AND 1 = bs_pressed_level s) in
        if \<not> (key_index < length (bs_pending s) \<and> key_index < length (bs_believed s) \<and> key_index < length (bs_change_ms s))
        then (Inl IndexError, s)
        else if sample = bs_pending s ! key_index then (Inr False, s)
        else
          let departed = bs_pending s ! key_index; departed_ms = bs_change_ms s ! key_index;
              confirmed = (departed \<noteq> bs_believed s ! key_index \<and> src_diff tk at_ms departed_ms \<ge> bs_settle_ms s);
              s = s\<lparr>bs_pending := (bs_pending s)[key_index := sample]\<rparr> in
          if \<not> confirmed
          then (Inr False, if sample \<noteq> bs_believed s ! key_index then s\<lparr>bs_change_ms := (bs_change_ms s)[key_index := at_ms]\<rparr> else s)
          else (Inr True, publish_edge key_index departed departed_ms
            (s\<lparr>bs_believed := (bs_believed s)[key_index := departed], bs_change_ms := (bs_change_ms s)[key_index := at_ms]\<rparr>)))"

text \<open>The \<^verbatim>\<open>while\<close> loop over the ring; a ring of \<open>n\<close> slots has fewer than \<open>n\<close> edges.\<close>

fun ring_loop :: "ticks_source \<Rightarrow> nat \<Rightarrow> MpButtonSource \<Rightarrow> bool result \<times> MpButtonSource" where
  "ring_loop tk fuel s =
     (if bs_read_index s = bs_write_index s then (Inr False, s)
      else case fuel of
        0 \<Rightarrow> (Inl (RuntimeError ''out of fuel''), s)
      | Suc fuel \<Rightarrow> (case ring_step tk s of (Inr False, s1) \<Rightarrow> ring_loop tk fuel s1 | r \<Rightarrow> r))"

declare ring_loop.simps [simp del]

text \<open>After a dropped edge the pins are read again.\<close>

definition reread_key :: "(nat \<Rightarrow> nat) \<Rightarrow> nat \<Rightarrow> MpButtonSource \<Rightarrow> MpButtonSource" where
  "reread_key levels key_index s =
     (let sample = (levels key_index = bs_pressed_level s) in
      if sample = bs_pending s ! key_index then s
      else
        let s = s\<lparr>bs_pending := (bs_pending s)[key_index := sample]\<rparr> in
        if sample \<noteq> bs_believed s ! key_index then s\<lparr>bs_change_ms := (bs_change_ms s)[key_index := bs_now_ms s]\<rparr> else s)"

definition reread_pins :: "(nat \<Rightarrow> nat) \<Rightarrow> MpButtonSource \<Rightarrow> MpButtonSource" where
  "reread_pins levels s =
     (if bs_dropped_edges s then fold (reread_key levels) [0..<bs_key_count s] (s\<lparr>bs_dropped_edges := False\<rparr>) else s)"

text \<open>The sweep over the keys whose level has settled, from \<open>key_index\<close> on.\<close>

function sweep_keys :: "ticks_source \<Rightarrow> nat \<Rightarrow> MpButtonSource \<Rightarrow> bool \<times> MpButtonSource" where
  "sweep_keys tk key_index s =
     (if key_index \<ge> bs_key_count s then (False, s\<lparr>bs_sweep_key := 0\<rparr>)
      else if bs_pending s ! key_index \<noteq> bs_believed s ! key_index
          \<and> src_diff tk (bs_now_ms s) (bs_change_ms s ! key_index) \<ge> bs_settle_ms s
      then (True, publish_edge key_index (bs_pending s ! key_index) (bs_change_ms s ! key_index)
        (s\<lparr>bs_believed := (bs_believed s)[key_index := bs_pending s ! key_index], bs_sweep_key := key_index + 1\<rparr>))
      else sweep_keys tk (key_index + 1) s)"
  by pat_completeness auto
termination by (relation "measure (\<lambda>(tk, k, s). bs_key_count s - k)") auto

declare sweep_keys.simps [simp del]

definition mb_next_event :: "ticks_source \<Rightarrow> (nat \<Rightarrow> nat) \<Rightarrow> MpButtonSource \<Rightarrow> bool result \<times> MpButtonSource" where
  "mb_next_event tk levels s =
     (case ring_loop tk (bs_ring_depth s) s of
        (Inr False, s1) \<Rightarrow> (let s2 = reread_pins levels s1 in case sweep_keys tk (bs_sweep_key s2) s2 of (b, s3) \<Rightarrow> (Inr b, s3))
      | r \<Rightarrow> r)"

section \<open>The ring is a queue\<close>

definition next_slot :: "nat \<Rightarrow> nat \<Rightarrow> nat" where
  "next_slot d i = (if i + 1 \<ge> d then 0 else i + 1)"

definition ring_slots :: "nat \<Rightarrow> nat \<Rightarrow> nat \<Rightarrow> nat list" where
  "ring_slots d r w = (if r \<le> w then [r..<w] else [r..<d] @ [0..<w])"

lemma ring_slots_pop: "r < d \<Longrightarrow> w < d \<Longrightarrow> r \<noteq> w \<Longrightarrow> ring_slots d r w = r # ring_slots d (next_slot d r) w"
  by (auto simp: ring_slots_def next_slot_def upt_rec upt_conv_Cons)

lemma ring_slots_push: "r < d \<Longrightarrow> w < d \<Longrightarrow> next_slot d w \<noteq> r \<Longrightarrow> ring_slots d r (next_slot d w) = ring_slots d r w @ [w]"
  by (auto simp: ring_slots_def next_slot_def not_le le_Suc_eq upt_Suc_append split: if_splits)

lemma ring_slots_bound: "r < d \<Longrightarrow> w < d \<Longrightarrow> length (ring_slots d r w) < d" "w \<notin> set (ring_slots d r w)"
    "r < d \<Longrightarrow> w < d \<Longrightarrow> i \<in> set (ring_slots d r w) \<Longrightarrow> i < d"
  by (auto simp: ring_slots_def split: if_splits)

lemma ring_slots_Nil: "r < d \<Longrightarrow> w < d \<Longrightarrow> ring_slots d r w = [] \<longleftrightarrow> r = w"
  by (auto simp: ring_slots_def)

lemma ring_slots_full: "r < d \<Longrightarrow> w < d \<Longrightarrow> next_slot d w = r \<longleftrightarrow> length (ring_slots d r w) = d - 1"
  by (auto simp: ring_slots_def next_slot_def)

text \<open>Key, level and time of the edges in the ring, oldest first.\<close>

definition ring_edges :: "MpButtonSource \<Rightarrow> (nat \<times> bool \<times> int) list" where
  "ring_edges s = map (\<lambda>i. (bs_edge_codes s ! i div 2, bs_edge_codes s ! i AND 1 = bs_pressed_level s, bs_edge_times s ! i))
     (ring_slots (bs_ring_depth s) (bs_read_index s) (bs_write_index s))"

definition bs_inv :: "MpButtonSource \<Rightarrow> bool" where
  "bs_inv s \<longleftrightarrow> length (bs_edge_codes s) = bs_ring_depth s \<and> length (bs_edge_times s) = bs_ring_depth s
     \<and> bs_read_index s < bs_ring_depth s \<and> bs_write_index s < bs_ring_depth s
     \<and> length (bs_believed s) = bs_key_count s \<and> length (bs_pending s) = bs_key_count s \<and> length (bs_change_ms s) = bs_key_count s
     \<and> (\<forall>(k, _) \<in> set (ring_edges s). k < bs_key_count s) \<and> bs_sweep_key s \<le> bs_key_count s"

lemma bs_init_inv: "0 < d \<Longrightarrow> bs_inv (MpButtonSource_init n low settle d levels t)"
  by (simp add: bs_inv_def MpButtonSource_init_def ring_edges_def ring_slots_def Let_def)

lemma code_bits: "level < 2 \<Longrightarrow> ((2 * k) OR level) div 2 = (k :: nat)" "level < 2 \<Longrightarrow> ((2 * k) OR level) AND 1 = level"
  by (auto simp: less_2_cases_iff or_Suc_0_eq and_Suc_0_eq and_one_eq)

lemma capture_run:
  assumes s: "bs_inv s" "k < bs_key_count s" "level < 2"
  shows "bs_inv (capture_edge k level t s) \<and> (if length (ring_edges s) < bs_ring_depth s - 1
    then ring_edges (capture_edge k level t s) = ring_edges s @ [(k, level = bs_pressed_level s, t)]
      \<and> bs_dropped_edges (capture_edge k level t s) = bs_dropped_edges s
    else ring_edges (capture_edge k level t s) = ring_edges s \<and> bs_overflowed (capture_edge k level t s)
      \<and> bs_dropped_edges (capture_edge k level t s))"
proof -
  let ?d = "bs_ring_depth s" and ?r = "bs_read_index s" and ?w = "bs_write_index s"
  have i: "?r < ?d" "?w < ?d" "length (bs_edge_codes s) = ?d" "length (bs_edge_times s) = ?d" using s(1) by (simp_all add: bs_inv_def)
  have len: "length (ring_edges s) = length (ring_slots ?d ?r ?w)" by (simp add: ring_edges_def)
  show ?thesis
  proof (cases "next_slot ?d ?w = ?r")
    case True
    then have c: "capture_edge k level t s = s\<lparr>bs_overflowed := True, bs_dropped_edges := True\<rparr>"
      by (simp add: capture_edge_def next_slot_def Let_def)
    then show ?thesis using True s(1) len ring_slots_full [OF i(1,2)] by (simp add: bs_inv_def ring_edges_def)
  next
    case False
    then have c: "capture_edge k level t s = s\<lparr>bs_edge_codes := (bs_edge_codes s)[?w := (2 * k) OR level],
        bs_edge_times := (bs_edge_times s)[?w := t], bs_write_index := next_slot ?d ?w\<rparr>"
      by (auto simp: capture_edge_def next_slot_def Let_def)
    have e: "ring_edges (capture_edge k level t s) = ring_edges s @ [(k, level = bs_pressed_level s, t)]"
      unfolding c ring_edges_def using ring_slots_push [OF i(1,2) False] ring_slots_bound(2) [of ?w ?d ?r] i code_bits [OF s(3)]
      by (auto simp: nth_list_update)
    have "next_slot ?d ?w < ?d" using i by (simp add: next_slot_def)
    then have "bs_inv (capture_edge k level t s)" using s(1,2) e c by (auto simp: bs_inv_def)
    moreover have "length (ring_edges s) < ?d - 1"
      using False len ring_slots_full [OF i(1,2)] ring_slots_bound(1) [OF i(1,2)] by linarith
    ultimately show ?thesis using e c by simp
  qed
qed

section \<open>Debouncing one key\<close>

text \<open>Believed level, level seen last and since when; the edge is a level and its time.\<close>

type_synonym key_state = "bool \<times> bool \<times> int"

definition key_state :: "MpButtonSource \<Rightarrow> nat \<Rightarrow> key_state" where
  "key_state s k = (bs_believed s ! k, bs_pending s ! k, bs_change_ms s ! k)"

fun key_step :: "ticks_source \<Rightarrow> int \<Rightarrow> key_state \<Rightarrow> bool \<times> int \<Rightarrow> key_state \<times> (bool \<times> int) option" where
  "key_step tk settle (b, p, c) (l, t) =
     (if l = p then ((b, p, c), None)
      else if p \<noteq> b \<and> src_diff tk t c \<ge> settle then ((p, l, t), Some (p, c))
      else ((b, l, if l \<noteq> b then t else c), None))"

definition settled :: "ticks_source \<Rightarrow> int \<Rightarrow> key_state \<Rightarrow> int \<Rightarrow> (bool \<times> int) option" where
  "settled tk settle st now = (case st of (b, p, c) \<Rightarrow> if p \<noteq> b \<and> src_diff tk now c \<ge> settle then Some (p, c) else None)"

fun key_events :: "ticks_source \<Rightarrow> int \<Rightarrow> key_state \<Rightarrow> (bool \<times> int) list \<Rightarrow> int \<Rightarrow> (bool \<times> int) list" where
  "key_events tk settle st [] now = (case settled tk settle st now of None \<Rightarrow> [] | Some e \<Rightarrow> [e])"
| "key_events tk settle st (e # es) now = (case key_step tk settle st e of
     (st1, None) \<Rightarrow> key_events tk settle st1 es now
   | (st1, Some ev) \<Rightarrow> ev # key_events tk settle st1 es now)"

text \<open>
  The contract: the edges cut the time into segments of one level each, the last one up to now; the
  debounced edges are the changes of level among the segments that lasted for the settle time,
  stamped with their beginning.
\<close>

fun segments :: "bool \<Rightarrow> int \<Rightarrow> (bool \<times> int) list \<Rightarrow> int \<Rightarrow> (bool \<times> int \<times> int) list" where
  "segments l since [] now = [(l, since, now)]"
| "segments l since ((l1, t) # es) now = (if l1 = l then segments l since es now else (l, since, t) # segments l1 t es now)"

fun level_changes :: "bool \<Rightarrow> (bool \<times> int \<times> int) list \<Rightarrow> (bool \<times> int) list" where
  "level_changes b [] = []"
| "level_changes b ((l, since, until) # segs) = (if l \<noteq> b then (l, since) # level_changes l segs else level_changes b segs)"

definition debounced :: "ticks_source \<Rightarrow> int \<Rightarrow> bool \<Rightarrow> (bool \<times> int \<times> int) list \<Rightarrow> (bool \<times> int) list" where
  "debounced tk settle b segs = level_changes b (filter (\<lambda>(l, since, until). src_diff tk until since \<ge> settle) segs)"

lemma segments_own: "level_changes b (filter P (segments b since es now)) = level_changes b (filter P (segments b since' es now))"
  by (induction es arbitrary: since since') auto

lemma key_events_debounced: "key_events tk settle (b, p, c) es now = debounced tk settle b (segments p c es now)"
proof (induction es arbitrary: b p c)
  case Nil
  then show ?case by (auto simp: debounced_def settled_def)
next
  case (Cons e es)
  obtain l t where e: "e = (l, t)" by fastforce
  show ?case
  proof (cases "l = p")
    case True
    then show ?thesis using Cons.IH e by simp
  next
    case False
    then have lb: "p \<noteq> b \<Longrightarrow> l = b" by auto
    show ?thesis using Cons.IH [of p l t] Cons.IH [of b l t] Cons.IH [of b l c] False lb e segments_own [of b _ c es now t]
      by (cases "p = b") (auto simp: debounced_def)
  qed
qed

section \<open>Draining all keys\<close>

text \<open>What the ring holds for one key, and one edge of the ring folded into the keys.\<close>

definition edges_of :: "nat \<Rightarrow> (nat \<times> bool \<times> int) list \<Rightarrow> (bool \<times> int) list" where
  "edges_of k es = map snd (filter (\<lambda>e. fst e = k) es)"

lemma edges_of_simps [simp]: "edges_of k [] = []" "edges_of k ((k1, e) # es) = (if k1 = k then e # edges_of k es else edges_of k es)"
    "edges_of k (es @ es1) = edges_of k es @ edges_of k es1"
  by (simp_all add: edges_of_def)

definition event_of :: "MpButtonSource \<Rightarrow> nat \<times> bool \<times> int" where
  "event_of s = (bs_event_key s, bs_event_pressed s, bs_event_ms s)"

definition same_setup :: "MpButtonSource \<Rightarrow> MpButtonSource \<Rightarrow> bool" where
  "same_setup s s1 \<longleftrightarrow> bs_settle_ms s1 = bs_settle_ms s \<and> bs_key_count s1 = bs_key_count s \<and> bs_now_ms s1 = bs_now_ms s
     \<and> bs_dropped_edges s1 = bs_dropped_edges s \<and> bs_ring_depth s1 = bs_ring_depth s \<and> bs_overflowed s1 = bs_overflowed s"

lemma same_setup_trans: "same_setup s s1 \<Longrightarrow> same_setup s1 s2 \<Longrightarrow> same_setup s s2"
  by (simp add: same_setup_def)

lemma ring_step_run:
  assumes inv: "bs_inv s" and ne: "bs_read_index s \<noteq> bs_write_index s"
  shows "\<exists>k e es s1 ev. ring_edges s = (k, e) # es \<and> k < bs_key_count s
    \<and> key_step tk (bs_settle_ms s) (key_state s k) e = (key_state s1 k, ev)
    \<and> ring_step tk s = (Inr (ev \<noteq> None), s1) \<and> bs_inv s1 \<and> ring_edges s1 = es \<and> same_setup s s1 \<and> bs_sweep_key s1 = bs_sweep_key s
    \<and> (\<forall>j. j \<noteq> k \<longrightarrow> key_state s1 j = key_state s j) \<and> (\<forall>x. ev = Some x \<longrightarrow> event_of s1 = (k, x))"
proof -
  let ?d = "bs_ring_depth s" and ?r = "bs_read_index s" and ?w = "bs_write_index s"
  let ?k = "bs_edge_codes s ! ?r div 2" and ?l = "bs_edge_codes s ! ?r AND 1 = bs_pressed_level s" and ?t = "bs_edge_times s ! ?r"
  let ?s = "s\<lparr>bs_read_index := next_slot ?d ?r\<rparr>"
  have i: "?r < ?d" "?w < ?d" "length (bs_edge_codes s) = ?d" "length (bs_edge_times s) = ?d"
    "length (bs_believed s) = bs_key_count s" "length (bs_pending s) = bs_key_count s" "length (bs_change_ms s) = bs_key_count s"
    using inv by (simp_all add: bs_inv_def)
  have e: "ring_edges s = (?k, ?l, ?t) # ring_edges ?s"
    using ring_slots_pop [OF i(1,2) ne] by (simp add: ring_edges_def)
  then have k: "?k < bs_key_count s" using inv by (auto simp: bs_inv_def)
  have n: "next_slot ?d ?r < ?d" using i by (simp add: next_slot_def)
  define ev where "ev = snd (key_step tk (bs_settle_ms s) (key_state s ?k) (?l, ?t))"
  define s1 where "s1 = snd (ring_step tk s)"
  have "ring_step tk s = (Inr (ev \<noteq> None), s1)
    \<and> key_step tk (bs_settle_ms s) (key_state s ?k) (?l, ?t) = (key_state s1 ?k, ev)
    \<and> ring_edges s1 = ring_edges ?s \<and> same_setup s s1 \<and> bs_sweep_key s1 = bs_sweep_key s
    \<and> (\<forall>j. j \<noteq> ?k \<longrightarrow> key_state s1 j = key_state s j) \<and> (\<forall>x. ev = Some x \<longrightarrow> event_of s1 = (?k, x))
    \<and> bs_inv s1"
  proof -
    let ?p = "bs_pending s ! ?k" and ?b = "bs_believed s ! ?k" and ?c = "bs_change_ms s ! ?k"
    have run: "ring_step tk s = (if ?l = ?p then (Inr False, ?s)
      else if ?p \<noteq> ?b \<and> src_diff tk ?t ?c \<ge> bs_settle_ms s
      then (Inr True, publish_edge ?k ?p ?c (?s\<lparr>bs_pending := (bs_pending s)[?k := ?l], bs_believed := (bs_believed s)[?k := ?p],
        bs_change_ms := (bs_change_ms s)[?k := ?t]\<rparr>))
      else (Inr False, ?s\<lparr>bs_pending := (bs_pending s)[?k := ?l],
        bs_change_ms := (if ?l \<noteq> ?b then (bs_change_ms s)[?k := ?t] else bs_change_ms s)\<rparr>))"
      using i k n by (auto simp: ring_step_def Let_def next_slot_def)
    have inv1: "bs_inv ?s" using inv e n by (auto simp: bs_inv_def)
    have upd: "bs_inv (?s\<lparr>bs_pending := p, bs_change_ms := c\<rparr>)" "bs_inv (publish_edge k1 b1 t1 (?s\<lparr>bs_pending := p, bs_believed := b, bs_change_ms := c\<rparr>))"
      if "length p = bs_key_count s" "length b = bs_key_count s" "length c = bs_key_count s" for p b c k1 b1 t1
      using inv1 that by (simp_all add: bs_inv_def ring_edges_def publish_edge_def)
    consider (same) "?l = ?p" | (pub) "?l \<noteq> ?p" "?p \<noteq> ?b \<and> src_diff tk ?t ?c \<ge> bs_settle_ms s"
      | (no) "?l \<noteq> ?p" "\<not> (?p \<noteq> ?b \<and> src_diff tk ?t ?c \<ge> bs_settle_ms s)" by blast
    then show ?thesis
    proof cases
      case same
      then show ?thesis using run inv1 by (simp add: s1_def ev_def key_state_def same_setup_def)
    next
      case pub
      then show ?thesis using run upd(2) k i
        by (auto simp: s1_def ev_def key_state_def same_setup_def publish_edge_def event_of_def ring_edges_def)
    next
      case no
      then show ?thesis using run upd(1) k i
        by (auto simp: s1_def ev_def key_state_def same_setup_def ring_edges_def)
    qed
  qed
  then show ?thesis using e k
    by (intro exI [of _ ?k] exI [of _ "(?l, ?t)"] exI [of _ "ring_edges ?s"] exI [of _ s1] exI [of _ ev]) simp
qed

lemma ring_loop_run:
  "bs_inv s \<Longrightarrow> length (ring_edges s) \<le> fuel \<Longrightarrow> \<exists>pub s1. ring_loop tk fuel s = (Inr pub, s1) \<and> bs_inv s1 \<and> same_setup s s1
    \<and> bs_sweep_key s1 = bs_sweep_key s \<and> (if pub then length (ring_edges s1) < length (ring_edges s) else ring_edges s1 = [])
    \<and> (\<forall>k now. key_events tk (bs_settle_ms s) (key_state s k) (edges_of k (ring_edges s)) now
         = (if pub \<and> bs_event_key s1 = k then [snd (event_of s1)] else [])
           @ key_events tk (bs_settle_ms s) (key_state s1 k) (edges_of k (ring_edges s1)) now)"
proof (induction fuel arbitrary: s)
  case 0
  then have "bs_read_index s = bs_write_index s" by (auto simp: bs_inv_def ring_edges_def ring_slots_Nil)
  then show ?case using 0 by (intro exI [of _ False] exI [of _ s]) (simp add: ring_loop.simps same_setup_def)
next
  case (Suc fuel)
  show ?case
  proof (cases "bs_read_index s = bs_write_index s")
    case True
    then have "ring_edges s = []" using Suc.prems(1) by (simp add: bs_inv_def ring_edges_def ring_slots_Nil)
    then show ?thesis using True Suc.prems(1) by (intro exI [of _ False] exI [of _ s]) (simp add: ring_loop.simps same_setup_def)
  next
    case False
    obtain k e es s1 ev where st: "ring_edges s = (k, e) # es" "k < bs_key_count s"
      "key_step tk (bs_settle_ms s) (key_state s k) e = (key_state s1 k, ev)"
      "ring_step tk s = (Inr (ev \<noteq> None), s1)" "bs_inv s1" "ring_edges s1 = es" "same_setup s s1" "bs_sweep_key s1 = bs_sweep_key s"
      "\<And>j. j \<noteq> k \<Longrightarrow> key_state s1 j = key_state s j" "\<And>x. ev = Some x \<Longrightarrow> event_of s1 = (k, x)"
      using ring_step_run [OF Suc.prems(1) False, of tk] by blast
    have fold: "key_events tk (bs_settle_ms s) (key_state s j) (edges_of j (ring_edges s)) now
        = (if k = j then (case ev of None \<Rightarrow> [] | Some x \<Rightarrow> [x]) else []) @ key_events tk (bs_settle_ms s) (key_state s1 j) (edges_of j es) now"
      for j now using st(1,3,9) by (auto split: option.split)
    have same: "bs_settle_ms s1 = bs_settle_ms s" using st(7) by (simp add: same_setup_def)
    show ?thesis
    proof (cases ev)
      case None
      then have run: "ring_loop tk (Suc fuel) s = ring_loop tk fuel s1" using False st(4) by (simp add: ring_loop.simps [of tk "Suc fuel"])
      have "length (ring_edges s1) \<le> fuel" using Suc.prems(2) st(1,6) by simp
      from Suc.IH [OF st(5) this] obtain pub s2 where s2: "ring_loop tk fuel s1 = (Inr pub, s2)" "bs_inv s2" "same_setup s1 s2"
        "bs_sweep_key s2 = bs_sweep_key s1" "if pub then length (ring_edges s2) < length (ring_edges s1) else ring_edges s2 = []"
        "\<forall>k now. key_events tk (bs_settle_ms s1) (key_state s1 k) (edges_of k (ring_edges s1)) now
         = (if pub \<and> bs_event_key s2 = k then [snd (event_of s2)] else [])
           @ key_events tk (bs_settle_ms s1) (key_state s2 k) (edges_of k (ring_edges s2)) now" by blast
      show ?thesis
        using run s2 st(1,6,8) fold None same same_setup_trans [OF st(7) s2(3)]
        by (intro exI [of _ pub] exI [of _ s2]) (auto split: if_splits)
    next
      case (Some x)
      then have "ring_loop tk (Suc fuel) s = (Inr True, s1)" using False st(4) by (simp add: ring_loop.simps [of tk "Suc fuel"])
      then show ?thesis using st fold Some by (intro exI [of _ True] exI [of _ s1]) (auto simp: event_of_def)
    qed
  qed
qed

definition quiet :: "ticks_source \<Rightarrow> MpButtonSource \<Rightarrow> nat set \<Rightarrow> bool" where
  "quiet tk s ks \<longleftrightarrow> (\<forall>i \<in> ks. settled tk (bs_settle_ms s) (key_state s i) (bs_now_ms s) = None)"

definition swept :: "ticks_source \<Rightarrow> MpButtonSource \<Rightarrow> nat \<Rightarrow> bool \<times> int \<Rightarrow> MpButtonSource \<Rightarrow> bool" where
  "swept tk s k x s1 \<longleftrightarrow> k < bs_key_count s \<and> settled tk (bs_settle_ms s) (key_state s k) (bs_now_ms s) = Some x
     \<and> event_of s1 = (k, x) \<and> bs_inv s1 \<and> same_setup s s1 \<and> bs_sweep_key s1 = k + 1 \<and> ring_edges s1 = ring_edges s
     \<and> (\<forall>i. i \<noteq> k \<longrightarrow> key_state s1 i = key_state s i)"

lemma sweep_run:
  "bs_inv s \<Longrightarrow> j \<le> bs_key_count s \<Longrightarrow> sweep_keys tk j s = (False, s\<lparr>bs_sweep_key := 0\<rparr>) \<and> quiet tk s {j..<bs_key_count s}
   \<or> (\<exists>k x s1. sweep_keys tk j s = (True, s1) \<and> j \<le> k \<and> quiet tk s {j..<k} \<and> swept tk s k x s1)"
proof (induction "bs_key_count s - j" arbitrary: j)
  case 0
  then show ?case by (auto simp: sweep_keys.simps quiet_def)
next
  case (Suc m)
  then have j: "j < bs_key_count s" by simp
  show ?case
  proof (cases "settled tk (bs_settle_ms s) (key_state s j) (bs_now_ms s)")
    case (Some x)
    let ?s1 = "publish_edge j (bs_pending s ! j) (bs_change_ms s ! j)
        (s\<lparr>bs_believed := (bs_believed s)[j := bs_pending s ! j], bs_sweep_key := j + 1\<rparr>)"
    have c: "bs_pending s ! j \<noteq> bs_believed s ! j \<and> src_diff tk (bs_now_ms s) (bs_change_ms s ! j) \<ge> bs_settle_ms s"
        "x = (bs_pending s ! j, bs_change_ms s ! j)"
      using Some by (auto simp: settled_def key_state_def split: if_splits)
    then have r: "sweep_keys tk j s = (True, ?s1)" "x = (bs_pending s ! j, bs_change_ms s ! j)"
      using j by (simp_all add: sweep_keys.simps [of tk j])
    have "bs_inv ?s1" using Suc.prems(1) j by (simp add: bs_inv_def ring_edges_def publish_edge_def)
    moreover have "key_state ?s1 i = key_state s i" if "i \<noteq> j" for i using that by (simp add: key_state_def publish_edge_def)
    moreover have "event_of ?s1 = (j, x)" "same_setup s ?s1" "bs_sweep_key ?s1 = j + 1" "ring_edges ?s1 = ring_edges s"
      using r(2) by (simp_all add: event_of_def publish_edge_def same_setup_def ring_edges_def)
    ultimately have "swept tk s j x ?s1" using Some j unfolding swept_def by blast
    then show ?thesis using r(1) by (intro disjI2 exI [of _ j] exI [of _ x] exI [of _ ?s1]) (simp add: quiet_def)
  next
    case None
    then have run: "sweep_keys tk j s = sweep_keys tk (Suc j) s"
      using j by (auto simp: sweep_keys.simps [of tk j] settled_def key_state_def split: if_splits)
    have ext: "quiet tk s {j..<u}" if "quiet tk s {Suc j..<u}" for u
    proof -
      have "{j..<u} \<subseteq> insert j {Suc j..<u}" by auto
      then show ?thesis using that None by (auto simp: quiet_def)
    qed
    have m: "m = bs_key_count s - Suc j" "Suc j \<le> bs_key_count s" using Suc.hyps(2) j by simp_all
    from Suc.hyps(1) [OF m(1) Suc.prems(1) m(2)] ext show ?thesis unfolding run by (meson Suc_leD)
  qed
qed

text \<open>The loop \<^verbatim>\<open>while source.next_event()\<close> of a tick: the events it sees and the source it leaves.\<close>

inductive drains :: "ticks_source \<Rightarrow> (nat \<Rightarrow> nat) \<Rightarrow> MpButtonSource \<Rightarrow> (nat \<times> bool \<times> int) list \<Rightarrow> MpButtonSource \<Rightarrow> bool"
  for tk levels where
  drained: "mb_next_event tk levels s = (Inr False, s1) \<Longrightarrow> drains tk levels s [] s1"
| event: "mb_next_event tk levels s = (Inr True, s1) \<Longrightarrow> drains tk levels s1 evs s2 \<Longrightarrow> drains tk levels s (event_of s1 # evs) s2"

lemma next_event_sweeps:
  assumes "bs_inv s" "ring_edges s = []" "\<not> bs_dropped_edges s"
  shows "mb_next_event tk levels s = (case sweep_keys tk (bs_sweep_key s) s of (b, s3) \<Rightarrow> (Inr b, s3))"
proof -
  have "bs_read_index s = bs_write_index s" using assms(1,2) by (simp add: bs_inv_def ring_edges_def ring_slots_Nil)
  then show ?thesis using assms(3) by (simp add: mb_next_event_def ring_loop.simps reread_pins_def)
qed

lemma drain_sweep:
  "bs_inv s \<Longrightarrow> ring_edges s = [] \<Longrightarrow> \<not> bs_dropped_edges s \<Longrightarrow>
   \<exists>evs s1. drains tk levels s evs s1 \<and> bs_inv s1 \<and> ring_edges s1 = [] \<and> bs_sweep_key s1 = 0 \<and> same_setup s s1
     \<and> (\<forall>k. edges_of k evs = (if bs_sweep_key s \<le> k \<and> k < bs_key_count s
          then key_events tk (bs_settle_ms s) (key_state s k) [] (bs_now_ms s) else []))"
proof (induction "bs_key_count s - bs_sweep_key s" arbitrary: s rule: less_induct)
  case less
  let ?n = "bs_key_count s" and ?j = "bs_sweep_key s"
  have j: "?j \<le> ?n" using less.prems(1) by (simp add: bs_inv_def)
  note ne = next_event_sweeps [OF less.prems]
  from sweep_run [OF less.prems(1) j, of tk] show ?case
  proof (elim disjE conjE exE)
    assume sw: "sweep_keys tk ?j s = (False, s\<lparr>bs_sweep_key := 0\<rparr>)" and q: "quiet tk s {?j..<?n}"
    have "drains tk levels s [] (s\<lparr>bs_sweep_key := 0\<rparr>)" by (rule drained) (simp add: ne sw)
    moreover have "bs_inv (s\<lparr>bs_sweep_key := 0\<rparr>)" "ring_edges (s\<lparr>bs_sweep_key := 0\<rparr>) = []"
      using less.prems(1,2) by (simp_all add: bs_inv_def ring_edges_def)
    ultimately show ?thesis using q
      by (intro exI [of _ "[]"] exI [of _ "s\<lparr>bs_sweep_key := 0\<rparr>"]) (auto simp: quiet_def same_setup_def)
  next
    fix k x s1
    assume sw: "sweep_keys tk ?j s = (True, s1)" and k: "?j \<le> k" and q: "quiet tk s {?j..<k}" and p: "swept tk s k x s1"
    have s1: "bs_inv s1" "ring_edges s1 = []" "\<not> bs_dropped_edges s1" "same_setup s s1" "bs_sweep_key s1 = k + 1" "k < ?n"
      "event_of s1 = (k, x)" "settled tk (bs_settle_ms s) (key_state s k) (bs_now_ms s) = Some x"
      "\<And>i. i \<noteq> k \<Longrightarrow> key_state s1 i = key_state s i"
      using p less.prems(2,3) by (simp_all add: swept_def same_setup_def)
    have c: "bs_key_count s1 = ?n" "bs_settle_ms s1 = bs_settle_ms s" "bs_now_ms s1 = bs_now_ms s" using s1(4) by (simp_all add: same_setup_def)
    have "bs_key_count s1 - bs_sweep_key s1 < ?n - ?j" using c s1(5,6) k by simp
    from less.hyps [OF this s1(1-3)] obtain evs s2 where s2: "drains tk levels s1 evs s2" "bs_inv s2" "ring_edges s2 = []"
      "bs_sweep_key s2 = 0" "same_setup s1 s2"
      "\<forall>i. edges_of i evs = (if k + 1 \<le> i \<and> i < ?n then key_events tk (bs_settle_ms s) (key_state s1 i) [] (bs_now_ms s) else [])"
      unfolding c s1(5) by blast
    have "drains tk levels s (event_of s1 # evs) s2" by (rule event [OF _ s2(1)]) (simp add: ne sw)
    moreover have "edges_of i (event_of s1 # evs) = (if ?j \<le> i \<and> i < ?n then key_events tk (bs_settle_ms s) (key_state s i) [] (bs_now_ms s) else [])" for i
    proof -
      consider "i = k" | "i < k" | "k < i" by linarith
      then show ?thesis using s2(6) s1(6-9) k q by cases (auto simp: quiet_def)
    qed
    ultimately show ?thesis using s2 same_setup_trans [OF s1(4) s2(5)] by blast
  qed
qed

lemma drains_like: "mb_next_event tk levels s = mb_next_event tk levels s1 \<Longrightarrow> drains tk levels s1 evs s2 \<Longrightarrow> drains tk levels s evs s2"
  by (erule drains.cases) (auto intro: drains.intros)

lemma reread_key_setup:
  "bs_inv s \<Longrightarrow> bs_inv (reread_key levels k s) \<and> ring_edges (reread_key levels k s) = ring_edges s
     \<and> bs_sweep_key (reread_key levels k s) = bs_sweep_key s \<and> same_setup s (reread_key levels k s)"
  by (simp add: reread_key_def Let_def bs_inv_def ring_edges_def same_setup_def)

lemma reread_setup:
  assumes "bs_inv s"
  shows "bs_inv (reread_pins levels s) \<and> ring_edges (reread_pins levels s) = ring_edges s
     \<and> bs_sweep_key (reread_pins levels s) = bs_sweep_key s \<and> same_setup (s\<lparr>bs_dropped_edges := False\<rparr>) (reread_pins levels s)"
proof -
  have "bs_inv r \<Longrightarrow> bs_inv (fold (reread_key levels) ks r) \<and> ring_edges (fold (reread_key levels) ks r) = ring_edges r
     \<and> bs_sweep_key (fold (reread_key levels) ks r) = bs_sweep_key r \<and> same_setup r (fold (reread_key levels) ks r)" for ks r
  proof (induction ks arbitrary: r)
    case Nil
    then show ?case by (simp add: same_setup_def)
  next
    case (Cons k ks)
    note r = reread_key_setup [OF Cons.prems, of levels k]
    then show ?case using Cons.IH [of "reread_key levels k r"] same_setup_trans [of r "reread_key levels k r"] by auto
  qed
  from this [of "s\<lparr>bs_dropped_edges := False\<rparr>" "[0..<bs_key_count s]"] assms show ?thesis
    by (auto simp: reread_pins_def bs_inv_def ring_edges_def same_setup_def)
qed

definition drained_to :: "MpButtonSource \<Rightarrow> MpButtonSource \<Rightarrow> bool" where
  "drained_to s s1 \<longleftrightarrow> bs_inv s1 \<and> ring_edges s1 = [] \<and> bs_sweep_key s1 = 0 \<and> same_setup (s\<lparr>bs_dropped_edges := False\<rparr>) s1"

lemma drain_ring:
  "bs_inv s \<Longrightarrow> bs_sweep_key s = 0 \<Longrightarrow> \<exists>evs s1. drains tk levels s evs s1 \<and> drained_to s s1
     \<and> (\<not> bs_dropped_edges s \<longrightarrow> (\<forall>k < bs_key_count s. edges_of k evs
          = key_events tk (bs_settle_ms s) (key_state s k) (edges_of k (ring_edges s)) (bs_now_ms s)))"
proof (induction "length (ring_edges s)" arbitrary: s rule: less_induct)
  case less
  have "length (ring_edges s) \<le> bs_ring_depth s"
    using less.prems(1) ring_slots_bound(1) [of "bs_read_index s" "bs_ring_depth s" "bs_write_index s"] by (simp add: bs_inv_def ring_edges_def)
  from ring_loop_run [OF less.prems(1) this, of tk] obtain pub s1 where s1: "ring_loop tk (bs_ring_depth s) s = (Inr pub, s1)" "bs_inv s1"
    "same_setup s s1" "bs_sweep_key s1 = 0" "if pub then length (ring_edges s1) < length (ring_edges s) else ring_edges s1 = []"
    "\<forall>k now. key_events tk (bs_settle_ms s) (key_state s k) (edges_of k (ring_edges s)) now
         = (if pub \<and> bs_event_key s1 = k then [snd (event_of s1)] else [])
           @ key_events tk (bs_settle_ms s) (key_state s1 k) (edges_of k (ring_edges s1)) now"
    using less.prems(2) by auto
  have c: "bs_key_count s1 = bs_key_count s" "bs_settle_ms s1 = bs_settle_ms s" "bs_now_ms s1 = bs_now_ms s"
      "bs_dropped_edges s1 = bs_dropped_edges s" using s1(3) by (simp_all add: same_setup_def)
  have to: "drained_to s1 s2 \<Longrightarrow> drained_to s s2" for s2 using s1(3) by (simp add: drained_to_def same_setup_def)
  show ?case
  proof (cases pub)
    case True
    then have "mb_next_event tk levels s = (Inr True, s1)" using s1(1) by (simp add: mb_next_event_def)
    moreover obtain evs s2 where s2: "drains tk levels s1 evs s2" "drained_to s1 s2" "\<not> bs_dropped_edges s \<longrightarrow> (\<forall>k < bs_key_count s.
        edges_of k evs = key_events tk (bs_settle_ms s) (key_state s1 k) (edges_of k (ring_edges s1)) (bs_now_ms s))"
      using less.hyps [OF _ s1(2,4)] s1(5) True unfolding c by auto
    ultimately have "drains tk levels s (event_of s1 # evs) s2" by (intro event)
    moreover have "edges_of k (event_of s1 # evs) = (if bs_event_key s1 = k then [snd (event_of s1)] else []) @ edges_of k evs" for k
      by (simp add: event_of_def)
    ultimately show ?thesis using s2(3) s1(6) True to [OF s2(2)]
      by (intro exI [of _ "event_of s1 # evs"] exI [of _ s2]) auto
  next
    case False
    have e: "ring_edges s1 = []" using s1(5) False by simp
    define s2 where "s2 = reread_pins levels s1"
    have s2: "bs_inv s2" "ring_edges s2 = []" "\<not> bs_dropped_edges s2" "bs_sweep_key s2 = 0" "same_setup (s1\<lparr>bs_dropped_edges := False\<rparr>) s2"
      "\<not> bs_dropped_edges s \<Longrightarrow> s2 = s1"
      using reread_setup [OF s1(2), of levels] e s1(4) c(4) by (auto simp: s2_def same_setup_def reread_pins_def)
    have like: "mb_next_event tk levels s = mb_next_event tk levels s2"
      unfolding next_event_sweeps [OF s2(1-3)] using False s1(1) by (simp add: mb_next_event_def s2_def Let_def)
    obtain evs s3 where s3: "drains tk levels s2 evs s3" "bs_inv s3" "ring_edges s3 = []" "bs_sweep_key s3 = 0" "same_setup s2 s3"
      "\<forall>k. edges_of k evs = (if bs_sweep_key s2 \<le> k \<and> k < bs_key_count s2 then key_events tk (bs_settle_ms s2) (key_state s2 k) [] (bs_now_ms s2) else [])"
      using drain_sweep [OF s2(1-3), of tk levels] by blast
    have "drains tk levels s evs s3" using like s3(1) by (rule drains_like)
    moreover have "drained_to s s3" using s2(5) s3(2-5) c s1(3) by (simp add: drained_to_def same_setup_def)
    moreover have "edges_of k evs = key_events tk (bs_settle_ms s) (key_state s k) (edges_of k (ring_edges s)) (bs_now_ms s)"
      if "\<not> bs_dropped_edges s" "k < bs_key_count s" for k
      using s3(6) [rule_format, of k] s1(6) [rule_format, of k "bs_now_ms s"] that False e c s2(4) s2(6) [OF that(1)] by simp
    ultimately show ?thesis by blast
  qed
qed

lemma next_event_det: "drains tk levels s evs s1 \<Longrightarrow> drains tk levels s evs' s1' \<Longrightarrow> evs' = evs \<and> s1' = s1"
proof (induction arbitrary: evs' rule: drains.induct)
  case (drained s s1)
  from drained(2,1) show ?case by (cases rule: drains.cases) auto
next
  case (event s s1 evs s2)
  from event(4,1) show ?case using event(3) by (cases rule: drains.cases) auto
qed

section \<open>Properties\<close>

text \<open>Sources between two ticks: built, interrupted, polled and drained.\<close>

inductive bs_reachable :: "ticks_source \<Rightarrow> MpButtonSource \<Rightarrow> bool" for tk where
  built: "0 < ring_depth \<Longrightarrow> bs_reachable tk (MpButtonSource_init n low settle ring_depth levels t)"
| interrupt: "bs_reachable tk s \<Longrightarrow> k < bs_key_count s \<Longrightarrow> level < 2 \<Longrightarrow> bs_reachable tk (capture_edge k level t s)"
| drained: "bs_reachable tk s \<Longrightarrow> drains tk levels (mb_poll now s) evs s1 \<Longrightarrow> bs_reachable tk (s1\<lparr>bs_overflowed := False\<rparr>)"

lemma bs_reachable_inv: "bs_reachable tk s \<Longrightarrow> bs_inv s \<and> bs_sweep_key s = 0"
proof (induction rule: bs_reachable.induct)
  case (built d n low settle levels t)
  then show ?case using bs_init_inv [of d] by (simp add: MpButtonSource_init_def Let_def)
next
  case (interrupt s k level t)
  then show ?case using capture_run [of s k level t] by (auto simp: capture_edge_def Let_def)
next
  case (drained s levels now evs s1)
  have "bs_inv (mb_poll now s)" "bs_sweep_key (mb_poll now s) = 0"
    using drained.IH by (simp_all add: mb_poll_def bs_inv_def ring_edges_def)
  from drain_ring [OF this, of tk levels] next_event_det [OF drained(2)] have "drained_to (mb_poll now s) s1" by blast
  then show ?case by (auto simp: drained_to_def bs_inv_def ring_edges_def)
qed

text \<open>What a drain at \<open>now\<close> owes a key: the debounced edges of the signal in the ring.\<close>

definition waiting_edges :: "ticks_source \<Rightarrow> int \<Rightarrow> MpButtonSource \<Rightarrow> nat \<Rightarrow> (bool \<times> int) list" where
  "waiting_edges tk now s k = debounced tk (bs_settle_ms s) (bs_believed s ! k)
     (segments (bs_pending s ! k) (bs_change_ms s ! k) (edges_of k (ring_edges s)) now)"

lemma drain_debounced:
  assumes "bs_reachable tk s"
  shows "\<exists>evs s1. drains tk levels (mb_poll now s) evs s1 \<and> drained_to (mb_poll now s) s1
    \<and> (\<not> bs_dropped_edges s \<longrightarrow> (\<forall>k < bs_key_count s. edges_of k evs = waiting_edges tk now s k))"
proof -
  have p: "bs_inv (mb_poll now s)" "bs_sweep_key (mb_poll now s) = 0"
    using bs_reachable_inv [OF assms] by (simp_all add: mb_poll_def bs_inv_def ring_edges_def)
  have r: "ring_edges (mb_poll now s) = ring_edges s" "key_state (mb_poll now s) k = key_state s k" for k
    by (simp_all add: mb_poll_def ring_edges_def key_state_def)
  have "waiting_edges tk now s k = key_events tk (bs_settle_ms s) (key_state s k) (edges_of k (ring_edges s)) now" for k
    by (simp add: waiting_edges_def key_state_def key_events_debounced)
  with drain_ring [OF p, of tk levels] show ?thesis unfolding r by (auto simp: mb_poll_def)
qed


text \<open>
  C10. What a tick publishes is the debounced signal. In every reachable source the drain of a tick ends;
  it leaves the ring empty and, unless an edge was dropped, its events for each key are exactly the
  changes of level among the segments of the captured signal that lasted for the settle time (the
  last segment up to now), in order and stamped with the time the signal went there: no bounce is published, no held
  level is missed, and the keys do not disturb each other.
\<close>

theorem drain_publishes_debounced:
  assumes "bs_reachable tk s"
  shows "\<exists>evs s1. drains tk levels (mb_poll now s) evs s1 \<and> ring_edges s1 = [] \<and> \<not> bs_dropped_edges s1
    \<and> (\<not> bs_dropped_edges s \<longrightarrow> (\<forall>k < bs_key_count s. map snd (filter (\<lambda>e. fst e = k) evs)
         = debounced tk (bs_settle_ms s) (bs_believed s ! k)
             (segments (bs_pending s ! k) (bs_change_ms s ! k) (map snd (filter (\<lambda>e. fst e = k) (ring_edges s))) now)))"
proof -
  obtain evs s1 where d: "drains tk levels (mb_poll now s) evs s1" "drained_to (mb_poll now s) s1"
    "\<not> bs_dropped_edges s \<longrightarrow> (\<forall>k < bs_key_count s. edges_of k evs = waiting_edges tk now s k)"
    using drain_debounced [OF assms] by blast
  then show ?thesis by (intro exI [of _ evs] exI [of _ s1]) (auto simp: drained_to_def same_setup_def waiting_edges_def edges_of_def)
qed

text \<open>One key, active low, settling for 10 ms: a bounce at 100, a press at 105 that holds, and a tick at 130.\<close>

definition pressed_source :: MpButtonSource where
  "pressed_source = capture_edge 0 0 105 (capture_edge 0 1 103 (capture_edge 0 0 100 (MpButtonSource_init 1 True 10 8 (\<lambda>_. 1) 0)))"

lemma pressed_source_reachable: "bs_reachable real_ticks pressed_source"
  unfolding pressed_source_def by (intro bs_reachable.intros) (simp_all add: MpButtonSource_init_def capture_edge_def Let_def)


theorem drain_publishes_debounced_witness:
  "\<exists>evs s1. drains real_ticks (\<lambda>_. 0) (mb_poll 130 pressed_source) evs s1 \<and> map snd (filter (\<lambda>e. fst e = 0) evs) = [(True, 105)]"
proof -
  have f: "\<not> bs_dropped_edges pressed_source" "0 < bs_key_count pressed_source"
    "debounced real_ticks (bs_settle_ms pressed_source) (bs_believed pressed_source ! 0)
       (segments (bs_pending pressed_source ! 0) (bs_change_ms pressed_source ! 0)
         (map snd (filter (\<lambda>e. fst e = 0) (ring_edges pressed_source))) 130) = [(True, 105)]" by code_simp+
  from drain_publishes_debounced [OF pressed_source_reachable, of "\<lambda>_. 0" 130] f show ?thesis by metis
qed

end
