(* ===== verification/Buttons.thy ===== *)
theory Buttons
  imports Button_Source Chu_Program
begin

text \<open>
  \<^verbatim>\<open>libraries/buttons/src/chumicro_buttons/core.py\<close>: what debounced edges mean. A \<open>Button\<close> turns the
  edges of a source into a level, press and release marks, a long press, auto-repeat and click
  series; \<open>Buttons\<close> reads several keys from one source. The source is an argument: the
  \<open>MpButtonSource\<close> of \<open>Button_Source\<close> and the \<open>FakeButtonSource\<close> of \<open>testing.py\<close> provide it. The
  loop that drains a source is a \<^verbatim>\<open>while\<close> that a source could keep running, so it is partial; the locale
  \<open>draining_source\<close> is what makes it end. A button with no source of its own (a key of a \<open>Buttons\<close>, whose
  \<open>check\<close> raises) and \<open>deinit\<close> are not modelled.
\<close>

section \<open>Sources\<close>

record 'w edge_source =
  es_key_count :: "'w \<Rightarrow> nat"
  es_poll :: "int \<Rightarrow> 'w \<Rightarrow> 'w"
  es_next_event :: "('w, (nat \<times> bool \<times> int) option) prog"
  es_overflowed :: "'w \<Rightarrow> bool"
  es_clear_overflowed :: "'w \<Rightarrow> 'w"

definition mp_source :: "ticks_source \<Rightarrow> (nat \<Rightarrow> nat) \<Rightarrow> MpButtonSource edge_source" where
  "mp_source tk levels = \<lparr>es_key_count = bs_key_count, es_poll = mb_poll,
     es_next_event = (\<lambda>s. case mb_next_event tk levels s of (Inl e, s1) \<Rightarrow> (Inl e, s1) | (Inr b, s1) \<Rightarrow> (Inr (if b then Some (event_of s1) else None), s1)),
     es_overflowed = bs_overflowed, es_clear_overflowed = (\<lambda>s. s\<lparr>bs_overflowed := False\<rparr>)\<rparr>"

record FakeButtonSource =
  fb_key_count :: nat
  fb_overflowed :: bool
  fb_event :: "nat \<times> bool \<times> int"
  fb_poll_calls :: nat
  fb_queued :: "(nat \<times> bool \<times> int) list"

definition FakeButtonSource_init :: "nat \<Rightarrow> FakeButtonSource" where
  "FakeButtonSource_init n = \<lparr>fb_key_count = n, fb_overflowed = False, fb_event = (0, False, 0), fb_poll_calls = 0, fb_queued = []\<rparr>"

definition fb_press :: "nat \<Rightarrow> int \<Rightarrow> FakeButtonSource \<Rightarrow> FakeButtonSource" where
  "fb_press k at_ms s = s\<lparr>fb_queued := fb_queued s @ [(k, True, at_ms)]\<rparr>"

definition fb_release :: "nat \<Rightarrow> int \<Rightarrow> FakeButtonSource \<Rightarrow> FakeButtonSource" where
  "fb_release k at_ms s = s\<lparr>fb_queued := fb_queued s @ [(k, False, at_ms)]\<rparr>"

definition fb_next_event :: "(FakeButtonSource, (nat \<times> bool \<times> int) option) prog" where
  "fb_next_event s = (case fb_queued s of [] \<Rightarrow> (Inr None, s) | e # es \<Rightarrow> (Inr (Some e), s\<lparr>fb_queued := es, fb_event := e\<rparr>))"

definition fake_source :: "FakeButtonSource edge_source" where
  "fake_source = \<lparr>es_key_count = fb_key_count, es_poll = (\<lambda>now s. s\<lparr>fb_poll_calls := fb_poll_calls s + 1\<rparr>), es_next_event = fb_next_event,
     es_overflowed = fb_overflowed, es_clear_overflowed = (\<lambda>s. s\<lparr>fb_overflowed := False\<rparr>)\<rparr>"

section \<open>One button\<close>

record Button =
  bt_long_press_ms :: int
  bt_repeat_ms :: int
  bt_repeat_delay_ms :: int
  bt_click_ms :: int
  bt_pressed :: bool
  bt_just_pressed :: bool
  bt_just_released :: bool
  bt_just_long_pressed :: bool
  bt_just_repeated :: bool
  bt_just_clicked :: bool
  bt_held_ms :: int
  bt_click_count :: int
  bt_overflowed :: bool
  bt_press_ms :: int
  bt_long_fired :: bool
  bt_repeat_next_ms :: int
  bt_pending_clicks :: int
  bt_click_deadline_ms :: int
  bt_click_pending :: bool
  bt_press_is_click :: bool

definition Button_init :: "int \<Rightarrow> int \<Rightarrow> int \<Rightarrow> int \<Rightarrow> Button" where
  "Button_init long_press_ms repeat_ms repeat_delay_ms click_ms =
     \<lparr>bt_long_press_ms = long_press_ms, bt_repeat_ms = repeat_ms, bt_repeat_delay_ms = repeat_delay_ms, bt_click_ms = click_ms,
      bt_pressed = False, bt_just_pressed = False, bt_just_released = False, bt_just_long_pressed = False, bt_just_repeated = False,
      bt_just_clicked = False, bt_held_ms = 0, bt_click_count = 0, bt_overflowed = False, bt_press_ms = 0, bt_long_fired = False,
      bt_repeat_next_ms = 0, bt_pending_clicks = 0, bt_click_deadline_ms = 0, bt_click_pending = False, bt_press_is_click = False\<rparr>"

definition begin_tick :: "Button \<Rightarrow> Button" where
  "begin_tick b = b\<lparr>bt_just_pressed := False, bt_just_released := False, bt_just_long_pressed := False, bt_just_repeated := False,
     bt_just_clicked := False\<rparr>"

definition apply_edge :: "ticks_source \<Rightarrow> bool \<Rightarrow> int \<Rightarrow> (Button, unit) prog" where
  "apply_edge tk pressed event_ms = reading (\<lambda>b.
     if pressed = bt_pressed b then ret ()
     else if pressed then
       andThen (modify (\<lambda>b. b\<lparr>bt_pressed := True, bt_press_ms := event_ms, bt_long_fired := False\<rparr>))
      (mbind (lift (src_add tk event_ms (bt_repeat_delay_ms b))) (\<lambda>d.
       modify (\<lambda>b. b\<lparr>bt_repeat_next_ms := d, bt_click_pending := False, bt_press_is_click := True, bt_just_pressed := True\<rparr>)))
     else
       andThen (modify (\<lambda>b. b\<lparr>bt_pressed := False, bt_held_ms := max 0 (src_diff tk event_ms (bt_press_ms b)), bt_just_released := True\<rparr>))
      (whenever (bt_click_ms b > 0 \<and> bt_press_is_click b)
        (andThen (modify (\<lambda>b. b\<lparr>bt_pending_clicks := bt_pending_clicks b + 1\<rparr>))
        (mbind (lift (src_add tk event_ms (bt_click_ms b))) (\<lambda>d.
         modify (\<lambda>b. b\<lparr>bt_click_deadline_ms := d, bt_click_pending := True\<rparr>))))))"

text \<open>The parts of \<open>_advance\<close>; each adds what it fires to \<open>fired\<close>.\<close>

definition advance_long :: "Button \<Rightarrow> bool \<times> Button" where
  "advance_long b =
     (if bt_long_press_ms b > 0 \<and> \<not> bt_long_fired b \<and> bt_held_ms b \<ge> bt_long_press_ms b
      then (True, b\<lparr>bt_long_fired := True, bt_just_long_pressed := True\<rparr>) else (False, b))"

definition advance_repeat :: "ticks_source \<Rightarrow> int \<Rightarrow> (Button, bool) prog" where
  "advance_repeat tk now_ms = reading (\<lambda>b.
     let behind_ms = src_diff tk now_ms (bt_repeat_next_ms b) in
     if bt_repeat_ms b > 0 \<and> behind_ms \<ge> 0 then
       mbind (lift (src_add tk (bt_repeat_next_ms b) ((behind_ms div bt_repeat_ms b + 1) * bt_repeat_ms b))) (\<lambda>d.
       andThen (modify (\<lambda>b. b\<lparr>bt_repeat_next_ms := d, bt_just_repeated := True\<rparr>)) (ret True))
     else ret False)"

definition advance_hold :: "Button \<Rightarrow> bool \<times> Button" where
  "advance_hold b =
     (if bt_click_ms b > 0 \<and> bt_press_is_click b \<and> bt_held_ms b \<ge> bt_click_ms b then
        let b = b\<lparr>bt_press_is_click := False\<rparr> in
        if bt_pending_clicks b > 0
        then (True, b\<lparr>bt_click_count := bt_pending_clicks b, bt_pending_clicks := 0, bt_just_clicked := True\<rparr>) else (False, b)
      else (False, b))"

definition advance_click :: "ticks_source \<Rightarrow> int \<Rightarrow> Button \<Rightarrow> bool \<times> Button" where
  "advance_click tk now_ms b =
     (if bt_click_pending b \<and> src_diff tk now_ms (bt_click_deadline_ms b) \<ge> 0
      then (True, b\<lparr>bt_click_pending := False, bt_click_count := bt_pending_clicks b, bt_pending_clicks := 0, bt_just_clicked := True\<rparr>)
      else (False, b))"

definition advance_pressed :: "ticks_source \<Rightarrow> int \<Rightarrow> (Button, bool) prog" where
  "advance_pressed tk now_ms b =
     (case advance_long (b\<lparr>bt_held_ms := max 0 (src_diff tk now_ms (bt_press_ms b))\<rparr>) of (f1, b1) \<Rightarrow>
      (case advance_repeat tk now_ms b1 of
         (Inl e, b2) \<Rightarrow> (Inl e, b2)
       | (Inr f2, b2) \<Rightarrow> (case advance_hold b2 of (f3, b3) \<Rightarrow> (Inr (f1 \<or> f2 \<or> f3), b3))))"

definition button_advance :: "ticks_source \<Rightarrow> int \<Rightarrow> (Button, bool) prog" where
  "button_advance tk now_ms b =
     (let fired = (bt_just_pressed b \<or> bt_just_released b) in
      case (if bt_pressed b then advance_pressed tk now_ms b else (Inr False, b)) of
        (Inl e, b1) \<Rightarrow> (Inl e, b1)
      | (Inr f, b1) \<Rightarrow> (case advance_click tk now_ms b1 of (f2, b2) \<Rightarrow> (Inr (fired \<or> f \<or> f2), b2)))"

definition nearest :: "ticks_source \<Rightarrow> int option \<Rightarrow> int \<Rightarrow> int option" where
  "nearest tk best candidate = (case best of None \<Rightarrow> Some candidate | Some n \<Rightarrow> Some (if src_diff tk candidate n < 0 then candidate else n))"

definition button_next_deadline :: "ticks_source \<Rightarrow> Button \<Rightarrow> int option result" where
  "button_next_deadline tk b =
     rbind (if bt_pressed b then
         rbind (if bt_long_press_ms b > 0 \<and> \<not> bt_long_fired b
           then rbind (src_add tk (bt_press_ms b) (bt_long_press_ms b)) (\<lambda>d. Inr (Some d)) else Inr None) (\<lambda>n1.
         let n2 = (if bt_repeat_ms b > 0 then nearest tk n1 (bt_repeat_next_ms b) else n1) in
         if bt_click_ms b > 0 \<and> bt_press_is_click b
         then rbind (src_add tk (bt_press_ms b) (bt_click_ms b)) (\<lambda>d. Inr (nearest tk n2 d)) else Inr n2)
       else Inr None) (\<lambda>n3.
     Inr (if bt_click_pending b then nearest tk n3 (bt_click_deadline_ms b) else n3))"

text \<open>The callbacks: which are set, and what calling one does to the state the button is part of.\<close>

datatype button_callback = OnPress | OnRelease | OnLongPress | OnRepeat | OnClick int

definition button_handle :: "(button_callback \<Rightarrow> bool) \<Rightarrow> (button_callback \<Rightarrow> ('s, unit) prog) \<Rightarrow> ('s \<Rightarrow> Button) \<Rightarrow> ('s, unit) prog" where
  "button_handle is_set call button =
     andThen (reading (\<lambda>s. whenever (bt_just_pressed (button s) \<and> is_set OnPress) (call OnPress)))
    (andThen (reading (\<lambda>s. whenever (bt_just_released (button s) \<and> is_set OnRelease) (call OnRelease)))
    (andThen (reading (\<lambda>s. whenever (bt_just_long_pressed (button s) \<and> is_set OnLongPress) (call OnLongPress)))
    (andThen (reading (\<lambda>s. whenever (bt_just_repeated (button s) \<and> is_set OnRepeat) (call OnRepeat)))
    (reading (\<lambda>s. whenever (bt_just_clicked (button s) \<and> is_set (OnClick (bt_click_count (button s)))) (call (OnClick (bt_click_count (button s)))))))))"

section \<open>Several keys on one source\<close>

record Buttons =
  bp_keys :: "Button list"
  bp_overflowed :: bool

definition Buttons_init :: "'w edge_source \<Rightarrow> 'w \<Rightarrow> int \<Rightarrow> int \<Rightarrow> int \<Rightarrow> int \<Rightarrow> Buttons" where
  "Buttons_init S w long_press_ms repeat_ms repeat_delay_ms click_ms =
     \<lparr>bp_keys = replicate (es_key_count S w) (Button_init long_press_ms repeat_ms repeat_delay_ms click_ms), bp_overflowed = False\<rparr>"

text \<open>\<open>keys[k]._apply_edge(...)\<close>; a key out of range raises.\<close>

definition apply_to_key :: "ticks_source \<Rightarrow> nat \<times> bool \<times> int \<Rightarrow> (Button list, unit) prog" where
  "apply_to_key tk e keys = (case e of (k, pressed, at_ms) \<Rightarrow>
     if k < length keys then (case apply_edge tk pressed at_ms (keys ! k) of (r, b) \<Rightarrow> (r, keys[k := b])) else (Inl IndexError, keys))"

text \<open>\<^verbatim>\<open>while source.next_event(): ...\<close>, for what is done with an edge.\<close>

partial_function (option) drain_edges ::
    "('w, (nat \<times> bool \<times> int) option) prog \<Rightarrow> (nat \<times> bool \<times> int \<Rightarrow> ('k, unit) prog) \<Rightarrow> 'k \<Rightarrow> 'w \<Rightarrow> (unit result \<times> 'k \<times> 'w) option" where
  "drain_edges next_event take_edge k w =
     (case next_event w of
        (Inl e, w1) \<Rightarrow> Some (Inl e, k, w1)
      | (Inr None, w1) \<Rightarrow> Some (Inr (), k, w1)
      | (Inr (Some ev), w1) \<Rightarrow> (case take_edge ev k of
           (Inl e, k1) \<Rightarrow> Some (Inl e, k1, w1)
         | (Inr _, k1) \<Rightarrow> drain_edges next_event take_edge k1 w1))"

declare drain_edges.simps [code]

text \<open>A lone button takes the edges of key 0.\<close>

definition take_own_edge :: "ticks_source \<Rightarrow> nat \<times> bool \<times> int \<Rightarrow> (Button, unit) prog" where
  "take_own_edge tk e = (case e of (k, pressed, at_ms) \<Rightarrow> if k = 0 then apply_edge tk pressed at_ms else ret ())"

definition button_check :: "ticks_source \<Rightarrow> 'w edge_source \<Rightarrow> int \<Rightarrow> Button \<Rightarrow> 'w \<Rightarrow> (bool result \<times> Button \<times> 'w) option" where
  "button_check tk S now_ms b w =
     (case drain_edges (es_next_event S) (take_own_edge tk) (begin_tick b) (es_poll S now_ms w) of
        None \<Rightarrow> None
      | Some (Inl e, b1, w1) \<Rightarrow> Some (Inl e, b1, w1)
      | Some (Inr _, b1, w1) \<Rightarrow>
          (case button_advance tk now_ms (b1\<lparr>bt_overflowed := es_overflowed S w1\<rparr>) of (r, b2) \<Rightarrow> Some (r, b2, es_clear_overflowed S w1)))"

fun advance_keys :: "ticks_source \<Rightarrow> int \<Rightarrow> (Button list, bool) prog" where
  "advance_keys tk now_ms [] = (Inr False, [])"
| "advance_keys tk now_ms (b # bs) =
     (case button_advance tk now_ms b of
        (Inl e, b1) \<Rightarrow> (Inl e, b1 # bs)
      | (Inr f, b1) \<Rightarrow> (case advance_keys tk now_ms bs of (r, bs1) \<Rightarrow> (map_sum id ((\<or>) f) r, b1 # bs1)))"

definition buttons_check :: "ticks_source \<Rightarrow> 'w edge_source \<Rightarrow> int \<Rightarrow> Buttons \<Rightarrow> 'w \<Rightarrow> (bool result \<times> Buttons \<times> 'w) option" where
  "buttons_check tk S now_ms p w =
     (case drain_edges (es_next_event S) (apply_to_key tk) (map begin_tick (bp_keys p)) (es_poll S now_ms w) of
        None \<Rightarrow> None
      | Some (Inl e, keys, w1) \<Rightarrow> Some (Inl e, p\<lparr>bp_keys := keys\<rparr>, w1)
      | Some (Inr _, keys, w1) \<Rightarrow>
          (case advance_keys tk now_ms keys of (r, keys1) \<Rightarrow>
            Some (r, p\<lparr>bp_keys := keys1, bp_overflowed := es_overflowed S w1\<rparr>, es_clear_overflowed S w1)))"

fun keys_next_deadline :: "ticks_source \<Rightarrow> Button list \<Rightarrow> int option \<Rightarrow> int option result" where
  "keys_next_deadline tk [] best = Inr best"
| "keys_next_deadline tk (b # bs) best = rbind (button_next_deadline tk b) (\<lambda>c.
     keys_next_deadline tk bs (case c of None \<Rightarrow> best | Some d \<Rightarrow> nearest tk best d))"

definition buttons_next_deadline :: "ticks_source \<Rightarrow> Buttons \<Rightarrow> int option result" where
  "buttons_next_deadline tk p = keys_next_deadline tk (bp_keys p) None"

definition buttons_handle ::
    "(nat \<Rightarrow> button_callback \<Rightarrow> bool) \<Rightarrow> (nat \<Rightarrow> button_callback \<Rightarrow> ('s, unit) prog) \<Rightarrow> (bool \<Rightarrow> bool) \<Rightarrow> (bool \<Rightarrow> nat \<Rightarrow> ('s, unit) prog)
      \<Rightarrow> ('s \<Rightarrow> Buttons) \<Rightarrow> nat \<Rightarrow> ('s, unit) prog" where
  "buttons_handle is_set call panel_set panel_call panel key_count = for_each (\<lambda>i.
     andThen (button_handle (is_set i) (call i) (\<lambda>s. bp_keys (panel s) ! i))
    (andThen (reading (\<lambda>s. whenever (bt_just_pressed (bp_keys (panel s) ! i) \<and> panel_set True) (panel_call True i)))
    (reading (\<lambda>s. whenever (bt_just_released (bp_keys (panel s) ! i) \<and> panel_set False) (panel_call False i))))) [0..<key_count]"

section \<open>Draining ends\<close>

inductive yields :: "'w edge_source \<Rightarrow> 'w \<Rightarrow> (nat \<times> bool \<times> int) list \<Rightarrow> 'w \<Rightarrow> bool" for S where
  no_more: "es_next_event S w = (Inr None, w1) \<Longrightarrow> yields S w [] w1"
| edge: "es_next_event S w = (Inr (Some e), w1) \<Longrightarrow> yields S w1 es w2 \<Longrightarrow> yields S w (e # es) w2"

text \<open>What a button relies on: after a poll a source gives finitely many edges, and it stays such a source.\<close>

locale draining_source =
  fixes S :: "'w edge_source" and ok :: "'w \<Rightarrow> bool"
  assumes ends: "ok w \<Longrightarrow> \<exists>evs w1. yields S (es_poll S now w) evs w1 \<and> ok (es_clear_overflowed S w1)"
begin

lemma source_drains: "yields S w evs w1 \<Longrightarrow> \<exists>r. drain_edges (es_next_event S) take_edge k w = Some r"
proof (induction arbitrary: k rule: yields.induct)
  case (no_more w w1)
  then show ?case by (subst drain_edges.simps) simp
next
  case (edge w e w1 es w2)
  show ?case using edge(1) edge(3) by (subst drain_edges.simps) (auto split: prod.split sum.split)
qed

lemma drain_takes:
  "yields S w evs w1 \<Longrightarrow> for_each take_edge evs k = (Inr (), k1) \<Longrightarrow> drain_edges (es_next_event S) take_edge k w = Some (Inr (), k1, w1)"
proof (induction arbitrary: k rule: yields.induct)
  case (no_more w w1)
  then show ?case by (subst drain_edges.simps) simp
next
  case (edge w e w1 es w2)
  from edge(4) obtain k2 where "take_edge e k = (Inr (), k2)" "for_each take_edge es k2 = (Inr (), k1)"
    by (auto simp: run_andThen split: prod.splits sum.splits)
  then show ?case using edge(1,3) by (subst drain_edges.simps) simp
qed

lemma check_ends: "ok w \<Longrightarrow> \<exists>r b1 w1. button_check tk S now b w = Some (r, b1, w1)" "ok w \<Longrightarrow> \<exists>r p1 w1. buttons_check tk S now p w = Some (r, p1, w1)"
proof -
  assume "ok w"
  then obtain evs w1 where y: "yields S (es_poll S now w) evs w1" using ends by blast
  show "\<exists>r b1 w1. button_check tk S now b w = Some (r, b1, w1)"
    using source_drains [OF y, of "take_own_edge tk" "begin_tick b"] by (auto simp: button_check_def split: sum.split prod.split)
  show "\<exists>r p1 w1. buttons_check tk S now p w = Some (r, p1, w1)"
    using source_drains [OF y, of "apply_to_key tk" "map begin_tick (bp_keys p)"] by (auto simp: buttons_check_def split: sum.split prod.split)
qed

end

lemma fake_yields: "fb_queued w = evs \<Longrightarrow> \<exists>w1. yields fake_source w evs w1"
proof (induction evs arbitrary: w)
  case Nil
  then show ?case by (intro exI [of _ w] no_more) (simp add: fake_source_def fb_next_event_def)
next
  case (Cons e es)
  then obtain w1 where "yields fake_source (w\<lparr>fb_queued := es, fb_event := e\<rparr>) es w1" using Cons.IH by fastforce
  then show ?case using Cons.prems by (intro exI [of _ w1] edge) (simp_all add: fake_source_def fb_next_event_def)
qed

interpretation fake: draining_source fake_source "\<lambda>_. True"
  by unfold_locales (use fake_yields in blast)

lemma drains_yields: "drains tk levels s evs s1 \<Longrightarrow> yields (mp_source tk levels) s evs s1"
  by (induction rule: drains.induct) (auto intro!: yields.intros simp: mp_source_def)

interpretation mp: draining_source "mp_source tk levels" "bs_reachable tk"
proof
  fix s :: MpButtonSource and now
  assume s: "bs_reachable tk s"
  have "bs_inv (mb_poll now s) \<and> bs_sweep_key (mb_poll now s) = 0"
    using bs_reachable_inv [OF s] by (simp add: mb_poll_def bs_inv_def ring_edges_def)
  then obtain evs s1 where d: "drains tk levels (mb_poll now s) evs s1" using drain_ring by blast
  have "bs_reachable tk (s1\<lparr>bs_overflowed := False\<rparr>)" using bs_reachable.drained [OF s d] .
  then show "\<exists>evs w1. yields (mp_source tk levels) (es_poll (mp_source tk levels) now s) evs w1
      \<and> bs_reachable tk (es_clear_overflowed (mp_source tk levels) w1)"
    using drains_yields [OF d] by (auto simp: mp_source_def)
qed

section \<open>Deadlines are served\<close>

text \<open>The press is not in the future, the timers are less than half the counter's range ahead, and a period is not too long for the counter.\<close>

definition clock_ok :: "ticks_source \<Rightarrow> int \<Rightarrow> int \<Rightarrow> Button \<Rightarrow> bool" where
  "clock_ok tk span now b \<longleftrightarrow> (bt_pressed b \<longrightarrow> 0 \<le> src_diff tk now (bt_press_ms b) \<and> - span < src_diff tk now (bt_repeat_next_ms b)
       \<and> src_diff tk now (bt_repeat_next_ms b) + bt_repeat_ms b < span)
     \<and> (bt_click_pending b \<longrightarrow> - span < src_diff tk now (bt_click_deadline_ms b))"

text \<open>
  The timers of a button and when they are due, and what serving one leaves in the button: a long press, a repeat
  or a closed click series is marked, and a press that outlived the click time is a hold, which closes the series
  before it.
\<close>

datatype button_timer = LongPress | AutoRepeat | ClickHold | ClickWindow

fun timer_of :: "ticks_source \<Rightarrow> Button \<Rightarrow> button_timer \<Rightarrow> int \<Rightarrow> bool" where
  "timer_of tk b LongPress d \<longleftrightarrow> bt_pressed b \<and> bt_long_press_ms b > 0 \<and> \<not> bt_long_fired b \<and> src_add tk (bt_press_ms b) (bt_long_press_ms b) = Inr d"
| "timer_of tk b AutoRepeat d \<longleftrightarrow> bt_pressed b \<and> bt_repeat_ms b > 0 \<and> d = bt_repeat_next_ms b"
| "timer_of tk b ClickHold d \<longleftrightarrow> bt_pressed b \<and> bt_click_ms b > 0 \<and> bt_press_is_click b \<and> src_add tk (bt_press_ms b) (bt_click_ms b) = Inr d"
| "timer_of tk b ClickWindow d \<longleftrightarrow> bt_click_pending b \<and> d = bt_click_deadline_ms b"

fun marks :: "button_timer \<Rightarrow> Button \<Rightarrow> Button \<Rightarrow> bool" where
  "marks LongPress b b1 \<longleftrightarrow> bt_just_long_pressed b1"
| "marks AutoRepeat b b1 \<longleftrightarrow> bt_just_repeated b1"
| "marks ClickHold b b1 \<longleftrightarrow> \<not> bt_press_is_click b1 \<and> (bt_pending_clicks b > 0 \<and> \<not> bt_click_pending b \<longrightarrow> bt_just_clicked b1 \<and> bt_click_count b1 = bt_pending_clicks b)"
| "marks ClickWindow b b1 \<longleftrightarrow> bt_just_clicked b1 \<and> (\<not> bt_pressed b \<longrightarrow> bt_click_count b1 = bt_pending_clicks b)"

lemma ex_timer: "(\<exists>t. P t) \<longleftrightarrow> P LongPress \<or> P AutoRepeat \<or> P ClickHold \<or> P ClickWindow"
  by (metis button_timer.exhaust)

text \<open>\<open>nearest\<close> keeps the earliest of the times it has seen, when all lie ahead of \<open>now\<close>.\<close>

definition earliest :: "ticks_source \<Rightarrow> int \<Rightarrow> int set \<Rightarrow> int option \<Rightarrow> bool" where
  "earliest tk now D n = (case n of None \<Rightarrow> D = {} | Some d \<Rightarrow> d \<in> D \<and> (\<forall>c \<in> D. src_diff tk d now \<le> src_diff tk c now))"

definition timers_at :: "ticks_source \<Rightarrow> Button \<Rightarrow> button_timer \<Rightarrow> int set" where
  "timers_at tk b t = {d. timer_of tk b t d}"

lemma nearest_mem: "nearest tk best c = Some d \<Longrightarrow> d = c \<or> best = Some d"
  by (auto simp: nearest_def split: option.splits if_splits)

lemma next_deadline_timer: "button_next_deadline tk b = Inr (Some d) \<Longrightarrow> \<exists>t. timer_of tk b t d"
proof -
  assume "button_next_deadline tk b = Inr (Some d)"
  then have "timer_of tk b LongPress d \<or> timer_of tk b AutoRepeat d \<or> timer_of tk b ClickHold d \<or> timer_of tk b ClickWindow d"
    by (auto simp: button_next_deadline_def result_simps Let_def split: if_splits sum.splits dest!: nearest_mem)
  then show ?thesis by blast
qed

text \<open>\<open>next_deadline\<close> folds \<open>nearest\<close> over the times of the four timers.\<close>

definition best_of :: "ticks_source \<Rightarrow> int option \<Rightarrow> int option \<Rightarrow> int option" where
  "best_of tk best c = (case c of None \<Rightarrow> best | Some d \<Rightarrow> nearest tk best d)"

lemma timers_at_simps:
  "timers_at tk b AutoRepeat = set_option (if bt_pressed b \<and> bt_repeat_ms b > 0 then Some (bt_repeat_next_ms b) else None)"
  "timers_at tk b ClickWindow = set_option (if bt_click_pending b then Some (bt_click_deadline_ms b) else None)"
  "bt_pressed b \<and> bt_long_press_ms b > 0 \<and> \<not> bt_long_fired b \<Longrightarrow> src_add tk (bt_press_ms b) (bt_long_press_ms b) = Inr d \<Longrightarrow> timers_at tk b LongPress = {d}"
  "\<not> (bt_pressed b \<and> bt_long_press_ms b > 0 \<and> \<not> bt_long_fired b) \<Longrightarrow> timers_at tk b LongPress = {}"
  "bt_pressed b \<and> bt_click_ms b > 0 \<and> bt_press_is_click b \<Longrightarrow> src_add tk (bt_press_ms b) (bt_click_ms b) = Inr d \<Longrightarrow> timers_at tk b ClickHold = {d}"
  "\<not> (bt_pressed b \<and> bt_click_ms b > 0 \<and> bt_press_is_click b) \<Longrightarrow> timers_at tk b ClickHold = {}"
  by (auto simp: timers_at_def)

lemma next_deadline_folds:
  assumes "button_next_deadline tk b = Inr n"
  shows "\<exists>c1 c3. timers_at tk b LongPress = set_option c1 \<and> timers_at tk b ClickHold = set_option c3
    \<and> n = best_of tk (best_of tk (best_of tk c1 (if bt_pressed b \<and> bt_repeat_ms b > 0 then Some (bt_repeat_next_ms b) else None)) c3)
        (if bt_click_pending b then Some (bt_click_deadline_ms b) else None)"
proof -
  define long hold where "long = (bt_pressed b \<and> bt_long_press_ms b > 0 \<and> \<not> bt_long_fired b)"
    and "hold = (bt_pressed b \<and> bt_click_ms b > 0 \<and> bt_press_is_click b)"
  obtain c1 where c1: "timers_at tk b LongPress = set_option c1" "long \<Longrightarrow> src_add tk (bt_press_ms b) (bt_long_press_ms b) = Inr (the c1) \<and> c1 \<noteq> None"
      "\<not> long \<Longrightarrow> c1 = None"
  proof (cases long)
    case True
    then obtain d where d: "src_add tk (bt_press_ms b) (bt_long_press_ms b) = Inr d" using assms
      by (cases "src_add tk (bt_press_ms b) (bt_long_press_ms b)") (auto simp: button_next_deadline_def long_def)
    show ?thesis by (rule that [of "Some d"]) (use True d timers_at_simps(3) [of b tk d] in \<open>auto simp: long_def\<close>)
  next
    case False
    show ?thesis by (rule that [of None]) (use False timers_at_simps(4) [of b tk] in \<open>auto simp: long_def\<close>)
  qed
  obtain c3 where c3: "timers_at tk b ClickHold = set_option c3" "hold \<Longrightarrow> src_add tk (bt_press_ms b) (bt_click_ms b) = Inr (the c3) \<and> c3 \<noteq> None"
      "\<not> hold \<Longrightarrow> c3 = None"
  proof (cases hold)
    case True
    then obtain d where d: "src_add tk (bt_press_ms b) (bt_click_ms b) = Inr d" using assms
      by (cases "src_add tk (bt_press_ms b) (bt_click_ms b)") (auto simp: button_next_deadline_def hold_def result_simps split: sum.splits if_splits)
    show ?thesis by (rule that [of "Some d"]) (use True d timers_at_simps(5) [of b tk d] in \<open>auto simp: hold_def\<close>)
  next
    case False
    show ?thesis by (rule that [of None]) (use False timers_at_simps(6) [of b tk] in \<open>auto simp: hold_def\<close>)
  qed
  show ?thesis
    by (intro exI [of _ c1] exI [of _ c3] conjI c1(1) c3(1)) (use assms c1(2,3) c3(2,3) in
      \<open>auto simp: button_next_deadline_def best_of_def long_def hold_def Let_def split: if_splits option.splits\<close>)
qed

text \<open>What the parts of \<open>_advance\<close> do to the timers.\<close>

definition same_timers :: "Button \<Rightarrow> Button \<Rightarrow> bool" where
  "same_timers b b1 \<longleftrightarrow> bt_pressed b1 = bt_pressed b \<and> bt_press_ms b1 = bt_press_ms b \<and> bt_long_press_ms b1 = bt_long_press_ms b
     \<and> bt_repeat_ms b1 = bt_repeat_ms b \<and> bt_click_ms b1 = bt_click_ms b \<and> bt_click_deadline_ms b1 = bt_click_deadline_ms b"

lemma same_timers_trans: "same_timers a b \<Longrightarrow> same_timers b c \<Longrightarrow> same_timers a c"
  by (simp add: same_timers_def)

lemma long_run:
  assumes "advance_long b = (f, b1)"
  shows "same_timers b b1 \<and> bt_held_ms b1 = bt_held_ms b \<and> bt_repeat_next_ms b1 = bt_repeat_next_ms b \<and> bt_click_pending b1 = bt_click_pending b
    \<and> bt_press_is_click b1 = bt_press_is_click b \<and> (bt_long_fired b1 \<longleftrightarrow> bt_long_fired b \<or> f)
    \<and> (f \<longleftrightarrow> bt_long_press_ms b > 0 \<and> \<not> bt_long_fired b \<and> bt_held_ms b \<ge> bt_long_press_ms b)
    \<and> (f \<longrightarrow> bt_just_long_pressed b1) \<and> bt_pending_clicks b1 = bt_pending_clicks b"
  using assms by (auto simp: advance_long_def same_timers_def split: if_splits)

lemma hold_run:
  assumes "advance_hold b = (f, b1)"
  shows "same_timers b b1 \<and> bt_repeat_next_ms b1 = bt_repeat_next_ms b \<and> bt_click_pending b1 = bt_click_pending b \<and> bt_long_fired b1 = bt_long_fired b
    \<and> (bt_press_is_click b1 \<longleftrightarrow> bt_press_is_click b \<and> \<not> (bt_click_ms b > 0 \<and> bt_held_ms b \<ge> bt_click_ms b))
    \<and> bt_just_long_pressed b1 = bt_just_long_pressed b \<and> bt_just_repeated b1 = bt_just_repeated b
    \<and> (f \<longleftrightarrow> bt_click_ms b > 0 \<and> bt_press_is_click b \<and> bt_held_ms b \<ge> bt_click_ms b \<and> bt_pending_clicks b > 0)
    \<and> (f \<longrightarrow> bt_just_clicked b1 \<and> bt_click_count b1 = bt_pending_clicks b)"
  using assms by (auto simp: advance_hold_def same_timers_def Let_def split: if_splits)

lemma click_run:
  assumes "advance_click tk now b = (f, b1)"
  shows "same_timers b b1 \<and> bt_repeat_next_ms b1 = bt_repeat_next_ms b \<and> bt_long_fired b1 = bt_long_fired b
    \<and> bt_press_is_click b1 = bt_press_is_click b \<and> (bt_click_pending b1 \<longleftrightarrow> bt_click_pending b \<and> \<not> f)
    \<and> (f \<longleftrightarrow> bt_click_pending b \<and> src_diff tk now (bt_click_deadline_ms b) \<ge> 0)
    \<and> bt_just_long_pressed b1 = bt_just_long_pressed b \<and> bt_just_repeated b1 = bt_just_repeated b
    \<and> (f \<longrightarrow> bt_just_clicked b1 \<and> bt_click_count b1 = bt_pending_clicks b)
    \<and> (\<not> f \<longrightarrow> b1 = b)"
  using assms by (auto simp: advance_click_def same_timers_def split: if_splits)

context tick_source
begin

lemma elapsed:
  assumes "src_add tk t p = Inr d" "0 < p" "0 \<le> src_diff tk now t"
  shows "src_diff tk now d = src_diff tk now t - p"
  using due_iff_elapsed [OF assms(1), of now] add_domain [OF assms(1)] assms(2,3) by simp

lemma ahead: "src_diff tk now d < 0 \<Longrightarrow> - span < src_diff tk now d \<Longrightarrow> 0 < src_diff tk d now"
  using diff_flip [of now d] by simp

lemma next_period:
  assumes "0 < r" "0 \<le> src_diff tk now t" "src_diff tk now t + r < span"
  shows "\<exists>d. src_add tk t ((src_diff tk now t div r + 1) * r) = Inr d \<and> - span < src_diff tk now d \<and> src_diff tk now d < 0"
proof -
  let ?e = "src_diff tk now t" and ?k = "(src_diff tk now t div r + 1) * r"
  have k: "?e < ?k" "?k \<le> ?e + r"
    using assms(1) pos_mod_bound [of r ?e] pos_mod_sign [of r ?e] by (simp_all add: distrib_right minus_mod_eq_div_mult [symmetric])
  obtain d where d: "src_add tk t ?k = Inr d" using add_total [of ?k t] k assms span_pos by fastforce
  have "src_diff tk now d = ?e - ?k" using due_iff_elapsed [OF d] k assms by simp
  with d k assms show ?thesis by fastforce
qed

lemma repeat_run:
  assumes "bt_pressed b" "clock_ok tk span now b"
  shows "\<exists>f d. advance_repeat tk now b = (Inr f, b\<lparr>bt_repeat_next_ms := d, bt_just_repeated := (f \<or> bt_just_repeated b)\<rparr>)
    \<and> (f \<longleftrightarrow> 0 < bt_repeat_ms b \<and> 0 \<le> src_diff tk now (bt_repeat_next_ms b))
    \<and> (0 < bt_repeat_ms b \<longrightarrow> - span < src_diff tk now d \<and> src_diff tk now d < 0)"
proof (cases "0 < bt_repeat_ms b \<and> 0 \<le> src_diff tk now (bt_repeat_next_ms b)")
  case True
  then obtain d where "src_add tk (bt_repeat_next_ms b) ((src_diff tk now (bt_repeat_next_ms b) div bt_repeat_ms b + 1) * bt_repeat_ms b) = Inr d"
      "- span < src_diff tk now d" "src_diff tk now d < 0"
    using next_period [of "bt_repeat_ms b" now "bt_repeat_next_ms b"] assms by (auto simp: clock_ok_def)
  with True show ?thesis by (intro exI [of _ True] exI [of _ d]) (simp add: advance_repeat_def reading_def Let_def run_andThen run_mbind)
next
  case False
  then show ?thesis using assms
    by (intro exI [of _ False] exI [of _ "bt_repeat_next_ms b"]) (auto simp: advance_repeat_def reading_def Let_def clock_ok_def)
qed

lemma advance_marks:
  assumes c: "clock_ok tk span now b"
  shows "\<exists>fired b1. button_advance tk now b = (Inr fired, b1)
    \<and> (\<forall>t d. timer_of tk b t d \<and> 0 \<le> src_diff tk now d \<longrightarrow> marks t b b1 \<and> (t \<noteq> ClickHold \<longrightarrow> fired))
    \<and> (\<forall>t d. timer_of tk b1 t d \<longrightarrow> 0 < src_diff tk d now)"
proof (cases "bt_pressed b")
  case False
  obtain f b1 where k: "advance_click tk now b = (f, b1)" by fastforce
  have run: "button_advance tk now b = (Inr (bt_just_pressed b \<or> bt_just_released b \<or> f), b1)"
    using False k by (simp add: button_advance_def Let_def)
  note k1 = click_run [OF k, unfolded same_timers_def]
  have due: "marks t b b1 \<and> (t \<noteq> ClickHold \<longrightarrow> f)" if "timer_of tk b t d" "0 \<le> src_diff tk now d" for t d
    using that False k1 by (cases t) auto
  have later: "0 < src_diff tk d now" if "timer_of tk b1 t d" for t d
  proof (cases t)
    case ClickWindow
    then have "bt_click_pending b" "d = bt_click_deadline_ms b" "\<not> f" using that k1 by auto
    moreover have "src_diff tk now d < 0" using calculation k1 by (metis not_le)
    ultimately show ?thesis using c by (intro ahead) (simp_all add: clock_ok_def)
  qed (use that False k1 in auto)
  show ?thesis using run due later by blast
next
  case True
  let ?held = "src_diff tk now (bt_press_ms b)"
  have timer: "src_diff tk now d = ?held - p" "- span < ?held - p" if "src_add tk (bt_press_ms b) p = Inr d" "0 < p" for d p
    using elapsed [OF that] add_domain [OF that(1)] c True by (auto simp: clock_ok_def)
  obtain f1 b1 where l: "advance_long (b\<lparr>bt_held_ms := max 0 ?held\<rparr>) = (f1, b1)" by fastforce
  have held: "max 0 ?held = ?held" using c True by (simp add: clock_ok_def)
  note l1 = long_run [OF l, unfolded same_timers_def held, simplified]
  have b1: "bt_pressed b1" "clock_ok tk span now b1" using c True l1 by (simp_all add: clock_ok_def)
  obtain f2 d where r: "advance_repeat tk now b1 = (Inr f2, b1\<lparr>bt_repeat_next_ms := d, bt_just_repeated := (f2 \<or> bt_just_repeated b1)\<rparr>)"
      "f2 \<longleftrightarrow> 0 < bt_repeat_ms b1 \<and> 0 \<le> src_diff tk now (bt_repeat_next_ms b1)"
      "0 < bt_repeat_ms b1 \<longrightarrow> - span < src_diff tk now d \<and> src_diff tk now d < 0"
    using repeat_run [OF b1] by blast
  obtain f3 b3 where h: "advance_hold (b1\<lparr>bt_repeat_next_ms := d, bt_just_repeated := (f2 \<or> bt_just_repeated b1)\<rparr>) = (f3, b3)" by fastforce
  obtain f4 b4 where k: "advance_click tk now b3 = (f4, b4)" by fastforce
  note h1 = hold_run [OF h, unfolded same_timers_def, simplified] and k1 = click_run [OF k, unfolded same_timers_def, simplified]
  have run: "button_advance tk now b = (Inr (bt_just_pressed b \<or> bt_just_released b \<or> f1 \<or> f2 \<or> f3 \<or> f4), b4)"
    using True l r(1) h k by (simp add: button_advance_def advance_pressed_def Let_def disj_ac)
  have due: "marks t b b4 \<and> (t \<noteq> ClickHold \<longrightarrow> f1 \<or> f2 \<or> f3 \<or> f4)" if "timer_of tk b t x" "0 \<le> src_diff tk now x" for t x
  proof (cases t)
    case LongPress
    then have "f1" using that timer(1) [of "bt_long_press_ms b" x] l1 by simp
    then show ?thesis using LongPress l1 h1 k1 by simp
  next
    case AutoRepeat
    then have "f2" using that l1 r(2) by simp
    then show ?thesis using AutoRepeat h1 k1 by simp
  next
    case ClickHold
    then have "bt_click_ms b > 0" "bt_press_is_click b" "bt_click_ms b \<le> ?held" using that timer(1) [of "bt_click_ms b" x] by simp_all
    then have "\<not> bt_press_is_click b3" "bt_pending_clicks b > 0 \<Longrightarrow> f3" using l1 h1 by simp_all
    then show ?thesis using ClickHold l1 h1 k1 by auto
  next
    case ClickWindow
    then have "f4" using that l1 h1 k1 by simp
    then show ?thesis using ClickWindow True k1 by simp
  qed
  have later: "0 < src_diff tk x now" if "timer_of tk b4 t x" for t x
  proof (cases t)
    case LongPress
    then have "src_add tk (bt_press_ms b4) (bt_long_press_ms b4) = Inr x" "0 < bt_long_press_ms b4" "\<not> bt_long_fired b4"
      using that by simp_all
    moreover have "bt_press_ms b4 = bt_press_ms b" "bt_long_press_ms b4 = bt_long_press_ms b" "bt_long_fired b4 = bt_long_fired b1"
      using l1 h1 k1 by simp_all
    ultimately have x: "src_add tk (bt_press_ms b) (bt_long_press_ms b) = Inr x" "0 < bt_long_press_ms b" "\<not> bt_long_fired b1" by simp_all
    then have "?held < bt_long_press_ms b" using l1 by (metis not_le)
    then show ?thesis using timer [OF x(1,2)] by (intro ahead) simp_all
  next
    case AutoRepeat
    then have "x = d" "0 < bt_repeat_ms b1" using that l1 h1 k1 by simp_all
    then show ?thesis using r(3) by (intro ahead) simp_all
  next
    case ClickHold
    then have x: "src_add tk (bt_press_ms b) (bt_click_ms b) = Inr x" "0 < bt_click_ms b" "bt_press_is_click b3" using that l1 h1 k1 by simp_all
    then have "?held < bt_click_ms b" using l1 h1 by simp
    then show ?thesis using timer [OF x(1,2)] by (intro ahead) simp_all
  next
    case ClickWindow
    then have "bt_click_pending b" "x = bt_click_deadline_ms b" "bt_click_pending b3" "x = bt_click_deadline_ms b3" "\<not> f4"
      using that l1 h1 k1 by simp_all
    moreover have "src_diff tk now x < 0" using calculation click_run [OF k] by (metis not_le)
    ultimately show ?thesis using c by (intro ahead) (simp_all add: clock_ok_def)
  qed
  show ?thesis using run due later by blast
qed

lemma nearest_earliest:
  assumes "earliest tk now D n" "\<forall>x \<in> insert c D. 0 < src_diff tk x now"
  shows "earliest tk now (insert c D) (nearest tk n c)"
proof (cases n)
  case None
  then show ?thesis using assms(1) by (simp add: earliest_def nearest_def)
next
  case (Some d)
  then have d: "d \<in> D" "\<forall>x \<in> D. src_diff tk d now \<le> src_diff tk x now" using assms(1) by (simp_all add: earliest_def)
  have p: "0 < src_diff tk c now" "0 < src_diff tk d now" using assms(2) d(1) by auto
  then have "src_diff tk now d = - src_diff tk d now" using diff_flip [of d now] span_pos by simp
  then have "src_diff tk c d = src_diff tk c now - src_diff tk d now"
    using diff_trans [of c now d] p diff_upper [of c now] diff_upper [of d now] by simp
  then show ?thesis using Some d by (fastforce simp: earliest_def nearest_def)
qed

lemma best_earliest:
  assumes "earliest tk now D n" "\<forall>x \<in> set_option c \<union> D. 0 < src_diff tk x now"
  shows "earliest tk now (set_option c \<union> D) (best_of tk n c)"
  using nearest_earliest [of now D n] assms by (cases c) (auto simp: best_of_def)

text \<open>With every timer ahead, \<open>next_deadline\<close> is the earliest of them.\<close>

lemma next_deadline_earliest_timer:
  assumes "button_next_deadline tk b = Inr n" "\<forall>t d. timer_of tk b t d \<longrightarrow> 0 < src_diff tk d now"
  shows "earliest tk now {d. \<exists>t. timer_of tk b t d} n"
proof -
  obtain c1 c3 where c: "timers_at tk b LongPress = set_option c1" "timers_at tk b ClickHold = set_option c3"
    "n = best_of tk (best_of tk (best_of tk c1 (if bt_pressed b \<and> bt_repeat_ms b > 0 then Some (bt_repeat_next_ms b) else None)) c3)
        (if bt_click_pending b then Some (bt_click_deadline_ms b) else None)"
    using next_deadline_folds [OF assms(1)] by blast
  have pos: "\<forall>x \<in> timers_at tk b t. 0 < src_diff tk x now" for t using assms(2) by (auto simp: timers_at_def)
  have all: "{d. \<exists>t. timer_of tk b t d} = timers_at tk b ClickWindow \<union> (timers_at tk b ClickHold \<union> (timers_at tk b AutoRepeat \<union> timers_at tk b LongPress))"
    unfolding timers_at_def ex_timer by blast
  have 1: "earliest tk now (timers_at tk b LongPress) c1" unfolding c(1) by (cases c1) (simp_all add: earliest_def)
  show ?thesis unfolding all c(3) timers_at_simps(1,2)
    using pos [of LongPress] pos [of AutoRepeat] pos [of ClickHold] pos [of ClickWindow]
    unfolding c(2) timers_at_simps(1,2) by (intro best_earliest 1) blast+
qed

end

section \<open>Properties\<close>

lemma own_edges: "for_each (take_own_edge tk) evs b = for_each (\<lambda>(l, t). apply_edge tk l t) (edges_of 0 evs) b"
proof (induction evs arbitrary: b)
  case (Cons e evs)
  obtain k l t where "e = (k, l, t)" by (cases e) auto
  with Cons show ?case by (auto simp: take_own_edge_def run_andThen split: prod.split sum.split)
qed simp

lemma timer_overflowed [simp]: "timer_of tk (b\<lparr>bt_overflowed := x\<rparr>) t d = timer_of tk b t d"
  by (cases t) simp_all

lemma marks_overflowed [simp]: "marks t (b\<lparr>bt_overflowed := x\<rparr>) b1 = marks t b b1"
  by (cases t) simp_all

lemma timer_begin_tick: "timer_of tk (begin_tick b) t d = timer_of tk b t d"
  by (cases t) (simp_all add: begin_tick_def)

lemma marks_begin_tick: "marks t (begin_tick b) b1 = marks t b b1"
  by (cases t) (simp_all add: begin_tick_def)

lemma check_debounced:
  assumes "bs_reachable tk s" "0 < bs_key_count s" "\<not> bs_dropped_edges s"
    and edges: "for_each (\<lambda>(pressed, at_ms). apply_edge tk pressed at_ms) (waiting_edges tk now s 0) (begin_tick b) = (Inr (), b1)"
  shows "\<exists>s1. button_check tk (mp_source tk levels) now b s =
      (case button_advance tk now (b1\<lparr>bt_overflowed := bs_overflowed s\<rparr>) of (r, b2) \<Rightarrow> Some (r, b2, s1))
    \<and> bs_reachable tk s1 \<and> ring_edges s1 = [] \<and> \<not> bs_overflowed s1"
proof -
  obtain evs s1 where d: "drains tk levels (mb_poll now s) evs s1" "drained_to (mb_poll now s) s1" "edges_of 0 evs = waiting_edges tk now s 0"
    using drain_debounced [OF assms(1), of levels now] assms(2,3) by blast
  have "drain_edges (es_next_event (mp_source tk levels)) (take_own_edge tk) (begin_tick b) (mb_poll now s) = Some (Inr (), b1, s1)"
    using mp.drain_takes [OF drains_yields [OF d(1)]] edges own_edges d(3) by metis
  moreover have "bs_overflowed s1 = bs_overflowed s" "ring_edges s1 = []" using d(2) by (simp_all add: drained_to_def same_setup_def mb_poll_def)
  moreover note bs_reachable.drained [OF assms(1) d(1)]
  ultimately show ?thesis
    by (intro exI [of _ "s1\<lparr>bs_overflowed := False\<rparr>"]) (auto simp: button_check_def mp_source_def ring_edges_def split: prod.split)
qed

text \<open>
  C37. A tick ends. On a source that interrupts and ticks have left in any state, the loop that drains
  it gives its last edge, so \<open>check\<close> of a button and of a panel of buttons returns or raises.
\<close>

theorem button_check_ends:
  assumes "bs_reachable tk s"
  shows "(\<exists>r b1 s1. button_check tk (mp_source tk levels) now b s = Some (r, b1, s1))
    \<and> (\<exists>r p1 s1. buttons_check tk (mp_source tk levels) now p s = Some (r, p1, s1))"
  using mp.check_ends [OF assms] by blast

text \<open>
  C18. A button sees the debounced signal. When no captured edge was dropped, one \<open>check\<close> of a button on an
  interrupt-driven source folds exactly the debounced edges of its key into the state, oldest first,
  and then runs the timers; it copies the overflow mark and clears it in the source, which stays fit for the next tick.
\<close>

theorem button_check_debounced:
  assumes "bs_reachable tk s" "0 < bs_key_count s" "\<not> bs_dropped_edges s"
    and edges: "for_each (\<lambda>(pressed, at_ms). apply_edge tk pressed at_ms) (waiting_edges tk now s 0) (begin_tick b) = (Inr (), b1)"
  shows "\<exists>s1. button_check tk (mp_source tk levels) now b s =
      (case button_advance tk now (b1\<lparr>bt_overflowed := bs_overflowed s\<rparr>) of (r, b2) \<Rightarrow> Some (r, b2, s1))
    \<and> bs_reachable tk s1 \<and> ring_edges s1 = [] \<and> \<not> bs_overflowed s1"
  using check_debounced [OF assms] .

text \<open>
  C17. The timers of a button fire when its deadline says. Take a tick of a button on an interrupt-driven source, with no edge dropped
  and with a clock whose readings are less than half a turn away from the timers. After the edges that wait are
  folded in, every timer that is due is served by this tick: a long press, a repeat and the end of a click series are
  marked, with the count, and a press that outlived the click time becomes a hold. What \<open>next_deadline\<close> then
  returns lies strictly ahead and is the earliest timer, or there is none. So when no edge of the key arrives, a runner
  that sleeps until the announced deadline finds its event marked there, and does not spin. (An edge that arrives
  may cancel the deadline, even one already past: see \<open>late_tick_merges_clicks\<close>.)
\<close>

theorem button_deadline_served:
  assumes "tick_source tk span" "bs_reachable tk s" "0 < bs_key_count s" "\<not> bs_dropped_edges s"
    and edges: "for_each (\<lambda>(pressed, at_ms). apply_edge tk pressed at_ms) (waiting_edges tk now s 0) (begin_tick b) = (Inr (), b1)"
    and "clock_ok tk span now b1"
  shows "\<exists>fired b2 s1. button_check tk (mp_source tk levels) now b s = Some (Inr fired, b2, s1)
    \<and> (\<forall>t d. timer_of tk b1 t d \<and> 0 \<le> src_diff tk now d \<longrightarrow> marks t b1 b2 \<and> (t \<noteq> ClickHold \<longrightarrow> fired))
    \<and> (\<forall>n. button_next_deadline tk b2 = Inr n \<longrightarrow> (case n of
          None \<Rightarrow> \<nexists>t d. timer_of tk b2 t d
        | Some d \<Rightarrow> 0 < src_diff tk d now \<and> (\<forall>t d'. timer_of tk b2 t d' \<longrightarrow> src_diff tk d now \<le> src_diff tk d' now)))
    \<and> (waiting_edges tk now s 0 = [] \<longrightarrow> (\<forall>d. button_next_deadline tk b = Inr (Some d) \<and> 0 \<le> src_diff tk now d \<longrightarrow>
          (\<exists>t. timer_of tk b t d \<and> marks t b b2)))"
proof -
  have "clock_ok tk span now (b1\<lparr>bt_overflowed := bs_overflowed s\<rparr>)" using assms(6) by (simp add: clock_ok_def)
  from tick_source.advance_marks [OF assms(1) this] obtain fired b2 where
    a: "button_advance tk now (b1\<lparr>bt_overflowed := bs_overflowed s\<rparr>) = (Inr fired, b2)"
    "\<forall>t d. timer_of tk b1 t d \<and> 0 \<le> src_diff tk now d \<longrightarrow> marks t b1 b2 \<and> (t \<noteq> ClickHold \<longrightarrow> fired)"
    "\<forall>t d. timer_of tk b2 t d \<longrightarrow> 0 < src_diff tk d now"
    unfolding timer_overflowed marks_overflowed by blast
  obtain s1 where run: "button_check tk (mp_source tk levels) now b s = Some (Inr fired, b2, s1)"
    using check_debounced [OF assms(2-4) edges, of levels] a(1) by auto
  have dl: "case n of None \<Rightarrow> \<nexists>t d. timer_of tk b2 t d
      | Some d \<Rightarrow> 0 < src_diff tk d now \<and> (\<forall>t d'. timer_of tk b2 t d' \<longrightarrow> src_diff tk d now \<le> src_diff tk d' now)"
    if "button_next_deadline tk b2 = Inr n" for n
    using tick_source.next_deadline_earliest_timer [OF assms(1) that a(3)] a(3) by (auto simp: earliest_def split: option.splits)
  have quiet: "\<exists>t. timer_of tk b t d \<and> marks t b b2" if q: "waiting_edges tk now s 0 = []" "button_next_deadline tk b = Inr (Some d)" "0 \<le> src_diff tk now d" for d
  proof -
    have "b1 = begin_tick b" using edges q(1) by simp
    moreover obtain t where "timer_of tk b t d" using next_deadline_timer [OF q(2)] by blast
    ultimately show ?thesis using a(2) q(3) timer_begin_tick [of tk b t d] marks_begin_tick [of t b b2] by auto
  qed
  show ?thesis using run a(2) dl quiet by blast
qed

text \<open>
  A late tick merges two click series. Clicks at 0 and at 1900 are far apart for a click time of 300, and a
  tick at 310 reports the first one alone; when the loop stalls from 20 to 2000, the press at
  1900 cancels the closing of the first series and one series of two clicks is reported, a double click.
\<close>

lemma late_tick_merges_clicks:
  "(let tick = (\<lambda>now queue (b, w). case button_check real_ticks fake_source now b (queue w) of
          Some (Inr _, b1, w1) \<Rightarrow> (b1, w1) | _ \<Rightarrow> (b, w));
        first = tick 20 (\<lambda>w. fb_release 0 10 (fb_press 0 0 w)) (Button_init 0 0 0 300, FakeButtonSource_init 1);
        closed = tick 310 id first;
        late = tick 2000 (\<lambda>w. fb_release 0 1910 (fb_press 0 1900 w)) first;
        merged = tick 3000 id late in
     bt_just_clicked (fst closed) \<and> bt_click_count (fst closed) = 1
     \<and> \<not> bt_just_clicked (fst late) \<and> bt_just_clicked (fst merged) \<and> bt_click_count (fst merged) = 2)"
  by code_simp

text \<open>Witnesses: the source of \<open>pressed_source\<close>, and a key held down since tick 0 with all timers on.\<close>

definition held_button :: Button where
  "held_button = snd (apply_edge real_ticks True 0 (Button_init 800 100 400 300))"

definition idle_source :: MpButtonSource where
  "idle_source = MpButtonSource_init 1 True 10 8 (\<lambda>_. 1) 0"

lemma idle_source_reachable: "bs_reachable real_ticks idle_source"
  unfolding idle_source_def by (rule bs_reachable.built) simp

theorem button_check_ends_witness:
  "(\<exists>r b1 s1. button_check real_ticks (mp_source real_ticks (\<lambda>_. 0)) 130 (Button_init 800 0 400 0) pressed_source = Some (r, b1, s1))
   \<and> (\<exists>r p1 s1. buttons_check real_ticks (mp_source real_ticks (\<lambda>_. 0)) 130
        (Buttons_init (mp_source real_ticks (\<lambda>_. 0)) pressed_source 800 0 400 0) pressed_source = Some (r, p1, s1))"
  by (rule button_check_ends [OF pressed_source_reachable])

theorem button_check_debounced_witness:
  "\<exists>b1 s1. button_check real_ticks (mp_source real_ticks (\<lambda>_. 0)) 130 (Button_init 800 0 400 0) pressed_source = Some (Inr True, b1, s1)
     \<and> bt_pressed b1 \<and> bt_just_pressed b1 \<and> bt_held_ms b1 = 25"
proof -
  define b1 where "b1 = snd (apply_edge real_ticks True 105 (Button_init 800 0 400 0))"
  have w: "waiting_edges real_ticks 130 pressed_source 0 = [(True, 105)]" "0 < bs_key_count pressed_source"
    "\<not> bs_dropped_edges pressed_source" "bs_overflowed pressed_source = False" by code_simp+
  have e: "for_each (\<lambda>(pressed, at_ms). apply_edge real_ticks pressed at_ms) [(True, 105)] (begin_tick (Button_init 800 0 400 0)) = (Inr (), b1)"
    unfolding b1_def by code_simp
  have a: "fst (button_advance real_ticks 130 (b1\<lparr>bt_overflowed := False\<rparr>)) = Inr True"
    "(let b = snd (button_advance real_ticks 130 (b1\<lparr>bt_overflowed := False\<rparr>)) in bt_pressed b \<and> bt_just_pressed b \<and> bt_held_ms b = 25)"
    unfolding b1_def by code_simp+
  obtain b2 where b2: "button_advance real_ticks 130 (b1\<lparr>bt_overflowed := False\<rparr>) = (Inr True, b2)" using a(1) by (metis prod.collapse)
  show ?thesis using button_check_debounced [OF pressed_source_reachable w(2,3), of 130 "Button_init 800 0 400 0" b1 "\<lambda>_. 0"] e a(2)
    unfolding w(1,4) by (auto simp: b2)
qed

theorem button_deadline_served_witness:
  "\<exists>fired b2 s1. button_check real_ticks (mp_source real_ticks (\<lambda>_. 1)) 300 held_button idle_source = Some (Inr fired, b2, s1)
     \<and> button_next_deadline real_ticks held_button = Inr (Some 300) \<and> \<not> bt_press_is_click b2"
proof -
  have w: "waiting_edges real_ticks 300 idle_source 0 = []" "0 < bs_key_count idle_source" "\<not> bs_dropped_edges idle_source" by code_simp+
  have c: "clock_ok real_ticks TICKS_HALFPERIOD 300 (begin_tick held_button)" "button_next_deadline real_ticks held_button = Inr (Some 300)"
    "timer_of real_ticks (begin_tick held_button) ClickHold 300" "src_diff real_ticks 300 300 = 0" by code_simp+
  have e: "for_each (\<lambda>(pressed, at_ms). apply_edge real_ticks pressed at_ms) (waiting_edges real_ticks 300 idle_source 0) (begin_tick held_button)
      = (Inr (), begin_tick held_button)" by (simp add: w)
  from button_deadline_served [OF wrapped.tick_source_axioms idle_source_reachable w(2,3) e c(1), of "\<lambda>_. 1"] c(2-4)
  show ?thesis by (metis marks.simps(3) order_refl)
qed

end
