(* ===== verification/Knobs.thy ===== *)
theory Knobs
  imports Chu_Prelude
begin

text \<open>
  \<^verbatim>\<open>libraries/knobs/src/chumicro_knobs\<close>: rotary encoders and analog knobs, with the MicroPython sources under
  them. \<open>MpEncoderSource\<close> decodes two pins in an interrupt, \<open>Encoder\<close> counts detents into a position
  with bounds or wrap; \<open>MpAnalogSource\<close> filters the readings of a converter, \<open>AnalogKnob\<close> holds them still with a
  deadband and turns them into steps. The pins and the converter are arguments: what they read. The slots of the
  interrupt's counter array are signed 32-bit integers, the C \<^verbatim>\<open>long\<close> of the MicroPython boards, and storing wraps.
  \<open>deinit\<close>, assigning \<open>position\<close> from outside and the choice of a source are not modelled.
\<close>

section \<open>Encoder\<close>

record Encoder =
  en_bounded :: bool
  en_low :: int
  en_high :: int
  en_span :: int
  en_wrap :: bool
  en_position :: int
  en_delta :: int
  en_just_moved :: bool
  en_last_raw_position :: int

text \<open>\<open>raw_position\<close> is what the source holds while the encoder is built.\<close>

definition Encoder_init :: "int \<Rightarrow> (int \<times> int) option \<Rightarrow> bool \<Rightarrow> int \<Rightarrow> Encoder result" where
  "Encoder_init detent_steps bounds wrap raw_position =
     (if detent_steps < 1 then Inl (ValueError ''detent_steps must be 1 or more'')
      else if bounds = None \<and> wrap then Inl (ValueError ''wrap=True needs bounds=(low, high) to wrap around'')
      else
        let bounded = (bounds \<noteq> None); low = (case bounds of None \<Rightarrow> 0 | Some p \<Rightarrow> fst p); high = (case bounds of None \<Rightarrow> 0 | Some p \<Rightarrow> snd p);
            start_position = (if bounded then if 0 < low then low else if 0 > high then high else 0 else 0) in
        Inr \<lparr>en_bounded = bounded, en_low = low, en_high = high, en_span = (if bounded then high - low + 1 else 0), en_wrap = wrap,
          en_position = start_position, en_delta = 0, en_just_moved = False, en_last_raw_position = raw_position\<rparr>)"

text \<open>\<open>check\<close>, for what \<open>source.raw_position\<close> holds once the source was polled.\<close>

definition encoder_check :: "int \<Rightarrow> Encoder \<Rightarrow> bool result \<times> Encoder" where
  "encoder_check raw_position s =
     (let moved = raw_position - en_last_raw_position s in
      if moved = 0 then (Inr False, s\<lparr>en_delta := 0, en_just_moved := False\<rparr>)
      else
        let s = s\<lparr>en_last_raw_position := raw_position\<rparr>;
            previous_position = en_position s; position = previous_position + moved in
        if en_bounded s \<and> en_wrap s \<and> en_span s = 0 then (Inl ZeroDivisionError, s)
        else
          let (position, delta) =
                (if \<not> en_bounded s then (position, moved)
                 else if en_wrap s then (en_low s + (position - en_low s) mod en_span s, moved)
                 else
                   let position = (if position < en_low s then en_low s else if position > en_high s then en_high s else position) in
                   (position, position - previous_position)) in
          (Inr (delta \<noteq> 0), s\<lparr>en_position := position, en_delta := delta, en_just_moved := (delta \<noteq> 0)\<rparr>))"

text \<open>The argument \<open>handle\<close> calls \<open>on_change\<close> with.\<close>

definition encoder_handle :: "bool \<Rightarrow> Encoder \<Rightarrow> int option" where
  "encoder_handle is_set s = (if en_just_moved s \<and> is_set then Some (en_delta s) else None)"

section \<open>The quadrature interrupt\<close>

definition QUADRATURE_STEPS :: "nat list" where
  "QUADRATURE_STEPS = [1, 0, 2, 1, 2, 1, 1, 0, 0, 1, 1, 2, 1, 2, 0, 1]"

text \<open>Storing to a slot of \<^verbatim>\<open>array.array("l")\<close>.\<close>

definition store_long :: "int \<Rightarrow> int" where
  "store_long x = sint (word_of_int x :: 32 word)"

record MpEncoderSource =
  qs_detent_steps :: int
  qs_position :: int
  qs_sub_count :: int
  qs_previous_state :: nat
  qs_raw_position :: int

definition pin_state :: "nat \<Rightarrow> nat \<Rightarrow> nat" where
  "pin_state a b = (push_bit 1 a) OR b"

definition MpEncoderSource_init :: "nat \<Rightarrow> nat \<Rightarrow> int \<Rightarrow> MpEncoderSource" where
  "MpEncoderSource_init a b detent_steps = \<lparr>qs_detent_steps = detent_steps, qs_position = 0, qs_sub_count = 0,
     qs_previous_state = pin_state a b, qs_raw_position = 0\<rparr>"

text \<open>\<open>a\<close> and \<open>b\<close> are what the pins read in the handler.\<close>

definition on_edge :: "nat \<Rightarrow> nat \<Rightarrow> MpEncoderSource \<Rightarrow> MpEncoderSource" where
  "on_edge a b s =
     (let state = pin_state a b;
          step = int (QUADRATURE_STEPS ! ((push_bit 2 (qs_previous_state s)) OR state)) - 1;
          sub_count = qs_sub_count s + step;
          s = s\<lparr>qs_previous_state := state\<rparr> in
      if sub_count \<ge> qs_detent_steps s then s\<lparr>qs_position := store_long (qs_position s + 1), qs_sub_count := 0\<rparr>
      else if sub_count \<le> - qs_detent_steps s then s\<lparr>qs_position := store_long (qs_position s - 1), qs_sub_count := 0\<rparr>
      else s\<lparr>qs_sub_count := store_long sub_count\<rparr>)"

definition encoder_poll :: "MpEncoderSource \<Rightarrow> MpEncoderSource" where
  "encoder_poll s = s\<lparr>qs_raw_position := qs_position s\<rparr>"

section \<open>Analog knob\<close>

definition RAW_RANGE :: int where "RAW_RANGE = 65536"
definition SMOOTHING_SHIFT :: nat where "SMOOTHING_SHIFT = 4"

definition middle_of_three :: "int \<Rightarrow> int \<Rightarrow> int \<Rightarrow> int" where
  "middle_of_three first second third =
     (let (first, second) = (if first > second then (second, first) else (first, second));
          second = (if second > third then third else second) in
      if first > second then first else second)"

record MpAnalogSource =
  as_recent :: "int list"
  as_slot :: nat
  as_smoothed :: int
  as_raw :: int

definition MpAnalogSource_init :: "int \<Rightarrow> MpAnalogSource" where
  "MpAnalogSource_init reading = \<lparr>as_recent = [reading, reading, reading], as_slot = 0,
     as_smoothed = push_bit SMOOTHING_SHIFT reading, as_raw = reading\<rparr>"

definition analog_poll :: "int \<Rightarrow> MpAnalogSource \<Rightarrow> MpAnalogSource" where
  "analog_poll reading s =
     (let recent = (as_recent s)[as_slot s := reading];
          slot = as_slot s + 1;
          middle = middle_of_three (recent ! 0) (recent ! 1) (recent ! 2);
          smoothed = as_smoothed s + (middle - drop_bit SMOOTHING_SHIFT (as_smoothed s)) in
      s\<lparr>as_recent := recent, as_slot := (if slot \<ge> 3 then 0 else slot), as_smoothed := smoothed,
        as_raw := drop_bit SMOOTHING_SHIFT smoothed\<rparr>)"

record FakeAnalogSource =
  fa_raw :: int
  fa_poll_calls :: nat
  fa_last_poll_ms :: int

definition FakeAnalogSource_init :: "int \<Rightarrow> FakeAnalogSource" where
  "FakeAnalogSource_init raw = \<lparr>fa_raw = raw, fa_poll_calls = 0, fa_last_poll_ms = 0\<rparr>"

definition fa_set_raw :: "int \<Rightarrow> FakeAnalogSource \<Rightarrow> FakeAnalogSource" where
  "fa_set_raw raw s = s\<lparr>fa_raw := raw\<rparr>"

definition fa_poll :: "int \<Rightarrow> FakeAnalogSource \<Rightarrow> FakeAnalogSource" where
  "fa_poll now_ms s = s\<lparr>fa_poll_calls := fa_poll_calls s + 1, fa_last_poll_ms := now_ms\<rparr>"

record AnalogKnob =
  ak_steps :: int
  ak_deadband :: int
  ak_value :: int
  ak_raw :: int
  ak_delta :: int
  ak_just_moved :: bool

definition AnalogKnob_init :: "int \<Rightarrow> int \<Rightarrow> AnalogKnob" where
  "AnalogKnob_init steps deadband = \<lparr>ak_steps = steps, ak_deadband = deadband, ak_value = 0, ak_raw = 0, ak_delta = 0, ak_just_moved = False\<rparr>"

definition knob_check :: "int \<Rightarrow> AnalogKnob \<Rightarrow> bool \<times> AnalogKnob" where
  "knob_check raw k =
     (if \<bar>raw - ak_raw k\<bar> \<le> ak_deadband k then (False, k\<lparr>ak_delta := 0, ak_just_moved := False\<rparr>)
      else
        let value = raw * ak_steps k div RAW_RANGE; delta = value - ak_value k in
        (delta \<noteq> 0, k\<lparr>ak_raw := raw, ak_value := value, ak_delta := delta, ak_just_moved := (delta \<noteq> 0)\<rparr>))"

definition knob_handle :: "bool \<Rightarrow> AnalogKnob \<Rightarrow> int option" where
  "knob_handle is_set k = (if ak_just_moved k \<and> is_set then Some (ak_value k) else None)"

section \<open>Encoder ticks\<close>

text \<open>Ticks of an encoder, for what the source holds at each: the arguments \<open>on_change\<close> was called with.\<close>

fun encoder_ticks :: "int list \<Rightarrow> Encoder \<Rightarrow> int list result \<times> Encoder" where
  "encoder_ticks [] s = (Inr [], s)"
| "encoder_ticks (r # rs) s =
     (case encoder_check r s of
        (Inl e, s1) \<Rightarrow> (Inl e, s1)
      | (Inr fired, s1) \<Rightarrow> (case encoder_ticks rs s1 of (t, s2) \<Rightarrow>
          (map_sum id (\<lambda>ds. (if fired then case encoder_handle True s1 of None \<Rightarrow> [] | Some d \<Rightarrow> [d] else []) @ ds) t, s2)))"

definition en_inv :: "Encoder \<Rightarrow> bool" where
  "en_inv s \<longleftrightarrow> (en_bounded s \<longrightarrow> en_low s \<le> en_position s \<and> en_position s \<le> en_high s \<and> en_span s = en_high s - en_low s + 1)
     \<and> (en_wrap s \<longrightarrow> en_bounded s)"

text \<open>One tick: the position after it, for what it reports.\<close>

definition en_follows :: "Encoder \<Rightarrow> int \<Rightarrow> Encoder \<Rightarrow> bool" where
  "en_follows s d s1 \<longleftrightarrow> en_bounded s1 = en_bounded s \<and> en_wrap s1 = en_wrap s \<and> en_low s1 = en_low s \<and> en_high s1 = en_high s
     \<and> en_span s1 = en_span s
     \<and> en_position s1 = (if en_wrap s then en_low s + (en_position s - en_low s + d) mod en_span s else en_position s + d)
     \<and> (en_wrap s \<or> \<not> en_bounded s \<longrightarrow> d = en_last_raw_position s1 - en_last_raw_position s)"

lemma en_follows_trans: "en_follows s d s1 \<Longrightarrow> en_follows s1 d1 s2 \<Longrightarrow> en_follows s (d + d1) s2"
  by (auto simp: en_follows_def mod_add_left_eq add.assoc)

lemma encoder_check_run:
  assumes "en_inv s"
  shows "\<exists>s1. encoder_check r s = (Inr (en_delta s1 \<noteq> 0), s1) \<and> en_inv s1 \<and> en_follows s (en_delta s1) s1
    \<and> en_just_moved s1 = (en_delta s1 \<noteq> 0) \<and> en_last_raw_position s1 = r"
proof -
  have m: "en_low s + x mod en_span s \<le> en_high s" "0 \<le> x mod en_span s" if "en_bounded s" for x
    using assms that pos_mod_bound [of "en_span s" x] pos_mod_sign [of "en_span s" x] by (auto simp: en_inv_def)
  have own: "(en_position s - en_low s) mod en_span s = en_position s - en_low s" if "en_bounded s"
    using assms that by (auto simp: en_inv_def)
  show ?thesis
    using assms own m by (auto simp: encoder_check_def en_inv_def en_follows_def Let_def algebra_simps)
qed

lemma encoder_ticks_run:
  "en_inv s \<Longrightarrow> \<exists>ds s1. encoder_ticks rs s = (Inr ds, s1) \<and> en_inv s1 \<and> en_follows s (sum_list ds) s1
     \<and> en_last_raw_position s1 = last (en_last_raw_position s # rs)"
proof (induction rs arbitrary: s)
  case Nil
  then show ?case by (auto simp: en_follows_def en_inv_def)
next
  case (Cons r rs)
  from encoder_check_run [OF Cons.prems, of r] obtain s1 where s1: "encoder_check r s = (Inr (en_delta s1 \<noteq> 0), s1)" "en_inv s1"
    "en_follows s (en_delta s1) s1" "en_just_moved s1 = (en_delta s1 \<noteq> 0)" "en_last_raw_position s1 = r" by blast
  from Cons.IH [OF s1(2)] obtain ds s2 where s2: "encoder_ticks rs s1 = (Inr ds, s2)" "en_inv s2" "en_follows s1 (sum_list ds) s2"
    "en_last_raw_position s2 = last (r # rs)" unfolding s1(5) by blast
  show ?case using s1 s2 en_follows_trans [OF s1(3) s2(3)] by (auto simp: encoder_handle_def)
qed

lemma encoder_init_run:
  assumes "Encoder_init d bounds wrap r0 = Inr s" "\<forall>low high. bounds = Some (low, high) \<longrightarrow> low \<le> high"
  shows "en_inv s \<and> en_last_raw_position s = r0 \<and> en_wrap s = wrap \<and> en_bounded s = (bounds \<noteq> None)
    \<and> (\<forall>low high. bounds = Some (low, high) \<longrightarrow> en_low s = low \<and> en_high s = high \<and> en_span s = high - low + 1)"
  using assms by (auto simp: Encoder_init_def en_inv_def Let_def split: if_splits option.splits)

section \<open>Decoding the shaft\<close>

text \<open>The pins at a quarter turn \<open>angle\<close> of the quadrature cycle; the handler runs at each of the angles.\<close>

definition shaft_pins :: "int \<Rightarrow> nat \<times> nat" where
  "shaft_pins angle = (if angle mod 4 = 1 \<or> angle mod 4 = 2 then 1 else 0, if angle mod 4 = 2 \<or> angle mod 4 = 3 then 1 else 0)"

definition turn_shaft :: "int list \<Rightarrow> MpEncoderSource \<Rightarrow> MpEncoderSource" where
  "turn_shaft angles s = fold (\<lambda>angle. on_edge (fst (shaft_pins angle)) (snd (shaft_pins angle))) angles s"

fun small_steps :: "int \<Rightarrow> int list \<Rightarrow> bool" where
  "small_steps a [] = True"
| "small_steps a (b # bs) = (\<bar>b - a\<bar> \<le> 1 \<and> small_steps b bs)"

definition shaft_state :: "int \<Rightarrow> nat" where
  "shaft_state angle = pin_state (fst (shaft_pins angle)) (snd (shaft_pins angle))"

lemma shaft_state_mod: "shaft_state angle = shaft_state (angle mod 4)"
  by (simp add: shaft_state_def shaft_pins_def)

lemma quadrature_table:
  "\<forall>p \<in> set [0, 1, 2, 3 :: int]. \<forall>d \<in> set [-1, 0, 1]. int (QUADRATURE_STEPS ! ((push_bit 2 (shaft_state p)) OR shaft_state ((p + d) mod 4))) - 1 = d"
  by code_simp

lemma quadrature_step:
  assumes "\<bar>b - a\<bar> \<le> 1"
  shows "int (QUADRATURE_STEPS ! ((push_bit 2 (shaft_state a)) OR shaft_state b)) - 1 = b - a"
proof -
  have "0 \<le> a mod 4" "a mod 4 < 4" by simp_all
  then have a: "a mod 4 \<in> set [0, 1, 2, 3]" by (simp; linarith)
  have d: "b - a \<in> set [-1, 0, 1]" using assms by auto
  have b: "(a mod 4 + (b - a)) mod 4 = b mod 4" by (simp add: mod_simps)
  show ?thesis using quadrature_table [rule_format, OF a d] unfolding b by (subst (1 2) shaft_state_mod)
qed

lemma store_long_id: "- (2 ^ 31) \<le> x \<Longrightarrow> x < 2 ^ 31 \<Longrightarrow> store_long x = x"
  by (simp add: store_long_def sint_sbintrunc' signed_take_bit_int_eq_self)

lemma store_long_add: "store_long (store_long x + y) = store_long (x + y)"
proof -
  have "(word_of_int (store_long x + y) :: 32 word) = word_of_int (x + y)" by (simp add: store_long_def)
  then show ?thesis by (simp add: store_long_def)
qed

text \<open>The detents of the turn, and what the slot makes of them; the steps banked always fit.\<close>

definition qs_inv :: "int \<Rightarrow> int \<Rightarrow> MpEncoderSource \<Rightarrow> bool" where
  "qs_inv start angle s \<longleftrightarrow> 1 \<le> qs_detent_steps s \<and> qs_detent_steps s < 2 ^ 31 \<and> qs_previous_state s = shaft_state angle
     \<and> \<bar>qs_sub_count s\<bar> < qs_detent_steps s
     \<and> (\<exists>n. qs_detent_steps s * n + qs_sub_count s = angle - start \<and> qs_position s = store_long n)"

lemma on_edge_inv:
  assumes "qs_inv start a s" "\<bar>b - a\<bar> \<le> 1"
  shows "qs_inv start b (on_edge (fst (shaft_pins b)) (snd (shaft_pins b)) s) \<and>
    qs_detent_steps (on_edge (fst (shaft_pins b)) (snd (shaft_pins b)) s) = qs_detent_steps s"
proof -
  let ?s = "on_edge (fst (shaft_pins b)) (snd (shaft_pins b)) s" and ?k = "qs_sub_count s + (b - a)" and ?d = "qs_detent_steps s"
  have sub: "int (QUADRATURE_STEPS ! ((push_bit 2 (qs_previous_state s)) OR shaft_state b)) - 1 = b - a"
    using quadrature_step [OF assms(2)] assms(1) by (simp add: qs_inv_def)
  have run: "?s = (let s = s\<lparr>qs_previous_state := shaft_state b\<rparr> in
      if ?k \<ge> ?d then s\<lparr>qs_position := store_long (qs_position s + 1), qs_sub_count := 0\<rparr>
      else if ?k \<le> - ?d then s\<lparr>qs_position := store_long (qs_position s - 1), qs_sub_count := 0\<rparr>
      else s\<lparr>qs_sub_count := store_long ?k\<rparr>)"
    unfolding on_edge_def Let_def shaft_state_def [symmetric] sub by simp
  from assms(1) obtain n where n: "?d * n + qs_sub_count s = a - start" "qs_position s = store_long n" and d: "1 \<le> ?d" "?d < 2 ^ 31"
    "\<bar>qs_sub_count s\<bar> < ?d" by (auto simp: qs_inv_def)
  consider "?k = ?d" | "?k = - ?d" | "\<bar>?k\<bar> < ?d" using d(3) assms(2) by linarith
  then show ?thesis
  proof cases
    case 1
    then show ?thesis using run n d store_long_add [of n 1]
      by (auto simp: qs_inv_def Let_def algebra_simps intro!: exI [of _ "n + 1"])
  next
    case 2
    then show ?thesis using run n d store_long_add [of n "- 1"]
      by (auto simp: qs_inv_def Let_def algebra_simps intro!: exI [of _ "n - 1"])
  next
    case 3
    then have "store_long ?k = ?k" using d by (intro store_long_id) auto
    then show ?thesis using 3 run n d by (auto simp: qs_inv_def Let_def intro!: exI [of _ n])
  qed
qed

lemma turn_shaft_inv:
  "qs_inv start a s \<Longrightarrow> small_steps a angles \<Longrightarrow> qs_inv start (last (a # angles)) (turn_shaft angles s)
     \<and> qs_detent_steps (turn_shaft angles s) = qs_detent_steps s"
proof (induction angles arbitrary: a s)
  case (Cons b angles)
  from on_edge_inv [of start a s b] Cons.prems have "qs_inv start b (on_edge (fst (shaft_pins b)) (snd (shaft_pins b)) s)"
    "qs_detent_steps (on_edge (fst (shaft_pins b)) (snd (shaft_pins b)) s) = qs_detent_steps s" "small_steps b angles" by auto
  with Cons.IH [of b "on_edge (fst (shaft_pins b)) (snd (shaft_pins b)) s"] show ?case by (auto simp: turn_shaft_def)
qed (simp add: turn_shaft_def)

section \<open>Knobs on a converter\<close>

text \<open>One tick of a knob on a source, for what the converter reads; then several.\<close>

definition knob_tick :: "(int \<Rightarrow> 's \<Rightarrow> 's) \<Rightarrow> ('s \<Rightarrow> int) \<Rightarrow> int \<Rightarrow> 's \<times> AnalogKnob \<Rightarrow> 's \<times> AnalogKnob" where
  "knob_tick poll raw reading sk = (poll reading (fst sk), snd (knob_check (raw (poll reading (fst sk))) (snd sk)))"

definition knob_ticks :: "(int \<Rightarrow> 's \<Rightarrow> 's) \<Rightarrow> ('s \<Rightarrow> int) \<Rightarrow> int list \<Rightarrow> 's \<times> AnalogKnob \<Rightarrow> 's \<times> AnalogKnob" where
  "knob_ticks poll raw readings = fold (knob_tick poll raw) readings"

definition in_range :: "int \<Rightarrow> bool" where
  "in_range r \<longleftrightarrow> 0 \<le> r \<and> r < RAW_RANGE"

definition knob_inv :: "AnalogKnob \<Rightarrow> bool" where
  "knob_inv k \<longleftrightarrow> 1 \<le> ak_steps k \<and> 0 \<le> ak_deadband k \<and> in_range (ak_raw k) \<and> ak_value k = ak_raw k * ak_steps k div RAW_RANGE"

text \<open>The contract of a source: what it holds after a poll is on the scale of the converter.\<close>

locale analog_source =
  fixes poll :: "int \<Rightarrow> 's \<Rightarrow> 's" and raw :: "'s \<Rightarrow> int" and fit :: "'s \<Rightarrow> bool"
  assumes poll_fit: "fit s \<Longrightarrow> in_range reading \<Longrightarrow> fit (poll reading s)"
    and raw_range: "fit s \<Longrightarrow> in_range (raw s)"
begin

lemma tick_fit:
  assumes "fit (fst sk)" "knob_inv (snd sk)" "in_range r"
  shows "fit (fst (knob_tick poll raw r sk)) \<and> knob_inv (snd (knob_tick poll raw r sk))
    \<and> ak_steps (snd (knob_tick poll raw r sk)) = ak_steps (snd sk) \<and> ak_deadband (snd (knob_tick poll raw r sk)) = ak_deadband (snd sk)
    \<and> \<bar>raw (fst (knob_tick poll raw r sk)) - ak_raw (snd (knob_tick poll raw r sk))\<bar> \<le> ak_deadband (snd sk)"
  using assms poll_fit [OF assms(1,3)] raw_range [OF poll_fit [OF assms(1,3)]]
  by (simp add: knob_tick_def knob_check_def knob_inv_def Let_def)

lemma ticks_fit:
  assumes "fit (fst sk)" "knob_inv (snd sk)" "\<forall>r \<in> set readings. in_range r" "readings \<noteq> []"
  shows "fit (fst (knob_ticks poll raw readings sk)) \<and> knob_inv (snd (knob_ticks poll raw readings sk))
    \<and> ak_steps (snd (knob_ticks poll raw readings sk)) = ak_steps (snd sk) \<and> ak_deadband (snd (knob_ticks poll raw readings sk)) = ak_deadband (snd sk)
    \<and> \<bar>raw (fst (knob_ticks poll raw readings sk)) - ak_raw (snd (knob_ticks poll raw readings sk))\<bar> \<le> ak_deadband (snd sk)"
  using assms
proof (induction readings arbitrary: sk)
  case (Cons r readings)
  note t = tick_fit [OF Cons.prems(1,2), of r]
  show ?case
  proof (cases "readings = []")
    case True
    then show ?thesis using t Cons.prems(3) by (simp add: knob_ticks_def)
  next
    case False
    then show ?thesis using t Cons.IH [of "knob_tick poll raw r sk"] Cons.prems(3) by (simp add: knob_ticks_def)
  qed
qed simp

end

lemma step_bounds:
  assumes "in_range r" "1 \<le> n"
  shows "0 \<le> r * n div RAW_RANGE" "r * n div RAW_RANGE < n"
proof -
  have "0 \<le> r * n" using assms by (simp add: in_range_def)
  then show "0 \<le> r * n div RAW_RANGE" by (simp add: RAW_RANGE_def)
  have "r * n < n * RAW_RANGE" using assms by (simp add: in_range_def mult.commute)
  then show "r * n div RAW_RANGE < n" by (simp add: RAW_RANGE_def)
qed

lemma end_steps:
  assumes "in_range r" "1 \<le> n" "band < RAW_RANGE div n"
  shows "r \<le> band \<Longrightarrow> r * n div RAW_RANGE = 0" "RAW_RANGE - 1 - r \<le> band \<Longrightarrow> r * n div RAW_RANGE = n - 1"
proof -
  have b: "(band + 1) * n \<le> RAW_RANGE"
  proof -
    have "(band + 1) * n \<le> (RAW_RANGE div n) * n" using assms by (intro mult_right_mono) auto
    also have "\<dots> \<le> RAW_RANGE" using assms(2) pos_mod_sign [of n RAW_RANGE] div_mult_mod_eq [of RAW_RANGE n] by linarith
    finally show ?thesis .
  qed
  show "r * n div RAW_RANGE = 0" if "r \<le> band"
  proof -
    have "r * n \<le> band * n" using that assms(2) by (intro mult_right_mono) auto
    moreover have "band * n + n \<le> RAW_RANGE" using b by (simp add: distrib_right)
    ultimately have "r * n < RAW_RANGE" using assms(2) by linarith
    then show ?thesis using assms(1,2) by (intro div_pos_pos_trivial) (auto simp: in_range_def)
  qed
  show "r * n div RAW_RANGE = n - 1" if "RAW_RANGE - 1 - r \<le> band"
  proof -
    have "(RAW_RANGE - r) * n \<le> (band + 1) * n" using that assms(2) by (intro mult_right_mono) auto
    then have "(n - 1) * RAW_RANGE \<le> r * n" using b by (simp add: algebra_simps)
    then have "n - 1 \<le> r * n div RAW_RANGE" by (simp add: RAW_RANGE_def)
    with step_bounds(2) [OF assms(1,2)] show ?thesis by simp
  qed
qed

section \<open>The smoothed converter\<close>

lemma middle_mem: "middle_of_three a b c \<in> {a, b, c}"
  by (auto simp: middle_of_three_def Let_def)

lemma middle_same: "middle_of_three a r r = r" "middle_of_three r a r = r" "middle_of_three r r a = r"
  by (auto simp: middle_of_three_def Let_def)

definition as_inv :: "MpAnalogSource \<Rightarrow> bool" where
  "as_inv s \<longleftrightarrow> length (as_recent s) = 3 \<and> as_slot s < 3 \<and> (\<forall>r \<in> set (as_recent s). in_range r)
     \<and> 0 \<le> as_smoothed s \<and> as_smoothed s \<le> 16 * (RAW_RANGE - 1) \<and> as_raw s = as_smoothed s div 16"

lemma smooth_div: "push_bit SMOOTHING_SHIFT r = 16 * r" "drop_bit SMOOTHING_SHIFT r = r div (16 :: int)"
  by (simp_all add: SMOOTHING_SHIFT_def push_bit_eq_mult drop_bit_eq_div)

lemma list_of_three: "length xs = 3 \<Longrightarrow> \<exists>a b c. xs = [a, b, c]"
  by (auto simp: numeral_3_eq_3 length_Suc_conv)

lemma analog_init_inv: "in_range r \<Longrightarrow> as_inv (MpAnalogSource_init r)"
  by (simp add: as_inv_def MpAnalogSource_init_def smooth_div in_range_def)

lemma analog_poll_run:
  assumes "as_inv s" "in_range r"
  shows "as_inv (analog_poll r s) \<and> (\<exists>m \<in> set (as_recent (analog_poll r s)). as_smoothed (analog_poll r s) = as_smoothed s + (m - as_smoothed s div 16))"
proof -
  define m where "m = (let xs = (as_recent s)[as_slot s := r] in middle_of_three (xs ! 0) (xs ! 1) (xs ! 2))"
  have xs: "length ((as_recent s)[as_slot s := r]) = 3" "\<forall>x \<in> set ((as_recent s)[as_slot s := r]). in_range x"
    using assms set_update_subset_insert [of "as_recent s" "as_slot s" r] by (auto simp: as_inv_def)
  from list_of_three [OF xs(1)] have mem: "m \<in> set ((as_recent s)[as_slot s := r])"
    using middle_mem by (auto simp: m_def Let_def)
  then have "in_range m" using xs(2) by blast
  moreover have run: "analog_poll r s = s\<lparr>as_recent := (as_recent s)[as_slot s := r], as_slot := (if as_slot s + 1 \<ge> 3 then 0 else as_slot s + 1),
      as_smoothed := as_smoothed s + (m - as_smoothed s div 16), as_raw := (as_smoothed s + (m - as_smoothed s div 16)) div 16\<rparr>"
    by (simp add: analog_poll_def m_def Let_def smooth_div)
  ultimately show ?thesis using assms(1) xs mem by (auto simp: as_inv_def in_range_def)
qed

interpretation mp_analog: analog_source analog_poll as_raw as_inv
proof
  show "as_inv s \<Longrightarrow> in_range r \<Longrightarrow> as_inv (analog_poll r s)" for s r using analog_poll_run by blast
  show "as_inv s \<Longrightarrow> in_range (as_raw s)" for s by (auto simp: as_inv_def in_range_def)
qed

interpretation fake_analog: analog_source "\<lambda>reading s. fa_poll now_ms (fa_set_raw reading s)" fa_raw "\<lambda>s. in_range (fa_raw s)"
  by unfold_locales (simp_all add: fa_poll_def fa_set_raw_def)

lemma smoothing_settles: "\<exists>n. ((\<lambda>s. s + (r - s div 16)) ^^ n) s div 16 = (r :: int)"
proof (induction "nat \<bar>s - 16 * r\<bar>" arbitrary: s rule: less_induct)
  case less
  let ?f = "\<lambda>s. s + (r - s div 16)"
  show ?case
  proof (cases "s div 16 = r")
    case True
    then show ?thesis by (intro exI [of _ 0]) simp
  next
    case False
    have "nat \<bar>?f s - 16 * r\<bar> < nat \<bar>s - 16 * r\<bar>" using False by linarith
    from less.hyps [OF this] obtain n where "(?f ^^ n) (?f s) div 16 = r" by blast
    then show ?thesis by (intro exI [of _ "Suc n"]) (simp only: funpow_Suc_right o_apply)
  qed
qed

lemma steady_poll:
  assumes "as_inv s" "as_recent s = [r, r, r]"
  shows "as_recent (analog_poll r s) = [r, r, r] \<and> as_smoothed (analog_poll r s) = as_smoothed s + (r - as_smoothed s div 16)"
    "as_smoothed (analog_poll wild s) = as_smoothed s + (r - as_smoothed s div 16)"
    "as_raw (analog_poll wild s) = (as_smoothed s + (r - as_smoothed s div 16)) div 16"
proof -
  have "as_slot s = 0 \<or> as_slot s = 1 \<or> as_slot s = 2" using assms(1) by (auto simp: as_inv_def)
  then show "as_recent (analog_poll r s) = [r, r, r] \<and> as_smoothed (analog_poll r s) = as_smoothed s + (r - as_smoothed s div 16)"
    "as_smoothed (analog_poll wild s) = as_smoothed s + (r - as_smoothed s div 16)"
    "as_raw (analog_poll wild s) = (as_smoothed s + (r - as_smoothed s div 16)) div 16"
    using assms(2) by (auto simp: analog_poll_def smooth_div middle_same Let_def)
qed

lemma polls_inv: "as_inv s \<Longrightarrow> in_range r \<Longrightarrow> as_inv ((analog_poll r ^^ n) s)"
  using analog_poll_run by (induction n) auto

lemma window_fills:
  assumes "as_inv s"
  shows "as_recent ((analog_poll r ^^ 3) s) = [r, r, r]"
proof -
  have slot: "as_slot s = 0 \<or> as_slot s = 1 \<or> as_slot s = 2" using assms by (auto simp: as_inv_def)
  obtain a b c where "as_recent s = [a, b, c]" using assms list_of_three [of "as_recent s"] unfolding as_inv_def by blast
  moreover have "analog_poll r (analog_poll r (analog_poll r s)) = (analog_poll r ^^ 3) s" by (simp add: numeral_3_eq_3)
  ultimately show ?thesis using slot by (elim disjE) (simp_all add: analog_poll_def Let_def flip: \<open>_ = (analog_poll r ^^ 3) s\<close>)
qed

lemma steady_polls:
  assumes "as_inv s" "in_range r" "as_recent s = [r, r, r]"
  shows "as_recent ((analog_poll r ^^ n) s) = [r, r, r] \<and> as_smoothed ((analog_poll r ^^ n) s) = ((\<lambda>x. x + (r - x div 16)) ^^ n) (as_smoothed s)"
proof (induction n)
  case (Suc n)
  then show ?case using steady_poll(1) [OF polls_inv [OF assms(1,2)], of n] by simp
qed (simp add: assms(3))

lemma settled_stays: "as_inv s \<Longrightarrow> in_range r \<Longrightarrow> as_recent s = [r, r, r] \<Longrightarrow> as_smoothed s div 16 = r \<Longrightarrow>
    as_smoothed ((analog_poll r ^^ n) s) = as_smoothed s"
proof -
  assume s: "as_inv s" "in_range r" "as_recent s = [r, r, r]" "as_smoothed s div 16 = r"
  have "((\<lambda>x. x + (r - x div 16)) ^^ n) (as_smoothed s) = as_smoothed s" using s(4) by (induction n) simp_all
  then show ?thesis using steady_polls [OF s(1-3)] by simp
qed

lemma analog_settled:
  assumes "as_inv s" "in_range r"
  shows "\<exists>n. \<forall>m \<ge> n. as_recent ((analog_poll r ^^ m) s) = [r, r, r] \<and> as_smoothed ((analog_poll r ^^ m) s) div 16 = r"
proof -
  define s1 where "s1 = (analog_poll r ^^ 3) s"
  have s1: "as_inv s1" "as_recent s1 = [r, r, r]" unfolding s1_def by (rule polls_inv [OF assms], rule window_fills [OF assms(1)])
  obtain k where k: "((\<lambda>x. x + (r - x div 16)) ^^ k) (as_smoothed s1) div 16 = r" using smoothing_settles by blast
  define s2 where "s2 = (analog_poll r ^^ k) s1"
  have s2: "as_inv s2" "as_recent s2 = [r, r, r]" "as_smoothed s2 div 16 = r"
    unfolding s2_def using polls_inv [OF s1(1) assms(2), of k] steady_polls [OF s1(1) assms(2) s1(2), of k] k by simp_all
  have "as_recent ((analog_poll r ^^ m) s) = [r, r, r] \<and> as_smoothed ((analog_poll r ^^ m) s) div 16 = r" if m: "k + 3 \<le> m" for m
  proof -
    obtain j where "m = j + (k + 3)" using le_Suc_ex [OF m] by (auto simp: add.commute)
    then have "(analog_poll r ^^ m) s = (analog_poll r ^^ j) s2" by (simp only: s2_def s1_def funpow_add o_apply)
    then show ?thesis using steady_polls [OF s2(1) assms(2) s2(2), of j] settled_stays [OF s2(1) assms(2) s2(2,3), of j] s2(3) by metis
  qed
  then show ?thesis by blast
qed

lemma analog_reachable: "in_range r0 \<Longrightarrow> \<forall>x \<in> set readings. in_range x \<Longrightarrow> as_inv (fold analog_poll readings (MpAnalogSource_init r0))"
proof -
  have "as_inv s \<Longrightarrow> \<forall>x \<in> set readings. in_range x \<Longrightarrow> as_inv (fold analog_poll readings s)" for s
    using analog_poll_run by (induction readings arbitrary: s) auto
  then show "in_range r0 \<Longrightarrow> \<forall>x \<in> set readings. in_range x \<Longrightarrow> ?thesis" using analog_init_inv by blast
qed

section \<open>Properties\<close>

text \<open>
  C20. An encoder's position is what it reported. For bounds that are not inverted, any sequence of ticks returns without an
  error; the position is the starting position plus the changes \<open>on_change\<close> was called with,
  carried around the range when it wraps, and stays inside the bounds; without a bound to stop at, the
  reported changes add up to what the shaft turned, so no detent is lost between ticks.
\<close>

theorem encoder_reports_turns:
  assumes "Encoder_init detent_steps bounds wrap r0 = Inr s" "\<forall>low high. bounds = Some (low, high) \<longrightarrow> low \<le> high"
  shows "\<exists>ds s1. encoder_ticks rs s = (Inr ds, s1)
    \<and> (case bounds of
         None \<Rightarrow> en_position s1 = en_position s + sum_list ds \<and> sum_list ds = last (r0 # rs) - r0
       | Some (low, high) \<Rightarrow> low \<le> en_position s1 \<and> en_position s1 \<le> high
           \<and> (if wrap then en_position s1 = low + (en_position s - low + sum_list ds) mod (high - low + 1) \<and> sum_list ds = last (r0 # rs) - r0
              else en_position s1 = en_position s + sum_list ds))"
proof -
  note i = encoder_init_run [OF assms]
  obtain ds s1 where r: "encoder_ticks rs s = (Inr ds, s1)" "en_inv s1" "en_follows s (sum_list ds) s1"
      "en_last_raw_position s1 = last (r0 # rs)"
    using encoder_ticks_run [of s rs] i by auto
  show ?thesis using r i by (intro exI [of _ ds] exI [of _ s1]) (auto simp: en_follows_def en_inv_def split: option.split)
qed

text \<open>
  C19. The quadrature interrupt tracks the shaft. However the shaft turns and bounces, as long as it moves at most one
  quarter of a cycle between two interrupts and a detent has less than \<open>2 ^ 31\<close> steps, the turn is a number of detents plus
  the steps banked, which are less than a detent either way, and the counter holds that number wrapped to its 32 bits.
  While the turn is under \<open>2 ^ 31 - 1\<close> detents the count is exact, so it is less than one
  detent off the shaft and no drift builds up.
\<close>

theorem quadrature_tracks_shaft:
  assumes "1 \<le> detent_steps" "detent_steps < 2 ^ 31" "small_steps angle angles"
  shows "let s = turn_shaft angles (MpEncoderSource_init (fst (shaft_pins angle)) (snd (shaft_pins angle)) detent_steps);
      turn = last (angle # angles) - angle in
    (\<exists>n. turn = detent_steps * n + qs_sub_count s \<and> \<bar>qs_sub_count s\<bar> < detent_steps \<and> qs_position s = store_long n)
    \<and> (\<bar>turn\<bar> < detent_steps * (2 ^ 31 - 1) \<longrightarrow> turn = detent_steps * qs_position s + qs_sub_count s
         \<and> \<bar>turn - detent_steps * qs_raw_position (encoder_poll s)\<bar> < detent_steps)"
proof -
  let ?s = "MpEncoderSource_init (fst (shaft_pins angle)) (snd (shaft_pins angle)) detent_steps"
  have "store_long 0 = 0" by (simp add: store_long_def)
  then have "qs_inv angle angle ?s" using assms(1,2) by (simp add: qs_inv_def MpEncoderSource_init_def shaft_state_def)
  from turn_shaft_inv [OF this assms(3)] obtain n where
    n: "detent_steps * n + qs_sub_count (turn_shaft angles ?s) = last (angle # angles) - angle"
    "qs_position (turn_shaft angles ?s) = store_long n" "\<bar>qs_sub_count (turn_shaft angles ?s)\<bar> < detent_steps"
    by (auto simp: qs_inv_def MpEncoderSource_init_def)
  have "store_long n = n" if t: "\<bar>last (angle # angles) - angle\<bar> < detent_steps * (2 ^ 31 - 1)"
  proof (rule store_long_id)
    have "\<bar>detent_steps * n\<bar> < detent_steps * (2 ^ 31 - 1) + detent_steps" using t n(1,3) by linarith
    then have "detent_steps * \<bar>n\<bar> < detent_steps * 2 ^ 31" using assms(1) by (simp add: abs_mult algebra_simps)
    then have "\<bar>n\<bar> < 2 ^ 31" using assms(1) by (simp add: mult_less_cancel_left_pos)
    then show "- (2 ^ 31) \<le> n" "n < 2 ^ 31" by auto
  qed
  then show ?thesis using n unfolding Let_def by (intro conjI impI exI [of _ n]) (simp_all add: encoder_poll_def)
qed

text \<open>
  C35. A knob follows its converter. On the MicroPython source, whatever the converter reads, after a tick the value is a
  step number, the settled reading it is worked out from is within the deadband of the
  filtered reading, and with a deadband under one step both ends of the sweep are reached.
\<close>

theorem knob_follows_converter:
  assumes "in_range r0" "\<forall>r \<in> set readings. in_range r" "readings \<noteq> []" "1 \<le> steps" "0 \<le> deadband"
    and run: "knob_ticks analog_poll as_raw readings (MpAnalogSource_init r0, AnalogKnob_init steps deadband) = (s, k)"
  shows "0 \<le> ak_value k \<and> ak_value k < steps \<and> ak_value k = ak_raw k * steps div RAW_RANGE \<and> \<bar>as_raw s - ak_raw k\<bar> \<le> deadband
    \<and> (deadband < RAW_RANGE div steps \<longrightarrow> (as_raw s = 0 \<longrightarrow> ak_value k = 0) \<and> (as_raw s = RAW_RANGE - 1 \<longrightarrow> ak_value k = steps - 1))"
proof -
  have "knob_inv (AnalogKnob_init steps deadband)" using assms(4,5) by (simp add: knob_inv_def AnalogKnob_init_def in_range_def RAW_RANGE_def)
  with mp_analog.ticks_fit [of "(MpAnalogSource_init r0, AnalogKnob_init steps deadband)" readings] analog_init_inv [OF assms(1)] assms(2,3) run
  have k: "knob_inv k" "ak_steps k = steps" "\<bar>as_raw s - ak_raw k\<bar> \<le> deadband" by (auto simp: AnalogKnob_init_def)
  have r: "in_range (ak_raw k)" "ak_value k = ak_raw k * steps div RAW_RANGE" using k(1,2) by (simp_all add: knob_inv_def)
  show ?thesis using step_bounds [OF r(1) assms(4)] end_steps [OF r(1) assms(4), of deadband] k(3) unfolding r(2) by auto
qed

text \<open>
  C36. The filter of the converter settles and drops a lone outlier. From any state readings have left, a
  converter that keeps reading the same number makes the source hold exactly that number after finitely many polls and from
  then on, and one wild reading in between leaves it there.
\<close>

theorem analog_filter_settles:
  assumes "in_range r0" "\<forall>x \<in> set readings. in_range x" "in_range r"
  shows "\<exists>n. \<forall>m \<ge> n. let s = (analog_poll r ^^ m) (fold analog_poll readings (MpAnalogSource_init r0)) in
    as_raw s = r \<and> (\<forall>wild. as_raw (analog_poll wild s) = r)"
proof -
  let ?s = "fold analog_poll readings (MpAnalogSource_init r0)"
  note i = analog_reachable [OF assms(1,2)]
  obtain n where n: "\<forall>m \<ge> n. as_recent ((analog_poll r ^^ m) ?s) = [r, r, r] \<and> as_smoothed ((analog_poll r ^^ m) ?s) div 16 = r"
    using analog_settled [OF i assms(3)] by blast
  have "as_raw ((analog_poll r ^^ m) ?s) = r \<and> (\<forall>wild. as_raw (analog_poll wild ((analog_poll r ^^ m) ?s)) = r)" if "m \<ge> n" for m
    using n that polls_inv [OF i assms(3), of m] steady_poll(3) [of "(analog_poll r ^^ m) ?s" r] by (auto simp: as_inv_def)
  then show ?thesis by (auto simp: Let_def)
qed

text \<open>
  A wrapping encoder that turns by its whole range between two ticks reports a move although the position is the same, and
  inverted bounds whose span is zero raise at the first turn.
\<close>

lemma wrap_full_turn:
  "(case Encoder_init 4 (Some (0, 9)) True 0 of Inr s \<Rightarrow> (case encoder_check 10 s of (r, s1) \<Rightarrow>
      r = Inr True \<and> en_just_moved s1 \<and> en_position s1 = en_position s) | Inl _ \<Rightarrow> False)
   \<and> (case Encoder_init 4 (Some (1, 0)) True 0 of Inr s \<Rightarrow> fst (encoder_check 1 s) = Inl ZeroDivisionError | Inl _ \<Rightarrow> False)"
  by code_simp

text \<open>Witnesses: a wrapping encoder, a shaft that bounces, and a knob turned to its end.\<close>

theorem encoder_reports_turns_witness:
  "\<exists>s ds s1. Encoder_init 4 (Some (0, 9)) True 5 = Inr s \<and> encoder_ticks [8, 8, 3] s = (Inr ds, s1) \<and> sum_list ds = -2 \<and> en_position s1 = 8"
proof -
  obtain s where s: "Encoder_init 4 (Some (0, 9)) True 5 = Inr s" "en_position s = 0" by (simp add: Encoder_init_def Let_def)
  from encoder_reports_turns [OF s(1), of "[8, 8, 3]"] s show ?thesis by auto
qed

theorem quadrature_tracks_shaft_witness:
  "small_steps 0 [1, 0, 1, 2, 3, 4, 5]
   \<and> (let s = turn_shaft [1, 0, 1, 2, 3, 4, 5] (MpEncoderSource_init (fst (shaft_pins 0)) (snd (shaft_pins 0)) 4) in
        5 = 4 * qs_position s + qs_sub_count s)"
  using quadrature_tracks_shaft [of 4 0 "[1, 0, 1, 2, 3, 4, 5]"] by (simp add: Let_def)

theorem knob_follows_converter_witness:
  "\<exists>s k. knob_ticks analog_poll as_raw [65535] (MpAnalogSource_init 65535, AnalogKnob_init 100 512) = (s, k) \<and> as_raw s = 65535 \<and> ak_value k = 99"
proof -
  obtain s k where r: "knob_ticks analog_poll as_raw [65535] (MpAnalogSource_init 65535, AnalogKnob_init 100 512) = (s, k)" by fastforce
  then have "as_raw s = 65535"
    by (auto simp: knob_ticks_def knob_tick_def analog_poll_def MpAnalogSource_init_def smooth_div middle_same Let_def)
  with knob_follows_converter [OF _ _ _ _ _ r] r show ?thesis by (simp add: in_range_def RAW_RANGE_def)
qed

theorem analog_filter_settles_witness:
  "\<exists>n. \<forall>m \<ge> n. let s = (analog_poll 300 ^^ m) (fold analog_poll [60000, 7] (MpAnalogSource_init 0)) in
    as_raw s = 300 \<and> (\<forall>wild. as_raw (analog_poll wild s) = 300)"
  by (rule analog_filter_settles) (simp_all add: in_range_def RAW_RANGE_def)

end
