(* ===== verification/Spec2Isabelle.thy ===== *)
theory Spec2Isabelle
  imports Timing Msgpack Mqtt_Client_Props Mqtt_Stream Runner_Poll Ws_Handshake_Props Ws_Delivery Kvstore Buttons Knobs
begin

text \<open>
  ChuMicro is a set of small Python libraries for microcontrollers, under
  \<^verbatim>\<open>src/libraries/<name>/src/chumicro_<name>/\<close>. Everything runs on one cooperative loop: a
  \<^verbatim>\<open>Runner\<close> asks each registered service whether it has work (\<^verbatim>\<open>check\<close>), calls its
  \<^verbatim>\<open>handle\<close> and then idles until the nearest deadline or until a socket of a service is ready.
  The MQTT client, the WebSocket sessions, buttons and knobs are such services. The first two own a
  non-blocking socket, a bounded transmit queue and an incremental parser; all take time from
  wrapping millisecond ticks.

  \<^bold>\<open>Theories\<close>

  \<^item> \<open>Chu_Prelude\<close>: bytes, big-endian integers, slices, UTF-8, the exception type and the
    result type shared by all models. \<open>Chu_Text\<close>: the Python string operations the HTTP parts
    use, Base64 and SHA-1. \<open>Chu_Program\<close>: state-and-exception programs, triples, invariants,
    bounded deques and insertion-ordered dicts.
  \<^item> \<open>Timing\<close> models \<^verbatim>\<open>timing/ticks.py\<close>, \<^verbatim>\<open>deadline.py\<close> and \<^verbatim>\<open>waits.py\<close>; its lemmas relate
    wrapped ticks to true time.
  \<^item> \<open>Msgpack\<close> models \<^verbatim>\<open>msgpack/_pure.py\<close>: encoder and decoder, their round trips and the
    exceptions arbitrary bytes can raise.
  \<^item> \<open>Mqtt_Codec\<close> and \<open>Mqtt_Decoder\<close> model \<^verbatim>\<open>mqtt/_wire.py\<close>: packet encoders, topic
    matching, and the incremental decoder, shown to refine the parse of the whole stream.
  \<^item> \<open>Mqtt_Client\<close> models every method of \<^verbatim>\<open>MQTTClient\<close> in \<^verbatim>\<open>mqtt/client.py\<close> as a program over a
    record of the object's fields; \<open>Mqtt_Client_Inv\<close> proves the invariant of reachable clients,
    re-entrant callbacks included, \<open>Mqtt_Client_Props\<close> the behaviour of single operations, and
    \<open>Mqtt_Stream\<close> that queued bytes reach the socket in order.
  \<^item> \<open>Runner\<close> and \<open>Runner_Poll\<close> model \<^verbatim>\<open>runner/core.py\<close> and the \<^verbatim>\<open>FakePoller\<close> of
    \<^verbatim>\<open>runner/testing.py\<close>: scheduling, fault containment, the poll set and the time a wait idles.
  \<^item> \<open>Fake_Socket\<close> models the \<^verbatim>\<open>FakeSocket\<close> of \<^verbatim>\<open>sockets/testing.py\<close>, which meets the stream
    socket contract the clients rely on.
  \<^item> \<open>Ws_Frame\<close>, \<open>Ws_Handshake\<close> and \<open>Ws_Handshake_Props\<close> model \<^verbatim>\<open>websockets/_wire.py\<close>: frame
    encoder and streaming frame parser, close payloads, URLs, keys, handshake encoders and parsers.
  \<^item> \<open>Ws_Session\<close> models \<^verbatim>\<open>websockets/_session.py\<close>, \<^verbatim>\<open>client.py\<close> and the \<^verbatim>\<open>Connection\<close> of
    \<^verbatim>\<open>server.py\<close> as programs over one record of the session's fields; \<open>Ws_Session_Inv\<close> and
    \<open>Ws_Session_Props\<close> hold the invariant of reachable sessions and the end of the close handshake,
    \<open>Ws_Messages\<close> that the cut of the input into reads does not matter, and \<open>Ws_Delivery\<close> that the
    callbacks see exactly the peer's messages.
  \<^item> \<open>Kvstore\<close> models \<^verbatim>\<open>kvstore/core.py\<close> and the four backends of \<^verbatim>\<open>kvstore/_backends\<close>, with the
    file system and the NVS module as parameters: what a commit stores is what a new store loads.
  \<^item> \<open>Button_Source\<close> models the interrupt-driven \<^verbatim>\<open>MpButtonSource\<close> of \<^verbatim>\<open>buttons/_adapters/mp.py\<close>:
    the capture ring is a queue and a drain publishes the debounced signal. \<open>Buttons\<close> models
    \<^verbatim>\<open>buttons/core.py\<close> on any source: long presses, repeats, clicks and the deadlines they are due at.
  \<^item> \<open>Knobs\<close> models \<^verbatim>\<open>knobs/encoder.py\<close>, \<^verbatim>\<open>analog.py\<close> and their MicroPython sources: positions
    within bounds, quadrature decoding, deadband and filter.

  \<^bold>\<open>Conventions.\<close> An object is a record whose fields carry the Python attribute names with a
  prefix. A method that can raise returns the exception beside the state it leaves. Code outside the
  repository (socket modules, the clock, user callbacks, \<^verbatim>\<open>os.urandom\<close>) is a record of functions
  over an abstract world that the definitions take as an argument; callbacks may call back into the
  object. Exception texts are kept without the interpolated values.

  \<^bold>\<open>Interfaces\<close> are locales: the tick source (\<open>tick_source\<close>), the poller, the stream socket
  (\<open>stream_socket\<close>), the wire below the MQTT client (\<open>mqtt_wire\<close>), the observer of a session's
  callbacks (\<open>ws_observer\<close>), storage for a key-value store (\<open>kv_storage\<close>, which \<open>filesystem\<close> and
  \<open>nvs_module\<close> give), sources of key edges (\<open>draining_source\<close>) and of analog readings
  (\<open>analog_source\<close>), each interpreted on the model's own definitions.

  \<^bold>\<open>Fuel.\<close> Loops of the code are structural recursions or functions with a termination proof. Loops
  whose end depends on callbacks or on the socket take fuel, and running out is an exception that no
  code of the repository raises; session loops take as much fuel as they have bytes or budget, and the
  loop over a capture ring as much as the ring has slots. The loop that drains a source of edges is
  partial, and proved to return on the sources of the repository.

  \<^bold>\<open>Not modelled.\<close> The accept loop \<^verbatim>\<open>WebSocketServer\<close> and the \<^verbatim>\<open>from_config\<close> constructors;
  generators of the runner; the HTTP server and client, NTP, Wi-Fi and configuration libraries; the
  key matrix and the CircuitPython sources of buttons and knobs, which read firmware scanners. The
  host tools (\<^verbatim>\<open>src/workbench\<close>, \<^verbatim>\<open>src/scripts\<close>), demos and the device test harness are input and
  output throughout. Adapters for platform sockets and radios only wrap modules outside the
  repository.
\<close>

end
